(* ===== verification/Prelude.thy ===== *)
theory Prelude
  imports Complex_Main "HOL-Library.Multiset"
begin

text \<open>
  Shared material of the development: Python dictionaries that keep insertion
  order, SQLite tables as lists of rows, Python's rounding and clamping, and the
  collections of facts the component theories feed to the simplifier.
\<close>

named_theorems table_simps \<open>facts about table operations\<close>
named_theorems dict_simps \<open>facts about insertion-ordered dictionaries\<close>
named_theorems wf_intros \<open>preservation facts of component invariants\<close>

section \<open>Types shared by the components\<close>

text \<open>
  A \<open>datetime\<close> is its number of microseconds (exactly what the Python class
  stores); a monotonic clock reading is a real number of seconds.
\<close>

type_synonym instant = int
type_synonym seconds = real

abbreviation microseconds_per_second :: int where
  "microseconds_per_second \<equiv> 1000000"

section \<open>Dictionaries with insertion order\<close>

text \<open>
  A Python \<open>dict\<close> keeps its keys in insertion order; assigning to a key that is
  present keeps the key's place.
\<close>

type_synonym ('k, 'v) dict = "('k \<times> 'v) list"

fun dict_set :: "'k \<Rightarrow> 'v \<Rightarrow> ('k, 'v) dict \<Rightarrow> ('k, 'v) dict" where
  "dict_set k v [] = [(k, v)]"
| "dict_set k v ((k', v') # d) = (if k' = k then (k, v) # d else (k', v') # dict_set k v d)"

definition dict_del :: "'k \<Rightarrow> ('k, 'v) dict \<Rightarrow> ('k, 'v) dict" where
  "dict_del k d = filter (\<lambda>p. fst p \<noteq> k) d"

abbreviation dict_get :: "('k, 'v) dict \<Rightarrow> 'k \<Rightarrow> 'v option" where
  "dict_get \<equiv> map_of"

abbreviation dict_keys :: "('k, 'v) dict \<Rightarrow> 'k list" where
  "dict_keys d \<equiv> map fst d"

definition dict_wf :: "('k, 'v) dict \<Rightarrow> bool" where
  "dict_wf d \<longleftrightarrow> distinct (dict_keys d)"

lemma dict_get_set [dict_simps]: "dict_get (dict_set k v d) = (dict_get d)(k \<mapsto> v)"
  by (induction d) (auto simp: fun_eq_iff)

lemma dict_keys_set [dict_simps]:
  "dict_keys (dict_set k v d) = (if k \<in> set (dict_keys d) then dict_keys d else dict_keys d @ [k])"
  by (induction d) force+

lemma dict_wf_empty [simp]: "dict_wf []"
  by (simp add: dict_wf_def)

lemma dict_wf_set [wf_intros]: "dict_wf d \<Longrightarrow> dict_wf (dict_set k v d)"
  by (simp add: dict_wf_def dict_keys_set)

lemma dict_wf_del [wf_intros]: "dict_wf d \<Longrightarrow> dict_wf (dict_del k d)"
  by (auto simp: dict_wf_def dict_del_def intro: distinct_map_filter)

lemma dict_get_del [dict_simps]: "dict_get (dict_del k d) = (dict_get d)(k := None)"
  by (induction d) (auto simp: dict_del_def fun_eq_iff)

section \<open>SQLite tables\<close>

text \<open>
  A table is the list of its rows in primary-key order. The statements of the
  sources are \<open>SELECT\<close>, \<open>UPDATE\<close> and \<open>DELETE\<close> with a \<open>WHERE\<close> predicate; the row
  count a cursor reports is the number of rows the predicate matches.
\<close>

definition update_where :: "('r \<Rightarrow> bool) \<Rightarrow> ('r \<Rightarrow> 'r) \<Rightarrow> 'r list \<Rightarrow> 'r list" where
  "update_where p f rows = map (\<lambda>r. if p r then f r else r) rows"

definition delete_where :: "('r \<Rightarrow> bool) \<Rightarrow> 'r list \<Rightarrow> 'r list" where
  "delete_where p rows = filter (\<lambda>r. \<not> p r) rows"

definition row_count :: "('r \<Rightarrow> bool) \<Rightarrow> 'r list \<Rightarrow> nat" where
  "row_count p rows = length (filter p rows)"

lemma length_update_where [table_simps, simp]: "length (update_where p f rows) = length rows"
  by (simp add: update_where_def)

lemma update_where_Nil [simp]: "update_where p f [] = []"
  by (simp add: update_where_def)

lemma update_where_Cons [table_simps]:
  "update_where p f (r # rows) = (if p r then f r else r) # update_where p f rows"
  by (simp add: update_where_def)

lemma set_update_where [table_simps]:
  "set (update_where p f rows) = (\<lambda>r. if p r then f r else r) ` set rows"
  by (simp add: update_where_def)

lemma map_update_where_frame [table_simps]:
  "(\<And>r. g (f r) = g r) \<Longrightarrow> map g (update_where p f rows) = map g rows"
  by (induction rows) (auto simp: update_where_def)

lemma update_where_none:
  "\<forall>r\<in>set rows. \<not> p r \<Longrightarrow> update_where p f rows = rows"
  by (induction rows) (auto simp: update_where_def)

lemma set_delete_where [table_simps]: "set (delete_where p rows) = {r \<in> set rows. \<not> p r}"
  by (auto simp: delete_where_def)

lemma length_delete_where [table_simps]:
  "length (delete_where p rows) + row_count p rows = length rows"
  using sum_length_filter_compl [of p rows] by (simp add: delete_where_def row_count_def)

lemma distinct_delete_where [table_simps]:
  "distinct (map g rows) \<Longrightarrow> distinct (map g (delete_where p rows))"
  by (simp add: delete_where_def distinct_map_filter)

lemma row_count_distinct_key:
  assumes "distinct (map k rows)"
  shows "row_count (\<lambda>r. k r = x \<and> p r) rows \<le> 1"
  using assms
proof (induction rows)
  case (Cons r rows)
  have "row_count (\<lambda>r. k r = x \<and> p r) rows = 0" if "k r = x"
    using Cons.prems that by (auto simp: row_count_def filter_empty_conv image_iff)
  then show ?case using Cons by (auto simp: row_count_def)
qed (simp add: row_count_def)

section \<open>Numbers\<close>

text \<open>Python's \<open>round\<close>: to the nearest integer, ties to the even one.\<close>

definition py_round :: "real \<Rightarrow> int" where
  "py_round x =
     (let f = \<lfloor>x\<rfloor>; d = x - of_int f
      in if d < 1 / 2 then f else if 1 / 2 < d then f + 1 else if even f then f else f + 1)"

lemma py_round_error: "\<bar>of_int (py_round x) - x\<bar> \<le> 1 / 2"
proof -
  define f where "f = \<lfloor>x\<rfloor>"
  have "real_of_int f \<le> x" "x \<le> real_of_int f + 1" unfolding f_def by linarith+
  then show ?thesis unfolding py_round_def Let_def f_def [symmetric] abs_if by simp
qed

lemma py_round_of_int [simp]: "py_round (of_int k) = k"
  by (simp add: py_round_def)

lemma py_round_mono: "x \<le> y \<Longrightarrow> py_round x \<le> py_round y"
proof -
  assume xy: "x \<le> y"
  then have fl: "\<lfloor>x\<rfloor> \<le> \<lfloor>y\<rfloor>" by (rule floor_mono)
  show ?thesis
  proof (cases "\<lfloor>x\<rfloor> = \<lfloor>y\<rfloor>")
    case True
    with xy show ?thesis by (auto simp: py_round_def Let_def)
  next
    case False
    with fl have "\<lfloor>x\<rfloor> + 1 \<le> \<lfloor>y\<rfloor>" by simp
    then show ?thesis by (auto simp: py_round_def Let_def)
  qed
qed

lemma py_round_bounds:
  assumes "of_int lo \<le> x" "x \<le> of_int hi"
  shows "lo \<le> py_round x \<and> py_round x \<le> hi"
  using py_round_mono [OF assms(1)] py_round_mono [OF assms(2)] by simp

definition clamp :: "'a::linorder \<Rightarrow> 'a \<Rightarrow> 'a \<Rightarrow> 'a" where
  "clamp lo hi x = max lo (min hi x)"

lemma clamp_bounds: "lo \<le> hi \<Longrightarrow> lo \<le> clamp lo hi x \<and> clamp lo hi x \<le> hi"
  by (auto simp: clamp_def)

lemma clamp_id: "lo \<le> x \<Longrightarrow> x \<le> hi \<Longrightarrow> clamp lo hi x = x"
  by (simp add: clamp_def max_def min_def)

section \<open>Calls to a server\<close>

text \<open>
  A command is carried out and answered, carried out without the answer arriving, or not carried out; the client
  raises an exception in the last two cases.
\<close>

datatype call_outcome = Answered | Answer_Lost | Unreached

section \<open>Loops that only improve a value\<close>

lemma fold_grows:
  fixes s :: "'s::order"
  assumes "\<And>x s. s \<le> f x s"
  shows "s \<le> fold f xs s"
proof (induction xs arbitrary: s)
  case (Cons x xs)
  have "s \<le> f x s" by (rule assms)
  also have "\<dots> \<le> fold f xs (f x s)" by (rule Cons.IH)
  finally show ?case by simp
qed simp

lemma fold_reaches:
  fixes s :: "'s::order"
  assumes "\<And>x s. s \<le> f x s" "x \<in> set xs" "\<And>s'. s \<le> s' \<Longrightarrow> P (f x s')"
    and "\<And>s s'. P s \<Longrightarrow> s \<le> s' \<Longrightarrow> P s'"
  shows "P (fold f xs s)"
proof -
  from assms(2) obtain ys zs where xs: "xs = ys @ x # zs" by (meson split_list)
  have "s \<le> fold f ys s" by (rule fold_grows) (rule assms(1))
  then have "P (f x (fold f ys s))" by (rule assms(3))
  then have "P (fold f zs (f x (fold f ys s)))"
    by (rule assms(4)) (rule fold_grows, rule assms(1))
  then show ?thesis by (simp add: xs)
qed

lemma fold_keeps:
  assumes "P s" "\<And>x s. x \<in> set xs \<Longrightarrow> P s \<Longrightarrow> P (f x s)"
  shows "P (fold f xs s)"
  using assms by (induction xs arbitrary: s) auto

section \<open>Insertion under a unique key\<close>

text \<open>
  \<open>INSERT OR IGNORE\<close> into a table with a unique column: the contract the queues and the
  deduplication stores rely on. \<open>ins a\<close> inserts the row built from the request \<open>a\<close>.
\<close>

locale unique_insert =
  fixes key :: "'row \<Rightarrow> 'k" and akey :: "'a \<Rightarrow> 'k" and ins :: "'a \<Rightarrow> 'row list \<Rightarrow> 'row list"
  assumes ins_old: "akey a \<in> key ` set rows \<Longrightarrow> ins a rows = rows"
    and ins_new: "akey a \<notin> key ` set rows \<Longrightarrow> \<exists>r. key r = akey a \<and> ins a rows = rows @ [r]"
begin

lemma keys_ins: "map key (ins a rows) = (if akey a \<in> key ` set rows then map key rows else map key rows @ [akey a])"
  using ins_old [of a rows] ins_new [of a rows] by auto

lemma distinct_ins: "distinct (map key rows) \<Longrightarrow> distinct (map key (ins a rows))"
  by (simp add: keys_ins)

lemma present_after: "akey a \<in> key ` set (ins a rows)"
  using arg_cong [OF keys_ins [of a rows], of set] by (auto split: if_splits)

lemma ins_again: "akey b = akey a \<Longrightarrow> ins b (ins a rows) = ins a rows"
  using ins_old [of b "ins a rows"] present_after [of a rows] by simp

lemma distinct_replay: "distinct (map key rows) \<Longrightarrow> distinct (map key (fold ins as rows))"
  by (induction as arbitrary: rows) (simp_all add: distinct_ins)

lemma kept_by_ins: "r \<in> set rows \<Longrightarrow> r \<in> set (ins a rows)"
  using ins_old [of a rows] ins_new [of a rows] by (cases "akey a \<in> key ` set rows") auto

lemma kept_by_replay: "r \<in> set rows \<Longrightarrow> r \<in> set (fold ins as rows)"
  by (induction as arbitrary: rows) (simp_all add: kept_by_ins)

lemma replay_absorbs: "akey ` set as \<subseteq> key ` set rows \<Longrightarrow> fold ins as rows = rows"
  by (induction as) (simp_all add: ins_old)

end

section \<open>Components as step functions\<close>

text \<open>
  A component run by a sequence of admissible operations, with an invariant each of them keeps; and
  one whose table has final rows that no operation touches. \<open>fold step as s\<close> is the state
  after the operations \<open>as\<close>.
\<close>

locale invariant_run =
  fixes ok :: "'a \<Rightarrow> bool" and step :: "'a \<Rightarrow> 's \<Rightarrow> 's" and inv :: "'s \<Rightarrow> bool"
  assumes inv_step: "ok a \<Longrightarrow> inv s \<Longrightarrow> inv (step a s)"
begin

lemma inv_run: "\<forall>a\<in>set as. ok a \<Longrightarrow> inv s \<Longrightarrow> inv (fold step as s)"
  by (rule fold_keeps) (simp_all add: inv_step)

end

locale settling_run = invariant_run ok step inv
  for ok :: "'a \<Rightarrow> bool" and step :: "'a \<Rightarrow> 's \<Rightarrow> 's" and inv :: "'s \<Rightarrow> bool" +
  fixes rows :: "'s \<Rightarrow> 'row set" and final :: "'row \<Rightarrow> bool"
  assumes final_step: "ok a \<Longrightarrow> inv s \<Longrightarrow> r \<in> rows s \<Longrightarrow> final r \<Longrightarrow> r \<in> rows (step a s)"
begin

lemma final_run: "\<forall>a\<in>set as. ok a \<Longrightarrow> inv s \<Longrightarrow> r \<in> rows s \<Longrightarrow> final r \<Longrightarrow> r \<in> rows (fold step as s)"
  by (induction as arbitrary: s) (simp_all add: inv_step final_step)

end

end
