(* ===== verification/Circuit_Breaker.thy ===== *)
theory Circuit_Breaker
  imports Prelude
begin

text \<open>
  The two circuit breakers of the system: \<open>packages/core/utils/circuit_breaker.py\<close>
  (the breaker in front of Horizon and the feature store) and
  \<open>data/pipelines/utils/circuit_breaker.py\<close> (the breaker of the data pipelines).
  Every method that takes the lock is one atomic operation on the breaker's record;
  the clock reading it makes is an argument. A protected function is a state
  transformer on the outside world, so that \<open>not called\<close> means \<open>world unchanged\<close>.
  The locale \<open>fast_failing\<close> is the contract both give their callers.
\<close>

section \<open>Shared vocabulary\<close>

datatype circuit_state = CLOSED | OPEN | HALF_OPEN

datatype 'e call_error = CircuitOpenError string | Raised 'e

type_synonym ('w, 'e, 'a) func = "'w \<Rightarrow> ('e + 'a) \<times> 'w"

section \<open>The core breaker\<close>

datatype callback = OnOpen | OnClose

record core_breaker =
  cb_name :: string
  cb_failure_threshold :: int
  cb_recovery_timeout :: seconds
  cb_has_on_open :: bool
  cb_has_on_close :: bool
  cb_state :: circuit_state
  cb_failure_count :: int
  cb_opened_at :: "seconds option"
  cb_fired :: "callback list"

definition new_core_breaker :: "string \<Rightarrow> int \<Rightarrow> seconds \<Rightarrow> bool \<Rightarrow> bool \<Rightarrow> core_breaker" where
  "new_core_breaker name threshold timeout on_open on_close =
     \<lparr>cb_name = name, cb_failure_threshold = threshold, cb_recovery_timeout = timeout,
      cb_has_on_open = on_open, cb_has_on_close = on_close, cb_state = CLOSED,
      cb_failure_count = 0, cb_opened_at = None, cb_fired = []\<rparr>"

definition maybe_transition_to_half_open :: "seconds \<Rightarrow> core_breaker \<Rightarrow> core_breaker" where
  "maybe_transition_to_half_open now b =
     (case cb_opened_at b of
        None \<Rightarrow> b
      | Some t \<Rightarrow>
          if cb_state b = OPEN \<and> cb_recovery_timeout b \<le> now - t
          then b\<lparr>cb_state := HALF_OPEN\<rparr> else b)"

definition core_state :: "seconds \<Rightarrow> core_breaker \<Rightarrow> circuit_state \<times> core_breaker" where
  "core_state now b = (let b' = maybe_transition_to_half_open now b in (cb_state b', b'))"

definition allow_request :: "seconds \<Rightarrow> core_breaker \<Rightarrow> bool \<times> core_breaker" where
  "allow_request now b =
     (let b' = maybe_transition_to_half_open now b in (cb_state b' \<noteq> OPEN, b'))"

definition open_circuit :: "seconds \<Rightarrow> core_breaker \<Rightarrow> core_breaker" where
  "open_circuit now b =
     (let was_open = (cb_state b = OPEN);
          b' = b\<lparr>cb_state := OPEN, cb_opened_at := Some now\<rparr>
      in if \<not> was_open \<and> cb_has_on_open b then b'\<lparr>cb_fired := cb_fired b' @ [OnOpen]\<rparr> else b')"

definition close_circuit :: "core_breaker \<Rightarrow> core_breaker" where
  "close_circuit b =
     (let b' = b\<lparr>cb_state := CLOSED, cb_opened_at := None, cb_failure_count := 0\<rparr>
      in if cb_has_on_close b then b'\<lparr>cb_fired := cb_fired b' @ [OnClose]\<rparr> else b')"

definition record_success :: "core_breaker \<Rightarrow> core_breaker" where
  "record_success b =
     (let b' = b\<lparr>cb_failure_count := 0\<rparr>
      in if cb_state b' \<noteq> CLOSED then close_circuit b' else b')"

definition record_failure :: "seconds \<Rightarrow> core_breaker \<Rightarrow> core_breaker" where
  "record_failure now b =
     (let b' = b\<lparr>cb_failure_count := cb_failure_count b + 1\<rparr>
      in if cb_state b' = HALF_OPEN then open_circuit now b'
         else if cb_failure_threshold b' \<le> cb_failure_count b' then open_circuit now b'
         else b')"

definition core_call ::
  "seconds \<Rightarrow> seconds \<Rightarrow> ('w, 'e, 'a) func \<Rightarrow> core_breaker \<Rightarrow> 'w
     \<Rightarrow> ('e call_error + 'a) \<times> core_breaker \<times> 'w" where
  "core_call now later func b w =
     (let (allowed, b') = allow_request now b
      in if \<not> allowed then (Inl (CircuitOpenError (cb_name b')), b', w)
         else (case func w of
                 (Inl e, w') \<Rightarrow> (Inl (Raised e), record_failure later b', w')
               | (Inr r, w') \<Rightarrow> (Inr r, record_success b', w')))"

section \<open>The pipelines' breaker\<close>

record pipe_breaker =
  pb_name :: string
  pb_failure_threshold :: int
  pb_timeout_seconds :: seconds
  pb_success_threshold :: int
  pb_state :: circuit_state
  pb_failures :: int
  pb_successes :: int
  pb_opened_at :: "seconds option"
  pb_gauge :: "nat option"

definition new_pipe_breaker :: "string \<Rightarrow> int \<Rightarrow> seconds \<Rightarrow> int \<Rightarrow> pipe_breaker" where
  "new_pipe_breaker name fthr timeout sthr =
     \<lparr>pb_name = name, pb_failure_threshold = fthr, pb_timeout_seconds = timeout,
      pb_success_threshold = sthr, pb_state = CLOSED, pb_failures = 0, pb_successes = 0,
      pb_opened_at = None, pb_gauge = None\<rparr>"

text \<open>The component's entry of the process-wide gauge dictionary \<open>_OPEN_GAUGES\<close>.\<close>

definition set_gauge :: "nat \<Rightarrow> pipe_breaker \<Rightarrow> pipe_breaker" where
  "set_gauge v b = b\<lparr>pb_gauge := Some v\<rparr>"

text \<open>\<open>None\<close> is the failed assertion that an open circuit knows when it opened.\<close>

definition effective_state :: "seconds \<Rightarrow> pipe_breaker \<Rightarrow> circuit_state option" where
  "effective_state now b =
     (if pb_state b = OPEN
      then (case pb_opened_at b of
              None \<Rightarrow> None
            | Some t \<Rightarrow> if pb_timeout_seconds b \<le> now - t then Some HALF_OPEN else Some (pb_state b))
      else Some (pb_state b))"

definition pipe_record_success :: "pipe_breaker \<Rightarrow> pipe_breaker" where
  "pipe_record_success b =
     (if pb_state b = HALF_OPEN then
        (let b' = b\<lparr>pb_successes := pb_successes b + 1\<rparr>
         in if pb_success_threshold b' \<le> pb_successes b'
            then set_gauge 0 (b'\<lparr>pb_state := CLOSED, pb_failures := 0, pb_successes := 0,
                                 pb_opened_at := None\<rparr>)
            else b')
      else if pb_state b = CLOSED then b\<lparr>pb_failures := 0\<rparr>
      else b)"

definition pipe_record_failure :: "seconds \<Rightarrow> pipe_breaker \<Rightarrow> pipe_breaker" where
  "pipe_record_failure now b =
     (if pb_state b = HALF_OPEN
      then set_gauge 1 (b\<lparr>pb_state := OPEN, pb_opened_at := Some now, pb_successes := 0\<rparr>)
      else
        (let b' = b\<lparr>pb_failures := pb_failures b + 1\<rparr>
         in if pb_state b' = CLOSED \<and> pb_failure_threshold b' \<le> pb_failures b'
            then set_gauge 1 (b'\<lparr>pb_state := OPEN, pb_opened_at := Some now\<rparr>)
            else b'))"

text \<open>The locked prologue of \<open>call\<close>: \<open>Inl\<close> is the rejection, \<open>Inr\<close> the breaker with
  which the function is called; \<open>None\<close> the failed assertion.\<close>

definition pipe_admit :: "seconds \<Rightarrow> pipe_breaker \<Rightarrow> (string + pipe_breaker) option" where
  "pipe_admit now b =
     (case effective_state now b of
        None \<Rightarrow> None
      | Some OPEN \<Rightarrow> Some (Inl (pb_name b))
      | Some _ \<Rightarrow>
          Some (Inr (if pb_state b = OPEN
                     then b\<lparr>pb_state := HALF_OPEN, pb_successes := 0\<rparr> else b)))"

definition pipe_call ::
  "seconds \<Rightarrow> seconds \<Rightarrow> ('w, 'e, 'a) func \<Rightarrow> pipe_breaker \<Rightarrow> 'w
     \<Rightarrow> (('e call_error + 'a) \<times> pipe_breaker \<times> 'w) option" where
  "pipe_call now later func b w =
     (case pipe_admit now b of
        None \<Rightarrow> None
      | Some (Inl name) \<Rightarrow> Some (Inl (CircuitOpenError name), b, w)
      | Some (Inr b') \<Rightarrow>
          Some (case func w of
                  (Inl e, w') \<Rightarrow> (Inl (Raised e), pipe_record_failure later b', w')
                | (Inr r, w') \<Rightarrow> (Inr r, pipe_record_success b', w')))"

lemmas core_ops =
  maybe_transition_to_half_open_def allow_request_def core_state_def open_circuit_def
  close_circuit_def record_success_def record_failure_def Let_def

lemmas pipe_ops =
  effective_state_def pipe_record_success_def pipe_record_failure_def pipe_admit_def
  set_gauge_def Let_def

section \<open>Interleavings of callers\<close>

text \<open>
  Callers run concurrently; the lock makes each method atomic, so a run of the
  breaker is any sequence of the operations below, in particular one where
  successes and failures of calls admitted earlier arrive after the circuit has
  opened.
\<close>

inductive core_step :: "core_breaker \<Rightarrow> core_breaker \<Rightarrow> bool" where
  inspect: "core_step b (snd (core_state now b))"
| allow: "core_step b (snd (allow_request now b))"
| success: "core_step b (record_success b)"
| failure: "core_step b (record_failure now b)"

inductive core_reachable :: "core_breaker \<Rightarrow> core_breaker \<Rightarrow> bool" for b0 where
  start: "core_reachable b0 b0"
| step: "core_reachable b0 b \<Longrightarrow> core_step b b' \<Longrightarrow> core_reachable b0 b'"

inductive_cases core_stepE: "core_step b b'"

inductive pipe_step :: "pipe_breaker \<Rightarrow> pipe_breaker \<Rightarrow> bool" where
  admit: "pipe_admit now b = Some (Inr b') \<Longrightarrow> pipe_step b b'"
| success: "pipe_step b (pipe_record_success b)"
| failure: "pipe_step b (pipe_record_failure now b)"

inductive pipe_reachable :: "pipe_breaker \<Rightarrow> pipe_breaker \<Rightarrow> bool" for b0 where
  start: "pipe_reachable b0 b0"
| step: "pipe_reachable b0 b \<Longrightarrow> pipe_step b b' \<Longrightarrow> pipe_reachable b0 b'"

inductive_cases pipe_stepE: "pipe_step b b'"

definition core_wf :: "core_breaker \<Rightarrow> bool" where
  "core_wf b \<longleftrightarrow>
     (cb_state b = CLOSED \<longleftrightarrow> cb_opened_at b = None) \<and>
     0 \<le> cb_failure_count b \<and>
     (cb_state b = CLOSED \<longrightarrow>
        cb_failure_count b = 0 \<or> cb_failure_count b < cb_failure_threshold b) \<and>
     (cb_has_on_open b \<and> cb_has_on_close b \<longrightarrow>
        (cb_state b = CLOSED \<longleftrightarrow> cb_fired b = [] \<or> last (cb_fired b) = OnClose))"

definition pipe_wf :: "pipe_breaker \<Rightarrow> bool" where
  "pipe_wf b \<longleftrightarrow>
     (pb_state b = CLOSED \<longleftrightarrow> pb_opened_at b = None) \<and>
     (pb_state b \<noteq> CLOSED \<longleftrightarrow> pb_gauge b = Some 1) \<and>
     (pb_state b = CLOSED \<longrightarrow> pb_failures b = 0 \<or> pb_failures b < pb_failure_threshold b) \<and>
     (pb_state b = HALF_OPEN \<longrightarrow> pb_successes b = 0 \<or> pb_successes b < pb_success_threshold b) \<and>
     0 \<le> pb_failures b \<and> 0 \<le> pb_successes b"

section \<open>The contract with callers\<close>

text \<open>A caller that pushes a list of calls through a breaker, in order.\<close>

fun run_calls ::
  "(seconds \<Rightarrow> seconds \<Rightarrow> ('w, 'e, 'a) func \<Rightarrow> 'b \<Rightarrow> 'w \<Rightarrow> (('e call_error + 'a) \<times> 'b \<times> 'w) option)
     \<Rightarrow> (seconds \<times> seconds \<times> ('w, 'e, 'a) func) list \<Rightarrow> 'b \<Rightarrow> 'w
     \<Rightarrow> (('e call_error + 'a) list \<times> 'b \<times> 'w) option" where
  "run_calls call [] b w = Some ([], b, w)"
| "run_calls call ((now, later, f) # cs) b w =
     (case call now later f b w of
        None \<Rightarrow> None
      | Some (r, b', w') \<Rightarrow>
          (case run_calls call cs b' w' of
             None \<Rightarrow> None
           | Some (rs, b'', w'') \<Rightarrow> Some (r # rs, b'', w'')))"

definition core_call_opt ::
  "seconds \<Rightarrow> seconds \<Rightarrow> ('w, 'e, 'a) func \<Rightarrow> core_breaker \<Rightarrow> 'w
     \<Rightarrow> (('e call_error + 'a) \<times> core_breaker \<times> 'w) option" where
  "core_call_opt now later f b w = Some (core_call now later f b w)"

locale fast_failing =
  fixes call :: "seconds \<Rightarrow> seconds \<Rightarrow> ('w, 'e, 'a) func \<Rightarrow> 'b \<Rightarrow> 'w
                   \<Rightarrow> (('e call_error + 'a) \<times> 'b \<times> 'w) option"
    and opened :: "'b \<Rightarrow> seconds option"
    and timeout :: "'b \<Rightarrow> seconds"
    and name :: "'b \<Rightarrow> string"
    and wf :: "'b \<Rightarrow> bool"
  assumes rejects: "opened b = Some t \<Longrightarrow> now - t < timeout b \<Longrightarrow>
                      call now later f b w = Some (Inl (CircuitOpenError (name b)), b, w)"
    and admits: "wf b \<Longrightarrow> (\<And>t. opened b = Some t \<Longrightarrow> timeout b \<le> now - t) \<Longrightarrow>
                   \<exists>r b'. call now later f b w = Some (r, b', snd (f w)) \<and>
                     (r = (case fst (f w) of Inl e \<Rightarrow> Inl (Raised e) | Inr a \<Rightarrow> Inr a))"
    and keeps_wf: "wf b \<Longrightarrow> call now later f b w = Some (r, b', w') \<Longrightarrow> wf b'"
begin

lemma call_returns: "wf b \<Longrightarrow> \<exists>r b' w'. call now later f b w = Some (r, b', w') \<and> wf b'"
proof -
  assume wf: "wf b"
  show ?thesis
  proof (cases "\<exists>t. opened b = Some t \<and> now - t < timeout b")
    case True
    with wf show ?thesis using rejects by blast
  next
    case False
    then obtain r b' where "call now later f b w = Some (r, b', snd (f w))"
      using admits [OF wf, of now later f w] by (force simp: not_less)
    with wf show ?thesis using keeps_wf by blast
  qed
qed

lemma run_returns: "wf b \<Longrightarrow> \<exists>rs b' w'. run_calls call cs b w = Some (rs, b', w') \<and> wf b'"
proof (induction cs arbitrary: b w)
  case (Cons c cs)
  obtain now later f where c: "c = (now, later, f)" by (cases c)
  obtain r b1 w1 where "call now later f b w = Some (r, b1, w1)" "wf b1"
    using call_returns [OF Cons.prems, of now later f w] by blast
  then show ?case using Cons.IH [of b1 w1] c by auto
qed simp

lemma run_rejected:
  assumes "opened b = Some t" "\<And>now later f. (now, later, f) \<in> set cs \<Longrightarrow> now - t < timeout b"
  shows "run_calls call cs b w =
           Some (replicate (length cs) (Inl (CircuitOpenError (name b))), b, w)"
  using assms(2)
proof (induction cs)
  case (Cons c cs)
  obtain now later f where c: "c = (now, later, f)" by (cases c)
  with Cons.prems have "now - t < timeout b" by auto
  moreover have "run_calls call cs b w =
      Some (replicate (length cs) (Inl (CircuitOpenError (name b))), b, w)"
    using Cons by auto
  ultimately show ?case using rejects [OF assms(1)] c by simp
qed simp

end

subsection \<open>The core breaker meets it\<close>

lemma core_step_wf: "core_step b b' \<Longrightarrow> core_wf b \<Longrightarrow> core_wf b'"
  by (induction rule: core_step.induct)
     (cases "cb_state b"; auto simp: core_wf_def core_ops split: option.splits if_splits)+

lemma core_reachable_core_wf: "core_reachable b0 b \<Longrightarrow> core_wf b0 \<Longrightarrow> core_wf b"
  by (induction rule: core_reachable.induct) (auto intro: core_step_wf)

lemma core_wf_new: "core_wf (new_core_breaker n k t p q)"
  by (simp add: core_wf_def new_core_breaker_def)

lemma core_call_wf:
  assumes "core_wf b" "core_call now later f b w = (r, b', w')"
  shows "core_wf b'"
proof -
  have wf1: "core_wf (snd (allow_request now b))"
    by (rule core_step_wf [OF core_step.allow assms(1)])
  have "core_wf (record_failure later (snd (allow_request now b)))"
    by (rule core_step_wf [OF core_step.failure wf1])
  moreover have "core_wf (record_success (snd (allow_request now b)))"
    by (rule core_step_wf [OF core_step.success wf1])
  ultimately show ?thesis
    using assms(2) wf1 by (auto simp: core_call_def split: prod.splits if_splits sum.splits)
qed

definition core_opened :: "core_breaker \<Rightarrow> seconds option" where
  "core_opened b = (if cb_state b = OPEN then cb_opened_at b else None)"

interpretation core_ff:
  fast_failing core_call_opt core_opened cb_recovery_timeout cb_name core_wf
proof (unfold_locales, goal_cases)
  case 1
  then show ?case
    by (auto simp: core_call_opt_def core_call_def core_opened_def core_ops split: if_splits)
next
  case (2 b now later f w)
  then have "fst (allow_request now b)"
    by (auto simp: core_wf_def core_opened_def core_ops split: option.splits if_splits)
  then show ?case
    by (auto simp: core_call_opt_def core_call_def split: prod.splits sum.splits)
next
  case 3
  then show ?case by (auto simp: core_call_opt_def intro: core_call_wf)
qed

subsection \<open>The pipelines' breaker meets it\<close>

lemma pipe_step_wf: "pipe_step b b' \<Longrightarrow> pipe_wf b \<Longrightarrow> pipe_wf b'"
  by (induction rule: pipe_step.induct)
     (auto simp: pipe_wf_def pipe_ops split: option.splits if_splits circuit_state.splits)

lemma pipe_reachable_pipe_wf: "pipe_reachable b0 b \<Longrightarrow> pipe_wf b0 \<Longrightarrow> pipe_wf b"
  by (induction rule: pipe_reachable.induct) (auto intro: pipe_step_wf)

lemma pipe_wf_new: "pipe_wf (new_pipe_breaker n k t s)"
  by (simp add: pipe_wf_def new_pipe_breaker_def)

definition pipe_opened :: "pipe_breaker \<Rightarrow> seconds option" where
  "pipe_opened b = (if pb_state b = OPEN then pb_opened_at b else None)"

lemma pipe_call_wf:
  assumes "pipe_wf b" "pipe_call now later f b w = Some (r, b', w')"
  shows "pipe_wf b'"
  using assms pipe_step_wf [OF pipe_step.admit] pipe_step_wf [OF pipe_step.success]
    pipe_step_wf [OF pipe_step.failure]
  by (auto simp: pipe_call_def split: option.splits sum.splits prod.splits)

interpretation pipe_ff:
  fast_failing pipe_call pipe_opened pb_timeout_seconds pb_name pipe_wf
proof (unfold_locales, goal_cases)
  case 1
  then show ?case
    by (auto simp: pipe_call_def pipe_opened_def pipe_ops split: if_splits)
next
  case (2 b now later f w)
  then obtain b1 where "pipe_admit now b = Some (Inr b1)"
    by (cases "pb_state b") (auto simp: pipe_wf_def pipe_opened_def pipe_ops)
  then show ?case
    by (auto simp: pipe_call_def split: prod.splits sum.splits)
next
  case 3
  then show ?case by (rule pipe_call_wf)
qed

section \<open>Properties\<close>

text \<open>The answers that consecutive callers of \<open>allow_request\<close> get.\<close>

fun admissions :: "seconds list \<Rightarrow> core_breaker \<Rightarrow> bool list \<times> core_breaker" where
  "admissions [] b = ([], b)"
| "admissions (t # ts) b =
     (let (a, b1) = allow_request t b; (as, b2) = admissions ts b1 in (a # as, b2))"

abbreviation sample_core_breaker :: core_breaker where
  "sample_core_breaker \<equiv> new_core_breaker ''horizon'' 2 60 True True"

lemma closed_failures:
  assumes "cb_state b = CLOSED" "cb_failure_count b = 0" "1 \<le> cb_failure_threshold b"
    and "int (length ts) < cb_failure_threshold b"
  shows "foldl (\<lambda>b t. record_failure t b) b ts = b\<lparr>cb_failure_count := int (length ts)\<rparr>"
  using assms(4)
proof (induction ts rule: rev_induct)
  case Nil
  then show ?case using assms by simp
next
  case (snoc t ts)
  then show ?case using assms by (simp add: record_failure_def Let_def)
qed

lemma open_failures:
  assumes "cb_state b = OPEN" "cb_failure_threshold b \<le> cb_failure_count b"
  shows "cb_state (foldl (\<lambda>b t. record_failure t b) b ts) = OPEN"
  using assms
proof (induction ts arbitrary: b)
  case (Cons t ts)
  have "cb_state (record_failure t b) = OPEN"
       "cb_failure_threshold (record_failure t b) \<le> cb_failure_count (record_failure t b)"
    using Cons.prems by (auto simp: record_failure_def open_circuit_def Let_def)
  with Cons.IH show ?case by simp
qed simp

lemma half_open_admissions:
  "cb_state b = HALF_OPEN \<Longrightarrow> admissions ts b = (replicate (length ts) True, b)"
  by (induction ts) (auto simp: core_ops split: option.splits)

text \<open>
  Whatever the interleaving of concurrent callers, a core breaker stays well
  formed: it knows the time it opened exactly when it is not closed, a closed breaker
  has not accumulated \<open>failure_threshold\<close> failures, the failure count is never negative,
  and with both callbacks configured the last callback fired tells whether the circuit
  is closed.
\<close>

lemma core_interleaving_invariant:
  assumes "core_reachable (new_core_breaker name threshold timeout on_open on_close) b"
  shows "core_wf b"
  using assms core_wf_new by (rule core_reachable_core_wf)

lemma core_interleaving_invariant_witness:
  "core_reachable sample_core_breaker (record_failure 7 sample_core_breaker) \<and>
   core_wf (record_failure 7 sample_core_breaker)"
proof -
  have r: "core_reachable sample_core_breaker (record_failure 7 sample_core_breaker)"
    by (rule core_reachable.step [OF core_reachable.start core_step.failure])
  from core_interleaving_invariant [OF r] r show ?thesis by simp
qed

text \<open>
  While a core circuit is open and its recovery timeout has not elapsed, any
  sequence of calls is rejected with \<open>CircuitOpenError\<close>, the protected functions are not
  run (the outside world is unchanged) and the breaker, its timer included, is unchanged.
\<close>

lemma core_open_window_rejects:
  assumes "cb_state b = OPEN" "cb_opened_at b = Some t"
    and "\<forall>(now, later, f) \<in> set cs. now - t < cb_recovery_timeout b"
  shows "run_calls core_call_opt cs b w =
           Some (replicate (length cs) (Inl (CircuitOpenError (cb_name b))), b, w)"
proof (rule core_ff.run_rejected)
  show "core_opened b = Some t" using assms(1,2) by (simp add: core_opened_def)
qed (use assms(3) in auto)

text \<open>
  A closed core circuit opens at exactly \<open>failure_threshold\<close> consecutive failures:
  with fewer it stays closed, and from then on it is open.
\<close>

lemma core_trips_at_threshold:
  assumes "cb_state b = CLOSED" "cb_failure_count b = 0" "1 \<le> cb_failure_threshold b"
  shows "cb_state (foldl (\<lambda>b t. record_failure t b) b ts) =
           (if int (length ts) < cb_failure_threshold b then CLOSED else OPEN)"
proof (cases "int (length ts) < cb_failure_threshold b")
  case True
  then show ?thesis using closed_failures [OF assms True] assms(1) by simp
next
  case False
  define k where "k = nat (cb_failure_threshold b) - 1"
  with False assms(3) have k: "k < length ts" "int k < cb_failure_threshold b"
    "cb_failure_threshold b \<le> int k + 1" by auto
  let ?run = "foldl (\<lambda>b t. record_failure t b)"
  have "?run b (take k ts) = b\<lparr>cb_failure_count := int k\<rparr>"
    using closed_failures [OF assms, of "take k ts"] k by simp
  then have "?run b (take (Suc k) ts) = record_failure (ts ! k) (b\<lparr>cb_failure_count := int k\<rparr>)"
    using k by (simp add: take_Suc_conv_app_nth)
  then have opened: "cb_state (?run b (take (Suc k) ts)) = OPEN"
    "cb_failure_threshold (?run b (take (Suc k) ts)) \<le> cb_failure_count (?run b (take (Suc k) ts))"
    using assms k by (simp_all add: record_failure_def open_circuit_def Let_def)
  have "?run b ts = ?run (?run b (take (Suc k) ts)) (drop (Suc k) ts)"
    by (metis append_take_drop_id foldl_append)
  with open_failures [OF opened] False show ?thesis by simp
qed

text \<open>
  Once the recovery timeout has elapsed, every caller is admitted, not one probe
  only: the answers to any number of callers are all \<open>True\<close> until one of the admitted
  calls reports its outcome.
\<close>

lemma core_half_open_admits_every_caller:
  assumes "cb_state b = OPEN" "cb_opened_at b = Some t0" "cb_recovery_timeout b \<le> t - t0"
  shows "fst (admissions (t # ts) b) = replicate (Suc (length ts)) True"
proof -
  have "allow_request t b = (True, b\<lparr>cb_state := HALF_OPEN\<rparr>)"
    using assms by (simp add: core_ops)
  then show ?thesis by (simp add: half_open_admissions)
qed

abbreviation sample_pipe_breaker :: pipe_breaker where
  "sample_pipe_breaker \<equiv> new_pipe_breaker ''redis'' 2 60 2"

text \<open>
  Whatever the interleaving of callers, a pipelines' breaker stays well formed (its
  gauge is 1 exactly when it is not closed, its counters stay under their thresholds) and
  the assertion that an open circuit knows its opening time never fails.
\<close>

lemma pipe_interleaving_invariant:
  assumes "pipe_reachable (new_pipe_breaker name fthr timeout sthr) b"
  shows "pipe_wf b \<and> effective_state now b \<noteq> None"
proof -
  have "pipe_wf b" using assms pipe_wf_new by (rule pipe_reachable_pipe_wf)
  then show ?thesis by (auto simp: pipe_wf_def effective_state_def split: option.splits)
qed

lemma pipe_interleaving_invariant_witness:
  "pipe_reachable sample_pipe_breaker (pipe_record_failure 3 sample_pipe_breaker) \<and>
   pipe_wf (pipe_record_failure 3 sample_pipe_breaker)"
proof -
  have r: "pipe_reachable sample_pipe_breaker (pipe_record_failure 3 sample_pipe_breaker)"
    by (rule pipe_reachable.step [OF pipe_reachable.start pipe_step.failure])
  from pipe_interleaving_invariant [OF r] r show ?thesis by simp
qed

lemma half_open_successes:
  assumes "pb_state b = HALF_OPEN" "pb_successes b = 0"
    and "int n < pb_success_threshold b"
  shows "(pipe_record_success ^^ n) b = b\<lparr>pb_successes := int n\<rparr>"
  using assms(3)
proof (induction n)
  case 0
  then show ?case using assms by simp
next
  case (Suc n)
  then show ?case using assms by (simp add: pipe_record_success_def Let_def)
qed

lemma closed_successes:
  "pb_state b = CLOSED \<Longrightarrow> pb_state ((pipe_record_success ^^ n) b) = CLOSED"
  by (induction n) (auto simp: pipe_record_success_def)

text \<open>
  A probing pipelines' breaker closes at exactly \<open>success_threshold\<close> consecutive
  successes, and a single failure before that re-opens it with a fresh timer.
\<close>

lemma pipe_recovery:
  assumes "pb_state b = HALF_OPEN" "pb_successes b = 0" "1 \<le> pb_success_threshold b"
  shows "pb_state ((pipe_record_success ^^ n) b) =
           (if int n < pb_success_threshold b then HALF_OPEN else CLOSED) \<and>
         (int n < pb_success_threshold b \<longrightarrow>
           pipe_opened (pipe_record_failure t ((pipe_record_success ^^ n) b)) = Some t)"
proof (cases "int n < pb_success_threshold b")
  case True
  then show ?thesis using half_open_successes [OF assms(1,2) True] assms
    by (simp add: pipe_record_failure_def pipe_opened_def set_gauge_def)
next
  case False
  define k where "k = nat (pb_success_threshold b) - 1"
  with False assms(3) have k: "int k < pb_success_threshold b"
    "pb_success_threshold b \<le> int k + 1" "n = (n - Suc k) + Suc k" by auto
  have "pb_state ((pipe_record_success ^^ Suc k) b) = CLOSED"
    using half_open_successes [OF assms(1,2) k(1)] assms k(2)
    by (simp add: pipe_record_success_def set_gauge_def Let_def)
  then have "pb_state ((pipe_record_success ^^ ((n - Suc k) + Suc k)) b) = CLOSED"
    unfolding funpow_add comp_apply by (rule closed_successes)
  with False k(3) show ?thesis by simp
qed

end
