(* ===== verification/Tarjan.thy ===== *)
theory Tarjan
  imports Prelude
begin

text \<open>
  \<open>IterativeTarjanSCC.run\<close> of \<open>packages/core/detection/graph_engine.py\<close>: Tarjan's algorithm
  with an explicit work stack, on an adjacency dictionary. Python lists used as stacks
  are lists whose head is the top. A \<open>KeyError\<close> or \<open>IndexError\<close> of the source is \<open>None\<close>;
  the development proves that none occurs, that the loop ends, and that the result
  is exactly the set of strongly connected components.
\<close>

section \<open>The program\<close>

type_synonym int_graph = "(nat, nat list) dict"

definition succs :: "int_graph \<Rightarrow> nat \<Rightarrow> nat list" where
  "succs g v = (case dict_get g v of None \<Rightarrow> [] | Some ns \<Rightarrow> ns)"

record tarjan =
  t_counter :: nat
  t_stack :: "nat list"
  t_lowlink :: "nat \<rightharpoonup> nat"
  t_index :: "nat \<rightharpoonup> nat"
  t_on_stack :: "nat set"
  t_sccs :: "nat list list"
  t_work :: "(nat \<times> nat list) list"

definition init_tarjan :: tarjan where
  "init_tarjan = \<lparr>t_counter = 0, t_stack = [], t_lowlink = Map.empty, t_index = Map.empty,
                  t_on_stack = {}, t_sccs = [], t_work = []\<rparr>"

text \<open>Numbering a node, pushing it and opening its iteration.\<close>

definition discover :: "int_graph \<Rightarrow> nat \<Rightarrow> tarjan \<Rightarrow> tarjan" where
  "discover g w s =
     s\<lparr>t_index := (t_index s)(w \<mapsto> t_counter s), t_lowlink := (t_lowlink s)(w \<mapsto> t_counter s),
       t_counter := t_counter s + 1, t_stack := w # t_stack s,
       t_on_stack := insert w (t_on_stack s), t_work := (w, succs g w) # t_work s\<rparr>"

text \<open>The inner \<open>while True\<close>: pop up to and including \<open>v\<close>.\<close>

fun pop_scc :: "nat \<Rightarrow> nat list \<Rightarrow> (nat list \<times> nat list) option" where
  "pop_scc v [] = None"
| "pop_scc v (w # ws) =
     (if w = v then Some ([w], ws)
      else case pop_scc v ws of None \<Rightarrow> None | Some (scc, rest) \<Rightarrow> Some (w # scc, rest))"

text \<open>The \<open>try\<close> branch: the next neighbour \<open>w\<close> of the top node \<open>v\<close>.\<close>

definition visit :: "int_graph \<Rightarrow> nat \<Rightarrow> nat \<Rightarrow> nat list \<Rightarrow> (nat \<times> nat list) list \<Rightarrow> tarjan \<Rightarrow> tarjan option" where
  "visit g v w ns rest s =
     (let s' = s\<lparr>t_work := (v, ns) # rest\<rparr> in
      if w = v then Some s'
      else case t_index s w of
        None \<Rightarrow> Some (discover g w s')
      | Some iw \<Rightarrow>
          if w \<in> t_on_stack s then
            (case t_lowlink s v of
               None \<Rightarrow> None
             | Some lv \<Rightarrow> Some (s'\<lparr>t_lowlink := (t_lowlink s)(v \<mapsto> min lv iw)\<rparr>))
          else Some s')"

text \<open>The \<open>except StopIteration\<close> branch: the top node is exhausted.\<close>

definition propagate :: "nat \<Rightarrow> (nat \<times> nat list) list \<Rightarrow> tarjan \<Rightarrow> tarjan option" where
  "propagate lv rest s =
     (case rest of
        [] \<Rightarrow> Some s
      | (parent, _) # _ \<Rightarrow>
          (case t_lowlink s parent of
             None \<Rightarrow> None
           | Some lp \<Rightarrow> Some (s\<lparr>t_lowlink := (t_lowlink s)(parent \<mapsto> min lp lv)\<rparr>)))"

definition finish :: "nat \<Rightarrow> (nat \<times> nat list) list \<Rightarrow> tarjan \<Rightarrow> tarjan option" where
  "finish v rest s =
     (case t_lowlink s v of
        None \<Rightarrow> None
      | Some lv \<Rightarrow>
          (case propagate lv rest (s\<lparr>t_work := rest\<rparr>) of
             None \<Rightarrow> None
           | Some s1 \<Rightarrow>
               (case (t_lowlink s1 v, t_index s1 v) of
                  (Some lv', Some iv) \<Rightarrow>
                    if lv' = iv then
                      (case pop_scc v (t_stack s1) of
                         None \<Rightarrow> None
                       | Some (scc, rest') \<Rightarrow>
                           Some (s1\<lparr>t_stack := rest', t_on_stack := t_on_stack s1 - set scc,
                                   t_sccs := t_sccs s1 @ [scc]\<rparr>))
                    else Some s1
                | _ \<Rightarrow> None)))"

definition tarjan_step :: "int_graph \<Rightarrow> tarjan \<Rightarrow> tarjan option" where
  "tarjan_step g s =
     (case t_work s of
        [] \<Rightarrow> None
      | (v, []) # rest \<Rightarrow> finish v rest s
      | (v, w # ns) # rest \<Rightarrow> visit g v w ns rest s)"

subsection \<open>The work loop ends\<close>

definition nodes :: "int_graph \<Rightarrow> nat set" where
  "nodes g = fst ` set g \<union> (\<Union>ns\<in>snd ` set g. set ns)"

definition pending_nodes :: "int_graph \<Rightarrow> tarjan \<Rightarrow> nat set" where
  "pending_nodes g s = (nodes g \<union> (\<Union>ns\<in>snd ` set (t_work s). set ns)) - dom (t_index s)"

definition work_left :: "int_graph \<Rightarrow> tarjan \<Rightarrow> nat" where
  "work_left g s =
     (\<Sum>u\<in>pending_nodes g s. length (succs g u) + 2) + (\<Sum>(v, ns)\<leftarrow>t_work s. length ns + 1)"

lemma finite_pending [simp]: "finite (pending_nodes g s)"
  by (auto simp: pending_nodes_def nodes_def)

lemma succs_nodes: "set (succs g v) \<subseteq> nodes g"
proof (cases "dict_get g v")
  case (Some ns)
  then have "(v, ns) \<in> set g" by (rule map_of_SomeD)
  then show ?thesis using Some by (force simp: succs_def nodes_def)
qed (simp add: succs_def)

lemma work_left_mono:
  assumes "pending_nodes g s' \<subseteq> pending_nodes g s"
    and "(\<Sum>(v, ns)\<leftarrow>t_work s'. length ns + 1) < (\<Sum>(v, ns)\<leftarrow>t_work s. length ns + 1)"
  shows "work_left g s' < work_left g s"
proof -
  have "(\<Sum>u\<in>pending_nodes g s'. length (succs g u) + 2)
          \<le> (\<Sum>u\<in>pending_nodes g s. length (succs g u) + 2)"
    by (rule sum_mono2) (use assms(1) in auto)
  with assms(2) show ?thesis by (simp add: work_left_def)
qed

lemma work_left_discover:
  assumes "t_work s = (v, w # ns) # rest" "t_index s w = None"
  shows "work_left g (discover g w (s\<lparr>t_work := (v, ns) # rest\<rparr>)) < work_left g s"
proof -
  let ?s' = "discover g w (s\<lparr>t_work := (v, ns) # rest\<rparr>)"
  have w: "w \<in> pending_nodes g s" using assms by (auto simp: pending_nodes_def)
  have "pending_nodes g ?s' \<subseteq> pending_nodes g s - {w}"
    using succs_nodes [of g w] assms by (auto simp: pending_nodes_def discover_def)
  then have "(\<Sum>u\<in>pending_nodes g ?s'. length (succs g u) + 2)
          \<le> (\<Sum>u\<in>pending_nodes g s - {w}. length (succs g u) + 2)"
    by (intro sum_mono2) auto
  also have "\<dots> + (length (succs g w) + 2) = (\<Sum>u\<in>pending_nodes g s. length (succs g u) + 2)"
    using w by (simp add: sum.remove [of _ w] add.commute)
  finally show ?thesis
    using assms by (simp add: work_left_def discover_def)
qed

lemma work_left_step:
  assumes "tarjan_step g s = Some s'"
  shows "work_left g s' < work_left g s"
proof -
  obtain v ns rest where work: "t_work s = (v, ns) # rest"
    using assms by (cases "t_work s") (auto simp: tarjan_step_def split: prod.splits)
  show ?thesis
  proof (cases ns)
    case Nil
    then have "t_work s' = rest" "t_index s' = t_index s"
      using assms work
      by (auto simp: tarjan_step_def finish_def propagate_def
          split: option.splits list.splits if_splits prod.splits)
    with work show ?thesis by (intro work_left_mono) (auto simp: pending_nodes_def)
  next
    case (Cons w ws)
    show ?thesis
    proof (cases "w \<noteq> v \<and> t_index s w = None")
      case True
      then have "s' = discover g w (s\<lparr>t_work := (v, ws) # rest\<rparr>)"
        using assms work Cons by (simp add: tarjan_step_def visit_def Let_def)
      with work_left_discover [of s v w ws rest g] True work Cons show ?thesis by simp
    next
      case False
      then have "t_work s' = (v, ws) # rest" "t_index s' = t_index s"
        using assms work Cons
        by (auto simp: tarjan_step_def visit_def Let_def split: option.splits if_splits)
      with work Cons show ?thesis by (intro work_left_mono) (auto simp: pending_nodes_def)
    qed
  qed
qed

function work_loop :: "int_graph \<Rightarrow> tarjan \<Rightarrow> tarjan option" where
  "work_loop g s =
     (if t_work s = [] then Some s
      else case tarjan_step g s of None \<Rightarrow> None | Some s' \<Rightarrow> work_loop g s')"
  by pat_completeness auto
termination
  by (relation "measure (\<lambda>(g, s). work_left g s)") (auto intro: work_left_step)

declare work_loop.simps [simp del]

definition strongconnect :: "int_graph \<Rightarrow> nat \<Rightarrow> tarjan \<Rightarrow> tarjan option" where
  "strongconnect g v s = work_loop g (discover g v (s\<lparr>t_work := []\<rparr>))"

fun run_keys :: "int_graph \<Rightarrow> nat list \<Rightarrow> tarjan \<Rightarrow> tarjan option" where
  "run_keys g [] s = Some s"
| "run_keys g (v # vs) s =
     (if t_index s v = None
      then (case strongconnect g v s of None \<Rightarrow> None | Some s' \<Rightarrow> run_keys g vs s')
      else run_keys g vs s)"

definition tarjan_run :: "int_graph \<Rightarrow> nat list list option" where
  "tarjan_run g = map_option t_sccs (run_keys g (dict_keys g) init_tarjan)"

section \<open>Reachability and components\<close>

definition edges :: "int_graph \<Rightarrow> (nat \<times> nat) set" where
  "edges g = {(u, x). x \<in> set (succs g u)}"

abbreviation reach :: "int_graph \<Rightarrow> nat \<Rightarrow> nat \<Rightarrow> bool" where
  "reach g u x \<equiv> (u, x) \<in> (edges g)\<^sup>*"

definition scc_of :: "int_graph \<Rightarrow> nat \<Rightarrow> nat set" where
  "scc_of g v = {x. reach g v x \<and> reach g x v}"

lemma reach_edge: "x \<in> set (succs g u) \<Longrightarrow> reach g u x"
  by (auto simp: edges_def)

lemma reach_leaves:
  assumes "reach g a b" "a \<in> C" "b \<notin> C"
  shows "\<exists>x y. x \<in> C \<and> y \<notin> C \<and> y \<in> set (succs g x) \<and> reach g a x \<and> reach g y b"
  using assms
proof (induction rule: converse_rtrancl_induct)
  case (step a a')
  show ?case
  proof (cases "a' \<in> C")
    case True
    with step obtain x y where "x \<in> C" "y \<notin> C" "y \<in> set (succs g x)" "reach g a' x" "reach g y b"
      by blast
    with step.hyps(1) show ?thesis by (meson converse_rtrancl_into_rtrancl)
  next
    case False
    with step show ?thesis by (auto simp: edges_def)
  qed
qed simp

lemma reach_closed:
  "reach g a b \<Longrightarrow> a \<in> C \<Longrightarrow> (\<And>u x. u \<in> C \<Longrightarrow> x \<in> set (succs g u) \<Longrightarrow> x \<in> C) \<Longrightarrow> b \<in> C"
  by (induction rule: rtrancl_induct) (auto simp: edges_def)

lemma scc_of_same: "x \<in> scc_of g v \<Longrightarrow> scc_of g x = scc_of g v"
  by (auto simp: scc_of_def intro: rtrancl_trans)

section \<open>The invariant\<close>

abbreviation num :: "tarjan \<Rightarrow> nat \<Rightarrow> nat" where "num s v \<equiv> the (t_index s v)"
abbreviation low :: "tarjan \<Rightarrow> nat \<Rightarrow> nat" where "low s v \<equiv> the (t_lowlink s v)"
abbreviation gray :: "tarjan \<Rightarrow> nat set" where "gray s \<equiv> fst ` set (t_work s)"
abbreviation closed_nodes :: "tarjan \<Rightarrow> nat set" where "closed_nodes s \<equiv> \<Union> (set ` set (t_sccs s))"

text \<open>The edge from \<open>u\<close> to \<open>x\<close> has been looked at.\<close>

definition looked :: "int_graph \<Rightarrow> tarjan \<Rightarrow> nat \<Rightarrow> nat \<Rightarrow> bool" where
  "looked g s u x \<longleftrightarrow> x \<in> set (succs g u) \<and> (\<forall>ns. (u, ns) \<in> set (t_work s) \<longrightarrow> x \<notin> set ns)"

text \<open>\<open>p\<close> is the last node on the current path numbered no later than \<open>u\<close>.\<close>

definition owner :: "tarjan \<Rightarrow> nat \<Rightarrow> nat \<Rightarrow> bool" where
  "owner s p u \<longleftrightarrow> p \<in> gray s \<and> num s p \<le> num s u \<and>
     (\<forall>q\<in>gray s. num s q \<le> num s u \<longrightarrow> num s q \<le> num s p)"

definition inv_numbers :: "int_graph \<Rightarrow> tarjan \<Rightarrow> bool" where
  "inv_numbers g s \<longleftrightarrow>
     (\<forall>v n. t_index s v = Some n \<longrightarrow> n < t_counter s) \<and> inj_on (t_index s) (dom (t_index s)) \<and>
     dom (t_lowlink s) = dom (t_index s) \<and> dom (t_index s) \<subseteq> nodes g"

definition inv_stack :: "tarjan \<Rightarrow> bool" where
  "inv_stack s \<longleftrightarrow>
     sorted_wrt (\<lambda>a b. num s b < num s a) (t_stack s) \<and> t_on_stack s = set (t_stack s) \<and>
     dom (t_index s) = set (t_stack s) \<union> closed_nodes s \<and> set (t_stack s) \<inter> closed_nodes s = {}"

definition inv_closed :: "int_graph \<Rightarrow> tarjan \<Rightarrow> bool" where
  "inv_closed g s \<longleftrightarrow>
     (\<forall>c\<in>set (t_sccs s). c \<noteq> [] \<and> distinct c \<and> (\<forall>v\<in>set c. set c = scc_of g v)) \<and>
     distinct (map set (t_sccs s)) \<and> (\<forall>u\<in>closed_nodes s. set (succs g u) \<subseteq> closed_nodes s)"

definition inv_path :: "int_graph \<Rightarrow> tarjan \<Rightarrow> bool" where
  "inv_path g s \<longleftrightarrow>
     sorted_wrt (\<lambda>a b. num s b < num s a) (map fst (t_work s)) \<and> gray s \<subseteq> set (t_stack s) \<and>
     (\<forall>(v, ns)\<in>set (t_work s). set ns \<subseteq> set (succs g v)) \<and>
     (\<forall>p\<in>gray s. \<forall>u\<in>set (t_stack s). num s p \<le> num s u \<longrightarrow> reach g p u) \<and>
     (\<forall>u\<in>set (t_stack s). \<exists>p\<in>gray s. num s p \<le> num s u \<and> reach g u p)"

definition inv_edges :: "int_graph \<Rightarrow> tarjan \<Rightarrow> bool" where
  "inv_edges g s \<longleftrightarrow>
     (\<forall>u\<in>set (t_stack s). \<forall>x. looked g s u x \<longrightarrow> x \<in> dom (t_index s))"

definition inv_low :: "int_graph \<Rightarrow> tarjan \<Rightarrow> bool" where
  "inv_low g s \<longleftrightarrow>
     (\<forall>u\<in>set (t_stack s). \<exists>x\<in>set (t_stack s).
        low s u = num s x \<and> num s x \<le> num s u \<and> reach g u x) \<and>
     (\<forall>p u x. owner s p u \<longrightarrow> u \<in> set (t_stack s) \<longrightarrow> x \<in> set (t_stack s) \<longrightarrow>
        looked g s u x \<longrightarrow> low s p \<le> num s x)"

definition tarjan_inv :: "int_graph \<Rightarrow> tarjan \<Rightarrow> bool" where
  "tarjan_inv g s \<longleftrightarrow> inv_numbers g s \<and> inv_stack s \<and> inv_closed g s \<and> inv_path g s \<and>
     inv_edges g s \<and> inv_low g s"

lemmas inv_defs = inv_numbers_def inv_stack_def inv_closed_def inv_path_def inv_edges_def inv_low_def

lemma num_inj:
  "inv_numbers g s \<Longrightarrow> u \<in> dom (t_index s) \<Longrightarrow> x \<in> dom (t_index s) \<Longrightarrow>
     num s u = num s x \<longleftrightarrow> u = x"
  by (metis domIff inj_onD inv_numbers_def option.collapse)

lemma gray_stack: "tarjan_inv g s \<Longrightarrow> p \<in> gray s \<Longrightarrow> p \<in> set (t_stack s)"
  by (auto simp: tarjan_inv_def inv_path_def)

lemma stack_dom: "tarjan_inv g s \<Longrightarrow> u \<in> set (t_stack s) \<Longrightarrow> u \<in> dom (t_index s)"
  by (auto simp: tarjan_inv_def inv_stack_def)

lemma top_largest:
  "tarjan_inv g s \<Longrightarrow> t_work s = (v, ns) # rest \<Longrightarrow> p \<in> gray s \<Longrightarrow> num s p \<le> num s v"
  by (auto simp: tarjan_inv_def inv_path_def)

lemma work_unique:
  "tarjan_inv g s \<Longrightarrow> (v, ns) \<in> set (t_work s) \<Longrightarrow> (v, ns') \<in> set (t_work s) \<Longrightarrow> ns = ns'"
proof -
  assume inv: "tarjan_inv g s"
  then have "distinct (map fst (t_work s))"
    by (auto simp: tarjan_inv_def inv_path_def sorted_wrt_map distinct_conv_nth sorted_wrt_iff_nth_less
        simp del: nth_map) (metis length_map less_irrefl linorder_neqE_nat nth_map)
  then show "(v, ns) \<in> set (t_work s) \<Longrightarrow> (v, ns') \<in> set (t_work s) \<Longrightarrow> ns = ns'"
    by (meson eq_key_imp_eq_value)
qed

section \<open>Every step keeps the invariant\<close>

lemma tarjan_inv_parts:
  assumes "tarjan_inv g s"
  shows "inv_numbers g s" "inv_stack s" "inv_closed g s" "inv_path g s" "inv_edges g s" "inv_low g s"
  using assms by (auto simp: tarjan_inv_def)

lemma owner_gray: "inv_numbers g s \<Longrightarrow> gray s \<subseteq> dom (t_index s) \<Longrightarrow> v \<in> gray s \<Longrightarrow> owner s p v \<longleftrightarrow> p = v"
  unfolding owner_def using num_inj [of g s p v] by (metis le_antisym order_refl subset_iff)

lemma low_le_num: "tarjan_inv g s \<Longrightarrow> u \<in> set (t_stack s) \<Longrightarrow> low s u \<le> num s u"
  unfolding tarjan_inv_def inv_low_def by metis

lemma path_down:
  "tarjan_inv g s \<Longrightarrow> p \<in> gray s \<Longrightarrow> u \<in> set (t_stack s) \<Longrightarrow> num s p \<le> num s u \<Longrightarrow> reach g p u"
  unfolding tarjan_inv_def inv_path_def by blast

lemma path_up:
  assumes "tarjan_inv g s" "u \<in> set (t_stack s)"
  obtains p where "p \<in> gray s" "num s p \<le> num s u" "reach g u p"
  using assms unfolding tarjan_inv_def inv_path_def by blast

subsection \<open>Looking at an edge to a numbered node\<close>

lemma looked_advance:
  assumes inv: "tarjan_inv g s" and work: "t_work s = (v, w # ns) # rest"
    and s': "t_work s' = (v, ns) # rest"
  shows "looked g s' u x \<Longrightarrow> looked g s u x \<or> u = v \<and> x = w"
  using work_unique [OF inv, of v "w # ns"] work s' by (auto simp: looked_def)

lemma advance_inv:
  assumes inv: "tarjan_inv g s" and work: "t_work s = (v, w # ns) # rest"
    and w: "w \<in> dom (t_index s)" and l: "l \<le> low s v" "w \<in> set (t_stack s) \<Longrightarrow> l \<le> num s w"
    and l_cases: "l = low s v \<or> w \<in> set (t_stack s) \<and> l = num s w"
  shows "tarjan_inv g (s\<lparr>t_work := (v, ns) # rest, t_lowlink := (t_lowlink s)(v \<mapsto> l)\<rparr>)"
    (is "tarjan_inv g ?s'")
proof -
  note parts = tarjan_inv_parts [OF inv]
  have vg: "v \<in> gray s" using work by simp
  have v: "v \<in> set (t_stack s)" by (rule gray_stack [OF inv vg])
  have vd: "v \<in> dom (t_index s)" by (rule stack_dom [OF inv v])
  have gray: "gray ?s' = gray s" using work by simp
  have owner: "owner ?s' p u = owner s p u" for p u using work by (simp add: owner_def)
  have look: "looked g ?s' u x \<Longrightarrow> looked g s u x \<or> u = v \<and> x = w" for u x
    by (rule looked_advance [OF inv work]) simp_all
  have "w \<in> set (succs g v)" using parts(4) work by (auto simp: inv_path_def)
  have "inv_numbers g ?s'" using parts(1) vd by (auto simp: inv_numbers_def)
  moreover have "inv_stack ?s'" using parts(2) by (simp add: inv_stack_def)
  moreover have "inv_closed g ?s'" using parts(3) by (simp add: inv_closed_def)
  moreover have "inv_path g ?s'" using parts(4) work by (auto simp: inv_path_def)
  moreover have "inv_edges g ?s'" unfolding inv_edges_def
    using parts(5) look w by (simp add: inv_edges_def) blast
  moreover have "inv_low g ?s'" unfolding inv_low_def
  proof (intro conjI ballI allI impI)
    fix u assume "u \<in> set (t_stack ?s')"
    then obtain x where x: "x \<in> set (t_stack s)" "low s u = num s x" "num s x \<le> num s u" "reach g u x"
      using parts(6) by (auto simp: inv_low_def)
    show "\<exists>x\<in>set (t_stack ?s'). low ?s' u = num ?s' x \<and> num ?s' x \<le> num ?s' u \<and> reach g u x"
    proof (cases "u = v \<and> l \<noteq> low s v")
      case True
      then have "w \<in> set (t_stack s)" "l = num s w" using l_cases by auto
      with True l(1) x reach_edge [OF \<open>w \<in> set (succs g v)\<close>] show ?thesis by auto
    qed (use x in auto)
  next
    fix p u x assume a: "owner ?s' p u" "u \<in> set (t_stack ?s')" "x \<in> set (t_stack ?s')" "looked g ?s' u x"
    have lowp: "low ?s' p \<le> low s p" using l(1) by simp
    from look [OF a(4)] show "low ?s' p \<le> num ?s' x"
    proof
      assume "looked g s u x"
      then have "low s p \<le> num s x" using a owner parts(6) by (simp add: inv_low_def)
      with lowp show ?thesis by simp
    next
      assume ux: "u = v \<and> x = w"
      then have "p = v" using a(1) owner owner_gray [OF parts(1) _ vg]
        by (metis gray_stack [OF inv] stack_dom [OF inv] subsetI)
      with ux a(3) l(2) show ?thesis by simp
    qed
  qed
  ultimately show ?thesis by (simp add: tarjan_inv_def)
qed

subsection \<open>Discovering a node\<close>

lemma discover_inv:
  assumes inv: "tarjan_inv g s" and work: "t_work s = (v, w # ns) # rest" and w: "t_index s w = None"
  shows "tarjan_inv g (discover g w (s\<lparr>t_work := (v, ns) # rest\<rparr>))" (is "tarjan_inv g ?s'")
proof -
  note parts = tarjan_inv_parts [OF inv]
  have vg: "v \<in> gray s" using work by simp
  have v: "v \<in> set (t_stack s)" by (rule gray_stack [OF inv vg])
  have wv: "w \<in> set (succs g v)" using parts(4) work by (auto simp: inv_path_def)
  have wn: "w \<notin> dom (t_index s)" using w by auto
  then have ws: "w \<notin> set (t_stack s)" "w \<notin> closed_nodes s" using parts(2) by (auto simp: inv_stack_def)
  have gw: "w \<notin> gray s" using gray_stack [OF inv] ws(1) by blast
  have stack: "t_stack ?s' = w # t_stack s" and gray: "gray ?s' = insert w (gray s)"
    using work by (simp_all add: discover_def)
  have num: "num ?s' u = (if u = w then t_counter s else num s u)" for u by (simp add: discover_def)
  have low: "low ?s' u = (if u = w then t_counter s else low s u)" for u by (simp add: discover_def)
  have lt: "u \<in> set (t_stack s) \<Longrightarrow> num s u < t_counter s" for u
    using parts(1) stack_dom [OF inv, of u] by (auto simp: inv_numbers_def)
  have look: "looked g ?s' u x \<Longrightarrow> u \<noteq> w \<and> (looked g s u x \<or> u = v \<and> x = w)" for u x
    using work_unique [OF inv, of v "w # ns"] work gw
    by (auto simp: looked_def discover_def)
  have "t_index s y \<noteq> Some (t_counter s)" for y using parts(1) by (auto simp: inv_numbers_def)
  then have "inv_numbers g ?s'"
    using parts(1) w succs_nodes [of g v] wv
    by (auto simp: inv_numbers_def discover_def inj_on_def less_Suc_eq dom_def)
  moreover have "inv_stack ?s'"
    using parts(2) ws lt by (auto simp: inv_stack_def num stack) (auto simp: discover_def sorted_wrt_iff_nth_less)
  moreover have "inv_closed g ?s'" using parts(3) by (simp add: inv_closed_def discover_def)
  moreover have "inv_path g ?s'" unfolding inv_path_def
  proof (intro conjI ballI impI)
    have old: "sorted_wrt (\<lambda>a b. num s b < num s a) (v # map fst rest)"
      using parts(4) work by (simp add: inv_path_def)
    have same: "num ?s' a = num s a \<and> num s a < t_counter s" if "a \<in> set (v # map fst rest)" for a
    proof -
      have "a \<in> gray s" using that work by auto
      then show ?thesis using gw lt gray_stack [OF inv] by (auto simp: num)
    qed
    have "sorted_wrt (\<lambda>a b. num ?s' b < num ?s' a) (v # map fst rest)"
      by (rule sorted_wrt_mono_rel [OF _ old]) (use same in presburger)
    moreover have "\<forall>a\<in>set (v # map fst rest). num ?s' a < num ?s' w" using same num by simp
    ultimately have "sorted_wrt (\<lambda>a b. num ?s' b < num ?s' a) (w # v # map fst rest)" by simp
    then show "sorted_wrt (\<lambda>a b. num ?s' b < num ?s' a) (map fst (t_work ?s'))"
      by (simp add: discover_def)
    show "gray ?s' \<subseteq> set (t_stack ?s')" using gray stack gray_stack [OF inv] by auto
    show "case e of (v, ns) \<Rightarrow> set ns \<subseteq> set (succs g v)" if "e \<in> set (t_work ?s')" for e
      using that parts(4) work by (auto simp: inv_path_def discover_def)
    show "reach g p u" if "p \<in> gray ?s'" "u \<in> set (t_stack ?s')" "num ?s' p \<le> num ?s' u" for p u
    proof (cases "p = w")
      case True
      then have "u = w" using that(2,3) lt [of u] by (auto simp: num stack split: if_splits)
      with True show ?thesis by simp
    next
      case False
      then have p: "p \<in> gray s" using that(1) gray by simp
      then have "reach g p v" using path_down [OF inv p v] top_largest [OF inv work p] by blast
      then have "reach g p w" using reach_edge [OF wv] by (rule rtrancl_trans)
      then show ?thesis using that(2,3) False path_down [OF inv p, of u]
        by (cases "u = w") (auto simp: num stack)
    qed
    show "\<exists>p\<in>gray ?s'. num ?s' p \<le> num ?s' u \<and> reach g u p" if "u \<in> set (t_stack ?s')" for u
    proof (cases "u = w")
      case True
      then show ?thesis using gray by auto
    next
      case False
      then have "u \<in> set (t_stack s)" using that stack by simp
      then obtain p where "p \<in> gray s" "num s p \<le> num s u" "reach g u p" by (rule path_up [OF inv])
      then show ?thesis using False gray gw num by (metis insertI2)
    qed
  qed
  moreover have "inv_edges g ?s'" unfolding inv_edges_def
  proof (intro ballI allI impI)
    fix u x assume "u \<in> set (t_stack ?s')" "looked g ?s' u x"
    then have "x \<in> dom (t_index s) \<or> x = w" using look [of u x] parts(5) stack by (auto simp: inv_edges_def)
    then show "x \<in> dom (t_index ?s')" by (auto simp: discover_def)
  qed
  moreover have "inv_low g ?s'" unfolding inv_low_def
  proof (intro conjI ballI allI impI)
    fix u assume u: "u \<in> set (t_stack ?s')"
    show "\<exists>x\<in>set (t_stack ?s'). low ?s' u = num ?s' x \<and> num ?s' x \<le> num ?s' u \<and> reach g u x"
    proof (cases "u = w")
      case True
      then show ?thesis using num low stack by auto
    next
      case False
      with u obtain x where "x \<in> set (t_stack s)" "low s u = num s x" "num s x \<le> num s u" "reach g u x"
        using parts(6) stack by (auto simp: inv_low_def)
      then show ?thesis using False ws(1) num low stack by (intro bexI [of _ x]) auto
    qed
  next
    fix p u x assume a: "owner ?s' p u" "u \<in> set (t_stack ?s')" "x \<in> set (t_stack ?s')" "looked g ?s' u x"
    from look [OF a(4)] have u: "u \<noteq> w" "u \<in> set (t_stack s)" using a(2) stack by auto
    have p: "p \<noteq> w" using a(1) u lt [of u] by (auto simp: owner_def num)
    then have own: "owner s p u" using a(1) u gw lt [of u] by (auto simp: owner_def num gray split: if_splits)
    have "p \<in> set (t_stack s)" using own gray_stack [OF inv] by (simp add: owner_def)
    then have "low s p < t_counter s" using low_le_num [OF inv] lt le_less_trans by blast
    moreover have "low s p \<le> num s x" if "x \<noteq> w"
      using parts(6) own u a(3) that look [OF a(4)] stack by (auto simp: inv_low_def)
    ultimately show "low ?s' p \<le> num ?s' x" using p by (simp add: num low)
  qed
  ultimately show ?thesis by (simp add: tarjan_inv_def)
qed

subsection \<open>Leaving a node that is not a root\<close>

lemma not_gray_above:
  assumes inv: "tarjan_inv g s" and work: "t_work s = (v, ns) # rest"
    and u: "u \<in> gray s" "num s v \<le> num s u"
  shows "u = v"
proof -
  have "num s u = num s v" using top_largest [OF inv work u(1)] u(2) by simp
  then show ?thesis
    using num_inj [OF tarjan_inv_parts(1) [OF inv]] stack_dom [OF inv] gray_stack [OF inv] u(1) work
    by (metis image_eqI fst_conv list.set_intros(1))
qed

lemma looked_finish:
  assumes inv: "tarjan_inv g s" and work: "t_work s = (v, []) # rest" and s': "t_work s' = rest"
  shows "looked g s' u x = looked g s u x"
  using work_unique [OF inv, of v "[]"] work s' by (auto simp: looked_def)

lemma leave_inv:
  assumes inv: "tarjan_inv g s" and work: "t_work s = (v, []) # (p, nsp) # rest"
    and lv: "low s v < num s v"
  shows "tarjan_inv g (s\<lparr>t_work := (p, nsp) # rest,
                        t_lowlink := (t_lowlink s)(p \<mapsto> min (low s p) (low s v))\<rparr>)"
    (is "tarjan_inv g ?s'")
proof -
  note parts = tarjan_inv_parts [OF inv]
  let ?st = "set (t_stack s)"
  have v: "v \<in> ?st" and p: "p \<in> ?st" using gray_stack [OF inv] work by auto
  have pd: "p \<in> dom (t_index s)" by (rule stack_dom [OF inv p])
  have pv: "num s p < num s v" using parts(4) work by (simp add: inv_path_def)
  have gray: "gray s = insert v (gray ?s')" using work by auto
  have vg: "v \<notin> gray ?s'" using parts(4) work by (auto simp: inv_path_def)
  have look: "looked g ?s' u x = looked g s u x" for u x
    by (rule looked_finish [OF inv work]) simp
  obtain y where y: "y \<in> ?st" "low s v = num s y" "num s y \<le> num s v" "reach g v y"
    using parts(6) v by (auto simp: inv_low_def)
  obtain q where q: "q \<in> gray s" "num s q \<le> num s y" "reach g y q"
    by (rule path_up [OF inv y(1)])
  have qv: "q \<in> gray ?s'" using q(1,2) gray y(2) lv by auto
  have "inv_numbers g ?s'" using parts(1) pd by (auto simp: inv_numbers_def)
  moreover have "inv_stack ?s'" using parts(2) by (simp add: inv_stack_def)
  moreover have "inv_closed g ?s'" using parts(3) by (simp add: inv_closed_def)
  moreover have "inv_path g ?s'"
  proof -
    have "\<exists>r\<in>gray ?s'. num s r \<le> num s u \<and> reach g u r" if u: "u \<in> ?st" for u
    proof -
      obtain r where r: "r \<in> gray s" "num s r \<le> num s u" "reach g u r"
        by (rule path_up [OF inv u])
      show ?thesis
      proof (cases "r = v")
        case True
        then have "num s q \<le> num s u" "reach g u q"
          using r q(2,3) y by (auto intro: rtrancl_trans)
        with qv show ?thesis by blast
      qed (use r gray in auto)
    qed
    then show ?thesis using parts(4) work gray unfolding inv_path_def by auto
  qed
  moreover have "inv_edges g ?s'" using parts(5) look by (simp add: inv_edges_def)
  moreover have "inv_low g ?s'" unfolding inv_low_def
  proof (intro conjI ballI allI impI)
    fix u assume "u \<in> set (t_stack ?s')"
    then obtain x where x: "x \<in> ?st" "low s u = num s x" "num s x \<le> num s u" "reach g u x"
      using parts(6) by (auto simp: inv_low_def)
    show "\<exists>x\<in>set (t_stack ?s'). low ?s' u = num ?s' x \<and> num ?s' x \<le> num ?s' u \<and> reach g u x"
    proof (cases "u = p \<and> low s v < low s p")
      case True
      have "reach g p v" using parts(4) work p v pv by (auto simp: inv_path_def)
      then have "reach g p y" using y(4) by (rule rtrancl_trans)
      then show ?thesis using True x y by auto
    qed (use x in auto)
  next
    fix r u x assume a: "owner ?s' r u" "u \<in> set (t_stack ?s')" "x \<in> set (t_stack ?s')" "looked g ?s' u x"
    have lowr: "low ?s' r \<le> low s r" by simp
    show "low ?s' r \<le> num ?s' x"
    proof (cases "num s v \<le> num s u")
      case True
      then have "owner s v u" using top_largest [OF inv work] work by (auto simp: owner_def)
      then have "low s v \<le> num s x" using a look parts(6) by (simp add: inv_low_def)
      moreover have "r = p"
      proof -
        have "num s p \<le> num s r" using a(1) pv True by (auto simp: owner_def)
        moreover have "num s r \<le> num s p" "r \<in> dom (t_index s)"
          using a(1) parts(4) work gray_stack [OF inv, of r] stack_dom [OF inv, of r] gray
          by (auto simp: owner_def inv_path_def)
        ultimately show ?thesis using num_inj [OF parts(1) _ pd, of r] by auto
      qed
      ultimately show ?thesis by simp
    next
      case False
      then have "owner s r u" using a(1) gray by (auto simp: owner_def)
      then have "low s r \<le> num s x" using a look parts(6) by (simp add: inv_low_def)
      with lowr show ?thesis by simp
    qed
  qed
  ultimately show ?thesis by (simp add: tarjan_inv_def)
qed

subsection \<open>Closing a component\<close>

lemma pop_scc_split:
  "v \<in> set st \<Longrightarrow> \<exists>a b. pop_scc v st = Some (a @ [v], b) \<and> st = a @ v # b"
  by (induction st) fastforce+

definition close_scc :: "nat list \<Rightarrow> nat list \<Rightarrow> (nat \<times> nat list) list \<Rightarrow> tarjan \<Rightarrow> tarjan" where
  "close_scc scc st' rest s =
     s\<lparr>t_work := rest, t_stack := st', t_on_stack := t_on_stack s - set scc, t_sccs := t_sccs s @ [scc]\<rparr>"

lemma exhausted_top:
  assumes inv: "tarjan_inv g s" and work: "t_work s = (v, []) # rest" and u: "num s v \<le> num s u"
    and x: "x \<in> set (succs g u)"
  shows "looked g s u x"
proof -
  have "ns = []" if "(u, ns) \<in> set (t_work s)" for ns
  proof -
    have "u = v" by (rule not_gray_above [OF inv work _ u]) (use that in force)
    then show ?thesis using work_unique [OF inv that, of "[]"] work by simp
  qed
  then show ?thesis using x by (force simp: looked_def)
qed

lemma closed_succs:
  "tarjan_inv g s \<Longrightarrow> u \<in> closed_nodes s \<Longrightarrow> x \<in> set (succs g u) \<Longrightarrow> x \<in> closed_nodes s"
  by (drule tarjan_inv_parts(3)) (simp only: inv_closed_def subset_iff)

lemma component_closed:
  assumes inv: "tarjan_inv g s" and work: "t_work s = (v, []) # rest" and rt: "low s v = num s v"
    and u: "u \<in> set (t_stack s)" "num s v \<le> num s u" and x: "x \<in> set (succs g u)"
  shows "x \<in> closed_nodes s \<or> x \<in> set (t_stack s) \<and> num s v \<le> num s x"
proof -
  note parts = tarjan_inv_parts [OF inv]
  have look: "looked g s u x" by (rule exhausted_top [OF inv work u(2) x])
  then have "x \<in> dom (t_index s)" using parts(5) u(1) by (auto simp: inv_edges_def)
  then consider "x \<in> closed_nodes s" | "x \<in> set (t_stack s)" using parts(2) by (auto simp: inv_stack_def)
  then show ?thesis
  proof cases
    case 2
    have "owner s v u" using u(2) top_largest [OF inv work] work by (auto simp: owner_def)
    then have "low s v \<le> num s x" using parts(6) u(1) 2 look by (auto simp: inv_low_def)
    with rt 2 show ?thesis by simp
  qed simp
qed

lemma component_is_scc:
  assumes inv: "tarjan_inv g s" and work: "t_work s = (v, []) # rest" and rt: "low s v = num s v"
  shows "{u \<in> set (t_stack s). num s v \<le> num s u} = scc_of g v" (is "?C = _")
proof -
  note parts = tarjan_inv_parts [OF inv]
  have vg: "v \<in> gray s" using work by simp
  have v: "v \<in> set (t_stack s)" by (rule gray_stack [OF inv vg])
  have closed: "b \<in> ?C \<union> closed_nodes s" if "reach g a b" "a \<in> ?C" for a b
  proof (rule reach_closed [OF that(1)])
    fix u x assume "u \<in> ?C \<union> closed_nodes s" and x: "x \<in> set (succs g u)"
    then consider "u \<in> set (t_stack s)" "num s v \<le> num s u" | "u \<in> closed_nodes s" by blast
    then show "x \<in> ?C \<union> closed_nodes s"
      by cases (use component_closed [OF inv work rt _ _ x] closed_succs [OF inv _ x] in blast)+
  qed (use that(2) in blast)
  have disj: "set (t_stack s) \<inter> closed_nodes s = {}" using parts(2) by (simp add: inv_stack_def)
  show ?thesis
  proof (intro equalityI subsetI)
    fix u assume u: "u \<in> ?C"
    then obtain p where p: "p \<in> gray s" "reach g u p" using path_up [OF inv] by blast
    then have "p \<in> ?C" using closed [OF p(2) u] gray_stack [OF inv p(1)] disj by blast
    then have "p = v" using not_gray_above [OF inv work p(1)] by simp
    with p(2) u path_down [OF inv vg, of u] show "u \<in> scc_of g v" by (simp add: scc_of_def)
  next
    fix x assume "x \<in> scc_of g v"
    then have x: "reach g v x" "reach g x v" by (auto simp: scc_of_def)
    have "v \<in> closed_nodes s" if "x \<in> closed_nodes s"
      by (rule reach_closed [OF x(2) that]) (rule closed_succs [OF inv])
    then show "x \<in> ?C" using closed [OF x(1)] v disj by blast
  qed
qed

lemma pop_splits_stack:
  assumes inv: "tarjan_inv g s" and v: "v \<in> set (t_stack s)"
  obtains scc st' where "pop_scc v (t_stack s) = Some (scc, st')" "t_stack s = scc @ st'" "scc \<noteq> []"
    "distinct scc" "set scc = {u \<in> set (t_stack s). num s v \<le> num s u}"
    "set st' = {u \<in> set (t_stack s). num s u < num s v}"
proof -
  from pop_scc_split [OF v] obtain a b where ab:
    "pop_scc v (t_stack s) = Some (a @ [v], b)" "t_stack s = a @ v # b" by blast
  have sorted: "sorted_wrt (\<lambda>a b. num s b < num s a) (t_stack s)"
    using tarjan_inv_parts(2) [OF inv] by (simp add: inv_stack_def)
  have "distinct (t_stack s)"
    using sorted by (induction "t_stack s" rule: list.induct)
      (auto simp: distinct_conv_nth sorted_wrt_iff_nth_less, metis less_irrefl linorder_neqE_nat)+
  moreover have "\<forall>u\<in>set a. num s v < num s u" "\<forall>u\<in>set b. num s u < num s v"
    using sorted by (auto simp: ab sorted_wrt_append)
  ultimately show thesis using ab by (intro that [of "a @ [v]" b]) (auto simp: not_le)
qed

lemma close_inv:
  assumes inv: "tarjan_inv g s" and work: "t_work s = (v, []) # rest" and rt: "low s v = num s v"
    and pop: "t_stack s = scc @ st'" "scc \<noteq> []" "distinct scc"
      "set scc = {u \<in> set (t_stack s). num s v \<le> num s u}"
      "set st' = {u \<in> set (t_stack s). num s u < num s v}"
  shows "tarjan_inv g (close_scc scc st' rest s)" (is "tarjan_inv g ?s'")
proof -
  note parts = tarjan_inv_parts [OF inv]
  have vg: "v \<in> gray s" using work by simp
  have v: "v \<in> set scc" using gray_stack [OF inv vg] pop(4) by simp
  have C: "set scc = scc_of g v" using component_is_scc [OF inv work rt] pop(4) by simp
  have gray: "gray s = insert v (gray ?s')" using work by (simp add: close_scc_def)
  have below: "num s q < num s v" if "q \<in> gray ?s'" for q
    using that parts(4) work by (auto simp: inv_path_def close_scc_def)
  have closed: "closed_nodes ?s' = closed_nodes s \<union> set scc" by (simp add: close_scc_def Un_commute)
  have look: "looked g ?s' u x = looked g s u x" for u x
    by (rule looked_finish [OF inv work]) (simp add: close_scc_def)
  have fields: "t_index ?s' = t_index s" "t_lowlink ?s' = t_lowlink s" "t_counter ?s' = t_counter s"
    "t_stack ?s' = st'" "t_work ?s' = rest" "t_on_stack ?s' = t_on_stack s - set scc"
    by (simp_all add: close_scc_def)
  have stack: "set (t_stack s) = set scc \<union> set st'" by (simp only: pop(1) set_append)
  have disj: "set scc \<inter> set st' = {}" unfolding pop(4,5) by auto
  have "inv_numbers g ?s'" using parts(1) by (simp add: inv_numbers_def fields)
  moreover have "inv_stack ?s'"
  proof -
    have "sorted_wrt (\<lambda>a b. num s b < num s a) st'"
      using parts(2) pop(1) by (simp add: inv_stack_def sorted_wrt_append)
    moreover have "t_on_stack s - set scc = set st'"
      using parts(2) stack disj by (simp add: inv_stack_def) blast
    moreover have "dom (t_index s) = set st' \<union> (closed_nodes s \<union> set scc)"
      using parts(2) stack by (simp add: inv_stack_def Un_ac)
    moreover have "set st' \<inter> (closed_nodes s \<union> set scc) = {}"
      using parts(2) stack disj by (simp add: inv_stack_def) blast
    ultimately show ?thesis unfolding inv_stack_def fields closed by (intro conjI)
  qed
  moreover have "inv_closed g ?s'"
  proof -
    have "v \<notin> closed_nodes s" using v stack parts(2) by (auto simp: inv_stack_def)
    then have "set scc \<notin> set (map set (t_sccs s))" using v by auto
    moreover have "\<forall>u\<in>set scc. set scc = scc_of g u" using C scc_of_same by blast
    moreover have "\<forall>u\<in>closed_nodes ?s'. set (succs g u) \<subseteq> closed_nodes ?s'"
      unfolding closed
    proof (intro ballI subsetI)
      fix u x assume u: "u \<in> closed_nodes s \<union> set scc" and x: "x \<in> set (succs g u)"
      show "x \<in> closed_nodes s \<union> set scc"
      proof (cases "u \<in> closed_nodes s")
        case True
        then have "x \<in> closed_nodes s" by (rule closed_succs [OF inv _ x])
        then show ?thesis by (rule UnI1)
      next
        case False
        then have "u \<in> set (t_stack s)" "num s v \<le> num s u" using u pop(4) by blast+
        then show ?thesis using component_closed [OF inv work rt _ _ x] pop(4) by blast
      qed
    qed
    moreover have "t_sccs ?s' = t_sccs s @ [scc]" by (simp add: close_scc_def)
    ultimately show ?thesis using parts(3) pop(2,3)
      unfolding inv_closed_def by simp
  qed
  moreover have "inv_path g ?s'"
  proof -
    have "gray ?s' \<subseteq> set st'" using below gray gray_stack [OF inv] pop(5) by blast
    moreover have "\<exists>p\<in>gray ?s'. num s p \<le> num s u \<and> reach g u p" if "u \<in> set st'" for u
    proof -
      have u: "u \<in> set (t_stack s)" "num s u < num s v" using that pop(5) by auto
      obtain p where "p \<in> gray s" "num s p \<le> num s u" "reach g u p" by (rule path_up [OF inv u(1)])
      then show ?thesis using gray u(2) by auto
    qed
    ultimately show ?thesis using parts(4) work gray stack
      unfolding inv_path_def fields by auto
  qed
  moreover have "inv_edges g ?s'" using parts(5) stack unfolding inv_edges_def fields look by blast
  moreover have "inv_low g ?s'" unfolding inv_low_def fields look
  proof (intro conjI ballI allI impI)
    fix u assume u: "u \<in> set st'"
    then have "u \<in> set (t_stack s)" using stack by blast
    then obtain x where "x \<in> set (t_stack s)" "low s u = num s x" "num s x \<le> num s u" "reach g u x"
      using parts(6) by (auto simp: inv_low_def)
    then show "\<exists>x\<in>set st'. low s u = num s x \<and> num s x \<le> num s u \<and> reach g u x"
      using u pop(5) by (intro bexI [of _ x]) auto
  next
    fix p u x assume a: "owner ?s' p u" "u \<in> set st'" "x \<in> set st'" "looked g s u x"
    then have "owner s p u" using gray pop(5) by (auto simp: owner_def fields)
    then show "low s p \<le> num s x" using a parts(6) stack by (auto simp: inv_low_def)
  qed
  ultimately show ?thesis by (simp add: tarjan_inv_def)
qed

section \<open>The run\<close>

lemma stack_low: "tarjan_inv g s \<Longrightarrow> u \<in> set (t_stack s) \<Longrightarrow> t_lowlink s u = Some (low s u)"
proof -
  assume inv: "tarjan_inv g s" and u: "u \<in> set (t_stack s)"
  have "u \<in> dom (t_lowlink s)"
    using stack_dom [OF inv u] tarjan_inv_parts(1) [OF inv] by (simp add: inv_numbers_def)
  then show "t_lowlink s u = Some (low s u)" by auto
qed

lemma visit_inv:
  assumes inv: "tarjan_inv g s" and work: "t_work s = (v, w # ns) # rest"
  shows "\<exists>s'. visit g v w ns rest s = Some s' \<and> tarjan_inv g s'"
proof (cases "t_index s w")
  case None
  have "t_index s v \<noteq> None"
    using stack_dom [OF inv gray_stack [OF inv, of v]] work by auto
  with None discover_inv [OF inv work None] show ?thesis by (auto simp: visit_def Let_def)
next
  case (Some iw)
  have v: "v \<in> set (t_stack s)" using gray_stack [OF inv] work by simp
  note lv = stack_low [OF inv v]
  have on: "t_on_stack s = set (t_stack s)" using tarjan_inv_parts(2) [OF inv] by (simp add: inv_stack_def)
  have same: "(t_lowlink s)(v \<mapsto> low s v) = t_lowlink s" using lv by (simp add: fun_upd_idem)
  have wd: "w \<in> dom (t_index s)" using Some by auto
  show ?thesis
  proof (cases "w \<in> set (t_stack s) \<and> w \<noteq> v")
    case True
    have "tarjan_inv g (s\<lparr>t_work := (v, ns) # rest, t_lowlink := (t_lowlink s)(v \<mapsto> min (low s v) iw)\<rparr>)"
      by (rule advance_inv [OF inv work wd]) (use True Some in \<open>auto simp: min_def\<close>)
    moreover have "visit g v w ns rest s =
        Some (s\<lparr>t_work := (v, ns) # rest, t_lowlink := (t_lowlink s)(v \<mapsto> min (low s v) iw)\<rparr>)"
      using True Some on by (subst visit_def, subst lv) (simp add: Let_def)
    ultimately show ?thesis by blast
  next
    case False
    have "tarjan_inv g (s\<lparr>t_work := (v, ns) # rest, t_lowlink := (t_lowlink s)(v \<mapsto> low s v)\<rparr>)"
      by (rule advance_inv [OF inv work wd]) (use False low_le_num [OF inv v] in auto)
    moreover have "visit g v w ns rest s = Some (s\<lparr>t_work := (v, ns) # rest\<rparr>)"
      using False Some on by (simp add: visit_def Let_def)
    ultimately show ?thesis by (simp add: same)
  qed
qed

lemma finish_inv:
  assumes inv: "tarjan_inv g s" and work: "t_work s = (v, []) # rest"
  shows "\<exists>s'. finish v rest s = Some s' \<and> tarjan_inv g s'"
proof -
  have v: "v \<in> set (t_stack s)" using gray_stack [OF inv] work by simp
  note lv = stack_low [OF inv v]
  have iv: "t_index s v = Some (num s v)" using stack_dom [OF inv v] by auto
  have below: "p \<noteq> v \<and> p \<in> set (t_stack s) \<and> low s p \<le> num s p \<and> num s p < num s v"
    if "(p, nsp) \<in> set rest" for p nsp
  proof -
    have "num s p < num s v" using tarjan_inv_parts(4) [OF inv] work that by (auto simp: inv_path_def)
    moreover have "p \<in> set (t_stack s)" using gray_stack [OF inv, of p] work that by force
    ultimately show ?thesis using low_le_num [OF inv] by auto
  qed
  show ?thesis
  proof (cases "low s v = num s v")
    case True
    obtain scc st' where pop: "pop_scc v (t_stack s) = Some (scc, st')" "t_stack s = scc @ st'" "scc \<noteq> []"
      "distinct scc" "set scc = {u \<in> set (t_stack s). num s v \<le> num s u}"
      "set st' = {u \<in> set (t_stack s). num s u < num s v}"
      by (rule pop_splits_stack [OF inv v])
    have "propagate (low s v) rest (s\<lparr>t_work := rest\<rparr>) = Some (s\<lparr>t_work := rest\<rparr>)"
    proof (cases rest)
      case (Cons e rest')
      obtain p nsp where e: "e = (p, nsp)" by (cases e)
      note b = below [of p nsp]
      obtain lp where "t_lowlink s p = Some lp" "min lp (low s v) = lp"
        using b Cons e True stack_low [OF inv, of p] by fastforce
      then show ?thesis using Cons e by (simp add: propagate_def fun_upd_idem)
    qed (simp add: propagate_def)
    moreover obtain n where "t_lowlink s v = Some n" "t_index s v = Some n" using lv iv True by simp
    ultimately have "finish v rest s = Some (close_scc scc st' rest s)"
      using pop(1) by (simp add: finish_def close_scc_def)
    then show ?thesis using close_inv [OF inv work True pop(2-)] by simp
  next
    case False
    then have lt: "low s v < num s v" using low_le_num [OF inv v] by simp
    have "rest \<noteq> []"
    proof
      assume "rest = []"
      obtain y where y: "y \<in> set (t_stack s)" "low s v = num s y"
        using tarjan_inv_parts(6) [OF inv] v by (auto simp: inv_low_def)
      obtain q where "q \<in> gray s" "num s q \<le> num s y" by (rule path_up [OF inv y(1)])
      with \<open>rest = []\<close> work y(2) lt show False by simp
    qed
    then obtain p nsp rest' where rest: "rest = (p, nsp) # rest'" by (cases rest) auto
    have pv: "p \<noteq> v" "p \<in> set (t_stack s)" using below [of p nsp] rest by auto
    obtain lp l n where "t_lowlink s p = Some lp" "t_lowlink s v = Some l" "t_index s v = Some n" "l \<noteq> n"
      using stack_low [OF inv pv(2)] lv iv False by blast
    then have "finish v rest s = Some (s\<lparr>t_work := (p, nsp) # rest',
                 t_lowlink := (t_lowlink s)(p \<mapsto> min (low s p) (low s v))\<rparr>)"
      using rest pv(1) by (simp add: finish_def propagate_def)
    then show ?thesis using leave_inv [OF inv _ lt] work rest by simp
  qed
qed

lemma step_inv:
  assumes "tarjan_inv g s" "t_work s \<noteq> []"
  shows "\<exists>s'. tarjan_step g s = Some s' \<and> tarjan_inv g s'"
  using assms visit_inv [OF assms(1)] finish_inv [OF assms(1)]
  by (auto simp: tarjan_step_def neq_Nil_conv split: list.splits)

lemma step_index_mono: "tarjan_step g s = Some s' \<Longrightarrow> dom (t_index s) \<subseteq> dom (t_index s')"
  by (auto simp: tarjan_step_def visit_def finish_def propagate_def discover_def Let_def
      split: list.splits option.splits if_splits prod.splits)

lemma work_loop_inv:
  "tarjan_inv g s \<Longrightarrow> \<exists>s'. work_loop g s = Some s' \<and> tarjan_inv g s' \<and> t_work s' = [] \<and>
     dom (t_index s) \<subseteq> dom (t_index s')"
proof (induction g s rule: work_loop.induct)
  case (1 g s)
  show ?case
  proof (cases "t_work s = []")
    case True
    with 1 show ?thesis by (simp add: work_loop.simps)
  next
    case False
    obtain s' where s': "tarjan_step g s = Some s'" "tarjan_inv g s'"
      using step_inv [OF 1(2) False] by blast
    then obtain t where "work_loop g s' = Some t" "tarjan_inv g t" "t_work t = []"
      "dom (t_index s') \<subseteq> dom (t_index t)" using 1(1) False by blast
    then show ?thesis using s' False step_index_mono [OF s'(1)]
      by (auto simp: work_loop.simps [of g s])
  qed
qed

lemma idle_stack: "tarjan_inv g s \<Longrightarrow> t_work s = [] \<Longrightarrow> t_stack s = []"
  by (cases "t_stack s") (auto simp: tarjan_inv_def inv_path_def)

lemma start_inv:
  assumes inv: "tarjan_inv g s" and work: "t_work s = []" and v: "t_index s v = None" "v \<in> nodes g"
  shows "tarjan_inv g (discover g v s)" (is "tarjan_inv g ?s'")
proof -
  note parts = tarjan_inv_parts [OF inv]
  have st: "t_stack s = []" by (rule idle_stack [OF inv work])
  have fresh: "t_index s y \<noteq> Some (t_counter s)" for y using parts(1) by (auto simp: inv_numbers_def)
  have vn: "v \<notin> closed_nodes s" using v parts(2) st by (auto simp: inv_stack_def)
  have "inv_numbers g ?s'"
    using parts(1) v fresh by (auto simp: inv_numbers_def discover_def inj_on_def less_Suc_eq dom_def)
  moreover have "inv_stack ?s'"
    using parts(2) st vn by (auto simp: inv_stack_def discover_def)
  moreover have "inv_closed g ?s'" using parts(3) by (simp add: inv_closed_def discover_def)
  moreover have "inv_path g ?s'" "inv_edges g ?s'" "inv_low g ?s'"
    using st work by (auto simp: inv_path_def inv_edges_def inv_low_def looked_def discover_def)
  ultimately show ?thesis by (simp add: tarjan_inv_def)
qed

lemma run_keys_inv:
  assumes "tarjan_inv g s" "t_work s = []" "set vs \<subseteq> nodes g"
  shows "\<exists>s'. run_keys g vs s = Some s' \<and> tarjan_inv g s' \<and> t_work s' = [] \<and>
           dom (t_index s) \<union> set vs \<subseteq> dom (t_index s')"
  using assms
proof (induction vs arbitrary: s)
  case (Cons v vs)
  show ?case
  proof (cases "t_index s v")
    case None
    obtain s' where s': "work_loop g (discover g v s) = Some s'" "tarjan_inv g s'" "t_work s' = []"
      "dom (t_index (discover g v s)) \<subseteq> dom (t_index s')"
      using work_loop_inv [OF start_inv [OF Cons.prems(1,2) None]] Cons.prems(3) by auto
    obtain t where t: "run_keys g vs s' = Some t" "tarjan_inv g t" "t_work t = []"
      "dom (t_index s') \<union> set vs \<subseteq> dom (t_index t)"
      using Cons.IH [OF s'(2,3)] Cons.prems(3) by auto
    have "insert v (dom (t_index s)) \<subseteq> dom (t_index s')" using s'(4) by (auto simp: discover_def)
    moreover have "s\<lparr>t_work := []\<rparr> = s" using Cons.prems(2) by simp
    ultimately have "run_keys g (v # vs) s = Some t" "insert v (dom (t_index s)) \<subseteq> dom (t_index t)"
      using None s'(1) t(1,4) by (simp add: strongconnect_def, blast)
    moreover have "set vs \<subseteq> dom (t_index t)" using t(4) by blast
    ultimately have "dom (t_index s) \<union> set (v # vs) \<subseteq> dom (t_index t)" "run_keys g (v # vs) s = Some t"
      by simp_all
    then show ?thesis using t(2,3) by blast
  next
    case (Some n)
    then have "v \<in> dom (t_index s)" by auto
    then show ?thesis using Cons.IH [OF Cons.prems(1,2)] Cons.prems(3) Some by simp blast
  qed
qed simp

lemma init_inv: "tarjan_inv g init_tarjan"
  by (simp add: tarjan_inv_def inv_defs init_tarjan_def)

lemma nodes_closed:
  assumes "dict_wf g" "dict_keys g \<noteq> [] \<longrightarrow> set (dict_keys g) \<subseteq> C"
    and "\<And>u x. u \<in> C \<Longrightarrow> x \<in> set (succs g u) \<Longrightarrow> x \<in> C"
  shows "nodes g \<subseteq> C"
proof -
  have "set ns \<subseteq> C" if "(u, ns) \<in> set g" for u ns
  proof -
    have "succs g u = ns" using that assms(1) by (simp add: succs_def dict_wf_def)
    moreover have "u \<in> C" using that assms(2) by force
    ultimately show ?thesis using assms(3) by blast
  qed
  then show ?thesis using assms(2) by (force simp: nodes_def)
qed

text \<open>
  The contract the ring search relies on: the components partition the nodes of the graph,
  each listed once and without repetition.
\<close>

definition scc_partition :: "int_graph \<Rightarrow> nat list list \<Rightarrow> bool" where
  "scc_partition g cs \<longleftrightarrow>
     set ` set cs = scc_of g ` nodes g \<and> distinct (map set cs) \<and> (\<forall>c\<in>set cs. distinct c)"

lemma tarjan_run_partition:
  assumes wf: "dict_wf g"
  shows "\<exists>cs. tarjan_run g = Some cs \<and> scc_partition g cs"
proof -
  have "set (dict_keys g) \<subseteq> nodes g" by (auto simp: nodes_def)
  then obtain s where s: "run_keys g (dict_keys g) init_tarjan = Some s" "tarjan_inv g s" "t_work s = []"
    "set (dict_keys g) \<subseteq> dom (t_index s)"
    using run_keys_inv [OF init_inv] by (fastforce simp: init_tarjan_def)
  have dom: "dom (t_index s) = closed_nodes s"
    using idle_stack [OF s(2,3)] tarjan_inv_parts(2) [OF s(2)] by (simp add: inv_stack_def)
  have "dom (t_index s) \<subseteq> nodes g" using tarjan_inv_parts(1) [OF s(2)] by (simp add: inv_numbers_def)
  moreover have "nodes g \<subseteq> closed_nodes s"
    by (rule nodes_closed [OF wf]) (use s(4) dom in simp, rule closed_succs [OF s(2)])
  ultimately have nodes: "nodes g = closed_nodes s" using dom by simp
  have comp: "\<forall>c\<in>set (t_sccs s). c \<noteq> [] \<and> distinct c \<and> (\<forall>v\<in>set c. set c = scc_of g v)"
    "distinct (map set (t_sccs s))"
    using tarjan_inv_parts(3) [OF s(2)] by (auto simp: inv_closed_def)
  have "set ` set (t_sccs s) = scc_of g ` closed_nodes s"
  proof (intro equalityI subsetI)
    fix X assume "X \<in> set ` set (t_sccs s)"
    then obtain c where c: "c \<in> set (t_sccs s)" "X = set c" by blast
    then obtain v where "v \<in> set c" using comp(1) by (meson list.set_sel(1))
    then show "X \<in> scc_of g ` closed_nodes s" using c comp(1) by blast
  next
    fix X assume "X \<in> scc_of g ` closed_nodes s"
    then obtain c v where "c \<in> set (t_sccs s)" "v \<in> set c" "X = scc_of g v" by blast
    then show "X \<in> set ` set (t_sccs s)" using comp(1) by blast
  qed
  then show ?thesis using s(1) comp nodes by (auto simp: tarjan_run_def scc_partition_def)
qed

section \<open>What a client relies on\<close>

lemma reach_in_nodes: "reach g u x \<Longrightarrow> x = u \<or> x \<in> nodes g"
  by (erule rtrancl.cases) (use succs_nodes in \<open>auto simp: edges_def\<close>)

lemma finite_nodes: "finite (nodes g)"
  by (simp add: nodes_def)

lemma finite_scc_of: "finite (scc_of g v)"
  by (rule finite_subset [of _ "insert v (nodes g)"]) (auto simp: scc_of_def finite_nodes dest: reach_in_nodes)

lemma scc_of_self: "v \<in> scc_of g v"
  by (simp add: scc_of_def)

locale scc_finder =
  fixes run :: "int_graph \<Rightarrow> nat list list option"
  assumes finds: "dict_wf g \<Longrightarrow> \<exists>cs. run g = Some cs \<and> scc_partition g cs"
begin

lemma returns:
  assumes "dict_wf g"
  obtains cs where "run g = Some cs" "scc_partition g cs"
  using finds [OF assms] by blast

lemma component_card:
  assumes "scc_partition g cs" "c \<in> set cs"
  obtains v where "v \<in> nodes g" "set c = scc_of g v" "length c = card (scc_of g v)"
proof -
  have "set c \<in> scc_of g ` nodes g" using assms unfolding scc_partition_def by blast
  then obtain v where "v \<in> nodes g" "set c = scc_of g v" by blast
  moreover have "distinct c" using assms by (simp add: scc_partition_def)
  ultimately show thesis using that distinct_card by metis
qed

lemma large_component_iff:
  assumes "dict_wf g" "run g = Some cs"
  shows "(\<exists>c\<in>set cs. k \<le> length c) \<longleftrightarrow> (\<exists>v\<in>nodes g. k \<le> card (scc_of g v))"
proof -
  have part: "scc_partition g cs" using finds [OF assms(1)] assms(2) by simp
  show ?thesis
  proof
    assume "\<exists>c\<in>set cs. k \<le> length c"
    then show "\<exists>v\<in>nodes g. k \<le> card (scc_of g v)" using component_card [OF part] by metis
  next
    assume "\<exists>v\<in>nodes g. k \<le> card (scc_of g v)"
    then obtain v where v: "v \<in> nodes g" "k \<le> card (scc_of g v)" by blast
    then have "scc_of g v \<in> set ` set cs" using part by (simp add: scc_partition_def)
    then obtain c where c: "c \<in> set cs" "set c = scc_of g v" by blast
    then have "k \<le> length c" using v(2) card_length [of c] by simp
    with c(1) show "\<exists>c\<in>set cs. k \<le> length c" by blast
  qed
qed

end

interpretation tarjan: scc_finder tarjan_run
  by unfold_locales (rule tarjan_run_partition)

section \<open>Properties\<close>

text \<open>
  C2: on every adjacency dictionary \<open>IterativeTarjanSCC.run\<close> ends, raises no \<open>KeyError\<close> or
  \<open>IndexError\<close>, and returns exactly the strongly connected components of the graph: the
  components are those of the nodes (keys or neighbours), each reported once, and no
  component repeats a node.
\<close>

theorem tarjan_run_correct:
  "dict_wf g \<Longrightarrow> \<exists>cs. tarjan_run g = Some cs \<and> set ` set cs = scc_of g ` nodes g \<and>
     distinct (map set cs) \<and> (\<forall>c\<in>set cs. distinct c)"
  using tarjan_run_partition [of g] by (auto simp: scc_partition_def)

definition two_rings :: int_graph where
  "two_rings = [(0, [1]), (1, [2, 1]), (2, [0, 3]), (3, [4]), (4, [3, 5])]"

lemma two_rings_run: "tarjan_run two_rings = Some [[5], [4, 3], [2, 1, 0]]"
  by code_simp

theorem tarjan_run_correct_witness:
  "dict_wf two_rings \<and> scc_of two_rings ` nodes two_rings = {{5}, {3, 4}, {0, 1, 2}}"
proof -
  have wf: "dict_wf two_rings" by (simp add: dict_wf_def two_rings_def)
  from tarjan_run_correct [OF wf] two_rings_run
  have "set ` set [[5], [4, 3], [2, 1, 0]] = scc_of two_rings ` nodes two_rings" by auto
  with wf show ?thesis by (auto simp: insert_commute)
qed

end
