(* ===== verification/Bottleneck_Cycle.thy ===== *)
theory Bottleneck_Cycle
  imports Prelude "HOL-Library.Word"
begin

text \<open>
  \<open>_max_bottleneck_cycle\<close> of \<open>packages/core/detection/graph_engine.py\<close>: the volume of the
  strongest simple cycle of a suspected ring, computed by a dynamic program over
  subsets of nodes encoded as bit masks, and its equivalence with the definition
  of the quantity over all simple cycles. The table \<open>dp\<close> is a function of the mask
  and the local node; the loops are folds in the source's order.
\<close>

section \<open>The program\<close>

type_synonym adjacency = "(nat \<times> real) list list"

text \<open>A Python float that is \<open>-inf\<close>, finite or \<open>inf\<close>.\<close>

datatype bound = NegInf | Fin real | PosInf

type_synonym table = "nat \<Rightarrow> nat \<Rightarrow> bound"

fun narrow :: "bound \<Rightarrow> real \<Rightarrow> real" where
  "narrow (Fin b) weight = min b weight"
| "narrow _ weight = weight"

fun exceeds :: "real \<Rightarrow> bound \<Rightarrow> bool" where
  "exceeds c NegInf = True"
| "exceeds c (Fin b) = (b < c)"
| "exceeds c PosInf = False"

definition relax_edge :: "nat \<Rightarrow> nat \<Rightarrow> bound \<Rightarrow> nat \<times> real \<Rightarrow> table \<Rightarrow> table" where
  "relax_edge rt msk bottleneck e dp =
     (case e of (global_w, weight) \<Rightarrow>
        if global_w < rt then dp
        else let local_w = global_w - rt in
          if bit msk local_w then dp
          else let new_mask = set_bit local_w msk; candidate = narrow bottleneck weight in
            if exceeds candidate (dp new_mask local_w)
            then dp(new_mask := (dp new_mask)(local_w := Fin candidate)) else dp)"

definition relax_node :: "adjacency \<Rightarrow> nat \<Rightarrow> nat \<Rightarrow> nat \<Rightarrow> table \<Rightarrow> table" where
  "relax_node adj rt msk local_v dp =
     (let bottleneck = dp msk local_v in
      if bottleneck = NegInf then dp
      else fold (relax_edge rt msk bottleneck) (adj ! (rt + local_v)) dp)"

definition relax_mask :: "adjacency \<Rightarrow> nat \<Rightarrow> nat \<Rightarrow> nat \<Rightarrow> table \<Rightarrow> table" where
  "relax_mask adj rt spn msk dp = fold (relax_node adj rt msk) [0..<spn] dp"

definition initial_table :: table where
  "initial_table = (\<lambda>_ _. NegInf)(1 := (\<lambda>_. NegInf)(0 := PosInf))"

definition path_table :: "adjacency \<Rightarrow> nat \<Rightarrow> nat \<Rightarrow> table" where
  "path_table adj rt spn = fold (relax_mask adj rt spn) [1..<2 ^ spn] initial_table"

fun bit_count :: "nat \<Rightarrow> nat" where
  "bit_count m = (if m = 0 then 0 else m mod 2 + bit_count (m div 2))"

declare bit_count.simps [simp del]

definition close_edge :: "nat \<Rightarrow> bound \<Rightarrow> nat \<times> real \<Rightarrow> real \<Rightarrow> real" where
  "close_edge rt bottleneck e best =
     (case e of (global_w, weight) \<Rightarrow>
        if global_w \<noteq> rt then best
        else let closing = narrow bottleneck weight in if best < closing then closing else best)"

definition close_node :: "adjacency \<Rightarrow> nat \<Rightarrow> (nat \<Rightarrow> bound) \<Rightarrow> nat \<Rightarrow> real \<Rightarrow> real" where
  "close_node adj rt row local_v best =
     (if row local_v = NegInf then best
      else fold (close_edge rt (row local_v)) (adj ! (rt + local_v)) best)"

definition close_mask :: "adjacency \<Rightarrow> nat \<Rightarrow> nat \<Rightarrow> nat \<Rightarrow> table \<Rightarrow> nat \<Rightarrow> real \<Rightarrow> real" where
  "close_mask adj min_ring_size rt spn dp msk best =
     (if \<not> bit msk 0 \<or> bit_count msk < min_ring_size then best
      else fold (close_node adj rt (dp msk)) [1..<spn] best)"

definition best_from_root :: "adjacency \<Rightarrow> nat \<Rightarrow> nat \<Rightarrow> nat \<Rightarrow> real \<Rightarrow> real" where
  "best_from_root adj n min_ring_size rt best =
     (let spn = n - rt; dp = path_table adj rt spn
      in fold (close_mask adj min_ring_size rt spn dp) [1..<2 ^ spn] best)"

text \<open>The loop over roots, with its \<open>break\<close>.\<close>

fun bottleneck_roots :: "adjacency \<Rightarrow> nat \<Rightarrow> nat \<Rightarrow> nat list \<Rightarrow> real \<Rightarrow> real" where
  "bottleneck_roots adj n min_ring_size [] best = best"
| "bottleneck_roots adj n min_ring_size (rt # roots) best =
     (if n - rt < min_ring_size then best
      else bottleneck_roots adj n min_ring_size roots (best_from_root adj n min_ring_size rt best))"

definition max_bottleneck_cycle :: "adjacency \<Rightarrow> nat \<Rightarrow> nat \<Rightarrow> real" where
  "max_bottleneck_cycle adj n min_ring_size = bottleneck_roots adj n min_ring_size [0..<n] 0"

section \<open>Specification\<close>

text \<open>
  A simple cycle: distinct nodes, the \<open>i\<close>-th joined to the next (the last to the first)
  by an edge of weight \<open>ws ! i\<close>. Its bottleneck is its least weight.
\<close>

definition is_cycle :: "adjacency \<Rightarrow> nat list \<Rightarrow> real list \<Rightarrow> bool" where
  "is_cycle adj c ws \<longleftrightarrow>
     2 \<le> length c \<and> distinct c \<and> set c \<subseteq> {..<length adj} \<and> length ws = length c \<and>
     (\<forall>i<length c. (c ! (Suc i mod length c), ws ! i) \<in> set (adj ! (c ! i)))"

definition adjacency_wf :: "adjacency \<Rightarrow> nat \<Rightarrow> bool" where
  "adjacency_wf adj n \<longleftrightarrow> length adj = n \<and> (\<forall>es\<in>set adj. \<forall>(v, w)\<in>set es. v < n)"

text \<open>
  The paths the table stands for: from the root, over nodes not below it, without
  repetition; the mask is the set of local nodes visited.
\<close>

inductive tpath :: "adjacency \<Rightarrow> nat \<Rightarrow> nat \<Rightarrow> nat \<Rightarrow> bound \<Rightarrow> bool" for adj rt where
  start: "tpath adj rt 1 0 PosInf"
| extend: "tpath adj rt m v b \<Longrightarrow> (rt + w, weight) \<in> set (adj ! (rt + v)) \<Longrightarrow>
             \<not> bit m w \<Longrightarrow> tpath adj rt (set_bit w m) w (Fin (narrow b weight))"

section \<open>Bit masks\<close>

lemma nat_bit_less: "bit (m::nat) i \<Longrightarrow> i < m"
proof -
  assume b: "bit m i"
  have "2 ^ i \<le> m"
  proof (rule ccontr)
    assume "\<not> 2 ^ i \<le> m"
    then have "m div 2 ^ i = 0" by simp
    with b show False by (simp add: bit_iff_odd)
  qed
  with less_exp [of i] show ?thesis by (rule less_le_trans)
qed

lemma finite_bits: "finite {i. bit (m::nat) i}"
  by (rule finite_subset [of _ "{..<m}"]) (auto intro: nat_bit_less)

lemma set_bit_nat_eq: "\<not> bit (m::nat) w \<Longrightarrow> set_bit w m = m + 2 ^ w"
  by (simp add: set_bit_eq)

lemma set_bit_gt: "\<not> bit (m::nat) w \<Longrightarrow> m < set_bit w m"
  by (simp add: set_bit_nat_eq)

lemma bits_less_exp: "(\<And>i. bit (m::nat) i \<Longrightarrow> i < k) \<Longrightarrow> m < 2 ^ k"
proof -
  assume h: "\<And>i. bit m i \<Longrightarrow> i < k"
  have "take_bit k m = m"
    by (rule bit_eqI) (auto simp: bit_take_bit_iff dest: h)
  then show ?thesis by (metis take_bit_nat_less_exp)
qed

lemma bit_count_card: "bit_count m = card {i. bit m i}"
proof (induction m rule: bit_count.induct)
  case (1 m)
  show ?case
  proof (cases "m = 0")
    case True
    then show ?thesis by (simp add: bit_count.simps)
  next
    case False
    let ?B = "{i. bit (m div 2) i}"
    have split: "{i. bit m i} = (if odd m then {0} else {}) \<union> Suc ` ?B"
      by (auto simp: bit_0 image_iff bit_Suc) (metis bit_0 bit_Suc not0_implies_Suc)+
    have "card (Suc ` ?B) = card ?B" by (simp add: card_image)
    moreover have "finite (Suc ` ?B)" using finite_bits by simp
    ultimately have "card {i. bit m i} = m mod 2 + card ?B"
      unfolding split by (auto simp: card_insert_if odd_iff_mod_2_eq_one)
    with 1 False show ?thesis by (simp add: bit_count.simps [of m])
  qed
qed

section \<open>The order of Python floats\<close>

instantiation bound :: linorder
begin

fun less_eq_bound :: "bound \<Rightarrow> bound \<Rightarrow> bool" where
  "less_eq_bound NegInf _ = True"
| "less_eq_bound (Fin x) NegInf = False"
| "less_eq_bound (Fin x) (Fin y) = (x \<le> y)"
| "less_eq_bound (Fin x) PosInf = True"
| "less_eq_bound PosInf b = (b = PosInf)"

definition less_bound :: "bound \<Rightarrow> bound \<Rightarrow> bool" where
  "less_bound a b = (a \<le> b \<and> \<not> b \<le> a)"

instance
proof
  fix a b c :: bound
  show "(a < b) = (a \<le> b \<and> \<not> b \<le> a)" by (simp add: less_bound_def)
  show "a \<le> a" by (cases a) auto
  show "a \<le> b \<Longrightarrow> b \<le> c \<Longrightarrow> a \<le> c" by (cases a; cases b; cases c) auto
  show "a \<le> b \<Longrightarrow> b \<le> a \<Longrightarrow> a = b" by (cases a; cases b) auto
  show "a \<le> b \<or> b \<le> a" by (cases a; cases b) auto
qed

end

lemma exceeds_iff: "exceeds c b \<longleftrightarrow> b < Fin c"
  by (cases b) (auto simp: less_bound_def)

lemma narrow_mono: "b \<noteq> NegInf \<Longrightarrow> b \<le> b' \<Longrightarrow> narrow b w \<le> narrow b' w"
  by (cases b; cases b') auto

section \<open>One pass of the table\<close>

lemma relax_edge_eq:
  "relax_edge rt m b (gw, wt) dp =
     (if rt \<le> gw \<and> \<not> bit m (gw - rt) \<and> dp (set_bit (gw - rt) m) (gw - rt) < Fin (narrow b wt)
      then dp(set_bit (gw - rt) m := (dp (set_bit (gw - rt) m))(gw - rt := Fin (narrow b wt)))
      else dp)"
  by (auto simp: relax_edge_def Let_def exceeds_iff)

lemma relax_edge_grows: "dp \<le> relax_edge rt m b e dp"
  by (cases e) (auto simp: relax_edge_eq le_fun_def)

lemma relax_node_grows: "dp \<le> relax_node adj rt m v dp"
  by (simp add: relax_node_def Let_def fold_grows relax_edge_grows)

lemma relax_mask_grows: "dp \<le> relax_mask adj rt spn m dp"
  by (simp add: relax_mask_def fold_grows relax_node_grows)

lemma relax_edge_frame: "x \<le> m \<Longrightarrow> relax_edge rt m b e dp x = dp x"
  using set_bit_gt [of m] by (cases e) (auto simp: relax_edge_eq dest: leD)

lemma relax_node_frame: "x \<le> m \<Longrightarrow> relax_node adj rt m v dp x = dp x"
  unfolding relax_node_def Let_def
  by (auto intro!: fold_keeps [where P = "\<lambda>d. d x = dp x"] simp: relax_edge_frame)

lemma relax_mask_frame: "x \<le> m \<Longrightarrow> relax_mask adj rt spn m dp x = dp x"
  unfolding relax_mask_def
  by (rule fold_keeps [where P = "\<lambda>d. d x = dp x"]) (auto simp: relax_node_frame)

lemma relax_node_reaches:
  assumes "dp m v \<noteq> NegInf" "(rt + w, wt) \<in> set (adj ! (rt + v))" "\<not> bit m w"
  shows "Fin (narrow (dp m v) wt) \<le> relax_node adj rt m v dp (set_bit w m) w"
proof -
  have "Fin (narrow (dp m v) wt)
          \<le> fold (relax_edge rt m (dp m v)) (adj ! (rt + v)) dp (set_bit w m) w"
    by (rule fold_reaches [where P = "\<lambda>d. Fin (narrow (dp m v) wt) \<le> d (set_bit w m) w"
          and x = "(rt + w, wt)"])
       (use assms(2,3) in \<open>auto simp: relax_edge_grows relax_edge_eq not_less le_fun_def
          intro: order_trans\<close>)
  with assms(1) show ?thesis by (simp add: relax_node_def Let_def)
qed

lemma relax_mask_reaches:
  assumes "dp m v \<noteq> NegInf" "v < spn" "(rt + w, wt) \<in> set (adj ! (rt + v))" "\<not> bit m w"
  shows "Fin (narrow (dp m v) wt) \<le> relax_mask adj rt spn m dp (set_bit w m) w"
proof -
  have vs: "[0..<spn] = [0..<v] @ v # [Suc v..<spn]"
    using assms(2) upt_add_eq_append [of 0 v "spn - v"] upt_conv_Cons [of v spn] by simp
  define d where "d = fold (relax_node adj rt m) [0..<v] dp"
  have "d m = dp m" unfolding d_def
    by (rule fold_keeps [where P = "\<lambda>d. d m = dp m"]) (auto simp: relax_node_frame)
  with relax_node_reaches [of d m v rt w wt adj] assms
  have "Fin (narrow (dp m v) wt) \<le> relax_node adj rt m v d (set_bit w m) w" by simp
  also have "\<dots> \<le> fold (relax_node adj rt m) [Suc v..<spn] (relax_node adj rt m v d) (set_bit w m) w"
    using fold_grows [of "relax_node adj rt m", OF relax_node_grows] by (simp add: le_fun_def)
  finally show ?thesis by (simp add: relax_mask_def vs d_def)
qed

lemma relax_node_sound:
  assumes "\<And>m v. dp m v \<noteq> NegInf \<Longrightarrow> tpath adj rt m v (dp m v)"
  shows "relax_node adj rt msk u dp m v \<noteq> NegInf \<Longrightarrow>
           tpath adj rt m v (relax_node adj rt msk u dp m v)"
proof -
  have "\<forall>m v. d m v \<noteq> NegInf \<longrightarrow> tpath adj rt m v (d m v)"
    if "d = relax_node adj rt msk u dp" for d
  proof (cases "dp msk u = NegInf")
    case True
    then show ?thesis using that assms by (simp add: relax_node_def)
  next
    case False
    then have b: "tpath adj rt msk u (dp msk u)" by (rule assms)
    show ?thesis unfolding that relax_node_def Let_def using False
    proof (simp, intro fold_keeps [where P = "\<lambda>d. \<forall>m v. d m v \<noteq> NegInf \<longrightarrow> tpath adj rt m v (d m v)"])
      fix e s assume e: "e \<in> set (adj ! (rt + u))"
        and s: "\<forall>m v. s m v \<noteq> NegInf \<longrightarrow> tpath adj rt m v (s m v)"
      obtain gw wt where [simp]: "e = (gw, wt)" by (cases e)
      show "\<forall>m v. relax_edge rt msk (dp msk u) e s m v \<noteq> NegInf \<longrightarrow>
              tpath adj rt m v (relax_edge rt msk (dp msk u) e s m v)"
        using s tpath.extend [OF b, of "gw - rt" wt] e by (auto simp: relax_edge_eq)
    qed (use assms in auto)
  qed
  then show "relax_node adj rt msk u dp m v \<noteq> NegInf \<Longrightarrow>
               tpath adj rt m v (relax_node adj rt msk u dp m v)" by simp
qed

lemma path_table_sound:
  assumes "path_table adj rt spn m v \<noteq> NegInf"
  shows "tpath adj rt m v (path_table adj rt spn m v)"
proof -
  let ?P = "\<lambda>d. \<forall>m v. d m v \<noteq> NegInf \<longrightarrow> tpath adj rt m v (d m v)"
  have "?P (relax_mask adj rt spn k d)" if d: "?P d" for k d
    unfolding relax_mask_def
  proof (rule fold_keeps [where P = ?P, OF d])
    fix u s assume "?P s"
    then show "?P (relax_node adj rt k u s)" using relax_node_sound [of s adj rt k u] by blast
  qed
  then have "?P (path_table adj rt spn)" unfolding path_table_def
    by (intro fold_keeps [where P = ?P])
       (auto simp: initial_table_def intro: tpath.start [simplified])
  with assms show ?thesis by blast
qed

lemma path_table_step:
  assumes "1 \<le> m" "m < 2 ^ spn" "path_table adj rt spn m v \<noteq> NegInf" "v < spn"
    and "(rt + w, wt) \<in> set (adj ! (rt + v))" "\<not> bit m w"
  shows "Fin (narrow (path_table adj rt spn m v) wt) \<le> path_table adj rt spn (set_bit w m) w"
proof -
  define d where "d = fold (relax_mask adj rt spn) [1..<m] initial_table"
  have ms: "[1..<2 ^ spn] = [1..<m] @ m # [Suc m..<2 ^ spn]"
    using assms(1,2) upt_add_eq_append [of 1 m "2 ^ spn - m"] upt_conv_Cons [of m "2 ^ spn"] by simp
  then have final: "path_table adj rt spn
      = fold (relax_mask adj rt spn) [Suc m..<2 ^ spn] (relax_mask adj rt spn m d)"
    by (simp add: path_table_def d_def)
  have "path_table adj rt spn m = d m" unfolding final
    by (rule fold_keeps [where P = "\<lambda>x. x m = d m"]) (auto simp: relax_mask_frame)
  with relax_mask_reaches [of d m v spn rt w wt adj] assms
  have "Fin (narrow (path_table adj rt spn m v) wt) \<le> relax_mask adj rt spn m d (set_bit w m) w"
    by simp
  also have "\<dots> \<le> path_table adj rt spn (set_bit w m) w" unfolding final
    using fold_grows [of "relax_mask adj rt spn", OF relax_mask_grows] by (simp add: le_fun_def)
  finally show ?thesis .
qed

lemma tpath_bits: "tpath adj rt m v b \<Longrightarrow> bit m v \<and> bit m 0 \<and> 1 \<le> m \<and> b \<noteq> NegInf"
proof (induction rule: tpath.induct)
  case (extend m v b w weight)
  then show ?case using set_bit_gt [of m w] by (auto simp: bit_set_bit_iff)
qed (simp add: bit_0)

lemma path_table_complete:
  "tpath adj rt m v b \<Longrightarrow> (\<And>i. bit m i \<Longrightarrow> i < spn) \<Longrightarrow> b \<le> path_table adj rt spn m v"
proof (induction rule: tpath.induct)
  case start
  have "initial_table \<le> path_table adj rt spn" unfolding path_table_def
    by (rule fold_grows) (rule relax_mask_grows)
  then have "initial_table 1 0 \<le> path_table adj rt spn 1 0" by (simp add: le_fun_def)
  then show ?case by (simp add: initial_table_def)
next
  case (extend m v b w weight)
  let ?T = "path_table adj rt spn"
  have bits: "\<And>i. bit m i \<Longrightarrow> i < spn" using extend.prems by (auto simp: bit_set_bit_iff)
  have m: "bit m v" "1 \<le> m" "b \<noteq> NegInf" using tpath_bits [OF extend.hyps(1)] by auto
  have IH: "b \<le> ?T m v" using extend.IH bits by blast
  then have nn: "?T m v \<noteq> NegInf" using m(3) by (cases b; cases "?T m v") auto
  have "Fin (narrow b weight) \<le> Fin (narrow (?T m v) weight)"
    using narrow_mono [OF m(3) IH] by simp
  also have "\<dots> \<le> ?T (set_bit w m) w"
    using path_table_step [of m spn adj rt v w weight] m bits bits_less_exp [of m spn] nn
      extend.hyps by blast
  finally show ?case .
qed

section \<open>Paths of the table and cycles of the graph\<close>

lemma Min_set_snoc: "ws \<noteq> [] \<Longrightarrow> Min (set (ws @ [x])) = min (Min (set ws)) (x::real)"
  by (simp add: min.commute)

lemma bits_set_bit: "{i. bit (set_bit w (m::nat)) i} = insert w {i. bit m i}"
  by (auto simp: bit_set_bit_iff)

lemma bit_one_nat [simp]: "bit (Suc 0) i \<longleftrightarrow> i = 0"
  using bit_1_iff [of i, where 'a = nat] by simp

lemma tpath_path:
  assumes "tpath adj rt m v b" "adjacency_wf adj n" "rt < n"
  shows "\<exists>c ws. c \<noteq> [] \<and> distinct c \<and> hd c = rt \<and> last c = rt + v \<and> length c = Suc (length ws) \<and>
           (\<forall>i<length ws. (c ! Suc i, ws ! i) \<in> set (adj ! (c ! i))) \<and>
           set c = (\<lambda>i. rt + i) ` {i. bit m i} \<and> set c \<subseteq> {..<n} \<and>
           b = (if ws = [] then PosInf else Fin (Min (set ws)))"
  using assms(1)
proof (induction rule: tpath.induct)
  case start
  show ?case using assms(3) by (intro exI [of _ "[rt]"] exI [of _ "[]"]) auto
next
  case (extend m v b w weight)
  then obtain c ws where c: "c \<noteq> []" "distinct c" "hd c = rt" "last c = rt + v"
    "length c = Suc (length ws)" "\<forall>i<length ws. (c ! Suc i, ws ! i) \<in> set (adj ! (c ! i))"
    "set c = (\<lambda>i. rt + i) ` {i. bit m i}" "set c \<subseteq> {..<n}"
    "b = (if ws = [] then PosInf else Fin (Min (set ws)))" by blast
  have lastc: "c ! length ws = rt + v" using c by (simp add: last_conv_nth)
  have fresh: "rt + w \<notin> set c" using c(7) extend.hyps(3) by auto
  have "rt + v < n" using c(1,4,8) last_in_set [of c] by auto
  then have "rt + w < n"
    using extend.hyps(2) assms(2) by (force simp: adjacency_wf_def)
  moreover have "Fin (narrow b weight) = Fin (Min (set (ws @ [weight])))"
    using c(9) by (cases "ws = []") (simp_all add: Min_set_snoc del: set_append)
  moreover have "\<forall>i<length (ws @ [weight]).
      ((c @ [rt + w]) ! Suc i, (ws @ [weight]) ! i) \<in> set (adj ! ((c @ [rt + w]) ! i))"
    using c(5,6) lastc extend.hyps(2) by (auto simp: nth_append less_Suc_eq)
  ultimately show ?case
    using c fresh
    by (intro exI [of _ "c @ [rt + w]"] exI [of _ "ws @ [weight]"]) (auto simp: bits_set_bit)
qed

lemma tpath_cycle:
  assumes "tpath adj rt m v b" "adjacency_wf adj n" "rt < n" "v \<noteq> 0"
    and "(rt, weight) \<in> set (adj ! (rt + v))"
  shows "\<exists>c ws. is_cycle adj c ws \<and> length c = bit_count m \<and> Min (set ws) = narrow b weight"
proof -
  obtain c ws where c: "c \<noteq> []" "distinct c" "hd c = rt" "last c = rt + v"
    "length c = Suc (length ws)" "\<forall>i<length ws. (c ! Suc i, ws ! i) \<in> set (adj ! (c ! i))"
    "set c = (\<lambda>i. rt + i) ` {i. bit m i}" "set c \<subseteq> {..<n}"
    "b = (if ws = [] then PosInf else Fin (Min (set ws)))"
    using tpath_path [OF assms(1-3)] by blast
  have ws: "ws \<noteq> []" using c(1,3,4,5) assms(4) by (cases c) auto
  have lastc: "c ! length ws = rt + v" using c by (simp add: last_conv_nth)
  have c0: "c ! 0 = rt" using c(1,3) by (simp add: hd_conv_nth)
  have "is_cycle adj c (ws @ [weight])" unfolding is_cycle_def
  proof (intro conjI allI impI)
    fix i assume i: "i < length c"
    show "(c ! (Suc i mod length c), (ws @ [weight]) ! i) \<in> set (adj ! (c ! i))"
    proof (cases "i < length ws")
      case True
      then show ?thesis using c(5,6) by (simp add: nth_append)
    next
      case False
      with i c(5) have "i = length ws" by simp
      then show ?thesis using c(5) c0 lastc assms(5) by simp
    qed
  qed (use c ws assms(2) in \<open>auto simp: adjacency_wf_def Suc_le_eq\<close>)
  moreover have "length c = bit_count m"
    using distinct_card [OF c(2)] c(7) by (simp add: bit_count_card card_image)
  moreover have "Min (set (ws @ [weight])) = narrow b weight"
    using c(9) ws by (simp add: Min_set_snoc del: set_append)
  ultimately show ?thesis by blast
qed

lemma is_cycle_rotate:
  assumes "is_cycle adj c ws"
  shows "is_cycle adj (rotate k c) (rotate k ws)"
proof -
  let ?n = "length c"
  from assms have n: "2 \<le> ?n" "length ws = ?n"
    and e: "\<And>i. i < ?n \<Longrightarrow> (c ! (Suc i mod ?n), ws ! i) \<in> set (adj ! (c ! i))"
    by (auto simp: is_cycle_def)
  have pos: "0 < ?n" using n by linarith
  have "(rotate k c ! (Suc i mod ?n), rotate k ws ! i) \<in> set (adj ! (rotate k c ! i))"
    if "i < ?n" for i
    using e [of "(k + i) mod ?n"] that n pos by (simp add: nth_rotate mod_simps)
  then show ?thesis using assms by (simp add: is_cycle_def)
qed

lemma tpath_prefix:
  assumes cyc: "is_cycle adj c ws" and least: "\<forall>x\<in>set c. rt \<le> x" and c0: "c ! 0 = rt"
  shows "j < length c \<Longrightarrow>
    \<exists>m. tpath adj rt m (c ! j - rt) (if j = 0 then PosInf else Fin (Min (set (take j ws)))) \<and>
        {i. bit m i} = (\<lambda>x. x - rt) ` set (take (Suc j) c)"
proof (induction j)
  case 0
  then have "take (Suc 0) c = [rt]" using c0 by (cases c) auto
  then show ?case using c0 tpath.start [of adj rt] by (intro exI [of _ 1]) auto
next
  case (Suc j)
  then obtain m where m: "tpath adj rt m (c ! j - rt) (if j = 0 then PosInf else Fin (Min (set (take j ws))))"
    "{i. bit m i} = (\<lambda>x. x - rt) ` set (take (Suc j) c)" by auto
  let ?w = "c ! Suc j"
  have ge: "rt \<le> c ! j" "rt \<le> ?w" using least Suc.prems by auto
  have "(?w, ws ! j) \<in> set (adj ! (c ! j))"
    using cyc Suc.prems by (auto simp: is_cycle_def dest: spec [of _ j])
  then have edge: "(rt + (?w - rt), ws ! j) \<in> set (adj ! (rt + (c ! j - rt)))" using ge by simp
  have "?w \<notin> set (take (Suc j) c)"
    using cyc Suc.prems by (auto simp: is_cycle_def in_set_conv_nth nth_eq_iff_index_eq)
  moreover have "\<forall>x\<in>set (take (Suc j) c). rt \<le> x" using least by (auto dest: in_set_takeD)
  ultimately have "\<not> bit m (?w - rt)"
    using m(2) ge(2) by (auto simp: set_eq_iff image_iff) (metis eq_diff_iff)
  note t = tpath.extend [OF m(1) edge this]
  have len: "j < length ws" using cyc Suc.prems by (simp add: is_cycle_def)
  have "Fin (narrow (if j = 0 then PosInf else Fin (Min (set (take j ws)))) (ws ! j)) =
      Fin (Min (set (take (Suc j) ws)))"
  proof (cases "j = 0")
    case False
    then have "take j ws \<noteq> []" using len by auto
    from Min_set_snoc [OF this, of "ws ! j"] False len show ?thesis
      by (simp add: take_Suc_conv_app_nth del: set_append)
  qed (use len in \<open>auto simp: take_Suc_conv_app_nth\<close>)
  moreover have "{i. bit (set_bit (?w - rt) m) i} = (\<lambda>x. x - rt) ` set (take (Suc (Suc j)) c)"
    using m(2) Suc.prems by (simp add: bits_set_bit take_Suc_conv_app_nth [of "Suc j"])
  ultimately show ?case using t by (intro exI [of _ "set_bit (?w - rt) m"]) simp
qed

section \<open>Closing the cycles\<close>

lemma close_edge_grows: "best \<le> close_edge rt b e best"
  by (cases e) (simp add: close_edge_def Let_def)

lemma close_node_grows: "best \<le> close_node adj rt row v best"
  by (simp add: close_node_def fold_grows close_edge_grows)

lemma close_mask_grows: "best \<le> close_mask adj k rt spn dp m best"
  by (simp add: close_mask_def fold_grows close_node_grows)

lemma best_from_root_grows: "best \<le> best_from_root adj n k rt best"
  by (simp add: best_from_root_def Let_def fold_grows close_mask_grows)

lemma bottleneck_roots_grows: "best \<le> bottleneck_roots adj n k roots best"
  by (induction roots arbitrary: best) (auto intro: order_trans best_from_root_grows)

lemma close_node_reaches:
  assumes "row v \<noteq> NegInf" "(rt, weight) \<in> set (adj ! (rt + v))"
  shows "narrow (row v) weight \<le> close_node adj rt row v best"
proof -
  have "narrow (row v) weight \<le> fold (close_edge rt (row v)) (adj ! (rt + v)) best"
    by (rule fold_reaches [where P = "\<lambda>s. narrow (row v) weight \<le> s" and x = "(rt, weight)"])
       (use assms(2) in \<open>auto simp: close_edge_grows close_edge_def Let_def\<close>)
  with assms(1) show ?thesis by (simp add: close_node_def)
qed

lemma close_mask_reaches:
  assumes "dp m v \<noteq> NegInf" "(rt, weight) \<in> set (adj ! (rt + v))" "bit m 0" "k \<le> bit_count m"
    and "1 \<le> v" "v < spn"
  shows "narrow (dp m v) weight \<le> close_mask adj k rt spn dp m best"
proof -
  have "narrow (dp m v) weight \<le> fold (close_node adj rt (dp m)) [1..<spn] best"
    by (rule fold_reaches [where P = "\<lambda>s. narrow (dp m v) weight \<le> s" and x = v])
       (use assms in \<open>auto simp: close_node_grows close_node_reaches\<close>)
  with assms(3,4) show ?thesis by (simp add: close_mask_def)
qed

lemma best_from_root_reaches:
  assumes "path_table adj rt (n - rt) m v \<noteq> NegInf" "(rt, weight) \<in> set (adj ! (rt + v))"
    and "bit m 0" "k \<le> bit_count m" "1 \<le> v" "v < n - rt" "1 \<le> m" "m < 2 ^ (n - rt)"
  shows "narrow (path_table adj rt (n - rt) m v) weight \<le> best_from_root adj n k rt best"
  unfolding best_from_root_def Let_def
  by (rule fold_reaches [where P = "\<lambda>s. narrow (path_table adj rt (n - rt) m v) weight \<le> s" and x = m])
     (use assms in \<open>auto simp: close_mask_grows intro: close_mask_reaches\<close>)

lemma bottleneck_roots_reaches:
  assumes "rt \<in> set roots" "sorted roots" "k \<le> n - rt" "\<And>best. x \<le> best_from_root adj n k rt best"
  shows "x \<le> bottleneck_roots adj n k roots best"
  using assms(1,2)
proof (induction roots arbitrary: best)
  case (Cons r roots)
  then have "r \<le> rt" by auto
  with assms(3) have "\<not> n - r < k" by simp
  then show ?case
    using Cons assms(4) order_trans [OF assms(4) bottleneck_roots_grows] by auto
qed simp

text \<open>What the running optimum can be: zero, or the bottleneck of a long enough cycle.\<close>

definition achieved :: "adjacency \<Rightarrow> nat \<Rightarrow> real \<Rightarrow> bool" where
  "achieved adj k x \<longleftrightarrow>
     x = 0 \<or> (\<exists>c ws. is_cycle adj c ws \<and> k \<le> length c \<and> x = Min (set ws))"

lemma best_from_root_achieved:
  assumes wf: "adjacency_wf adj n" and rt: "rt < n" and best: "achieved adj k best"
  shows "achieved adj k (best_from_root adj n k rt best)"
proof -
  let ?T = "path_table adj rt (n - rt)"
  have edge: "achieved adj k (close_edge rt (?T m v) e s)"
    if "achieved adj k s" "?T m v \<noteq> NegInf" "k \<le> bit_count m" "v \<noteq> 0" "e \<in> set (adj ! (rt + v))"
    for m v e s
  proof (cases "e")
    case (Pair gw weight)
    with that tpath_cycle [OF path_table_sound [OF that(2)] wf rt that(4), of weight]
    have "achieved adj k (narrow (?T m v) weight)" if "gw = rt"
      using that \<open>e \<in> set (adj ! (rt + v))\<close> \<open>k \<le> bit_count m\<close> Pair by (fastforce simp: achieved_def)
    with that Pair show ?thesis by (simp add: close_edge_def Let_def)
  qed
  have node: "achieved adj k (close_node adj rt (?T m) v s)"
    if "achieved adj k s" "k \<le> bit_count m" "v \<noteq> 0" for m v s
    unfolding close_node_def using that edge by (auto intro!: fold_keeps [where P = "achieved adj k"])
  have "achieved adj k (close_mask adj k rt (n - rt) ?T m s)" if "achieved adj k s" for m s
    unfolding close_mask_def using that node by (auto intro!: fold_keeps [where P = "achieved adj k"])
  then show ?thesis unfolding best_from_root_def Let_def using best
    by (auto intro: fold_keeps [where P = "achieved adj k"])
qed

lemma bottleneck_roots_achieved:
  assumes "adjacency_wf adj n"
  shows "achieved adj k best \<Longrightarrow> \<forall>r\<in>set roots. r < n \<Longrightarrow>
           achieved adj k (bottleneck_roots adj n k roots best)"
  by (induction roots arbitrary: best) (auto intro: best_from_root_achieved [OF assms])

lemma Min_take_last:
  assumes "2 \<le> length us"
  shows "Min (set us) = narrow (Fin (Min (set (take (length us - 1) us)))) (us ! (length us - 1))"
proof -
  let ?l = "length us - 1"
  have "us = take ?l us @ [us ! ?l]"
    using assms take_Suc_conv_app_nth [of ?l us] by simp
  moreover have "take ?l us \<noteq> []" using assms by (cases us) auto
  ultimately show ?thesis using Min_set_snoc [of "take ?l us" "us ! ?l"] by simp
qed

text \<open>The cycle rooted at its least node is found by the pass over that root.\<close>

lemma best_from_least_node:
  assumes cyc: "is_cycle adj d us" and wf: "adjacency_wf adj n" and k: "k \<le> length d"
    and least: "\<forall>x\<in>set d. rt \<le> x" and d0: "d ! 0 = rt"
  shows "Min (set us) \<le> best_from_root adj n k rt best"
proof -
  let ?l = "length d - 1" and ?T = "path_table adj rt (n - rt)"
  have len: "2 \<le> length d" "distinct d" "set d \<subseteq> {..<n}" "length us = length d"
    using cyc wf by (auto simp: is_cycle_def adjacency_wf_def)
  then have l: "?l < length d" "?l \<noteq> 0" "Suc ?l = length d" by auto
  obtain m where m: "tpath adj rt m (d ! ?l - rt) (Fin (Min (set (take ?l us))))"
    "{i. bit m i} = (\<lambda>x. x - rt) ` set d"
    using tpath_prefix [OF cyc least d0 l(1)] l by auto
  have inj: "inj_on (\<lambda>x. x - rt) (set d)"
    using least by (auto simp: inj_on_def) (metis eq_diff_iff)
  have card: "bit_count m = length d"
    using len(2) by (simp add: bit_count_card m(2) card_image [OF inj] distinct_card)
  have bits: "\<And>i. bit m i \<Longrightarrow> i < n - rt"
    using m(2) len(3) least by (auto simp: set_eq_iff image_iff intro: diff_less_mono)
  have tb: "bit m (d ! ?l - rt)" "bit m 0" "1 \<le> m" using tpath_bits [OF m(1)] by auto
  have "d ! ?l \<noteq> rt"
    using nth_eq_iff_index_eq [OF len(2) l(1), of 0] l d0 by (metis less_zeroE not_gr_zero)
  moreover have "rt \<le> d ! ?l" using least l(1) by auto
  ultimately have v: "1 \<le> d ! ?l - rt" "rt + (d ! ?l - rt) = d ! ?l" by auto
  have "\<forall>i<length d. (d ! (Suc i mod length d), us ! i) \<in> set (adj ! (d ! i))"
    using cyc by (simp add: is_cycle_def)
  from this [rule_format, OF l(1)] have closing: "(rt, us ! ?l) \<in> set (adj ! (rt + (d ! ?l - rt)))"
    using l(3) d0 v(2) by simp
  have T: "Fin (Min (set (take ?l us))) \<le> ?T m (d ! ?l - rt)"
    by (rule path_table_complete [OF m(1) bits])
  then have nn: "?T m (d ! ?l - rt) \<noteq> NegInf" by (cases "?T m (d ! ?l - rt)") auto
  have "Min (set us) = narrow (Fin (Min (set (take ?l us)))) (us ! ?l)"
    using Min_take_last [of us] len by simp
  also have "\<dots> \<le> narrow (?T m (d ! ?l - rt)) (us ! ?l)" using T by (intro narrow_mono) auto
  also have "\<dots> \<le> best_from_root adj n k rt best"
    by (rule best_from_root_reaches [OF nn closing tb(2) _ v(1) bits [OF tb(1)] tb(3)
          bits_less_exp [OF bits]]) (simp add: card k)
  finally show ?thesis .
qed

lemma max_bottleneck_dominates:
  assumes cyc: "is_cycle adj c ws" and wf: "adjacency_wf adj n" and k: "k \<le> length c"
  shows "Min (set ws) \<le> max_bottleneck_cycle adj n k"
proof -
  have "c \<noteq> []" using cyc by (auto simp: is_cycle_def)
  define rt where "rt = Min (set c)"
  then have "rt \<in> set c" using \<open>c \<noteq> []\<close> by simp
  then obtain p where p: "p < length c" "c ! p = rt" by (auto simp: in_set_conv_nth)
  let ?d = "rotate p c" and ?us = "rotate p ws"
  have d0: "?d ! 0 = rt" using p \<open>c \<noteq> []\<close> nth_rotate [of 0 c p] by simp
  have least: "\<forall>x\<in>set ?d. rt \<le> x" by (simp add: rt_def)
  have reach: "Min (set ws) \<le> best_from_root adj n k rt best" for best
    using best_from_least_node [OF is_cycle_rotate [OF cyc] wf _ least d0] k by simp
  have cn: "set c \<subseteq> {..<n}" "distinct c" using cyc wf by (auto simp: is_cycle_def adjacency_wf_def)
  then have "set c \<subseteq> {rt..<n}" using least by auto
  then have "length c \<le> n - rt"
    using card_mono [of "{rt..<n}" "set c"] distinct_card [OF cn(2)] by simp
  with k reach cn(1) \<open>rt \<in> set c\<close> show ?thesis unfolding max_bottleneck_cycle_def
    by (intro bottleneck_roots_reaches [where rt = rt]) auto
qed

lemma max_bottleneck_achieved:
  "adjacency_wf adj n \<Longrightarrow> achieved adj k (max_bottleneck_cycle adj n k)"
  unfolding max_bottleneck_cycle_def
  by (rule bottleneck_roots_achieved) (auto simp: achieved_def)

lemma max_bottleneck_nonneg: "0 \<le> max_bottleneck_cycle adj n k"
  unfolding max_bottleneck_cycle_def by (rule bottleneck_roots_grows)

section \<open>Properties\<close>

text \<open>
  C3: The bitmask dynamic program of \<open>_max_bottleneck_cycle\<close> computes exactly the greatest
  bottleneck over all simple cycles of at least \<open>min_ring_size\<close> nodes: no such cycle has a
  larger bottleneck, and the value is zero (never negative) or the bottleneck of such a cycle.
\<close>

theorem max_bottleneck_cycle_correct:
  assumes "adjacency_wf adj n"
  shows "(\<forall>c ws. is_cycle adj c ws \<and> min_ring_size \<le> length c \<longrightarrow>
            Min (set ws) \<le> max_bottleneck_cycle adj n min_ring_size) \<and>
         0 \<le> max_bottleneck_cycle adj n min_ring_size \<and>
         (max_bottleneck_cycle adj n min_ring_size = 0 \<or>
            (\<exists>c ws. is_cycle adj c ws \<and> min_ring_size \<le> length c \<and>
               max_bottleneck_cycle adj n min_ring_size = Min (set ws)))"
  using max_bottleneck_dominates [OF _ assms] max_bottleneck_achieved [OF assms]
    max_bottleneck_nonneg unfolding achieved_def by blast

abbreviation triangle :: adjacency where
  "triangle \<equiv> [[(1, 5)], [(2, 3)], [(0, 4), (1, 9)]]"

theorem max_bottleneck_cycle_correct_witness:
  "adjacency_wf triangle 3 \<and> is_cycle triangle [0, 1, 2] [5, 3, 4] \<and>
   3 \<le> max_bottleneck_cycle triangle 3 3"
proof -
  have wf: "adjacency_wf triangle 3" by (simp add: adjacency_wf_def)
  have cyc: "is_cycle triangle [0, 1, 2] [5, 3, 4]"
    unfolding is_cycle_def by (auto simp: less_Suc_eq)
  have "(3::nat) \<le> length [0, 1, 2 :: nat]" by simp
  with max_bottleneck_cycle_correct [OF wf, of 3] cyc
  have "Min (set [5, 3, 4 :: real]) \<le> max_bottleneck_cycle triangle 3 3" by blast
  with wf cyc show ?thesis by simp
qed

end
