(* ===== verification/Trade_Graph.thy ===== *)
theory Trade_Graph
  imports Tarjan Bottleneck_Cycle
    "HOL-Library.Product_Lexorder" "HOL-Library.List_Lexorder" "HOL-Library.Char_ord"
begin

text \<open>
  The trade graph of \<open>packages/core/detection/graph_engine.py\<close>: the account index
  (\<open>NodeIndex\<close>), the incremental graph (\<open>TradeGraph\<close>), the ring search built on
  Tarjan's algorithm and on the cycle volume of a ring, its cache, the ring membership
  of a wallet and the merge of the rings found in shards.

  Parameters stand for the libraries: \<open>csr\<close> gives the columns a scipy matrix stores in
  each row after a sequence of item assignments, \<open>nxe\<close> the order in which a networkx
  graph reports the edges added to it, \<open>to_unix\<close> the parsing of a timestamp by pandas
  (\<open>None\<close> when it raises).
\<close>

section \<open>The account index\<close>

type_synonym account = string

record node_index =
  str_to_int :: "(account, nat) dict"
  int_to_str :: "account list"

definition new_node_index :: node_index where
  "new_node_index = \<lparr>str_to_int = [], int_to_str = []\<rparr>"

definition node_add :: "account \<Rightarrow> node_index \<Rightarrow> node_index" where
  "node_add node ni =
     (if dict_get (str_to_int ni) node = None
      then \<lparr>str_to_int = dict_set node (length (int_to_str ni)) (str_to_int ni),
            int_to_str = int_to_str ni @ [node]\<rparr>
      else ni)"

definition get_id :: "node_index \<Rightarrow> account \<Rightarrow> nat option" where
  "get_id ni node = dict_get (str_to_int ni) node"

definition get_node :: "node_index \<Rightarrow> nat \<Rightarrow> account option" where
  "get_node ni idx = (if idx < length (int_to_str ni) then Some (int_to_str ni ! idx) else None)"

definition node_count :: "node_index \<Rightarrow> nat" where
  "node_count ni = length (int_to_str ni)"

section \<open>The graph\<close>

record edge_entry =
  ee_volume :: real
  ee_count :: nat
  ee_times :: "real list"

record ring =
  r_accounts :: "account list"
  r_total_volume :: real
  r_cycle_volume :: real
  r_avg_trade_count :: real
  r_timing_tightness :: real
  r_truncated :: bool

type_synonym edge_data = "(account \<times> account, edge_entry) dict"
type_synonym rings_key = "int \<times> int \<times> real"

record trade_graph =
  g_index :: node_index
  g_edges :: edge_data
  g_cache :: "(rings_key \<times> ring list) option"
  g_sharded :: bool

record graph_config =
  max_graph_nodes :: nat
  mmap_threshold :: nat
  shard_enabled :: bool

datatype graph_error = Value_Error | Graph_Too_Large | Key_Error

definition new_trade_graph :: trade_graph where
  "new_trade_graph = \<lparr>g_index = new_node_index, g_edges = [], g_cache = None, g_sharded = False\<rparr>"

record 'ts trade =
  base_account :: "account option"
  counter_account :: "account option"
  base_amount :: "real option"
  ledger_close_time :: "'ts option"

definition present :: "account option \<Rightarrow> bool" where
  "present a = (a \<noteq> None \<and> a \<noteq> Some [])"

definition empty_entry :: edge_entry where
  "empty_entry = \<lparr>ee_volume = 0, ee_count = 0, ee_times = []\<rparr>"

text \<open>The edge entry after one more trade.\<close>

definition bump_entry :: "('ts \<Rightarrow> real option) \<Rightarrow> 'ts trade \<Rightarrow> edge_entry \<Rightarrow> edge_entry" where
  "bump_entry to_unix t en =
     \<lparr>ee_volume = ee_volume en + (case base_amount t of None \<Rightarrow> 0 | Some x \<Rightarrow> x),
      ee_count = ee_count en + 1,
      ee_times = (case Option.bind (ledger_close_time t) to_unix of
                    None \<Rightarrow> ee_times en | Some u \<Rightarrow> ee_times en @ [u])\<rparr>"

definition add_trade ::
    "graph_config \<Rightarrow> ('ts \<Rightarrow> real option) \<Rightarrow> 'ts trade \<Rightarrow> trade_graph \<Rightarrow> trade_graph \<times> graph_error option" where
  "add_trade cfg to_unix t g =
     (if \<not> present (base_account t) \<or> \<not> present (counter_account t) then (g, None)
      else
        let base = the (base_account t); counter = the (counter_account t);
            g1 = g\<lparr>g_index := node_add counter (node_add base (g_index g))\<rparr>;
            over = \<not> g_sharded g \<and> max_graph_nodes cfg < node_count (g_index g1)
        in if over \<and> \<not> shard_enabled cfg then (g1, Some Graph_Too_Large)
           else
             let g2 = (if over then g1\<lparr>g_cache := None, g_sharded := True\<rparr> else g1);
                 entry = (case dict_get (g_edges g2) (base, counter) of
                            None \<Rightarrow> empty_entry | Some en \<Rightarrow> en)
             in (g2\<lparr>g_edges := dict_set (base, counter) (bump_entry to_unix t entry) (g_edges g2),
                    g_cache := None\<rparr>, None))"

section \<open>Integer adjacency\<close>

text \<open>\<open>adj.setdefault(i, []).append(j)\<close>\<close>

definition push_edge :: "nat \<Rightarrow> nat \<Rightarrow> int_graph \<Rightarrow> int_graph" where
  "push_edge i j adj = dict_set i (succs adj i @ [j]) adj"

definition add_int_edge ::
    "node_index \<Rightarrow> account \<times> account \<Rightarrow> int_graph \<times> (nat \<times> nat) list \<Rightarrow> int_graph \<times> (nat \<times> nat) list" where
  "add_int_edge ni k st =
     (case (get_id ni (fst k), get_id ni (snd k)) of
        (Some i, Some j) \<Rightarrow>
          if (i, j) \<in> set (snd st) then st else (push_edge i j (fst st), (i, j) # snd st)
      | _ \<Rightarrow> st)"

definition small_adjacency :: "node_index \<Rightarrow> edge_data \<Rightarrow> int_graph" where
  "small_adjacency ni es = fst (fold (add_int_edge ni) (dict_keys es) ([], []))"

type_synonym csr_lib = "nat \<Rightarrow> ((nat \<times> nat) \<times> real) list \<Rightarrow> nat \<Rightarrow> nat list"

definition load_edge_data :: "graph_config \<Rightarrow> csr_lib \<Rightarrow> node_index \<Rightarrow> edge_data \<Rightarrow> graph_error + (nat \<Rightarrow> nat list)" where
  "load_edge_data cfg csr ni es =
     (let n = node_count ni in
      if max_graph_nodes cfg < n then Inl Graph_Too_Large
      else Inr (csr n (concat (map (\<lambda>((base, counter), en).
                  (case (get_id ni base, get_id ni counter) of
                     (Some i, Some j) \<Rightarrow> [((i, j), ee_volume en)] | _ \<Rightarrow> [])) es))))"

definition to_adjacency_dict :: "nat \<Rightarrow> (nat \<Rightarrow> nat list) \<Rightarrow> int_graph" where
  "to_adjacency_dict n rows = concat (map (\<lambda>i. if rows i \<noteq> [] then [(i, rows i)] else []) [0..<n])"

definition build_int_adjacency :: "graph_config \<Rightarrow> csr_lib \<Rightarrow> trade_graph \<Rightarrow> graph_error + int_graph" where
  "build_int_adjacency cfg csr g =
     (let n = node_count (g_index g) in
      if mmap_threshold cfg \<le> n
      then (case load_edge_data cfg csr (g_index g) (g_edges g) of
              Inl e \<Rightarrow> Inl e | Inr rows \<Rightarrow> Inr (to_adjacency_dict n rows))
      else Inr (small_adjacency (g_index g) (g_edges g)))"

section \<open>Metrics of a ring\<close>

definition mean :: "real list \<Rightarrow> real" where
  "mean xs = sum_list xs / real (length xs)"

definition pstdev :: "real list \<Rightarrow> real" where
  "pstdev xs = sqrt (mean (map (\<lambda>x. (x - mean xs)\<^sup>2) xs))"

definition inner_edges :: "account set \<Rightarrow> edge_data \<Rightarrow> edge_data" where
  "inner_edges A es = filter (\<lambda>((base, counter), _). base \<in> A \<and> counter \<in> A) es"

definition tightness :: "real list \<Rightarrow> real" where
  "tightness stamps =
     (let tss = sort stamps in
      if 2 \<le> length tss then pstdev (map (\<lambda>(a, b). b - a) (zip tss (tl tss))) else 0)"

definition scc_edge_metrics :: "edge_data \<Rightarrow> account set \<Rightarrow> real \<times> real \<times> real" where
  "scc_edge_metrics es A =
     (let inner = map snd (inner_edges A es) in
      (sum_list (map ee_volume inner),
       tightness (concat (map ee_times inner)),
       (if inner = [] then 0
        else real (sum_list (map ee_count inner)) / real (length inner))))"

subsection \<open>The threshold search of large rings\<close>

definition threshold_edges :: "real \<Rightarrow> nat \<times> (nat \<times> real) list \<Rightarrow> int_graph \<Rightarrow> int_graph" where
  "threshold_edges threshold ue g =
     fold (\<lambda>(v, weight) g. if threshold \<le> weight then push_edge (fst ue) v g else g) (snd ue) g"

definition threshold_graph :: "adjacency \<Rightarrow> real \<Rightarrow> int_graph" where
  "threshold_graph adjacency threshold = fold (threshold_edges threshold) (enumerate 0 adjacency) []"

definition has_scc_at_least :: "adjacency \<Rightarrow> nat \<Rightarrow> real \<Rightarrow> bool option" where
  "has_scc_at_least adjacency min_ring_size threshold =
     map_option (\<lambda>sccs. \<exists>scc\<in>set sccs. min_ring_size \<le> length scc)
       (tarjan_run (threshold_graph adjacency threshold))"

function threshold_search ::
    "(real \<Rightarrow> bool option) \<Rightarrow> real list \<Rightarrow> int \<Rightarrow> int \<Rightarrow> real \<Rightarrow> real option" where
  "threshold_search has_scc weights lo hi best_threshold =
     (if lo \<le> hi then
        let mid = (lo + hi) div 2 in
        (case has_scc (weights ! nat mid) of
           None \<Rightarrow> None
         | Some b \<Rightarrow>
             if b then threshold_search has_scc weights (mid + 1) hi (weights ! nat mid)
             else threshold_search has_scc weights lo (mid - 1) best_threshold)
      else Some best_threshold)"
  by pat_completeness auto
termination
  by (relation "measure (\<lambda>(h, ws, lo, hi, b). nat (hi - lo + 1))") auto

declare threshold_search.simps [simp del]

definition approx_max_bottleneck_cycle :: "adjacency \<Rightarrow> nat \<Rightarrow> real option" where
  "approx_max_bottleneck_cycle adjacency min_ring_size =
     (let weights = sorted_list_of_set (set (concat (map (map snd) adjacency))) in
      if weights = [] then Some 0
      else threshold_search (has_scc_at_least adjacency min_ring_size) weights 0 (int (length weights) - 1) 0)"

subsection \<open>Cycle volume\<close>

definition max_exact_cycle_volume_nodes :: nat where
  "max_exact_cycle_volume_nodes = 14"

fun index_of :: "account list \<Rightarrow> account \<Rightarrow> nat" where
  "index_of [] a = 0"
| "index_of (x # xs) a = (if x = a then 0 else Suc (index_of xs a))"

definition add_weighted_edge :: "account list \<Rightarrow> (account \<times> account) \<times> real \<Rightarrow> adjacency \<Rightarrow> adjacency" where
  "add_weighted_edge nds e adj =
     (case e of ((u, v), vol) \<Rightarrow>
        if u = v then adj
        else adj[index_of nds u := adj ! index_of nds u @ [(index_of nds v, vol)]])"

definition ring_adjacency :: "account list \<Rightarrow> ((account \<times> account) \<times> real) list \<Rightarrow> adjacency" where
  "ring_adjacency nds es = fold (add_weighted_edge nds) es (replicate (length nds) [])"

type_synonym nx_lib = "account list \<Rightarrow> ((account \<times> account) \<times> real) list \<Rightarrow> ((account \<times> account) \<times> real) list"

definition cycle_volume :: "account list \<Rightarrow> ((account \<times> account) \<times> real) list \<Rightarrow> nat \<Rightarrow> real option" where
  "cycle_volume subgraph_nodes subgraph_edges min_ring_size =
     (let nds = sort subgraph_nodes; n = length nds in
      if n < 2 \<or> n < min_ring_size then Some 0
      else let adjacency = ring_adjacency nds subgraph_edges in
        if max_exact_cycle_volume_nodes < n then approx_max_bottleneck_cycle adjacency min_ring_size
        else Some (max_bottleneck_cycle adjacency n min_ring_size))"

definition scc_small_subgraph :: "nx_lib \<Rightarrow> edge_data \<Rightarrow> account list \<Rightarrow> ((account \<times> account) \<times> real) list" where
  "scc_small_subgraph nxe es accounts =
     nxe accounts (map (\<lambda>(k, en). (k, ee_volume en)) (inner_edges (set accounts) es))"

section \<open>The ring search\<close>

datatype scc_outcome = Skip | Report ring | Fail

definition ring_of_scc ::
    "nx_lib \<Rightarrow> node_index \<Rightarrow> edge_data \<Rightarrow> nat \<Rightarrow> nat \<Rightarrow> real \<Rightarrow> nat list \<Rightarrow> scc_outcome" where
  "ring_of_scc nxe ni es min_size max_size min_volume scc =
     (if length scc < min_size then Skip
      else if \<exists>i\<in>set scc. get_node ni i = None then Fail
      else
        let accounts = sort (map (\<lambda>i. the (get_node ni i)) scc);
            (total, tight, avg) = scc_edge_metrics es (set accounts)
        in if max_size < length accounts then
             let volume = total * (1 / 2) in
             if volume < min_volume then Skip
             else Report \<lparr>r_accounts = accounts, r_total_volume = total, r_cycle_volume = volume,
                          r_avg_trade_count = avg, r_timing_tightness = tight, r_truncated = True\<rparr>
           else
             (case cycle_volume accounts (scc_small_subgraph nxe es accounts) min_size of
                None \<Rightarrow> Fail
              | Some volume \<Rightarrow>
                  if volume < min_volume then Skip
                  else Report \<lparr>r_accounts = accounts, r_total_volume = total, r_cycle_volume = volume,
                               r_avg_trade_count = avg, r_timing_tightness = tight, r_truncated = False\<rparr>))"

fun collect_rings :: "scc_outcome list \<Rightarrow> ring list option" where
  "collect_rings [] = Some []"
| "collect_rings (Skip # os) = collect_rings os"
| "collect_rings (Report r # os) = map_option (Cons r) (collect_rings os)"
| "collect_rings (Fail # os) = None"

text \<open>\<open>sorted(..., reverse=True)\<close> on the volumes: descending, equal rings in their order.\<close>

definition sort_rings :: "ring list \<Rightarrow> ring list" where
  "sort_rings rings = sort_key (\<lambda>r. (- r_total_volume r, - r_cycle_volume r)) rings"

definition compute_rings ::
    "graph_config \<Rightarrow> csr_lib \<Rightarrow> nx_lib \<Rightarrow> rings_key \<Rightarrow> trade_graph \<Rightarrow> graph_error + ring list" where
  "compute_rings cfg csr nxe key g =
     (case key of (min_size, max_size, min_volume) \<Rightarrow>
        case build_int_adjacency cfg csr g of
          Inl e \<Rightarrow> Inl e
        | Inr adj \<Rightarrow>
            (case tarjan_run adj of
               None \<Rightarrow> Inl Key_Error
             | Some sccs \<Rightarrow>
                 (case collect_rings (map (ring_of_scc nxe (g_index g) (g_edges g) (nat min_size) (nat max_size) min_volume) sccs) of
                    None \<Rightarrow> Inl Key_Error
                  | Some rings \<Rightarrow> Inr (sort_rings rings))))"

definition find_wash_rings ::
    "graph_config \<Rightarrow> csr_lib \<Rightarrow> nx_lib \<Rightarrow> rings_key \<Rightarrow> trade_graph \<Rightarrow> trade_graph \<times> (graph_error + ring list)" where
  "find_wash_rings cfg csr nxe key g =
     (if fst key < 1 then (g, Inl Value_Error)
      else if fst (snd key) < fst key then (g, Inl Value_Error)
      else case g_cache g of
        Some (k, rings) \<Rightarrow>
          if k = key then (g, Inr rings)
          else (case compute_rings cfg csr nxe key g of
                  Inl e \<Rightarrow> (g, Inl e) | Inr result \<Rightarrow> (g\<lparr>g_cache := Some (key, result)\<rparr>, Inr result))
      | None \<Rightarrow>
          (case compute_rings cfg csr nxe key g of
             Inl e \<Rightarrow> (g, Inl e) | Inr result \<Rightarrow> (g\<lparr>g_cache := Some (key, result)\<rparr>, Inr result)))"

section \<open>Adjacency dictionaries\<close>

lemma succs_push: "succs (push_edge i j g) u = (if u = i then succs g i @ [j] else succs g u)"
  by (simp add: push_edge_def succs_def dict_get_set)

lemma edges_push: "edges (push_edge i j g) = insert (i, j) (edges g)"
  by (auto simp: edges_def succs_push split: if_splits)

definition lively :: "int_graph \<Rightarrow> bool" where
  "lively g \<longleftrightarrow> dict_wf g \<and> (\<forall>(u, ns)\<in>set g. ns \<noteq> [])"

lemma lively_dict_set: "lively g \<Longrightarrow> ns \<noteq> [] \<Longrightarrow> lively (dict_set u ns g)"
proof -
  have "(\<forall>(u, ns)\<in>set g. ns \<noteq> []) \<Longrightarrow> ns \<noteq> [] \<Longrightarrow> \<forall>(u, ns)\<in>set (dict_set u ns g). ns \<noteq> []"
    by (induction g) (auto split: if_splits)
  then show "lively g \<Longrightarrow> ns \<noteq> [] \<Longrightarrow> lively (dict_set u ns g)"
    by (auto simp: lively_def intro: dict_wf_set)
qed

lemma lively_push: "lively g \<Longrightarrow> lively (push_edge i j g)"
  by (simp add: push_edge_def lively_dict_set)

lemma lively_Nil [simp]: "lively []"
  by (simp add: lively_def)

lemma edges_Nil [simp]: "edges [] = {}"
  by (simp add: edges_def succs_def)

lemma nodes_lively:
  assumes "lively g"
  shows "nodes g = Field (edges g)"
proof -
  have entry: "(u, ns) \<in> set g \<longleftrightarrow> succs g u = ns \<and> ns \<noteq> []" for u ns
    using assms by (auto simp: lively_def succs_def dict_wf_def split: option.splits
        dest: map_of_SomeD eq_key_imp_eq_value)
  have "fst ` set g = Domain (edges g)"
  proof (intro equalityI subsetI)
    fix u
    assume "u \<in> fst ` set g"
    then obtain ns where "(u, ns) \<in> set g" by force
    then show "u \<in> Domain (edges g)" using entry [of u ns] by (auto simp: edges_def neq_Nil_conv)
  next
    fix u
    assume "u \<in> Domain (edges g)"
    then have "succs g u \<noteq> []" by (auto simp: edges_def)
    then have "(u, succs g u) \<in> set g" using entry [of u "succs g u"] by auto
    then show "u \<in> fst ` set g" by (rule image_eqI [rotated]) simp
  qed
  moreover have "(\<Union>ns\<in>snd ` set g. set ns) = Range (edges g)"
  proof (rule sym, intro equalityI subsetI)
    fix x
    assume "x \<in> Range (edges g)"
    then obtain u where "x \<in> set (succs g u)" by (auto simp: edges_def)
    then have "(u, succs g u) \<in> set g" using entry [of u "succs g u"] by auto
    with \<open>x \<in> set (succs g u)\<close> show "x \<in> (\<Union>ns\<in>snd ` set g. set ns)" by force
  next
    fix x
    assume "x \<in> (\<Union>ns\<in>snd ` set g. set ns)"
    then obtain u ns where "(u, ns) \<in> set g" "x \<in> set ns" by force
    then show "x \<in> Range (edges g)" using entry [of u ns] by (auto simp: edges_def)
  qed
  ultimately show ?thesis by (simp only: nodes_def Field_def)
qed

section \<open>The threshold search\<close>

definition heavy_edges :: "adjacency \<Rightarrow> real \<Rightarrow> (nat \<times> nat) set" where
  "heavy_edges adj t = {(u, v). u < length adj \<and> (\<exists>w. (v, w) \<in> set (adj ! u) \<and> t \<le> w)}"

lemma fold_push_edges:
  "edges (fold (\<lambda>(v, weight) g. if t \<le> weight then push_edge u v g else g) es g) =
     edges g \<union> {(u, v) |v w. (v, w) \<in> set es \<and> t \<le> w}"
proof (induction es arbitrary: g)
  case (Cons e es)
  show ?case by (cases e) (auto simp: Cons.IH edges_push)
qed simp

lemma threshold_edges_edges:
  "edges (threshold_edges t (u, es) g) = edges g \<union> {(u, v) |v w. (v, w) \<in> set es \<and> t \<le> w}"
  by (simp only: threshold_edges_def fold_push_edges fst_conv snd_conv)

lemma threshold_graph_edges_from:
  "edges (fold (threshold_edges t) (enumerate k adj) g) =
     edges g \<union> {(k + u, v) |u v w. u < length adj \<and> (v, w) \<in> set (adj ! u) \<and> t \<le> w}"
proof (induction adj arbitrary: k g)
  case (Cons es adj)
  have "{(k + u, v) |u v w. u < length (es # adj) \<and> (v, w) \<in> set ((es # adj) ! u) \<and> t \<le> w} =
      {(k, v) |v w. (v, w) \<in> set es \<and> t \<le> w} \<union>
      {(Suc k + u, v) |u v w. u < length adj \<and> (v, w) \<in> set (adj ! u) \<and> t \<le> w}" (is "?L = ?A \<union> ?B")
  proof (intro equalityI subsetI)
    fix e assume "e \<in> ?L"
    then obtain u v w where e: "e = (k + u, v)" "u < length (es # adj)" "(v, w) \<in> set ((es # adj) ! u)" "t \<le> w"
      by blast
    then show "e \<in> ?A \<union> ?B" by (cases u) auto
  next
    fix e assume "e \<in> ?A \<union> ?B"
    then show "e \<in> ?L"
    proof
      assume "e \<in> ?A" then show "e \<in> ?L" by force
    next
      assume "e \<in> ?B"
      then obtain u v w where "e = (k + Suc u, v)" "Suc u < length (es # adj)"
        "(v, w) \<in> set ((es # adj) ! Suc u)" "t \<le> w" by auto
      then show "e \<in> ?L" by blast
    qed
  qed
  then show ?case
    by (simp only: enumerate_simps fold_Cons comp_apply Cons.IH threshold_edges_edges Un_assoc)
qed simp

lemma threshold_graph_edges: "edges (threshold_graph adj t) = heavy_edges adj t"
  unfolding threshold_graph_def heavy_edges_def threshold_graph_edges_from by auto

lemma threshold_graph_lively: "lively (threshold_graph adj t)"
  unfolding threshold_graph_def
proof (rule fold_keeps)
  fix ue g assume "lively g"
  then show "lively (threshold_edges t ue g)"
    unfolding threshold_edges_def by (rule fold_keeps) (auto intro: lively_push split: prod.splits)
qed simp

lemma heavy_edges_antimono: "t \<le> t' \<Longrightarrow> heavy_edges adj t' \<subseteq> heavy_edges adj t"
  by (force simp: heavy_edges_def)

lemma scc_of_mono:
  assumes "edges g \<subseteq> edges g'"
  shows "scc_of g v \<subseteq> scc_of g' v"
proof -
  have "(edges g)\<^sup>* \<subseteq> (edges g')\<^sup>*" using assms by (rule rtrancl_mono)
  then show ?thesis unfolding scc_of_def by blast
qed

text \<open>Some component of the edges of weight at least \<open>t\<close> has \<open>k\<close> nodes or more.\<close>

definition heavy_component :: "adjacency \<Rightarrow> nat \<Rightarrow> real \<Rightarrow> bool" where
  "heavy_component adj k t \<longleftrightarrow>
     (\<exists>v\<in>Field (heavy_edges adj t). k \<le> card (scc_of (threshold_graph adj t) v))"

lemma has_scc_correct: "has_scc_at_least adj k t = Some (heavy_component adj k t)"
proof -
  have wf: "dict_wf (threshold_graph adj t)" using threshold_graph_lively by (simp add: lively_def)
  obtain cs where cs: "tarjan_run (threshold_graph adj t) = Some cs" by (rule tarjan.returns [OF wf])
  show ?thesis
    using tarjan.large_component_iff [OF wf cs, of k] cs nodes_lively [OF threshold_graph_lively]
    by (simp add: has_scc_at_least_def heavy_component_def threshold_graph_edges)
qed

lemma heavy_component_antimono:
  assumes "t \<le> t'" "heavy_component adj k t'"
  shows "heavy_component adj k t"
proof -
  obtain v where v: "v \<in> Field (heavy_edges adj t')" "k \<le> card (scc_of (threshold_graph adj t') v)"
    using assms(2) by (auto simp: heavy_component_def)
  have sub: "heavy_edges adj t' \<subseteq> heavy_edges adj t" by (rule heavy_edges_antimono [OF assms(1)])
  then have "card (scc_of (threshold_graph adj t') v) \<le> card (scc_of (threshold_graph adj t) v)"
    by (intro card_mono finite_scc_of scc_of_mono) (simp add: threshold_graph_edges)
  moreover have "v \<in> Field (heavy_edges adj t)" using v(1) sub mono_Field by blast
  ultimately show ?thesis using v(2) unfolding heavy_component_def by (meson le_trans)
qed

text \<open>
  The binary search on a downward closed test: what lies left of the window passes
  and is recorded, what lies right of it fails.
\<close>

definition best_passing :: "(real \<Rightarrow> bool) \<Rightarrow> real list \<Rightarrow> nat \<Rightarrow> real" where
  "best_passing P ws k = (if k = 0 then 0 else ws ! (k - 1))"

lemma threshold_search_correct:
  assumes sorted: "sorted ws" and down: "\<And>a b. a \<le> b \<Longrightarrow> P b \<Longrightarrow> P a" and test: "\<And>t. h t = Some (P t)"
    and "0 \<le> lo" "lo \<le> hi + 1" "hi < int (length ws)"
    and "\<And>i. i < nat lo \<Longrightarrow> P (ws ! i)" "\<And>i. hi < int i \<Longrightarrow> i < length ws \<Longrightarrow> \<not> P (ws ! i)"
    and "best = best_passing P ws (nat lo)"
  shows "\<exists>k\<le>length ws. threshold_search h ws lo hi best = Some (best_passing P ws k) \<and>
           (\<forall>i<length ws. P (ws ! i) \<longleftrightarrow> i < k)"
  using assms(1,3-)
proof (induction h ws lo hi best rule: threshold_search.induct)
  case (1 h ws lo hi best)
  note sorted = 1(3) and test = 1(4) and bounds = 1(5-7) and pass = 1(8) and fail = 1(9) and best = 1(10)
  show ?case
  proof (cases "lo \<le> hi")
    case True
    define mid where "mid = (lo + hi) div 2"
    have mid: "lo \<le> mid" "mid \<le> hi" "0 \<le> mid" "nat mid < length ws"
      using True bounds unfolding mid_def by auto
    show ?thesis
    proof (cases "P (ws ! nat mid)")
      case pm: True
      have pass': "P (ws ! i)" if "i < nat (mid + 1)" for i
      proof (rule down [OF _ pm])
        show "ws ! i \<le> ws ! nat mid" using that mid sorted by (intro sorted_nth_mono) auto
      qed
      have "\<exists>k\<le>length ws. threshold_search h ws (mid + 1) hi (ws ! nat mid) = Some (best_passing P ws k) \<and>
           (\<forall>i<length ws. P (ws ! i) \<longleftrightarrow> i < k)"
        by (rule 1(1) [OF True mid_def _ pm sorted test _ _ _ pass' fail])
          (use mid bounds test in \<open>auto simp: best_passing_def nat_add_distrib\<close>)
      then show ?thesis using True pm test
        by (subst threshold_search.simps) (simp add: mid_def [symmetric] Let_def)
    next
      case pm: False
      have fail': "\<not> P (ws ! i)" if "mid - 1 < int i" "i < length ws" for i
      proof
        assume "P (ws ! i)"
        moreover have "ws ! nat mid \<le> ws ! i" using that mid sorted by (intro sorted_nth_mono) auto
        ultimately show False using pm down by blast
      qed
      have "\<exists>k\<le>length ws. threshold_search h ws lo (mid - 1) best = Some (best_passing P ws k) \<and>
           (\<forall>i<length ws. P (ws ! i) \<longleftrightarrow> i < k)"
        by (rule 1(2) [OF True mid_def _ pm sorted test _ _ _ pass fail' best])
          (use mid bounds test in auto)
      then show ?thesis using True pm test
        by (subst threshold_search.simps) (simp add: mid_def [symmetric] Let_def)
    qed
  next
    case False
    then have "lo = hi + 1" using bounds by simp
    then have "P (ws ! i) \<longleftrightarrow> i < nat lo" if "i < length ws" for i
      using that pass [of i] fail [of i] bounds by linarith
    moreover have "nat lo \<le> length ws" using \<open>lo = hi + 1\<close> bounds by simp
    ultimately show ?thesis using False best
      by (intro exI [of _ "nat lo"]) (simp add: threshold_search.simps)
  qed
qed

definition edge_weights :: "adjacency \<Rightarrow> real set" where
  "edge_weights adj = set (concat (map (map snd) adj))"

lemma approx_unfold:
  "approx_max_bottleneck_cycle adj k =
     (let ws = sorted_list_of_set (edge_weights adj) in
      if ws = [] then Some 0
      else threshold_search (has_scc_at_least adj k) ws 0 (int (length ws) - 1) 0)"
  by (simp only: approx_max_bottleneck_cycle_def edge_weights_def)

lemma approx_correct:
  "\<exists>t. approx_max_bottleneck_cycle adj k = Some t \<and>
     (t = 0 \<or> t \<in> edge_weights adj \<and> heavy_component adj k t) \<and>
     (\<forall>w\<in>edge_weights adj. heavy_component adj k w \<longrightarrow> w \<le> t)"
proof -
  define ws where "ws = sorted_list_of_set (edge_weights adj)"
  have set: "set ws = edge_weights adj" and sorted: "sorted ws"
    unfolding ws_def by (simp_all add: edge_weights_def)
  show ?thesis
  proof (cases "ws = []")
    case True
    then show ?thesis
      using set by (simp add: approx_unfold Let_def ws_def [symmetric])
  next
    case False
    have "\<exists>j\<le>length ws. threshold_search (has_scc_at_least adj k) ws 0 (int (length ws) - 1) 0 =
            Some (best_passing (heavy_component adj k) ws j) \<and>
          (\<forall>i<length ws. heavy_component adj k (ws ! i) \<longleftrightarrow> i < j)"
      by (rule threshold_search_correct [OF sorted heavy_component_antimono has_scc_correct])
        (auto simp: best_passing_def)
    then obtain j where j: "j \<le> length ws" "\<forall>i<length ws. heavy_component adj k (ws ! i) \<longleftrightarrow> i < j"
      "threshold_search (has_scc_at_least adj k) ws 0 (int (length ws) - 1) 0 =
         Some (best_passing (heavy_component adj k) ws j)" by blast
    have "approx_max_bottleneck_cycle adj k = Some (best_passing (heavy_component adj k) ws j)"
      using False j(3)
      by (simp add: approx_unfold Let_def ws_def [symmetric])
    moreover have "w \<le> best_passing (heavy_component adj k) ws j"
      if "w \<in> edge_weights adj" "heavy_component adj k w" for w
    proof -
      obtain i where i: "i < length ws" "w = ws ! i" using \<open>w \<in> edge_weights adj\<close> set by (metis in_set_conv_nth)
      then have "i < j" using that j(2) by blast
      then have "ws ! i \<le> ws ! (j - 1)" using sorted j(1) by (intro sorted_nth_mono) auto
      then show ?thesis using i \<open>i < j\<close> by (simp add: best_passing_def)
    qed
    moreover have "j \<noteq> 0 \<Longrightarrow> ws ! (j - 1) \<in> edge_weights adj \<and> heavy_component adj k (ws ! (j - 1))"
      using j set [symmetric] by auto
    ultimately show ?thesis by (auto simp: best_passing_def)
  qed
qed

lemma cycle_heavy_component:
  assumes cyc: "is_cycle adj c ws" and len: "k \<le> length c"
  shows "heavy_component adj k (Min (set ws)) \<and> Min (set ws) \<in> edge_weights adj"
proof -
  let ?t = "Min (set ws)" and ?n = "length c"
  let ?g = "threshold_graph adj ?t"
  have c: "2 \<le> ?n" "distinct c" "set c \<subseteq> {..<length adj}" "length ws = ?n"
    "\<And>i. i < ?n \<Longrightarrow> (c ! (Suc i mod ?n), ws ! i) \<in> set (adj ! (c ! i))"
    using cyc by (auto simp: is_cycle_def)
  have ne: "ws \<noteq> []" using c(1,4) by auto
  have step: "(c ! i, c ! (Suc i mod ?n)) \<in> heavy_edges adj ?t" if "i < ?n" for i
  proof -
    have "?t \<le> ws ! i" using that c(4) by simp
    moreover have "c ! i < length adj" using that c(3) nth_mem by blast
    ultimately show ?thesis using c(5) [OF that] by (auto simp: heavy_edges_def)
  qed
  have n0: "0 < ?n" using c(1) by linarith
  have reach: "reach ?g (c ! i) (c ! ((i + d) mod ?n))" if "i < ?n" for i d
  proof (induction d)
    case (Suc d)
    have "(c ! ((i + d) mod ?n), c ! (Suc ((i + d) mod ?n) mod ?n)) \<in> edges ?g"
      unfolding threshold_graph_edges by (rule step) (rule mod_less_divisor [OF n0])
    with Suc have "reach ?g (c ! i) (c ! (Suc ((i + d) mod ?n) mod ?n))" by (rule rtrancl_into_rtrancl)
    then show ?case by (simp add: mod_Suc_eq)
  qed (use that in simp)
  have all: "reach ?g (c ! i) (c ! j)" if "i < ?n" "j < ?n" for i j
  proof -
    have "(i + (?n - i + j)) mod ?n = j" using that by simp
    with reach [OF that(1), of "?n - i + j"] show ?thesis by simp
  qed
  have "set c \<subseteq> scc_of ?g (c ! 0)"
    using all n0 by (auto simp: scc_of_def in_set_conv_nth)
  then have "?n \<le> card (scc_of ?g (c ! 0))"
    using card_mono [OF finite_scc_of] distinct_card [OF c(2)] by metis
  moreover have "c ! 0 \<in> Field (heavy_edges adj ?t)" using step [OF n0] by (rule FieldI1)
  ultimately have heavy: "heavy_component adj k ?t" using len by (auto simp: heavy_component_def intro!: bexI)
  have "?t \<in> set ws" using ne by simp
  then obtain i where i: "i < ?n" "ws ! i = ?t" using c(4) by (metis in_set_conv_nth)
  have "c ! i < length adj" using i(1) c(3) nth_mem by blast
  then have "?t \<in> edge_weights adj"
    using c(5) [OF i(1)] i(2) by (force simp: edge_weights_def)
  with heavy show ?thesis by blast
qed

section \<open>The adjacency of a ring\<close>

lemma index_of_nth: "distinct nds \<Longrightarrow> i < length nds \<Longrightarrow> index_of nds (nds ! i) = i"
proof (induction nds arbitrary: i)
  case (Cons x nds)
  then show ?case by (cases i) auto
qed simp

lemma index_of_less: "a \<in> set nds \<Longrightarrow> index_of nds a < length nds \<and> nds ! index_of nds a = a"
  by (induction nds) auto

definition inner_key :: "account list \<Rightarrow> (account \<times> account) \<times> real \<Rightarrow> bool" where
  "inner_key nds e \<longleftrightarrow> fst (fst e) \<in> set nds \<and> snd (fst e) \<in> set nds"

lemma ring_adjacency_spec:
  assumes "distinct nds" "\<forall>e\<in>set es. inner_key nds e"
  shows "length (ring_adjacency nds es) = length nds \<and>
    (\<forall>i<length nds. set (ring_adjacency nds es ! i) =
       {(index_of nds v, x) |v x. ((nds ! i, v), x) \<in> set es \<and> nds ! i \<noteq> v})"
proof -
  have "length (fold (add_weighted_edge nds) es adj) = length nds \<and>
    (\<forall>i<length nds. set (fold (add_weighted_edge nds) es adj ! i) = set (adj ! i) \<union>
       {(index_of nds v, x) |v x. ((nds ! i, v), x) \<in> set es \<and> nds ! i \<noteq> v})"
    if "length adj = length nds" for adj
    using assms(2) that
  proof (induction es arbitrary: adj)
    case (Cons e es)
    obtain u v x where e: "e = ((u, v), x)" by (cases e) auto
    have u: "index_of nds u < length nds" "nds ! index_of nds u = u"
      using Cons.prems(1) e index_of_less by (auto simp: inner_key_def)
    let ?adj = "add_weighted_edge nds e adj"
    have len: "length ?adj = length nds" using Cons.prems(2) by (simp add: add_weighted_edge_def e)
    have step: "set (?adj ! i) = set (adj ! i) \<union>
        {(index_of nds v', x') |v' x'. ((nds ! i, v'), x') = e \<and> nds ! i \<noteq> v'}" if "i < length nds" for i
    proof (cases "i = index_of nds u")
      case True
      then show ?thesis using u Cons.prems(2) by (auto simp: add_weighted_edge_def e)
    next
      case False
      then have "nds ! i \<noteq> u" using that index_of_nth [OF assms(1) that] by metis
      with False show ?thesis by (auto simp: add_weighted_edge_def e)
    qed
    note IH = Cons.IH [OF _ len]
    show ?case
    proof (intro conjI allI impI)
      show "length (fold (add_weighted_edge nds) (e # es) adj) = length nds"
        using IH Cons.prems(1) by simp
    next
      fix i assume i: "i < length nds"
      have "set (fold (add_weighted_edge nds) (e # es) adj ! i) = set (?adj ! i) \<union>
          {(index_of nds v, x) |v x. ((nds ! i, v), x) \<in> set es \<and> nds ! i \<noteq> v}"
        using IH Cons.prems(1) i by simp
      then show "set (fold (add_weighted_edge nds) (e # es) adj ! i) = set (adj ! i) \<union>
          {(index_of nds v, x) |v x. ((nds ! i, v), x) \<in> set (e # es) \<and> nds ! i \<noteq> v}"
        unfolding step [OF i] by auto
    qed
  qed simp
  from this [of "replicate (length nds) []"] show ?thesis by (simp add: ring_adjacency_def)
qed

section \<open>Cycles of trades\<close>

definition volume_of :: "edge_data \<Rightarrow> account \<Rightarrow> account \<Rightarrow> real" where
  "volume_of es a b = (case dict_get es (a, b) of None \<Rightarrow> 0 | Some en \<Rightarrow> ee_volume en)"

definition trade_cycle :: "edge_data \<Rightarrow> account list \<Rightarrow> bool" where
  "trade_cycle es c \<longleftrightarrow> 2 \<le> length c \<and> distinct c \<and>
     (\<forall>i<length c. (c ! i, c ! (Suc i mod length c)) \<in> set (dict_keys es))"

definition cycle_volumes :: "edge_data \<Rightarrow> account list \<Rightarrow> real list" where
  "cycle_volumes es c = map (\<lambda>i. volume_of es (c ! i) (c ! (Suc i mod length c))) [0..<length c]"

abbreviation nx_keeps_edges :: "nx_lib \<Rightarrow> bool" where
  "nx_keeps_edges nxe \<equiv> (\<forall>nds es. distinct (map fst es) \<longrightarrow> mset (nxe nds es) = mset es)"

lemma subgraph_edges:
  assumes "dict_wf es" "nx_keeps_edges nxe"
  shows "((u, v), x) \<in> set (scc_small_subgraph nxe es A) \<longleftrightarrow>
           (u, v) \<in> set (dict_keys es) \<and> u \<in> set A \<and> v \<in> set A \<and> x = volume_of es u v"
proof -
  let ?E = "map (\<lambda>(k, en). (k, ee_volume en)) (inner_edges (set A) es)"
  have "map fst ?E = map fst (inner_edges (set A) es)" by (simp add: split_def)
  then have "distinct (map fst ?E)" using assms(1)
    by (simp only: inner_edges_def dict_wf_def distinct_map_filter)
  then have set: "set (scc_small_subgraph nxe es A) = set ?E"
    using assms(2) unfolding scc_small_subgraph_def by (metis set_mset_mset)
  have get: "((u, v), en) \<in> set es \<longleftrightarrow> dict_get es (u, v) = Some en" for en
    using assms(1) by (simp add: dict_wf_def)
  have key: "(u, v) \<in> set (dict_keys es) \<longleftrightarrow> (\<exists>en. dict_get es (u, v) = Some en)"
    using get by (force simp: image_iff)
  have "((u, v), x) \<in> set ?E \<longleftrightarrow> (\<exists>en. ((u, v), en) \<in> set es \<and> u \<in> set A \<and> v \<in> set A \<and> x = ee_volume en)"
    by (auto simp: inner_edges_def image_iff)
  then show ?thesis unfolding set get key by (auto simp: volume_of_def)
qed

lemma ring_adjacency_edge:
  assumes "dict_wf es" "nx_keeps_edges nxe" "distinct nds" "set A = set nds" "i < length nds"
  shows "(j, x) \<in> set (ring_adjacency nds (scc_small_subgraph nxe es A) ! i) \<longleftrightarrow>
     j < length nds \<and> (nds ! i, nds ! j) \<in> set (dict_keys es) \<and> i \<noteq> j \<and> x = volume_of es (nds ! i) (nds ! j)"
proof -
  have inner: "\<forall>e\<in>set (scc_small_subgraph nxe es A). inner_key nds e"
    using subgraph_edges [OF assms(1,2)] assms(4) by (auto simp: inner_key_def)
  have "(j, x) \<in> set (ring_adjacency nds (scc_small_subgraph nxe es A) ! i) \<longleftrightarrow>
     (\<exists>v. j = index_of nds v \<and> (nds ! i, v) \<in> set (dict_keys es) \<and> v \<in> set nds \<and> nds ! i \<noteq> v \<and>
        x = volume_of es (nds ! i) v)"
    using ring_adjacency_spec [OF assms(3) inner] assms(4,5) subgraph_edges [OF assms(1,2)] by auto
  also have "\<dots> \<longleftrightarrow> j < length nds \<and> (nds ! i, nds ! j) \<in> set (dict_keys es) \<and> i \<noteq> j \<and>
      x = volume_of es (nds ! i) (nds ! j)"
    using index_of_less [of _ nds] index_of_nth [OF assms(3)] assms(5) by (metis nth_mem)
  finally show ?thesis .
qed

lemma trade_cycle_is_cycle:
  assumes wf: "dict_wf es" "nx_keeps_edges nxe" and nds: "distinct nds" "set A = set nds"
    and c: "set c \<subseteq> {..<length nds}"
  shows "is_cycle (ring_adjacency nds (scc_small_subgraph nxe es A)) c ws \<longleftrightarrow>
           trade_cycle es (map ((!) nds) c) \<and> ws = cycle_volumes es (map ((!) nds) c)"
proof -
  let ?n = "length c" and ?adj = "ring_adjacency nds (scc_small_subgraph nxe es A)"
  have inner: "\<forall>e\<in>set (scc_small_subgraph nxe es A). inner_key nds e"
    using subgraph_edges [OF wf] nds(2) by (auto simp: inner_key_def)
  have len: "length ?adj = length nds" using ring_adjacency_spec [OF nds(1) inner] by simp
  have inj: "inj_on ((!) nds) (set c)" using c nds(1) by (meson inj_on_nth lessThan_iff subset_iff)
  have lt: "c ! i < length nds" if "i < ?n" for i using that c nth_mem by blast
  have suc: "Suc i mod ?n < ?n" if "i < ?n" for i by (rule mod_less_divisor) (use that in linarith)
  have next_ne: "c ! i \<noteq> c ! (Suc i mod ?n)" if "i < ?n" "2 \<le> ?n" "distinct c" for i
  proof -
    have "Suc i mod ?n \<noteq> i" using that(1,2) by (cases "Suc i = ?n") auto
    moreover have "Suc i mod ?n < ?n" by (rule mod_less_divisor) (use that in linarith)
    ultimately show ?thesis using that by (simp add: nth_eq_iff_index_eq)
  qed
  have edge: "(c ! (Suc i mod ?n), y) \<in> set (?adj ! (c ! i)) \<longleftrightarrow>
      (nds ! (c ! i), nds ! (c ! (Suc i mod ?n))) \<in> set (dict_keys es) \<and>
      y = volume_of es (nds ! (c ! i)) (nds ! (c ! (Suc i mod ?n)))"
    if "i < ?n" "2 \<le> ?n" "distinct c" for i y
    using ring_adjacency_edge [OF wf nds lt [OF that(1)]] lt [OF suc [OF that(1)]] next_ne [OF that] by auto
  have "is_cycle ?adj c ws \<longleftrightarrow> 2 \<le> ?n \<and> distinct c \<and> length ws = ?n \<and>
      (\<forall>i<?n. (c ! (Suc i mod ?n), ws ! i) \<in> set (?adj ! (c ! i)))"
    using c by (auto simp: is_cycle_def len)
  also have "\<dots> \<longleftrightarrow> 2 \<le> ?n \<and> distinct c \<and> length ws = ?n \<and>
      (\<forall>i<?n. (nds ! (c ! i), nds ! (c ! (Suc i mod ?n))) \<in> set (dict_keys es) \<and>
        ws ! i = volume_of es (nds ! (c ! i)) (nds ! (c ! (Suc i mod ?n))))"
    using edge by blast
  finally have cyc: "is_cycle ?adj c ws \<longleftrightarrow> \<dots>" .
  have t1: "trade_cycle es (map ((!) nds) c) \<longleftrightarrow> 2 \<le> ?n \<and> distinct c \<and>
      (\<forall>i<?n. (nds ! (c ! i), nds ! (c ! (Suc i mod ?n))) \<in> set (dict_keys es))"
    using inj suc by (simp add: trade_cycle_def distinct_map)
  have nth: "cycle_volumes es (map ((!) nds) c) ! i =
      volume_of es (nds ! (c ! i)) (nds ! (c ! (Suc i mod ?n)))" if "i < ?n" for i
    using that suc [OF that] by (simp add: cycle_volumes_def)
  have "length (cycle_volumes es (map ((!) nds) c)) = ?n" by (simp add: cycle_volumes_def)
  then have t2: "ws = cycle_volumes es (map ((!) nds) c) \<longleftrightarrow> length ws = ?n \<and>
      (\<forall>i<?n. ws ! i = volume_of es (nds ! (c ! i)) (nds ! (c ! (Suc i mod ?n))))"
    using nth by (auto simp: list_eq_iff_nth_eq)
  show ?thesis by (simp only: cyc t1 t2 imp_conjR all_conj_distrib conj_ac)
qed

lemma ring_adjacency_wf:
  assumes "dict_wf es" "nx_keeps_edges nxe" "distinct nds" "set A = set nds"
  shows "adjacency_wf (ring_adjacency nds (scc_small_subgraph nxe es A)) (length nds)"
proof -
  have inner: "\<forall>e\<in>set (scc_small_subgraph nxe es A). inner_key nds e"
    using subgraph_edges [OF assms(1,2)] assms(4) by (auto simp: inner_key_def)
  have len: "length (ring_adjacency nds (scc_small_subgraph nxe es A)) = length nds"
    using ring_adjacency_spec [OF assms(3) inner] by simp
  then show ?thesis unfolding adjacency_wf_def
    using ring_adjacency_edge [OF assms] by (fastforce simp: in_set_conv_nth [where xs = "ring_adjacency _ _"])
qed

text \<open>What the exact branch computes, over accounts.\<close>

lemma cycle_volume_exact:
  assumes wf: "dict_wf es" "nx_keeps_edges nxe" and A: "distinct A" "2 \<le> length A" "length A \<le> 14"
  shows "\<exists>v\<ge>0. cycle_volume A (scc_small_subgraph nxe es A) k = Some v \<and>
    (\<forall>c. trade_cycle es c \<and> set c \<subseteq> set A \<and> k \<le> length c \<longrightarrow> Min (set (cycle_volumes es c)) \<le> v) \<and>
    (v = 0 \<or> (\<exists>c. trade_cycle es c \<and> set c \<subseteq> set A \<and> k \<le> length c \<and> v = Min (set (cycle_volumes es c))))"
proof (cases "length A < k")
  case True
  have "length c \<le> length A" if "trade_cycle es c" "set c \<subseteq> set A" for c
    using that A(1) by (metis card_mono distinct_card finite_set trade_cycle_def)
  with True show ?thesis by (auto simp: cycle_volume_def Let_def intro!: exI [of _ 0]) (metis leD le_trans)
next
  case False
  let ?nds = "sort A" and ?n = "length A"
  let ?adj = "ring_adjacency ?nds (scc_small_subgraph nxe es A)"
  have nds: "distinct ?nds" "set A = set ?nds" using A(1) by auto
  have awf: "adjacency_wf ?adj ?n" using ring_adjacency_wf [OF wf nds] by simp
  let ?v = "max_bottleneck_cycle ?adj ?n k"
  have len: "length ?adj = length ?nds" using awf by (simp add: adjacency_wf_def)
  have v: "cycle_volume A (scc_small_subgraph nxe es A) k = Some ?v"
    using False A by (simp add: cycle_volume_def Let_def max_exact_cycle_volume_nodes_def)
  have up: "Min (set (cycle_volumes es c)) \<le> ?v"
    if c: "trade_cycle es c" "set c \<subseteq> set A" "k \<le> length c" for c
  proof -
    let ?c = "map (index_of ?nds) c"
    have restore: "map ((!) ?nds) ?c = c"
      using c(2) index_of_less [of _ ?nds] by (auto intro!: map_idI)
    have "set ?c \<subseteq> {..<length ?nds}" using c(2) index_of_less [of _ ?nds] by auto
    then have "is_cycle ?adj ?c (cycle_volumes es c)"
      using trade_cycle_is_cycle [OF wf nds, of ?c] restore c(1) by simp
    then show ?thesis using max_bottleneck_dominates [OF _ awf] c(3) by simp
  qed
  have low: "?v = 0 \<or> (\<exists>c. trade_cycle es c \<and> set c \<subseteq> set A \<and> k \<le> length c \<and> ?v = Min (set (cycle_volumes es c)))"
  proof (cases "?v = 0")
    case nz: False
    then obtain c ws where c: "is_cycle ?adj c ws" "k \<le> length c" "?v = Min (set ws)"
      using max_bottleneck_achieved [OF awf, of k] by (auto simp: achieved_def)
    have sub: "set c \<subseteq> {..<length ?nds}" using c(1) len by (simp add: is_cycle_def)
    then have "trade_cycle es (map ((!) ?nds) c)" "ws = cycle_volumes es (map ((!) ?nds) c)"
      using trade_cycle_is_cycle [OF wf nds sub] c(1) by auto
    moreover have "set (map ((!) ?nds) c) \<subseteq> set A"
      using sub nds(2) nth_mem [of _ ?nds] by (force simp del: set_sort)
    ultimately show ?thesis using c(2,3) by (metis length_map)
  qed simp
  show ?thesis using v up low max_bottleneck_nonneg by blast
qed

section \<open>Well-formed graphs\<close>

abbreviation pairs :: "edge_data \<Rightarrow> (account \<times> account) set" where
  "pairs es \<equiv> set (dict_keys es)"

definition index_wf :: "node_index \<Rightarrow> bool" where
  "index_wf ni \<longleftrightarrow> distinct (int_to_str ni) \<and> (\<forall>a i. get_id ni a = Some i \<longleftrightarrow> get_node ni i = Some a)"

definition graph_wf :: "trade_graph \<Rightarrow> bool" where
  "graph_wf g \<longleftrightarrow> index_wf (g_index g) \<and> dict_wf (g_edges g) \<and>
     Field (pairs (g_edges g)) \<subseteq> set (int_to_str (g_index g))"

lemma get_node_iff: "get_node ni i = Some a \<longleftrightarrow> i < length (int_to_str ni) \<and> int_to_str ni ! i = a"
  by (auto simp: get_node_def)

lemma index_wf_new: "index_wf new_node_index"
  by (simp add: index_wf_def new_node_index_def get_id_def get_node_def)

lemma get_id_None_iff: "index_wf ni \<Longrightarrow> get_id ni a = None \<longleftrightarrow> a \<notin> set (int_to_str ni)"
  unfolding index_wf_def get_node_iff by (metis in_set_conv_nth not_None_eq)

lemma node_add_names:
  assumes "index_wf ni"
  shows "int_to_str (node_add a ni) = (if a \<in> set (int_to_str ni) then int_to_str ni else int_to_str ni @ [a])"
  using get_id_None_iff [OF assms, of a] by (auto simp: node_add_def get_id_def)

lemma node_add_wf [wf_intros]: "index_wf ni \<Longrightarrow> index_wf (node_add a ni)"
proof -
  assume wf: "index_wf ni"
  show "index_wf (node_add a ni)"
  proof (cases "a \<in> set (int_to_str ni)")
    case True
    then have "node_add a ni = ni" using get_id_None_iff [OF wf, of a] by (auto simp: node_add_def get_id_def)
    with wf show ?thesis by simp
  next
    case False
    let ?ni = "node_add a ni"
    have ni: "str_to_int ?ni = dict_set a (length (int_to_str ni)) (str_to_int ni)"
      "int_to_str ?ni = int_to_str ni @ [a]"
      using False get_id_None_iff [OF wf, of a] by (auto simp: node_add_def get_id_def)
    have old: "get_id ni b = Some i \<longleftrightarrow> i < length (int_to_str ni) \<and> int_to_str ni ! i = b" for b i
      using wf by (simp add: index_wf_def get_node_iff)
    have "get_id ?ni b = Some i \<longleftrightarrow> get_node ?ni i = Some b" for b i
    proof (cases "b = a")
      case True
      have "i < length (int_to_str ni) \<Longrightarrow> int_to_str ni ! i \<noteq> a" using False nth_mem by metis
      then show ?thesis using True ni by (auto simp: get_id_def get_node_iff dict_get_set nth_append less_Suc_eq)
    next
      case b: False
      then have "get_id ?ni b = get_id ni b" using ni by (simp add: get_id_def dict_get_set)
      then show ?thesis using old [of b i] b ni by (auto simp: get_node_iff nth_append)
    qed
    then show ?thesis using wf False ni(2) by (simp add: index_wf_def)
  qed
qed

lemma add_trade_wf [wf_intros]: "graph_wf g \<Longrightarrow> graph_wf (fst (add_trade cfg tu t g))"
proof -
  assume wf: "graph_wf g"
  let ?b = "the (base_account t)" and ?c = "the (counter_account t)"
  let ?ni = "node_add ?c (node_add ?b (g_index g))"
  have ni: "index_wf ?ni" using wf by (simp add: graph_wf_def node_add_wf)
  have names: "set (int_to_str ?ni) = set (int_to_str (g_index g)) \<union> {?b, ?c}"
    using wf by (auto simp: graph_wf_def node_add_names node_add_wf)
  have old: "Field (pairs (g_edges g)) \<subseteq> set (int_to_str ?ni)"
    using wf names by (auto simp: graph_wf_def)
  have new: "Field (pairs (dict_set (?b, ?c) en (g_edges g))) \<subseteq> set (int_to_str ?ni)" for en
    using old names unfolding dict_keys_set by (auto simp: Field_def)
  show "graph_wf (fst (add_trade cfg tu t g))"
    using wf ni old new by (simp add: graph_wf_def add_trade_def Let_def dict_wf_set)
qed

lemma find_wash_rings_frame:
  "g_index (fst (find_wash_rings cfg csr nxe key g)) = g_index g \<and>
   g_edges (fst (find_wash_rings cfg csr nxe key g)) = g_edges g \<and>
   g_sharded (fst (find_wash_rings cfg csr nxe key g)) = g_sharded g"
  by (auto simp: find_wash_rings_def split: option.splits sum.splits)

subsection \<open>From accounts to indices\<close>

definition id_of :: "node_index \<Rightarrow> account \<Rightarrow> nat" where
  "id_of ni a = the (get_id ni a)"

definition account_scc :: "edge_data \<Rightarrow> account \<Rightarrow> account set" where
  "account_scc es a = {b. (a, b) \<in> (pairs es)\<^sup>* \<and> (b, a) \<in> (pairs es)\<^sup>*}"

lemma id_of_name:
  assumes "index_wf ni" "a \<in> set (int_to_str ni)"
  shows "get_id ni a = Some (id_of ni a)" "get_node ni (id_of ni a) = Some a"
proof -
  show id: "get_id ni a = Some (id_of ni a)"
    using get_id_None_iff [OF assms(1), of a] assms(2) by (auto simp: id_of_def)
  then show "get_node ni (id_of ni a) = Some a" using assms(1) by (simp add: index_wf_def)
qed

lemma id_of_inj: "index_wf ni \<Longrightarrow> inj_on (id_of ni) (set (int_to_str ni))"
  by (rule inj_onI) (metis id_of_name(2) option.inject)

lemma add_int_edge_fold:
  assumes "lively (fst st)" "set (snd st) = edges (fst st)" "index_wf ni"
    and "\<forall>(a, b)\<in>set ks. a \<in> set (int_to_str ni) \<and> b \<in> set (int_to_str ni)"
  shows "lively (fst (fold (add_int_edge ni) ks st)) \<and>
    edges (fst (fold (add_int_edge ni) ks st)) = edges (fst st) \<union> map_prod (id_of ni) (id_of ni) ` set ks"
  using assms
proof (induction ks arbitrary: st)
  case (Cons k ks)
  obtain a b where k: "k = (a, b)" by (cases k)
  have ids: "get_id ni a = Some (id_of ni a)" "get_id ni b = Some (id_of ni b)"
    using Cons.prems(3,4) k id_of_name(1) by auto
  let ?st = "add_int_edge ni k st" and ?e = "(id_of ni a, id_of ni b)"
  have st: "lively (fst ?st)" "set (snd ?st) = edges (fst ?st)" "edges (fst ?st) = insert ?e (edges (fst st))"
    using Cons.prems(1,2) ids k by (auto simp: add_int_edge_def edges_push lively_push)
  have "lively (fst (fold (add_int_edge ni) ks ?st)) \<and>
    edges (fst (fold (add_int_edge ni) ks ?st)) = edges (fst ?st) \<union> map_prod (id_of ni) (id_of ni) ` set ks"
    using Cons.IH [OF st(1,2) Cons.prems(3)] Cons.prems(4) by simp
  then show ?case using st(3) k by simp
qed simp

lemma pairs_registered: "graph_wf g \<Longrightarrow> \<forall>(a, b)\<in>pairs (g_edges g).
    a \<in> set (int_to_str (g_index g)) \<and> b \<in> set (int_to_str (g_index g))"
proof -
  assume "graph_wf g"
  then have sub: "Field (pairs (g_edges g)) \<subseteq> set (int_to_str (g_index g))" by (simp only: graph_wf_def)
  have "a \<in> set (int_to_str (g_index g)) \<and> b \<in> set (int_to_str (g_index g))"
    if "(a, b) \<in> pairs (g_edges g)" for a b
    using FieldI1 [OF that] FieldI2 [OF that] sub by blast
  then show ?thesis by blast
qed

text \<open>A graph in which the integer adjacency has an edge for every pair that traded.\<close>

definition mirrors :: "node_index \<Rightarrow> edge_data \<Rightarrow> int_graph \<Rightarrow> bool" where
  "mirrors ni es adj \<longleftrightarrow> lively adj \<and> edges adj = map_prod (id_of ni) (id_of ni) ` pairs es"

lemma small_adjacency_mirrors: "graph_wf g \<Longrightarrow> mirrors (g_index g) (g_edges g) (small_adjacency (g_index g) (g_edges g))"
proof -
  assume wf: "graph_wf g"
  then have ni: "index_wf (g_index g)" by (simp add: graph_wf_def)
  show ?thesis
    using add_int_edge_fold [of "([], [])", OF _ _ ni pairs_registered [OF wf]]
    by (simp add: mirrors_def small_adjacency_def)
qed

text \<open>
  The scipy matrix stores a column of a row exactly when a non-zero value was assigned there
  (each position is assigned once).
\<close>

abbreviation csr_stores_nonzero :: "csr_lib \<Rightarrow> bool" where
  "csr_stores_nonzero csr \<equiv> (\<forall>n ops i. distinct (map fst ops) \<longrightarrow>
     set (csr n ops i) = {j. \<exists>x. ((i, j), x) \<in> set ops \<and> x \<noteq> 0})"

lemma to_adjacency_dict_succs: "i < n \<Longrightarrow> succs (to_adjacency_dict n rows) i = rows i"
  and to_adjacency_dict_lively: "lively (to_adjacency_dict n rows)"
proof -
  have keys: "dict_keys (to_adjacency_dict n rows) = filter (\<lambda>i. rows i \<noteq> []) [0..<n]"
    unfolding to_adjacency_dict_def by (induction n) auto
  have entry: "(i, ns) \<in> set (to_adjacency_dict n rows) \<longleftrightarrow> i < n \<and> ns = rows i \<and> ns \<noteq> []" for i ns
    by (auto simp: to_adjacency_dict_def split: if_splits)
  show live: "lively (to_adjacency_dict n rows)"
    using entry keys by (auto simp: lively_def dict_wf_def)
  show "i < n \<Longrightarrow> succs (to_adjacency_dict n rows) i = rows i"
  proof (cases "rows i = []")
    case True
    then have "dict_get (to_adjacency_dict n rows) i = None"
      using keys by (simp add: map_of_eq_None_iff flip: set_map)
    with True show ?thesis by (simp add: succs_def)
  next
    case False
    assume "i < n"
    then have "dict_get (to_adjacency_dict n rows) i = Some (rows i)"
      using entry False live by (simp add: lively_def dict_wf_def)
    then show ?thesis by (simp add: succs_def)
  qed
qed

lemma to_adjacency_dict_out: "n \<le> i \<Longrightarrow> succs (to_adjacency_dict n rows) i = []"
proof -
  assume "n \<le> i"
  then have "i \<notin> fst ` set (to_adjacency_dict n rows)" by (auto simp: to_adjacency_dict_def split: if_splits)
  then have "dict_get (to_adjacency_dict n rows) i = None" by (simp only: map_of_eq_None_iff not_False_eq_True)
  then show ?thesis by (simp add: succs_def)
qed

definition sparse_ops :: "node_index \<Rightarrow> edge_data \<Rightarrow> ((nat \<times> nat) \<times> real) list" where
  "sparse_ops ni es = map (\<lambda>((a, b), en). ((id_of ni a, id_of ni b), ee_volume en)) es"

lemma load_edge_data_ops:
  assumes "graph_wf g" "node_count (g_index g) \<le> max_graph_nodes cfg"
  shows "load_edge_data cfg csr (g_index g) (g_edges g) =
     Inr (csr (node_count (g_index g)) (sparse_ops (g_index g) (g_edges g)))"
proof -
  have ni: "index_wf (g_index g)" using assms(1) by (simp add: graph_wf_def)
  have "concat (map (\<lambda>((base, counter), en).
            (case (get_id (g_index g) base, get_id (g_index g) counter) of
               (Some i, Some j) \<Rightarrow> [((i, j), ee_volume en)] | _ \<Rightarrow> [])) es) = sparse_ops (g_index g) es"
    if "\<forall>(a, b)\<in>pairs es. a \<in> set (int_to_str (g_index g)) \<and> b \<in> set (int_to_str (g_index g))" for es
    using that by (induction es) (auto simp: sparse_ops_def id_of_name(1) [OF ni])
  from this [OF pairs_registered [OF assms(1)]] show ?thesis
    using assms(2) by (simp add: load_edge_data_def Let_def)
qed

lemma sparse_mirrors:
  assumes wf: "graph_wf g" and csr: "csr_stores_nonzero csr"
    and nz: "\<forall>(k, en)\<in>set (g_edges g). ee_volume en \<noteq> 0"
  shows "mirrors (g_index g) (g_edges g)
    (to_adjacency_dict (node_count (g_index g)) (csr (node_count (g_index g)) (sparse_ops (g_index g) (g_edges g))))"
    (is "mirrors ?ni ?es (to_adjacency_dict ?n ?rows)")
proof -
  let ?h = "map_prod (id_of ?ni) (id_of ?ni)"
  have ni: "index_wf ?ni" using wf by (simp add: graph_wf_def)
  note reg = pairs_registered [OF wf]
  have inj: "inj_on ?h (pairs ?es)"
    by (rule inj_on_subset [OF map_prod_inj_on [OF id_of_inj [OF ni] id_of_inj [OF ni]]]) (use reg in fastforce)
  have fst_ops: "map fst (sparse_ops ?ni ?es) = map ?h (dict_keys ?es)"
    by (simp add: sparse_ops_def split_def map_prod_def)
  have "distinct (map fst (sparse_ops ?ni ?es))"
    unfolding fst_ops using wf inj unfolding graph_wf_def dict_wf_def
    by (subst distinct_map) blast
  then have rows: "set (?rows i) = {j. \<exists>x. ((i, j), x) \<in> set (sparse_ops ?ni ?es) \<and> x \<noteq> 0}" for i
    using csr by blast
  have rows': "j \<in> set (?rows i) \<longleftrightarrow> (i, j) \<in> ?h ` pairs ?es" for i j
    unfolding rows using nz by (force simp: sparse_ops_def image_iff)
  have lt: "i < ?n" if "(i, j) \<in> ?h ` pairs ?es" for i j
    using that reg id_of_name(2) [OF ni] by (fastforce simp: get_node_iff node_count_def)
  have row: "j \<in> set (succs (to_adjacency_dict ?n ?rows) i) \<longleftrightarrow> (i, j) \<in> ?h ` pairs ?es" for i j
  proof (cases "i < ?n")
    case True
    then show ?thesis by (simp only: to_adjacency_dict_succs rows')
  next
    case False
    then show ?thesis using to_adjacency_dict_out [of ?n i ?rows] lt [of i j] by (simp only: not_less) auto
  qed
  have "edges (to_adjacency_dict ?n ?rows) = {(i, j). (i, j) \<in> ?h ` pairs ?es}"
    by (simp only: edges_def row)
  also have "\<dots> = ?h ` pairs ?es" by blast
  finally show ?thesis using to_adjacency_dict_lively by (simp only: mirrors_def simp_thms)
qed

text \<open>The conditions under which the chosen representation keeps every edge.\<close>

definition representable :: "graph_config \<Rightarrow> csr_lib \<Rightarrow> trade_graph \<Rightarrow> bool" where
  "representable cfg csr g \<longleftrightarrow>
     node_count (g_index g) < mmap_threshold cfg \<or>
     node_count (g_index g) \<le> max_graph_nodes cfg \<and> csr_stores_nonzero csr \<and>
       (\<forall>(k, en)\<in>set (g_edges g). ee_volume en \<noteq> 0)"

lemma build_mirrors:
  assumes "graph_wf g" "representable cfg csr g"
  obtains adj where "build_int_adjacency cfg csr g = Inr adj" "mirrors (g_index g) (g_edges g) adj"
proof (cases "node_count (g_index g) < mmap_threshold cfg")
  case True
  then have "build_int_adjacency cfg csr g = Inr (small_adjacency (g_index g) (g_edges g))"
    by (simp add: build_int_adjacency_def Let_def)
  with small_adjacency_mirrors [OF assms(1)] that show thesis by blast
next
  case False
  then have r: "node_count (g_index g) \<le> max_graph_nodes cfg" "csr_stores_nonzero csr"
    "\<forall>(k, en)\<in>set (g_edges g). ee_volume en \<noteq> 0"
    using assms(2) unfolding representable_def by blast+
  show thesis
    using that sparse_mirrors [OF assms(1) r(2,3)] load_edge_data_ops [OF assms(1) r(1)] False
    by (simp add: build_int_adjacency_def Let_def)
qed

subsection \<open>Components of indices are components of accounts\<close>

lemma mirror_reach:
  assumes ni: "index_wf ni" and m: "edges adj = map_prod (id_of ni) (id_of ni) ` K"
    and reg: "Field (K) \<subseteq> set (int_to_str ni)" and a: "a \<in> set (int_to_str ni)"
  shows "reach adj (id_of ni a) y \<longleftrightarrow> (\<exists>b. y = id_of ni b \<and> b \<in> set (int_to_str ni) \<and> (a, b) \<in> K\<^sup>*)"
proof
  assume "reach adj (id_of ni a) y"
  then show "\<exists>b. y = id_of ni b \<and> b \<in> set (int_to_str ni) \<and> (a, b) \<in> K\<^sup>*"
  proof (induction rule: rtrancl_induct)
    case (step y z)
    then obtain b where b: "y = id_of ni b" "b \<in> set (int_to_str ni)" "(a, b) \<in> K\<^sup>*" by blast
    obtain b' c where e: "(b', c) \<in> K" "y = id_of ni b'" "z = id_of ni c"
      using step.hyps(2) unfolding m by auto
    have mem: "b' \<in> set (int_to_str ni)" "c \<in> set (int_to_str ni)"
      using FieldI1 [OF e(1)] FieldI2 [OF e(1)] reg by blast+
    then have "b' = b" using id_of_inj [OF ni] b e(2) by (auto dest: inj_onD)
    then have "(a, c) \<in> K\<^sup>*" using b(3) e(1) by (simp add: rtrancl_into_rtrancl)
    then show ?case using e(3) mem(2) by blast
  qed (use a in blast)
next
  assume "\<exists>b. y = id_of ni b \<and> b \<in> set (int_to_str ni) \<and> (a, b) \<in> K\<^sup>*"
  then obtain b where y: "y = id_of ni b" and b: "(a, b) \<in> K\<^sup>*" by blast
  from b show "reach adj (id_of ni a) y" unfolding y
  proof (induction rule: rtrancl_induct)
    case (step b c)
    have "(id_of ni b, id_of ni c) \<in> edges adj"
      unfolding m using step.hyps(2) by (rule map_prod_imageI)
    with step.IH show ?case by (rule rtrancl_into_rtrancl)
  qed simp
qed

lemma mirror_scc:
  assumes ni: "index_wf ni" and m: "edges adj = map_prod (id_of ni) (id_of ni) ` pairs es"
    and reg: "Field (pairs es) \<subseteq> set (int_to_str ni)" and a: "a \<in> set (int_to_str ni)"
  shows "scc_of adj (id_of ni a) = id_of ni ` account_scc es a \<and> account_scc es a \<subseteq> set (int_to_str ni)"
proof -
  define K where "K = pairs es"
  note m = m [folded K_def] and reg = reg [folded K_def]
  have names: "b \<in> set (int_to_str ni)" if "(a, b) \<in> K\<^sup>*" for b
    using that by (rule rtrancl.cases) (use a reg FieldI2 [of _ _ K] in auto)
  have returns: "reach adj (id_of ni b) (id_of ni a) \<longleftrightarrow> (b, a) \<in> K\<^sup>*" if "b \<in> set (int_to_str ni)" for b
    unfolding mirror_reach [OF ni m reg that]
    using a that id_of_inj [OF ni] by (auto dest: inj_onD)
  have scc: "account_scc es a = {b. (a, b) \<in> K\<^sup>* \<and> (b, a) \<in> K\<^sup>*}" by (simp add: account_scc_def K_def)
  have "scc_of adj (id_of ni a) = id_of ni ` account_scc es a"
    unfolding scc_of_def scc mirror_reach [OF ni m reg a] using returns names by auto
  moreover have "account_scc es a \<subseteq> set (int_to_str ni)" using names by (auto simp: scc)
  ultimately show ?thesis by blast
qed

lemma Field_map_prod: "Field (map_prod h h ` K) = h ` Field K"
  by (auto simp: Field_def image_iff)

lemma mirror_nodes: "mirrors ni es adj \<Longrightarrow> nodes adj = id_of ni ` Field (pairs es)"
  by (simp only: mirrors_def nodes_lively Field_map_prod)

section \<open>The rings found\<close>

text \<open>The ring a set of accounts stands for.\<close>

definition ring_for :: "nx_lib \<Rightarrow> edge_data \<Rightarrow> nat \<Rightarrow> nat \<Rightarrow> account set \<Rightarrow> ring" where
  "ring_for nxe es min_size max_size S =
     (let accounts = sorted_list_of_set S; (total, tight, avg) = scc_edge_metrics es S in
      \<lparr>r_accounts = accounts, r_total_volume = total,
       r_cycle_volume = (if max_size < card S then total * (1 / 2)
                         else the (cycle_volume accounts (scc_small_subgraph nxe es accounts) min_size)),
       r_avg_trade_count = avg, r_timing_tightness = tight, r_truncated = (max_size < card S)\<rparr>)"

lemma cycle_volume_returns: "\<exists>v. cycle_volume A E k = Some v"
proof -
  obtain t where "approx_max_bottleneck_cycle (ring_adjacency (sort A) E) k = Some t"
    using approx_correct by blast
  then show ?thesis by (simp add: cycle_volume_def Let_def)
qed

abbreviation name_of :: "node_index \<Rightarrow> nat \<Rightarrow> account" where
  "name_of ni i \<equiv> the (get_node ni i)"

lemma ring_of_scc_spec:
  assumes ni: "index_wf ni" and scc: "distinct scc" "\<forall>i\<in>set scc. i < length (int_to_str ni)"
  defines "S \<equiv> name_of ni ` set scc"
  shows "ring_of_scc nxe ni es m M v scc =
    (if card S < m \<or> r_cycle_volume (ring_for nxe es m M S) < v then Skip else Report (ring_for nxe es m M S))"
proof -
  have inj: "inj_on (name_of ni) (set scc)"
    using ni scc(2) by (auto simp: index_wf_def inj_on_def get_node_def nth_eq_iff_index_eq)
  have len: "length scc = card S" using inj scc(1) by (simp add: S_def card_image distinct_card)
  have acc: "sort (map (name_of ni) scc) = sorted_list_of_set S"
  proof -
    have "distinct (map (name_of ni) scc)" using inj scc(1) by (simp add: distinct_map)
    then show ?thesis
      using sorted_list_of_set_sort_remdups [of "map (name_of ni) scc"] by (simp add: S_def distinct_remdups_id)
  qed
  have fin: "finite S" by (simp add: S_def)
  have found: "\<not> (\<exists>i\<in>set scc. get_node ni i = None)" using scc(2) by (auto simp: get_node_def)
  obtain total tight avg where met: "scc_edge_metrics es S = (total, tight, avg)" by (metis prod_cases3)
  obtain cv where cv: "cycle_volume (sorted_list_of_set S)
      (scc_small_subgraph nxe es (sorted_list_of_set S)) m = Some cv" using cycle_volume_returns by blast
  show ?thesis
    using found fin by (simp add: ring_of_scc_def ring_for_def len acc met cv Let_def)
qed

lemma collect_rings_map:
  "collect_rings (map (\<lambda>c. if P c then Skip else Report (F c)) cs) = Some (map F (filter (\<lambda>c. \<not> P c) cs))"
  by (induction cs) auto

lemma sort_rings_set: "set (sort_rings rs) = set rs"
  by (simp add: sort_rings_def)

lemma sort_rings_distinct: "distinct (map f (sort_rings rs)) = distinct (map f rs)"
proof -
  have "mset (map f (sort_rings rs)) = mset (map f rs)" by (simp add: sort_rings_def)
  then show ?thesis using mset_eq_imp_distinct_iff by blast
qed

definition ring_order :: "ring \<Rightarrow> ring \<Rightarrow> bool" where
  "ring_order r r' \<longleftrightarrow> r_total_volume r' < r_total_volume r \<or>
     r_total_volume r' = r_total_volume r \<and> r_cycle_volume r' \<le> r_cycle_volume r"

lemma sort_rings_sorted: "sorted_wrt ring_order (sort_rings rs)"
proof -
  have "sorted_wrt (\<lambda>r r'. (- r_total_volume r, - r_cycle_volume r) \<le> (- r_total_volume r', - r_cycle_volume r'))
      (sort_rings rs)"
    using sorted_sort_key [of "\<lambda>r. (- r_total_volume r, - r_cycle_volume r)" rs]
    unfolding sort_rings_def by (simp add: sorted_wrt_map)
  then show ?thesis by (rule sorted_wrt_mono_rel [rotated]) (auto simp: ring_order_def)
qed

lemma distinct_sorted_names:
  assumes "distinct (map set cs)" "\<forall>c\<in>set cs. \<forall>i\<in>set c. h (f i) = i"
  shows "distinct (map (\<lambda>c. sorted_list_of_set (f ` set c)) cs)"
proof -
  have "distinct (map (\<lambda>c. h ` set (sorted_list_of_set (f ` set c))) cs)"
  proof -
    have "h ` f ` set c = set c" if "c \<in> set cs" for c
      using assms(2) that by (auto simp: image_image)
    then have "map (\<lambda>c. h ` set (sorted_list_of_set (f ` set c))) cs = map set cs" by simp
    with assms(1) show ?thesis by (simp only:)
  qed
  then show ?thesis using distinct_map [of "\<lambda>l. h ` set l" "map (\<lambda>c. sorted_list_of_set (f ` set c)) cs"]
    by (simp add: comp_def)
qed

definition expected_rings :: "nx_lib \<Rightarrow> edge_data \<Rightarrow> nat \<Rightarrow> nat \<Rightarrow> real \<Rightarrow> ring set" where
  "expected_rings nxe es m M v =
     {ring_for nxe es m M S |S. S \<in> account_scc es ` Field (pairs es) \<and> m \<le> card S \<and>
        v \<le> r_cycle_volume (ring_for nxe es m M S)}"

lemma compute_rings_correct:
  assumes wf: "graph_wf g" and rep: "representable cfg csr g"
  shows "\<exists>rings. compute_rings cfg csr nxe (m, M, v) g = Inr rings \<and> distinct (map r_accounts rings) \<and>
    set rings = expected_rings nxe (g_edges g) (nat m) (nat M) v \<and> sorted_wrt ring_order rings"
proof -
  let ?ni = "g_index g" and ?es = "g_edges g"
  have ni: "index_wf ?ni" and reg: "Field (pairs ?es) \<subseteq> set (int_to_str ?ni)"
    using wf by (simp_all only: graph_wf_def simp_thms)
  obtain adj where adj: "build_int_adjacency cfg csr g = Inr adj" "mirrors ?ni ?es adj"
    by (rule build_mirrors [OF wf rep])
  have live: "lively adj" and m: "edges adj = map_prod (id_of ?ni) (id_of ?ni) ` pairs ?es"
    using adj(2) by (simp_all only: mirrors_def simp_thms)
  have dwf: "dict_wf adj" using live by (simp add: lively_def)
  obtain cs where cs: "tarjan_run adj = Some cs" "scc_partition adj cs" by (rule tarjan.returns [OF dwf])
  let ?S = "\<lambda>c. name_of ?ni ` set c" and ?ring = "ring_for nxe ?es (nat m) (nat M)"
  let ?skip = "\<lambda>c. card (?S c) < nat m \<or> r_cycle_volume (?ring (?S c)) < v"
  have name_id: "name_of ?ni (id_of ?ni b) = b" if "b \<in> set (int_to_str ?ni)" for b
    using id_of_name(2) [OF ni that] by simp
  have comps: "set ` set cs = (\<lambda>a. id_of ?ni ` account_scc ?es a) ` Field (pairs ?es)"
    using cs(2) mirror_nodes [OF adj(2)] mirror_scc [OF ni m reg] reg
    unfolding scc_partition_def by (simp add: image_image subset_iff cong: image_cong)
  have sub: "account_scc ?es a \<subseteq> set (int_to_str ?ni)" if "a \<in> Field (pairs ?es)" for a
    using mirror_scc [OF ni m reg] that reg by blast
  have small: "\<forall>i\<in>set c. i < length (int_to_str ?ni) \<and> id_of ?ni (name_of ?ni i) = i" if c: "c \<in> set cs" for c
  proof -
    have "set c \<in> (\<lambda>a. id_of ?ni ` account_scc ?es a) ` Field (pairs ?es)" using c comps by blast
    then obtain a where a: "a \<in> Field (pairs ?es)" "set c = id_of ?ni ` account_scc ?es a" by blast
    show ?thesis using a sub [OF a(1)] id_of_name(2) [OF ni] name_id by (force simp: get_node_iff)
  qed
  have names: "?S ` set cs = account_scc ?es ` Field (pairs ?es)"
  proof -
    have "?S ` set cs = (\<lambda>X. name_of ?ni ` X) ` (set ` set cs)" by (simp add: image_image)
    also have "\<dots> = (\<lambda>a. (\<lambda>b. name_of ?ni (id_of ?ni b)) ` account_scc ?es a) ` Field (pairs ?es)"
      unfolding comps by (simp add: image_image)
    also have "\<dots> = account_scc ?es ` Field (pairs ?es)"
      by (intro image_cong refl) (use sub name_id in force)
    finally show ?thesis .
  qed
  have "ring_of_scc nxe ?ni ?es (nat m) (nat M) v c = (if ?skip c then Skip else Report (?ring (?S c)))"
    if "c \<in> set cs" for c
    by (rule ring_of_scc_spec [OF ni]) (use that small cs(2) in \<open>auto simp: scc_partition_def\<close>)
  then have col: "collect_rings (map (ring_of_scc nxe ?ni ?es (nat m) (nat M) v) cs) =
      Some (map (\<lambda>c. ?ring (?S c)) (filter (\<lambda>c. \<not> ?skip c) cs))"
    using collect_rings_map [of ?skip "\<lambda>c. ?ring (?S c)" cs] by (simp cong: map_cong)
  let ?rs = "map (\<lambda>c. ?ring (?S c)) (filter (\<lambda>c. \<not> ?skip c) cs)"
  have "compute_rings cfg csr nxe (m, M, v) g = Inr (sort_rings ?rs)"
    using adj(1) cs(1) col by (simp add: compute_rings_def)
  moreover have "set ?rs = expected_rings nxe ?es (nat m) (nat M) v"
  proof -
    have "set ?rs = ?ring ` {S \<in> ?S ` set cs. \<not> (card S < nat m \<or> r_cycle_volume (?ring S) < v)}" by auto
    then show ?thesis unfolding names expected_rings_def by (auto simp: not_less)
  qed
  moreover have "distinct (map r_accounts ?rs)"
  proof -
    have "distinct (map (\<lambda>c. sorted_list_of_set (?S c)) (filter (\<lambda>c. \<not> ?skip c) cs))"
      by (rule distinct_map_filter, rule distinct_sorted_names [of _ "id_of ?ni"])
        (use cs(2) small in \<open>auto simp: scc_partition_def\<close>)
    moreover have "r_accounts (?ring S) = sorted_list_of_set S" for S
      by (simp add: ring_for_def split_beta Let_def)
    ultimately show ?thesis by (simp add: comp_def)
  qed
  ultimately show ?thesis
    by (intro exI [of _ "sort_rings ?rs"] conjI sort_rings_sorted) (simp_all only: sort_rings_set sort_rings_distinct)
qed

section \<open>The cache\<close>

definition valid_key :: "rings_key \<Rightarrow> bool" where
  "valid_key key \<longleftrightarrow> 1 \<le> fst key \<and> fst key \<le> fst (snd key)"

definition cache_ok :: "graph_config \<Rightarrow> csr_lib \<Rightarrow> nx_lib \<Rightarrow> trade_graph \<Rightarrow> bool" where
  "cache_ok cfg csr nxe g \<longleftrightarrow>
     (case g_cache g of None \<Rightarrow> True
      | Some (key, rings) \<Rightarrow> compute_rings cfg csr nxe key g = Inr rings)"

lemma compute_rings_cache_irrelevant:
  "compute_rings cfg csr nxe key (g\<lparr>g_cache := c\<rparr>) = compute_rings cfg csr nxe key g"
proof -
  have frame: "g_index (g\<lparr>g_cache := c\<rparr>) = g_index g" "g_edges (g\<lparr>g_cache := c\<rparr>) = g_edges g" by simp_all
  show ?thesis unfolding compute_rings_def build_int_adjacency_def frame by (rule refl)
qed

lemma find_wash_rings_result:
  assumes "cache_ok cfg csr nxe g" "valid_key key"
  shows "snd (find_wash_rings cfg csr nxe key g) = compute_rings cfg csr nxe key g"
  using assms by (auto simp: find_wash_rings_def cache_ok_def valid_key_def split: option.splits sum.splits)

lemma find_wash_rings_cache_ok [wf_intros]:
  assumes "cache_ok cfg csr nxe g"
  shows "cache_ok cfg csr nxe (fst (find_wash_rings cfg csr nxe key g))"
proof -
  have "cache_ok cfg csr nxe (g\<lparr>g_cache := Some (key, rs)\<rparr>)" if "compute_rings cfg csr nxe key g = Inr rs" for rs
    using that by (simp add: cache_ok_def compute_rings_cache_irrelevant)
  then show ?thesis using assms by (simp add: find_wash_rings_def split: option.split sum.split prod.split)
qed

lemma add_trade_drops_cache:
  "add_trade cfg tu t g = (g', None) \<Longrightarrow> g' = g \<or> g_cache g' = None"
  by (auto simp: add_trade_def Let_def split: if_splits)

text \<open>
  Histories of an unsharded graph: trades that are accepted and ring searches, in any order.
\<close>

inductive graph_history :: "graph_config \<Rightarrow> csr_lib \<Rightarrow> nx_lib \<Rightarrow> ('ts \<Rightarrow> real option) \<Rightarrow> trade_graph \<Rightarrow> bool"
  for cfg csr nxe tu where
  start: "graph_history cfg csr nxe tu new_trade_graph"
| add: "graph_history cfg csr nxe tu g \<Longrightarrow> add_trade cfg tu t g = (g', None) \<Longrightarrow> \<not> g_sharded g' \<Longrightarrow>
          graph_history cfg csr nxe tu g'"
| search: "graph_history cfg csr nxe tu g \<Longrightarrow> graph_history cfg csr nxe tu (fst (find_wash_rings cfg csr nxe key g))"

lemma graph_history_inv: "graph_history cfg csr nxe tu g \<Longrightarrow> graph_wf g \<and> cache_ok cfg csr nxe g"
proof (induction rule: graph_history.induct)
  case start
  then show ?case
    by (simp add: graph_wf_def new_trade_graph_def index_wf_new cache_ok_def)
next
  case (add g t g')
  have "graph_wf g'" using add_trade_wf [of g cfg tu t] add by simp
  moreover have "cache_ok cfg csr nxe g'"
    using add_trade_drops_cache [OF add.hyps(2)] add.IH by (auto simp: cache_ok_def)
  ultimately show ?case by simp
next
  case (search g key)
  then show ?case
    using find_wash_rings_frame [of cfg csr nxe key g] find_wash_rings_cache_ok
    by (simp add: graph_wf_def)
qed

section \<open>Properties\<close>

text \<open>
  C1: whatever trades were accepted and whatever searches ran before, \<open>find_wash_rings\<close>
  with valid sizes raises nothing and returns, in descending order of volume and each
  once, exactly the rings of the components of the account graph that have at least
  \<open>min_ring_size\<close> accounts and enough cycle volume; the cache never serves a result the
  trades since would change. The representation must keep every edge (\<open>representable\<close>: a
  graph below the sparse threshold, or scipy storing the non-zero entries).
\<close>

theorem find_wash_rings_correct:
  assumes "graph_history cfg csr nxe tu g" "representable cfg csr g" "1 \<le> m" "m \<le> M"
  shows "\<exists>rings. snd (find_wash_rings cfg csr nxe (m, M, v) g) = Inr rings \<and> distinct (map r_accounts rings) \<and>
    set rings = expected_rings nxe (g_edges g) (nat m) (nat M) v \<and> sorted_wrt ring_order rings"
proof -
  have inv: "graph_wf g" "cache_ok cfg csr nxe g" using graph_history_inv [OF assms(1)] by auto
  have "valid_key (m, M, v)" using assms(3,4) by (simp add: valid_key_def)
  then show ?thesis using find_wash_rings_result [OF inv(2)] compute_rings_correct [OF inv(1) assms(2)] by metis
qed

definition default_config :: graph_config where
  "default_config = \<lparr>max_graph_nodes = 1000000, mmap_threshold = 50000, shard_enabled = True\<rparr>"

definition sample_trade :: "account \<Rightarrow> account \<Rightarrow> real \<Rightarrow> int trade" where
  "sample_trade a b x = \<lparr>base_account = Some a, counter_account = Some b, base_amount = Some x, ledger_close_time = None\<rparr>"

definition sample_edge :: "real \<Rightarrow> edge_entry" where
  "sample_edge x = \<lparr>ee_volume = x, ee_count = 1, ee_times = []\<rparr>"

definition sample_graph :: trade_graph where
  "sample_graph =
     \<lparr>g_index = \<lparr>str_to_int = [(''A'', 0), (''B'', 1), (''C'', 2)], int_to_str = [''A'', ''B'', ''C'']\<rparr>,
      g_edges = [((''A'', ''B''), sample_edge 5), ((''B'', ''C''), sample_edge 3), ((''C'', ''A''), sample_edge 4)],
      g_cache = None, g_sharded = False\<rparr>"

lemmas graph_eval = default_config_def sample_trade_def add_trade_def Let_def present_def node_add_def
  new_trade_graph_def new_node_index_def node_count_def bump_entry_def empty_entry_def sample_edge_def

lemma sample_graph_history:
  "graph_history default_config csr nxe (\<lambda>_::int. None) sample_graph"
proof -
  let ?h = "graph_history default_config csr nxe (\<lambda>_::int. None)"
  let ?g1 = "\<lparr>g_index = \<lparr>str_to_int = [(''A'', 0), (''B'', 1)], int_to_str = [''A'', ''B'']\<rparr>,
      g_edges = [((''A'', ''B''), sample_edge 5)], g_cache = None, g_sharded = False\<rparr>"
  let ?g2 = "\<lparr>g_index = \<lparr>str_to_int = [(''A'', 0), (''B'', 1), (''C'', 2)], int_to_str = [''A'', ''B'', ''C'']\<rparr>,
      g_edges = [((''A'', ''B''), sample_edge 5), ((''B'', ''C''), sample_edge 3)], g_cache = None, g_sharded = False\<rparr>"
  have "?h ?g1"
    by (rule graph_history.add [OF graph_history.start, where t = "sample_trade ''A'' ''B'' 5"])
      (simp_all add: graph_eval)
  then have "?h ?g2"
    by (rule graph_history.add [where t = "sample_trade ''B'' ''C'' 3"]) (simp_all add: graph_eval)
  then show ?thesis
    by (rule graph_history.add [where t = "sample_trade ''C'' ''A'' 4"]) (simp_all add: graph_eval sample_graph_def)
qed

theorem find_wash_rings_correct_witness:
  "\<exists>rings. snd (find_wash_rings default_config (\<lambda>_ _ _. []) (\<lambda>_ es. es) (3, 10, 0) sample_graph) = Inr rings \<and>
     set rings = expected_rings (\<lambda>_ es. es) (g_edges sample_graph) 3 10 0"
proof -
  have "representable default_config (\<lambda>_ _ _. []) sample_graph"
    by (simp add: representable_def default_config_def sample_graph_def node_count_def)
  from find_wash_rings_correct [OF sample_graph_history this, of 3 10 "\<lambda>_ es. es" 0]
  show ?thesis by auto
qed

text \<open>
  For a ring of at most 14 accounts (the exact branch, whatever order networkx reports
  the edges in) \<open>_cycle_volume\<close> is the greatest bottleneck of the trade cycles of at least
  \<open>min_ring_size\<close> accounts inside the ring: none exceeds it, it is never negative, and it
  is attained unless it is zero.
\<close>

lemma cycle_volume_is_max_bottleneck:
  assumes "dict_wf es" "nx_keeps_edges nxe" "distinct A" "2 \<le> length A" "length A \<le> 14"
  shows "\<exists>v\<ge>0. cycle_volume A (scc_small_subgraph nxe es A) k = Some v \<and>
    (\<forall>c. trade_cycle es c \<and> set c \<subseteq> set A \<and> k \<le> length c \<longrightarrow> Min (set (cycle_volumes es c)) \<le> v) \<and>
    (v = 0 \<or> (\<exists>c. trade_cycle es c \<and> set c \<subseteq> set A \<and> k \<le> length c \<and> v = Min (set (cycle_volumes es c))))"
  by (rule cycle_volume_exact [OF assms])

lemma cycle_volume_is_max_bottleneck_witness:
  "\<exists>v\<ge>0. cycle_volume [''A'', ''B'', ''C''] (scc_small_subgraph (\<lambda>_ es. es) (g_edges sample_graph) [''A'', ''B'', ''C'']) 3 = Some v \<and>
     Min (set (cycle_volumes (g_edges sample_graph) [''A'', ''B'', ''C''])) \<le> v"
proof -
  have "dict_wf (g_edges sample_graph)" by (simp add: dict_wf_def sample_graph_def)
  from cycle_volume_is_max_bottleneck [OF this, of "\<lambda>_ es. es" "[''A'', ''B'', ''C'']" 3]
  obtain v where v: "0 \<le> v" "cycle_volume [''A'', ''B'', ''C'']
      (scc_small_subgraph (\<lambda>_ es. es) (g_edges sample_graph) [''A'', ''B'', ''C'']) 3 = Some v"
    "\<And>c. trade_cycle (g_edges sample_graph) c \<and> set c \<subseteq> set [''A'', ''B'', ''C''] \<and> 3 \<le> length c \<longrightarrow>
       Min (set (cycle_volumes (g_edges sample_graph) c)) \<le> v" by auto
  have "trade_cycle (g_edges sample_graph) [''A'', ''B'', ''C'']"
    by (auto simp: trade_cycle_def less_Suc_eq sample_graph_def)
  with v(1,2) v(3) [of "[''A'', ''B'', ''C'']"] show ?thesis by auto
qed

text \<open>
  C4: the threshold search used for rings of more than 14 accounts returns a value (its
  Tarjan runs never fail, the search ends), never below the exact cycle volume; the value
  is zero or the greatest edge volume at which a component of \<open>min_ring_size\<close> accounts remains.
\<close>

theorem approx_never_underestimates:
  assumes "adjacency_wf adj n" "\<forall>w\<in>edge_weights adj. 0 \<le> w"
  shows "\<exists>t. approx_max_bottleneck_cycle adj k = Some t \<and> max_bottleneck_cycle adj n k \<le> t \<and>
     (t = 0 \<or> t \<in> edge_weights adj \<and> heavy_component adj k t) \<and>
     (\<forall>w\<in>edge_weights adj. heavy_component adj k w \<longrightarrow> w \<le> t)"
proof -
  obtain t where t: "approx_max_bottleneck_cycle adj k = Some t"
    "t = 0 \<or> t \<in> edge_weights adj \<and> heavy_component adj k t"
    "\<forall>w\<in>edge_weights adj. heavy_component adj k w \<longrightarrow> w \<le> t" using approx_correct by blast
  have "max_bottleneck_cycle adj n k \<le> t"
    using max_bottleneck_achieved [OF assms(1), of k] t(2,3) assms(2) cycle_heavy_component
    unfolding achieved_def by (metis order_refl)
  with t show ?thesis by blast
qed

theorem approx_never_underestimates_witness:
  "\<exists>t. approx_max_bottleneck_cycle triangle 3 = Some t \<and> max_bottleneck_cycle triangle 3 3 \<le> t"
proof -
  have "adjacency_wf triangle 3" "\<forall>w\<in>edge_weights triangle. 0 \<le> w"
    by (simp_all add: adjacency_wf_def edge_weights_def)
  from approx_never_underestimates [OF this, of 3] show ?thesis by blast
qed

end
