(* ===== verification/Ring_Membership.thy ===== *)
theory Ring_Membership
  imports Trade_Graph
begin

text \<open>
  The ring membership of a wallet (\<open>build_ring_membership_index\<close>, \<open>get_ring_members\<close>,
  \<open>_ring_metadata_precedes\<close>), and the merge of the rings found in the shards of an
  oversized graph (\<open>ShardedTradeGraph.find_wash_rings\<close>), of
  \<open>packages/core/detection/graph_engine.py\<close>.
\<close>

section \<open>Membership\<close>

record ring_metadata =
  md_accounts :: "account list"
  md_ring_size :: nat
  md_wash_ring_size :: real
  md_cycle_volume :: real
  md_cycle_volume_ratio :: real
  md_timing_tightness :: real
  md_timing_tightness_score :: real
  md_truncated :: bool

definition metadata_of :: "ring \<Rightarrow> real \<Rightarrow> ring_metadata" where
  "metadata_of r outgoing =
     \<lparr>md_accounts = r_accounts r, md_ring_size = length (r_accounts r),
      md_wash_ring_size = real (length (r_accounts r)), md_cycle_volume = r_cycle_volume r,
      md_cycle_volume_ratio = (if 0 < outgoing then min 1 (r_cycle_volume r / outgoing) else 0),
      md_timing_tightness = r_timing_tightness r,
      md_timing_tightness_score = 1 / (1 + r_timing_tightness r),
      md_truncated = r_truncated r\<rparr>"

definition ring_metadata_precedes :: "ring_metadata \<Rightarrow> ring_metadata \<Rightarrow> bool" where
  "ring_metadata_precedes candidate current =
     (if md_wash_ring_size candidate \<noteq> md_wash_ring_size current
      then md_wash_ring_size current < md_wash_ring_size candidate
      else if md_timing_tightness_score candidate \<noteq> md_timing_tightness_score current
      then md_timing_tightness_score current < md_timing_tightness_score candidate
      else md_cycle_volume_ratio current < md_cycle_volume_ratio candidate)"

text \<open>\<open>if current is None or _ring_metadata_precedes(metadata, current)\<close>\<close>

definition stronger :: "ring_metadata \<Rightarrow> ring_metadata option \<Rightarrow> ring_metadata" where
  "stronger m current =
     (case current of None \<Rightarrow> m | Some c \<Rightarrow> if ring_metadata_precedes m c then m else c)"

type_synonym membership = "(account, ring_metadata) dict"

definition enrol_account :: "ring \<Rightarrow> (account \<Rightarrow> real) \<Rightarrow> account \<Rightarrow> membership \<Rightarrow> membership" where
  "enrol_account r totals a membership =
     (let m = metadata_of r (totals a) in
      case dict_get membership a of
        None \<Rightarrow> dict_set a m membership
      | Some c \<Rightarrow> if ring_metadata_precedes m c then dict_set a m membership else membership)"

definition enrol_ring :: "(account \<Rightarrow> real) \<Rightarrow> ring \<Rightarrow> membership \<Rightarrow> membership" where
  "enrol_ring totals r membership =
     (if r_accounts r = [] then membership
      else fold (enrol_account r totals) (r_accounts r) membership)"

definition build_ring_membership_index :: "ring list \<Rightarrow> (account \<Rightarrow> real) \<Rightarrow> membership" where
  "build_ring_membership_index rings totals = fold (enrol_ring totals) rings []"

definition outgoing_volume :: "edge_data \<Rightarrow> account \<Rightarrow> real" where
  "outgoing_volume es wallet = sum_list (map (\<lambda>(k, en). ee_volume en) (filter (\<lambda>(k, en). fst k = wallet) es))"

definition consider_ring :: "edge_data \<Rightarrow> account \<Rightarrow> ring \<Rightarrow> ring_metadata option \<Rightarrow> ring_metadata option" where
  "consider_ring es wallet r best =
     (if wallet \<notin> set (r_accounts r) then best
      else Some (stronger (metadata_of r (outgoing_volume es wallet)) best))"

definition get_ring_members ::
    "graph_config \<Rightarrow> csr_lib \<Rightarrow> nx_lib \<Rightarrow> account \<Rightarrow> trade_graph \<Rightarrow>
       trade_graph \<times> (graph_error + ring_metadata option)" where
  "get_ring_members cfg csr nxe wallet g =
     (case find_wash_rings cfg csr nxe (3, 10, 0) g of
        (g', Inl e) \<Rightarrow> (g', Inl e)
      | (g', Inr rings) \<Rightarrow> (g', Inr (fold (consider_ring (g_edges g') wallet) rings None)))"

section \<open>The merge of shard results\<close>

type_synonym shard_ring = "ring \<times> nat list"

text \<open>One ring of a shard against the rings kept so far, with the three ways to break.\<close>

fun merge_ring :: "nat \<Rightarrow> ring \<Rightarrow> shard_ring list \<Rightarrow> shard_ring list" where
  "merge_ring shard r [] = [(r, [shard])]"
| "merge_ring shard r ((r', ids) # kept) =
     (let new = set (r_accounts r); existing = set (r_accounts r') in
      if new = existing then (r', ids @ [shard]) # kept
      else if new \<subset> existing then (r', ids) # kept
      else if existing \<subset> new then (r, [shard]) # kept
      else (r', ids) # merge_ring shard r kept)"

definition merge_shard :: "nat \<times> ring list \<Rightarrow> shard_ring list \<Rightarrow> shard_ring list" where
  "merge_shard res kept = fold (merge_ring (fst res)) (snd res) kept"

definition merge_shards :: "(nat \<times> ring list) list \<Rightarrow> shard_ring list" where
  "merge_shards results =
     sort_key (\<lambda>(r, ids). (- r_total_volume r, - r_cycle_volume r)) (fold merge_shard results [])"

section \<open>Lemmas\<close>

lemma precedes_irrefl [simp]: "\<not> ring_metadata_precedes m m"
  by (simp add: ring_metadata_precedes_def)

lemma precedes_cotrans:
  "ring_metadata_precedes a c \<Longrightarrow> ring_metadata_precedes a b \<or> ring_metadata_precedes b c"
  by (auto simp: ring_metadata_precedes_def split: if_splits)

lemma precedes_trans:
  "ring_metadata_precedes a b \<Longrightarrow> ring_metadata_precedes b c \<Longrightarrow> ring_metadata_precedes a c"
  by (auto simp: ring_metadata_precedes_def split: if_splits)

lemma stronger_keeps: "stronger m (Some (stronger m c)) = stronger m c"
  by (auto simp: stronger_def split: option.splits)

lemma enrol_account_get:
  "dict_get (enrol_account r totals a d) w =
     (if a = w then Some (stronger (metadata_of r (totals w)) (dict_get d w)) else dict_get d w)"
  by (auto simp: enrol_account_def stronger_def Let_def dict_get_set split: option.splits)

lemma enrol_accounts_get:
  "dict_get (fold (enrol_account r totals) as d) w =
     (if w \<in> set as then Some (stronger (metadata_of r (totals w)) (dict_get d w)) else dict_get d w)"
  by (induction as arbitrary: d) (auto simp: enrol_account_get stronger_keeps)

lemma enrol_ring_get:
  "dict_get (enrol_ring totals r d) w =
     (if w \<in> set (r_accounts r) then Some (stronger (metadata_of r (totals w)) (dict_get d w)) else dict_get d w)"
  by (simp add: enrol_ring_def enrol_accounts_get)

lemma consider_in:
  "w \<in> set (r_accounts r) \<Longrightarrow> consider_ring es w r b = Some (stronger (metadata_of r (outgoing_volume es w)) b)"
  and consider_out: "w \<notin> set (r_accounts r) \<Longrightarrow> consider_ring es w r b = b"
  by (simp_all add: consider_ring_def)

lemma membership_is_scan:
  "dict_get (fold (enrol_ring (outgoing_volume es)) rings d) w =
     fold (consider_ring es w) rings (dict_get d w)"
  by (induction rings arbitrary: d) (auto simp: enrol_ring_get consider_ring_def)

definition candidates :: "edge_data \<Rightarrow> account \<Rightarrow> ring list \<Rightarrow> ring_metadata set" where
  "candidates es w rings = (\<lambda>r. metadata_of r (outgoing_volume es w)) ` {r \<in> set rings. w \<in> set (r_accounts r)}"

lemma scan_from:
  "\<exists>m. fold (consider_ring es w) rings (Some b) = Some m \<and> m \<in> insert b (candidates es w rings) \<and>
     (\<forall>c\<in>insert b (candidates es w rings). \<not> ring_metadata_precedes c m)"
proof (induction rings arbitrary: b)
  case (Cons r rings)
  let ?m = "metadata_of r (outgoing_volume es w)"
  show ?case
  proof (cases "w \<in> set (r_accounts r)")
    case True
    obtain m where m: "fold (consider_ring es w) rings (Some (stronger ?m (Some b))) = Some m"
      "m \<in> insert (stronger ?m (Some b)) (candidates es w rings)"
      "\<forall>c\<in>insert (stronger ?m (Some b)) (candidates es w rings). \<not> ring_metadata_precedes c m"
      using Cons.IH by blast
    have cand: "candidates es w (r # rings) = insert ?m (candidates es w rings)"
      using True by (auto simp: candidates_def)
    have "\<not> ring_metadata_precedes ?m m \<and> \<not> ring_metadata_precedes b m"
    proof (cases "ring_metadata_precedes ?m b")
      case True
      then have "\<not> ring_metadata_precedes ?m m" using m(3) by (simp add: stronger_def)
      then show ?thesis using True precedes_trans [of ?m b m] by blast
    next
      case False
      then have "\<not> ring_metadata_precedes b m" using m(3) by (simp add: stronger_def)
      then show ?thesis using False precedes_cotrans [of ?m m b] by blast
    qed
    moreover have "fold (consider_ring es w) (r # rings) (Some b) = Some m" using True m(1) by (simp add: consider_in)
    moreover have "m \<in> insert b (candidates es w (r # rings))"
      using m(2) cand by (auto simp: stronger_def split: if_splits)
    ultimately show ?thesis unfolding cand using m(3) by (intro exI [of _ m]) simp
  next
    case False
    then have "candidates es w (r # rings) = candidates es w rings" by (auto simp: candidates_def)
    with Cons.IH [of b] False show ?thesis by (simp add: consider_out)
  qed
qed (simp add: candidates_def)

lemma scan_spec:
  "case fold (consider_ring es w) rings None of
     None \<Rightarrow> candidates es w rings = {}
   | Some m \<Rightarrow> m \<in> candidates es w rings \<and> (\<forall>c\<in>candidates es w rings. \<not> ring_metadata_precedes c m)"
proof (induction rings)
  case (Cons r rings)
  show ?case
  proof (cases "w \<in> set (r_accounts r)")
    case True
    then have "candidates es w (r # rings) = insert (metadata_of r (outgoing_volume es w)) (candidates es w rings)"
      by (auto simp: candidates_def)
    with True scan_from [of es w rings "metadata_of r (outgoing_volume es w)"]
    show ?thesis by (auto simp: consider_in stronger_def)
  next
    case False
    then have "candidates es w (r # rings) = candidates es w rings" by (auto simp: candidates_def)
    with Cons False show ?thesis by (simp only: fold_Cons comp_apply consider_out not_False_eq_True)
  qed
qed (simp add: candidates_def)

subsection \<open>The merge\<close>

abbreviation members :: "shard_ring \<Rightarrow> account set" where
  "members k \<equiv> set (r_accounts (fst k))"

text \<open>No kept ring lies inside a later one.\<close>

definition merge_inv :: "shard_ring list \<Rightarrow> bool" where
  "merge_inv kept \<longleftrightarrow> sorted_wrt (\<lambda>a b. \<not> members a \<subseteq> members b) kept"

lemma merge_ring_members:
  "k \<in> set (merge_ring shard r kept) \<Longrightarrow> members k = set (r_accounts r) \<or> members k \<in> members ` set kept"
  by (induction shard r kept rule: merge_ring.induct) (auto simp: Let_def split: if_splits)

lemma merge_ring_inv [wf_intros]: "merge_inv kept \<Longrightarrow> merge_inv (merge_ring shard r kept)"
proof (induction shard r kept rule: merge_ring.induct)
  case (2 shard r r' ids kept)
  let ?new = "set (r_accounts r)" and ?old = "set (r_accounts r')"
  have tail: "merge_inv kept" "\<forall>k\<in>set kept. \<not> ?old \<subseteq> members k"
    using 2(2) by (auto simp: merge_inv_def)
  show ?case
  proof (cases "?new \<subseteq> ?old \<or> ?old \<subseteq> ?new")
    case True
    then show ?thesis using tail by (auto simp: merge_inv_def Let_def)
  next
    case False
    then have "merge_inv (merge_ring shard r kept)" using 2(1) tail(1) by auto
    moreover have "\<not> ?old \<subseteq> members k" if "k \<in> set (merge_ring shard r kept)" for k
      using merge_ring_members [OF that] False tail(2) by (elim disjE imageE) simp_all
    moreover have "merge_ring shard r ((r', ids) # kept) = (r', ids) # merge_ring shard r kept"
      using False by (simp add: Let_def psubset_eq) blast
    ultimately show ?thesis by (simp only: merge_inv_def sorted_wrt.simps fst_conv) blast
  qed
qed (simp add: merge_inv_def)

lemma merge_ring_covers:
  "\<exists>k\<in>set (merge_ring shard r kept). set (r_accounts r) \<subseteq> members k"
  by (induction shard r kept rule: merge_ring.induct) (auto simp: Let_def)

lemma merge_ring_keeps_cover:
  "k \<in> set kept \<Longrightarrow> \<exists>k'\<in>set (merge_ring shard r kept). members k \<subseteq> members k'"
proof (induction shard r kept rule: merge_ring.induct)
  case (2 shard r r' ids kept)
  let ?new = "set (r_accounts r)" and ?old = "set (r_accounts r')"
  show ?case
  proof (cases "?new \<subseteq> ?old \<or> ?old \<subseteq> ?new")
    case True
    then have "\<exists>h. merge_ring shard r ((r', ids) # kept) = h # kept \<and> ?old \<subseteq> members h"
      by (simp add: Let_def psubset_eq) blast
    then obtain h where h: "merge_ring shard r ((r', ids) # kept) = h # kept" "?old \<subseteq> members h" by blast
    show ?thesis unfolding h(1) using 2(2) h(2) by (cases "k = (r', ids)") auto
  next
    case False
    then have eq: "merge_ring shard r ((r', ids) # kept) = (r', ids) # merge_ring shard r kept"
      by (simp add: Let_def psubset_eq) blast
    show ?thesis
    proof (cases "k = (r', ids)")
      case True
      then show ?thesis unfolding eq by simp
    next
      case k: False
      then have "\<exists>k'\<in>set (merge_ring shard r kept). members k \<subseteq> members k'" using 2(1) 2(2) False by auto
      then show ?thesis unfolding eq by simp
    qed
  qed
qed simp

lemma merge_shard_inv [wf_intros]: "merge_inv kept \<Longrightarrow> merge_inv (merge_shard res kept)"
  unfolding merge_shard_def by (rule fold_keeps) (simp_all add: merge_ring_inv)

lemma merge_fold_keeps_cover:
  "\<exists>k\<in>set kept. A \<subseteq> members k \<Longrightarrow> \<exists>k\<in>set (fold (merge_ring shard) rs kept). A \<subseteq> members k"
proof (induction rs arbitrary: kept)
  case (Cons r rs)
  then obtain k where k: "k \<in> set kept" "A \<subseteq> members k" by blast
  obtain k' where "k' \<in> set (merge_ring shard r kept)" "members k \<subseteq> members k'"
    using merge_ring_keeps_cover [OF k(1)] by blast
  with k(2) have "\<exists>k\<in>set (merge_ring shard r kept). A \<subseteq> members k" by blast
  from Cons.IH [OF this] show ?case by simp
qed simp

lemma merge_fold_covers:
  "r \<in> set rs \<Longrightarrow> \<exists>k\<in>set (fold (merge_ring shard) rs kept). set (r_accounts r) \<subseteq> members k"
proof (induction rs arbitrary: kept)
  case (Cons x rs)
  show ?case
  proof (cases "r = x")
    case True
    then show ?thesis using merge_fold_keeps_cover [OF merge_ring_covers [of shard x kept]] by simp
  next
    case False
    then show ?thesis using Cons by simp
  qed
qed simp

lemma merge_shards_keep_cover:
  "\<exists>k\<in>set kept. A \<subseteq> members k \<Longrightarrow> \<exists>k\<in>set (fold merge_shard results kept). A \<subseteq> members k"
  by (induction results arbitrary: kept) (simp_all add: merge_shard_def merge_fold_keeps_cover)

lemma merge_shards_cover:
  "(shard, rs) \<in> set results \<Longrightarrow> r \<in> set rs \<Longrightarrow>
     \<exists>k\<in>set (fold merge_shard results kept). set (r_accounts r) \<subseteq> members k"
proof (induction results arbitrary: kept)
  case (Cons x results)
  show ?case
  proof (cases "(shard, rs) = x")
    case True
    then have "merge_shard x kept = fold (merge_ring shard) rs kept" by (auto simp: merge_shard_def)
    then show ?thesis using merge_shards_keep_cover [OF merge_fold_covers [OF Cons.prems(2)]] by simp
  next
    case False
    then show ?thesis using Cons by simp
  qed
qed simp

lemma merge_ring_members_new:
  "members ` set (merge_ring shard r kept) \<subseteq> insert (set (r_accounts r)) (members ` set kept)"
  using merge_ring_members by blast

lemma merge_members:
  "members ` set (fold merge_shard results kept) \<subseteq>
     members ` set kept \<union> (\<lambda>r. set (r_accounts r)) ` \<Union> (set ` snd ` set results)"
proof (induction results arbitrary: kept)
  case (Cons x results)
  have step: "members ` set (fold (merge_ring sh) rs kept) \<subseteq> members ` set kept \<union> (\<lambda>r. set (r_accounts r)) ` set rs"
    for sh rs kept
  proof (induction rs arbitrary: kept)
    case (Cons r rs)
    show ?case using Cons.IH [of "merge_ring sh r kept"] merge_ring_members_new [of sh r kept] by auto
  qed simp
  have trans: "A \<subseteq> K \<union> S \<Longrightarrow> B \<subseteq> A \<union> S' \<Longrightarrow> G = S \<union> S' \<Longrightarrow> B \<subseteq> K \<union> G"
    for A B G K S S' :: "account set set" by blast
  show ?case
  proof (rule trans)
    show "members ` set (merge_shard x kept) \<subseteq> members ` set kept \<union> (\<lambda>r. set (r_accounts r)) ` set (snd x)"
      unfolding merge_shard_def by (rule step)
    show "members ` set (fold merge_shard (x # results) kept) \<subseteq> members ` set (merge_shard x kept) \<union>
        (\<lambda>r. set (r_accounts r)) ` \<Union> (set ` snd ` set results)" using Cons.IH by simp
    show "(\<lambda>r. set (r_accounts r)) ` \<Union> (set ` snd ` set (x # results)) =
        (\<lambda>r. set (r_accounts r)) ` set (snd x) \<union> (\<lambda>r. set (r_accounts r)) ` \<Union> (set ` snd ` set results)"
      by (simp add: image_Un)
  qed
qed simp

lemma merge_inv_distinct: "merge_inv kept \<Longrightarrow> distinct (map members kept)"
  unfolding merge_inv_def by (induction kept) auto

section \<open>Properties\<close>



text \<open>
  The merge of the shard results loses no ring and reports no account set twice: every
  ring found in a shard lies inside a reported one, every reported ring is one that a shard
  found, and the reported account sets are pairwise different.
\<close>

lemma merge_shards_covers:
  "(\<forall>(shard, rs)\<in>set results. \<forall>r\<in>set rs. \<exists>k\<in>set (merge_shards results). set (r_accounts r) \<subseteq> members k) \<and>
   (\<forall>k\<in>set (merge_shards results). \<exists>(shard, rs)\<in>set results. \<exists>r\<in>set rs. members k = set (r_accounts r)) \<and>
   distinct (map members (merge_shards results))"
proof -
  let ?kept = "fold merge_shard results []"
  have set: "set (merge_shards results) = set ?kept" by (simp add: merge_shards_def)
  have "merge_inv ?kept" by (rule fold_keeps) (simp_all add: merge_shard_inv, simp add: merge_inv_def)
  then have "distinct (map members ?kept)" by (rule merge_inv_distinct)
  moreover have "mset (map members (merge_shards results)) = mset (map members ?kept)"
    by (simp add: merge_shards_def)
  ultimately have "distinct (map members (merge_shards results))" using mset_eq_imp_distinct_iff by metis
  moreover have "\<exists>(shard, rs)\<in>set results. \<exists>r\<in>set rs. members k = set (r_accounts r)" if "k \<in> set ?kept" for k
    using that merge_members [of results "[]"] by fastforce
  ultimately show ?thesis unfolding set using merge_shards_cover [of _ _ results _ "[]"] by blast
qed

definition sample_ring :: "account list \<Rightarrow> ring" where
  "sample_ring as = \<lparr>r_accounts = as, r_total_volume = 0, r_cycle_volume = 0, r_avg_trade_count = 0,
                     r_timing_tightness = 0, r_truncated = False\<rparr>"

lemma merge_shards_covers_witness:
  "\<exists>k\<in>set (merge_shards [(0, [sample_ring [''A'', ''B'']]), (1, [sample_ring [''B'', ''C'']])]).
     {''B'', ''C''} \<subseteq> members k"
proof -
  let ?results = "[(0::nat, [sample_ring [''A'', ''B'']]), (1, [sample_ring [''B'', ''C'']])]"
  have "\<forall>(shard, rs)\<in>set ?results. \<forall>r\<in>set rs. \<exists>k\<in>set (merge_shards ?results). set (r_accounts r) \<subseteq> members k"
    by (rule merge_shards_covers [of ?results, THEN conjunct1])
  then show ?thesis by (simp add: sample_ring_def)
qed

text \<open>
  The merge is not an antichain: a ring that swallows two kept ones replaces only the
  first, so the result still holds a ring lying strictly inside another.
\<close>

lemma merge_keeps_nested_ring:
  "map members (fold merge_shard
       [(0, [sample_ring [''A'', ''B'']]), (1, [sample_ring [''C'', ''D'']]),
        (2, [sample_ring [''A'', ''B'', ''C'', ''D'']])] []) =
     [{''A'', ''B'', ''C'', ''D''}, {''C'', ''D''}]"
proof -
  have "{''C'', ''D''} \<noteq> {''A'', ''B''}" by (simp add: doubleton_eq_iff)
  then show ?thesis by (simp add: merge_shard_def sample_ring_def Let_def psubset_eq)
qed

text \<open>
  A trade refused with \<open>GraphTooLargeError\<close> still registers its accounts, and nothing
  removes them: with sharding disabled every later trade between named accounts is refused
  too, even one between accounts the graph already holds.
\<close>

lemma too_large_is_permanent:
  assumes "add_trade cfg tu t g = (g', Some Graph_Too_Large)" "graph_wf g"
    and "present (base_account t')" "present (counter_account t')"
  shows "snd (add_trade cfg tu t' g') = Some Graph_Too_Large"
proof -
  have g': "\<not> g_sharded g'" "\<not> shard_enabled cfg" "max_graph_nodes cfg < node_count (g_index g')"
    using assms(1) by (auto simp: add_trade_def Let_def split: if_splits)
  have wf: "index_wf (g_index g')" using add_trade_wf [OF assms(2), of cfg tu t] assms(1) by (simp add: graph_wf_def)
  have "node_count (g_index g') \<le> node_count (node_add b (node_add a (g_index g')))" for a b
    using wf by (simp add: node_count_def node_add_names node_add_wf)
  with g' have "max_graph_nodes cfg < node_count (node_add b (node_add a (g_index g')))" for a b
    by (meson less_le_trans)
  with g' assms(3,4) show ?thesis by (simp add: add_trade_def Let_def)
qed

end
