(* ===== verification/Sharding.thy ===== *)
theory Sharding
  imports Ring_Membership
begin

text \<open>
  The partitioner of \<open>packages/core/detection/graph_sharding.py\<close> (\<open>GraphShardPartitioner\<close>) and
  the sharded ring search of \<open>graph_engine.py\<close> (\<open>ShardedTradeGraph.find_wash_rings\<close>,
  \<open>_run_shard_find_rings\<close>). The undirected networkx graph, Louvain community detection,
  modularity and the iteration order of a Python set are the fields of the parameter
  \<open>shard_lib\<close>.
\<close>

section \<open>The partitioner\<close>

type_synonym pair_list = "(account \<times> account) list"

record shard_lib =
  ug_nodes :: "pair_list \<Rightarrow> account list"
  ug_edges :: "pair_list \<Rightarrow> pair_list"
  ug_neighbors :: "pair_list \<Rightarrow> account \<Rightarrow> account list"
  louvain :: "pair_list \<Rightarrow> account set list option"
  modularity :: "pair_list \<Rightarrow> account set list \<Rightarrow> real option"
  set_order :: "account set \<Rightarrow> account list"

record shard_assignment =
  node_to_shard :: "(account, nat) dict"
  boundary_nodes :: "(account, nat set) dict"
  shard_count :: nat
  sa_modularity :: real

datatype shard_error = Bad_Argument | Index_Error | Graph_Failed graph_error

definition new_partitioner :: "int \<Rightarrow> int \<Rightarrow> shard_error option" where
  "new_partitioner cnt hops =
     (if cnt < 1 then Some Bad_Argument
      else if hops < 0 \<or> 3 < hops then Some Bad_Argument else None)"

function chunks :: "nat \<Rightarrow> account list \<Rightarrow> account set list" where
  "chunks k xs = (if xs = [] then [] else set (take (max 1 k) xs) # chunks k (drop (max 1 k) xs))"
  by pat_completeness auto
termination
  by (relation "measure (length \<circ> snd)") auto

declare chunks.simps [simp del]

definition detect_communities :: "shard_lib \<Rightarrow> nat \<Rightarrow> pair_list \<Rightarrow> nat \<Rightarrow> account set list" where
  "detect_communities lib cnt g n =
     (if n = 0 then []
      else case louvain lib g of
        Some (c # cs) \<Rightarrow> c # cs
      | _ \<Rightarrow> chunks (n div cnt) (ug_nodes lib g))"

definition merge_small_step ::
    "nat \<Rightarrow> account set \<Rightarrow> account set list \<times> account set \<Rightarrow> account set list \<times> account set" where
  "merge_small_step target comm st =
     (case st of (merged, current) \<Rightarrow>
        if current = {} then (merged, comm)
        else if card current + card comm \<le> target then (merged, current \<union> comm)
        else (merged @ [current], comm))"

definition merge_small_communities :: "account set list \<Rightarrow> nat \<Rightarrow> account set list" where
  "merge_small_communities communities target =
     (let small = filter (\<lambda>c. card c < target) communities;
          large = filter (\<lambda>c. \<not> card c < target) communities;
          (merged, current) = fold (merge_small_step target) small (large, {})
      in if current \<noteq> {} then merged @ [current] else merged)"

text \<open>
  The inner \<open>while\<close>: cut chunks of \<open>target\<close> members while shards are left (the caller's
  \<open>target\<close> is at least one).
\<close>

function split_members ::
    "nat \<Rightarrow> nat \<Rightarrow> account list \<Rightarrow> account set list \<Rightarrow> account set list" where
  "split_members target cnt mems result =
     (if 0 < target \<and> 3 * target < 2 * length mems \<and> length result + 1 < cnt
      then split_members target cnt (drop target mems) (result @ [set (take target mems)])
      else result @ [set mems])"
  by pat_completeness auto
termination
  by (relation "measure (\<lambda>(t, c, m, r). length m)") auto

declare split_members.simps [simp del]

definition split_large_communities :: "shard_lib \<Rightarrow> account set list \<Rightarrow> nat \<Rightarrow> nat \<Rightarrow> account set list" where
  "split_large_communities lib communities target cnt =
     fold (\<lambda>comm result. split_members target cnt (set_order lib comm) result) communities []"

definition balance_communities :: "shard_lib \<Rightarrow> account set list \<Rightarrow> nat \<Rightarrow> nat \<Rightarrow> account set list" where
  "balance_communities lib communities n cnt =
     (let target = max 1 (n div cnt)
      in split_large_communities lib (merge_small_communities communities target) target cnt)"

definition assign_shards :: "shard_lib \<Rightarrow> account set list \<Rightarrow> (account, nat) dict" where
  "assign_shards lib balanced =
     fold (\<lambda>(i, comm) d. fold (\<lambda>node. dict_set node i) (set_order lib comm) d) (enumerate 0 balanced) []"

text \<open>\<open>boundary.setdefault(node, set()).update(extra)\<close>\<close>

definition add_shards :: "account \<Rightarrow> nat set \<Rightarrow> (account, nat set) dict \<Rightarrow> (account, nat set) dict" where
  "add_shards node extra boundary =
     dict_set node ((case dict_get boundary node of None \<Rightarrow> {} | Some s \<Rightarrow> s) \<union> extra) boundary"

definition boundary_edge ::
    "(account, nat) dict \<Rightarrow> account \<times> account \<Rightarrow> (account, nat set) dict \<Rightarrow> (account, nat set) dict" where
  "boundary_edge shards e boundary =
     (case (dict_get shards (fst e), dict_get shards (snd e)) of
        (Some su, Some sv) \<Rightarrow>
          if su \<noteq> sv then add_shards (snd e) {su} (add_shards (fst e) {sv} boundary) else boundary
      | _ \<Rightarrow> boundary)"

definition boundary_hop ::
    "shard_lib \<Rightarrow> pair_list \<Rightarrow> (account, nat) dict \<Rightarrow> (account, nat set) dict \<Rightarrow> (account, nat set) dict" where
  "boundary_hop lib g shards boundary =
     (let new_boundary =
        fold (\<lambda>(node, extra) nb.
          fold (\<lambda>neighbor nb.
            let nb1 = add_shards neighbor extra nb in
            case dict_get shards neighbor of
              None \<Rightarrow> nb1
            | Some ns \<Rightarrow> add_shards neighbor {es \<in> extra. es \<noteq> ns} nb1) (ug_neighbors lib g node) nb) boundary []
      in fold (\<lambda>(node, extra) b. add_shards node extra b) new_boundary boundary)"

definition find_boundary_nodes ::
    "shard_lib \<Rightarrow> nat \<Rightarrow> pair_list \<Rightarrow> (account, nat) dict \<Rightarrow> nat \<Rightarrow> shard_error + (account, nat set) dict" where
  "find_boundary_nodes lib hops g shards cnt =
     (if hops = 0 then Inr []
      else if \<exists>s\<in>snd ` set shards. \<not> s < cnt then Inl Index_Error
      else Inr (((boundary_hop lib g shards) ^^ (hops - 1)) (fold (boundary_edge shards) (ug_edges lib g) [])))"

definition compute_modularity :: "shard_lib \<Rightarrow> pair_list \<Rightarrow> account set list \<Rightarrow> nat \<Rightarrow> real" where
  "compute_modularity lib g communities n =
     (if n = 0 then 1 else case modularity lib g communities of None \<Rightarrow> 0 | Some q \<Rightarrow> q)"

definition partition :: "shard_lib \<Rightarrow> nat \<Rightarrow> nat \<Rightarrow> edge_data \<Rightarrow> shard_error + shard_assignment" where
  "partition lib requested hops es =
     (let g = dict_keys es; nds = ug_nodes lib g in
      if nds = [] then
        Inr \<lparr>node_to_shard = [], boundary_nodes = [], shard_count = requested, sa_modularity = 1\<rparr>
      else
        let n = length nds;
            cnt = (if n < requested then n else requested);
            communities = detect_communities lib requested g n;
            balanced = balance_communities lib communities n cnt;
            shards = assign_shards lib balanced;
            q = compute_modularity lib g balanced n
        in case find_boundary_nodes lib hops g shards cnt of
             Inl e \<Rightarrow> Inl e
           | Inr boundary \<Rightarrow>
               Inr \<lparr>node_to_shard = shards, boundary_nodes = boundary, shard_count = cnt, sa_modularity = q\<rparr>)"

section \<open>The sharded search\<close>

record sharded_graph =
  sg_index :: node_index
  sg_edges :: edge_data
  sg_cache :: "(rings_key \<times> shard_ring list) option"
  sg_shard_count :: int
  sg_overlap_hops :: int
  sg_assignment :: "shard_assignment option"

definition target_shards :: "shard_assignment \<Rightarrow> account \<times> account \<Rightarrow> nat set" where
  "target_shards a k =
     set_option (dict_get (node_to_shard a) (fst k)) \<union> set_option (dict_get (node_to_shard a) (snd k)) \<union>
     (case dict_get (boundary_nodes a) (fst k) of None \<Rightarrow> {} | Some s \<Rightarrow> s) \<union>
     (case dict_get (boundary_nodes a) (snd k) of None \<Rightarrow> {} | Some s \<Rightarrow> s)"

definition shard_edges :: "shard_assignment \<Rightarrow> edge_data \<Rightarrow> nat \<Rightarrow> edge_data" where
  "shard_edges a es s = filter (\<lambda>(k, en). s \<in> target_shards a k) es"

definition run_shard_find_rings ::
    "graph_config \<Rightarrow> csr_lib \<Rightarrow> nx_lib \<Rightarrow> rings_key \<Rightarrow> node_index \<Rightarrow> edge_data \<Rightarrow> graph_error + ring list" where
  "run_shard_find_rings cfg csr nxe key ni es =
     snd (find_wash_rings cfg csr nxe key \<lparr>g_index = ni, g_edges = es, g_cache = None, g_sharded = False\<rparr>)"

text \<open>\<open>pool.map\<close>: the results in the order of the shards, or the first exception.\<close>

fun pool_map :: "('a \<Rightarrow> 'e + 'b) \<Rightarrow> 'a list \<Rightarrow> 'e + 'b list" where
  "pool_map f [] = Inr []"
| "pool_map f (x # xs) =
     (case f x of Inl e \<Rightarrow> Inl e
      | Inr y \<Rightarrow> (case pool_map f xs of Inl e \<Rightarrow> Inl e | Inr ys \<Rightarrow> Inr (y # ys)))"

definition search_shards ::
    "shard_lib \<Rightarrow> graph_config \<Rightarrow> csr_lib \<Rightarrow> nx_lib \<Rightarrow> rings_key \<Rightarrow> sharded_graph \<Rightarrow>
       sharded_graph \<times> (shard_error + shard_ring list)" where
  "search_shards lib cfg csr nxe key g =
     (case new_partitioner (sg_shard_count g) (sg_overlap_hops g) of
        Some e \<Rightarrow> (g, Inl e)
      | None \<Rightarrow>
          (case partition lib (nat (sg_shard_count g)) (nat (sg_overlap_hops g)) (sg_edges g) of
             Inl e \<Rightarrow> (g, Inl e)
           | Inr a \<Rightarrow>
               let g1 = g\<lparr>sg_assignment := Some a\<rparr> in
               (case pool_map (\<lambda>s. run_shard_find_rings cfg csr nxe key (sg_index g) (shard_edges a (sg_edges g) s))
                       [0..<shard_count a] of
                  Inl e \<Rightarrow> (g1, Inl (Graph_Failed e))
                | Inr results \<Rightarrow>
                    let result = merge_shards (enumerate 0 results)
                    in (g1\<lparr>sg_cache := Some (key, result)\<rparr>, Inr result))))"

definition sharded_find_wash_rings ::
    "shard_lib \<Rightarrow> graph_config \<Rightarrow> csr_lib \<Rightarrow> nx_lib \<Rightarrow> rings_key \<Rightarrow> sharded_graph \<Rightarrow>
       sharded_graph \<times> (shard_error + shard_ring list)" where
  "sharded_find_wash_rings lib cfg csr nxe key g =
     (case sg_cache g of
        Some (k, rings) \<Rightarrow> if k = key then (g, Inr rings) else search_shards lib cfg csr nxe key g
      | None \<Rightarrow> search_shards lib cfg csr nxe key g)"

definition shard_topology :: "sharded_graph \<Rightarrow> nat \<times> real \<times> (nat \<times> nat) list" where
  "shard_topology g =
     (case sg_assignment g of
        None \<Rightarrow> (0, 0, [])
      | Some a \<Rightarrow> (shard_count a, sa_modularity a,
          map (\<lambda>i. (i, length (filter (\<lambda>(n, s). s = i) (node_to_shard a)))) [0..<shard_count a]))"

section \<open>Every node is assigned\<close>

lemma chunks_Union: "\<Union> (set (chunks k xs)) = set xs"
proof (induction k xs rule: chunks.induct)
  case (1 k xs)
  show ?case
  proof (cases "xs = []")
    case False
    have "set xs = set (take (max 1 k) xs) \<union> set (drop (max 1 k) xs)"
      by (metis append_take_drop_id set_append)
    then show ?thesis using 1 False by (simp add: chunks.simps [of k xs])
  qed (simp add: chunks.simps)
qed

lemma split_members_Union:
  "\<Union> (set (split_members t c mems result)) = \<Union> (set result) \<union> set mems"
proof (induction t c mems result rule: split_members.induct)
  case (1 t c mems result)
  have "set mems = set (take t mems) \<union> set (drop t mems)"
    by (metis append_take_drop_id set_append)
  then show ?case using 1 by (subst split_members.simps) auto
qed

lemma merge_small_fold:
  "fold (merge_small_step t) small (merged, current) = (m, c) \<Longrightarrow>
     \<Union> (set m) \<union> c = \<Union> (set merged) \<union> current \<union> \<Union> (set small)"
proof (induction small arbitrary: merged current)
  case (Cons x small)
  obtain m' c' where st: "merge_small_step t x (merged, current) = (m', c')" by fastforce
  have "\<Union> (set m') \<union> c' = \<Union> (set merged) \<union> current \<union> x"
    using st by (auto simp: merge_small_step_def split: if_splits)
  moreover have "\<Union> (set m) \<union> c = \<Union> (set m') \<union> c' \<union> \<Union> (set small)"
    using Cons.IH [of m' c'] Cons.prems st by simp
  ultimately show ?case by auto
qed simp

lemma merge_small_Union: "\<Union> (set (merge_small_communities cs t)) = \<Union> (set cs)"
proof -
  obtain m c where f: "fold (merge_small_step t) (filter (\<lambda>c. card c < t) cs)
      (filter (\<lambda>c. \<not> card c < t) cs, {}) = (m, c)" by fastforce
  have "\<Union> (set (merge_small_communities cs t)) = \<Union> (set m) \<union> c"
    unfolding merge_small_communities_def Let_def f by auto
  also have "\<dots> = \<Union> (set (filter (\<lambda>c. \<not> card c < t) cs)) \<union> \<Union> (set (filter (\<lambda>c. card c < t) cs))"
    using merge_small_fold [OF f] by simp
  also have "\<dots> = \<Union> (set cs)" by auto
  finally show ?thesis .
qed

abbreviation order_ok :: "shard_lib \<Rightarrow> bool" where
  "order_ok lib \<equiv> (\<forall>S. finite S \<longrightarrow> set (set_order lib S) = S)"

lemma split_large_fold:
  assumes "order_ok lib" "\<forall>c\<in>set cs. finite c"
  shows "\<Union> (set (fold (\<lambda>comm result. split_members t c (set_order lib comm) result) cs result)) =
           \<Union> (set result) \<union> \<Union> (set cs)"
  using assms(2)
proof (induction cs arbitrary: result)
  case (Cons x cs)
  then show ?case using assms(1) by (simp add: split_members_Union Un_assoc)
qed simp

lemma assign_shards_keys:
  assumes "order_ok lib" "\<forall>c\<in>set balanced. finite c"
  shows "fst ` set (assign_shards lib balanced) = \<Union> (set balanced)"
proof -
  have inner: "fst ` set (fold (\<lambda>node. dict_set node i) ns d) = fst ` set d \<union> set ns" for i :: nat and ns d
  proof (induction ns arbitrary: d)
    case (Cons n ns)
    have "fst ` set (dict_set n i d) = insert n (fst ` set d)"
      using arg_cong [OF dict_keys_set [of n i d], of set] by (auto split: if_splits)
    then show ?case using Cons.IH by simp
  qed simp
  have "fst ` set (fold (\<lambda>(i, comm) d. fold (\<lambda>node. dict_set node i) (set_order lib comm) d) (enumerate k balanced) d) =
      fst ` set d \<union> \<Union> (set balanced)" for k d
    using assms(2)
  proof (induction balanced arbitrary: k d)
    case (Cons c balanced)
    then show ?case using assms(1) by (simp add: inner Un_assoc)
  qed simp
  then show ?thesis by (simp add: assign_shards_def)
qed

text \<open>What networkx and Python promise of the undirected graph, its communities and set iteration.\<close>

definition lib_ok :: "shard_lib \<Rightarrow> bool" where
  "lib_ok lib \<longleftrightarrow> order_ok lib \<and> (\<forall>g. set (ug_nodes lib g) = Field (set g)) \<and>
     (\<forall>g cs. louvain lib g = Some cs \<longrightarrow> cs \<noteq> [] \<longrightarrow> \<Union> (set cs) = Field (set g))"

lemma lib_ok_nodes: "lib_ok lib \<Longrightarrow> set (ug_nodes lib g) = Field (set g)"
  and lib_ok_order: "lib_ok lib \<Longrightarrow> order_ok lib"
  unfolding lib_ok_def by blast+

lemma detect_communities_Union:
  assumes "lib_ok lib" "n = length (ug_nodes lib g)"
  shows "\<Union> (set (detect_communities lib cnt g n)) = Field (set g)"
proof (cases "n = 0")
  case True
  then have "Field (set g) = {}" using lib_ok_nodes [OF assms(1), of g] assms(2) by simp
  then show ?thesis using True by (simp add: detect_communities_def)
next
  case False
  show ?thesis
  proof (cases "\<exists>c cs. louvain lib g = Some (c # cs)")
    case True
    then obtain c cs where l: "louvain lib g = Some (c # cs)" by blast
    then have "\<Union> (set (c # cs)) = Field (set g)" using assms(1) unfolding lib_ok_def by blast
    then show ?thesis using False l by (simp add: detect_communities_def)
  next
    case none: False
    then have "detect_communities lib cnt g n = chunks (n div cnt) (ug_nodes lib g)"
      using False by (auto simp: detect_communities_def split: option.splits list.splits)
    then show ?thesis using chunks_Union lib_ok_nodes [OF assms(1)] by simp
  qed
qed

lemma balance_communities_Union:
  assumes "lib_ok lib" "\<Union> (set cs) = A" "finite A"
  shows "\<Union> (set (balance_communities lib cs n cnt)) = A"
proof -
  let ?m = "merge_small_communities cs (max 1 (n div cnt))"
  have m: "\<Union> (set ?m) = A" using assms(2) by (simp only: merge_small_Union)
  then have "\<forall>c\<in>set ?m. finite c" using assms(3) by (meson Union_upper finite_subset)
  then show ?thesis using split_large_fold [of lib ?m] assms(1) m
    by (simp add: balance_communities_def split_large_communities_def lib_ok_def Let_def)
qed

section \<open>The sharded search: lemmas\<close>

lemma find_boundary_in_range:
  "find_boundary_nodes lib hops g shards cnt = Inr b \<Longrightarrow> 1 \<le> hops \<Longrightarrow> (v, s) \<in> set shards \<Longrightarrow> s < cnt"
  by (force simp: find_boundary_nodes_def split: if_splits)

lemma partition_covers:
  assumes lib: "lib_ok lib" and part: "partition lib cnt hops es = Inr a" and hops: "1 \<le> hops"
    and k: "k \<in> pairs es"
  shows "\<exists>s< shard_count a. dict_get (node_to_shard a) (fst k) = Some s"
proof -
  let ?g = "dict_keys es"
  let ?n = "length (ug_nodes lib ?g)"
  let ?count = "if ?n < cnt then ?n else cnt"
  let ?bal = "balance_communities lib (detect_communities lib cnt ?g ?n) ?n ?count"
  have nodes: "set (ug_nodes lib ?g) = Field (pairs es)" by (rule lib_ok_nodes [OF lib])
  have fk: "fst k \<in> Field (pairs es)" using k by (metis FieldI1 prod.collapse)
  then have ne: "ug_nodes lib ?g \<noteq> []" using nodes by auto
  have fin: "finite (Field (pairs es))" by (metis nodes finite_set)
  have un: "\<Union> (set ?bal) = Field (pairs es)"
    by (rule balance_communities_Union [OF lib detect_communities_Union [OF lib refl] fin])
  then have "\<forall>c\<in>set ?bal. finite c" using fin by (metis Union_upper finite_subset)
  then have keys: "fst ` set (assign_shards lib ?bal) = Field (pairs es)"
    using assign_shards_keys [OF lib_ok_order [OF lib]] un by (simp only:)
  obtain b where b: "find_boundary_nodes lib hops ?g (assign_shards lib ?bal) ?count = Inr b"
    "node_to_shard a = assign_shards lib ?bal" "shard_count a = ?count"
    using part ne by (auto simp: partition_def Let_def split: sum.splits)
  have "fst k \<in> fst ` set (assign_shards lib ?bal)" using fk keys by (simp only:)
  then obtain s where s: "dict_get (assign_shards lib ?bal) (fst k) = Some s"
    by (metis map_of_eq_None_iff not_None_eq)
  then have "s < ?count" using find_boundary_in_range [OF b(1) hops] map_of_SomeD by metis
  with s b(2,3) show ?thesis by auto
qed

lemma pool_map_first_error:
  "f x = Inl e \<Longrightarrow> pool_map f (x # xs) = Inl e"
  by simp

lemma pool_map_results:
  "pool_map f xs = Inr ys \<Longrightarrow> length ys = length xs \<and> (\<forall>i<length xs. f (xs ! i) = Inr (ys ! i))"
proof (induction xs arbitrary: ys)
  case (Cons x xs)
  then obtain y ys' where "f x = Inr y" "pool_map f xs = Inr ys'" "ys = y # ys'"
    by (auto split: sum.splits)
  with Cons.IH show ?case by (auto simp: nth_Cons split: nat.splits)
qed simp

lemma shard_edges_subset: "set (shard_edges a es s) \<subseteq> set es"
  by (auto simp: shard_edges_def)

lemma shard_graph_wf:
  assumes "graph_wf \<lparr>g_index = ni, g_edges = es, g_cache = None, g_sharded = False\<rparr>"
  shows "graph_wf \<lparr>g_index = ni, g_edges = shard_edges a es s, g_cache = None, g_sharded = False\<rparr>"
proof -
  have "pairs (shard_edges a es s) \<subseteq> pairs es" using shard_edges_subset by (simp add: image_mono)
  then have "Field (pairs (shard_edges a es s)) \<subseteq> Field (pairs es)" by (rule mono_Field)
  moreover have "dict_wf (shard_edges a es s)"
    using assms by (simp add: graph_wf_def dict_wf_def shard_edges_def distinct_map_filter)
  ultimately show ?thesis using assms by (auto simp: graph_wf_def)
qed

lemma account_scc_mono: "pairs es \<subseteq> pairs es' \<Longrightarrow> account_scc es v \<subseteq> account_scc es' v"
  using rtrancl_mono [of "pairs es" "pairs es'"] unfolding account_scc_def by blast

lemma shard_rings_sound:
  assumes wf: "graph_wf \<lparr>g_index = ni, g_edges = es, g_cache = None, g_sharded = False\<rparr>"
    and small: "node_count ni < mmap_threshold cfg" and key: "valid_key key"
    and run: "run_shard_find_rings cfg csr nxe key ni (shard_edges a es s) = Inr rings" and r: "r \<in> set rings"
  shows "\<exists>v. set (r_accounts r) \<subseteq> account_scc es v"
proof -
  let ?g = "\<lparr>g_index = ni, g_edges = shard_edges a es s, g_cache = None, g_sharded = False\<rparr>"
  obtain m M x where k: "key = (m, M, x)" by (metis prod_cases3)
  have "cache_ok cfg csr nxe ?g" by (simp add: cache_ok_def)
  then have comp: "compute_rings cfg csr nxe key ?g = Inr rings"
    using run find_wash_rings_result [OF _ key] by (simp add: run_shard_find_rings_def)
  have "representable cfg csr ?g" using small by (simp add: representable_def)
  then have "set rings = expected_rings nxe (shard_edges a es s) (nat m) (nat M) x"
    using compute_rings_correct [OF shard_graph_wf [OF wf], of cfg csr a s nxe m M x] comp k by auto
  then obtain S where S: "r = ring_for nxe (shard_edges a es s) (nat m) (nat M) S"
    "S \<in> account_scc (shard_edges a es s) ` Field (pairs (shard_edges a es s))"
    using r unfolding expected_rings_def by blast
  then obtain v where v: "S = account_scc (shard_edges a es s) v" by blast
  have sub: "S \<subseteq> account_scc es v"
    unfolding v by (rule account_scc_mono) (use shard_edges_subset in \<open>simp add: image_mono\<close>)
  have "set (r_accounts r) \<subseteq> S"
    by (cases "finite S") (simp_all add: S(1) ring_for_def split_beta Let_def)
  with sub show ?thesis by blast
qed

section \<open>Properties\<close>

text \<open>
  When the partitioner returns and at least one overlap hop is asked for, the sharded
  search hands every edge of the graph, with its data, to some shard; in particular to the
  shard of its base account.
\<close>

lemma shards_keep_every_edge:
  assumes "lib_ok lib" "partition lib cnt hops es = Inr a" "1 \<le> hops" "(k, en) \<in> set es"
  shows "\<exists>s < shard_count a. (k, en) \<in> set (shard_edges a es s) \<and> dict_get (node_to_shard a) (fst k) = Some s"
proof -
  have "k \<in> pairs es" using assms(4) by force
  then obtain s where "s < shard_count a" "dict_get (node_to_shard a) (fst k) = Some s"
    using partition_covers [OF assms(1-3)] by blast
  then show ?thesis using assms(4) by (auto simp: shard_edges_def target_shards_def)
qed

definition sample_lib :: "account set list \<Rightarrow> shard_lib" where
  "sample_lib communities =
     \<lparr>ug_nodes = \<lambda>g. remdups (concat (map (\<lambda>(a, b). [a, b]) g)), ug_edges = \<lambda>g. g,
      ug_neighbors = \<lambda>g v. [], louvain = \<lambda>g. if Field (set g) = \<Union> (set communities) then Some communities else None,
      modularity = \<lambda>g cs. None, set_order = sorted_list_of_set\<rparr>"

lemma sample_lib_ok: "lib_ok (sample_lib communities)"
proof -
  have "set (remdups (concat (map (\<lambda>(a, b). [a, b]) g))) = Field (set g)" for g :: pair_list
    by (auto simp: Field_def Domain_iff Range_iff)
  then show ?thesis by (auto simp: lib_ok_def sample_lib_def split: if_splits)
qed

definition sample_pairs :: edge_data where
  "sample_pairs = [((''A'', ''B''), sample_edge 5), ((''B'', ''A''), sample_edge 3)]"

lemma sample_partition:
  "partition (sample_lib [{''A'', ''B''}]) 1 1 sample_pairs =
     Inr \<lparr>node_to_shard = [(''A'', 0), (''B'', 0)], boundary_nodes = [], shard_count = 1, sa_modularity = 0\<rparr>"
proof -
  have "Field {(''A'', ''B''), (''B'', ''A'')} = {''A'', ''B''}" by (auto simp: Field_def)
  then show ?thesis
    by (simp add: partition_def sample_lib_def sample_pairs_def Let_def detect_communities_def
        balance_communities_def merge_small_communities_def merge_small_step_def split_large_communities_def
        split_members.simps assign_shards_def find_boundary_nodes_def compute_modularity_def boundary_edge_def
        sorted_list_of_set_insert_remove insert_commute)
qed

lemma shards_keep_every_edge_witness:
  "\<exists>s < 1. ((''B'', ''A''), sample_edge 3) \<in> set (shard_edges
      \<lparr>node_to_shard = [(''A'', 0), (''B'', 0)], boundary_nodes = [], shard_count = 1, sa_modularity = 0\<rparr> sample_pairs s)"
proof -
  have "((''B'', ''A''), sample_edge 3) \<in> set sample_pairs" by (simp add: sample_pairs_def)
  from shards_keep_every_edge [OF sample_lib_ok sample_partition _ this] show ?thesis by auto
qed

text \<open>
  C23: below the sparse threshold a sharded search reports no false ring: the accounts of
  every reported ring trade in a cycle of the whole graph (they lie in one of its strongly
  connected components).
\<close>

theorem sharded_rings_sound:
  assumes "graph_wf \<lparr>g_index = sg_index g, g_edges = sg_edges g, g_cache = None, g_sharded = False\<rparr>"
    and "node_count (sg_index g) < mmap_threshold cfg" "valid_key key" "sg_cache g = None"
    and "snd (sharded_find_wash_rings lib cfg csr nxe key g) = Inr rings" "k \<in> set rings"
  shows "\<exists>v. set (r_accounts (fst k)) \<subseteq> account_scc (sg_edges g) v"
proof -
  have run: "snd (search_shards lib cfg csr nxe key g) = Inr rings"
    using assms(4,5) by (simp add: sharded_find_wash_rings_def)
  obtain a results where a:
    "pool_map (\<lambda>s. run_shard_find_rings cfg csr nxe key (sg_index g) (shard_edges a (sg_edges g) s))
       [0..<shard_count a] = Inr results"
    "rings = merge_shards (enumerate 0 results)"
    using run unfolding search_shards_def by (auto simp: Let_def split: option.splits sum.splits)
  have "members k \<in> members ` set (fold merge_shard (enumerate 0 results) [])"
    using assms(6) a(2) by (auto simp: merge_shards_def)
  then have "members k \<in> (\<lambda>r. set (r_accounts r)) ` \<Union> (set ` snd ` set (enumerate 0 results))"
    using merge_members [of "enumerate 0 results" "[]"] by auto
  moreover have "snd ` set (enumerate 0 results) = set results"
    by (metis list.set_map map_snd_enumerate)
  ultimately obtain rs r where r: "rs \<in> set results" "r \<in> set rs" "members k = set (r_accounts r)"
    by auto
  then obtain i where i: "i < length results" "results ! i = rs" by (metis in_set_conv_nth)
  then have "run_shard_find_rings cfg csr nxe key (sg_index g) (shard_edges a (sg_edges g) i) = Inr rs"
    using pool_map_results [OF a(1)] by auto
  from shard_rings_sound [OF assms(1-3) this r(2)] r(3) show ?thesis by simp
qed

definition sample_sharded :: sharded_graph where
  "sample_sharded = \<lparr>sg_index = \<lparr>str_to_int = [(''A'', 0), (''B'', 1)], int_to_str = [''A'', ''B'']\<rparr>,
     sg_edges = sample_pairs, sg_cache = None, sg_shard_count = 1, sg_overlap_hops = 1, sg_assignment = None\<rparr>"

lemma sample_index_wf: "index_wf (sg_index sample_sharded)"
proof -
  have "sg_index sample_sharded = node_add ''B'' (node_add ''A'' new_node_index)"
    by (simp add: sample_sharded_def node_add_def new_node_index_def)
  then show ?thesis by (simp add: node_add_wf index_wf_new)
qed

lemma sample_sharded_wf:
  "graph_wf \<lparr>g_index = sg_index sample_sharded, g_edges = sg_edges sample_sharded, g_cache = None, g_sharded = False\<rparr>"
  using sample_index_wf by (auto simp: graph_wf_def sample_sharded_def sample_pairs_def dict_wf_def Field_def)

theorem sharded_rings_sound_witness:
  "\<exists>rings. snd (sharded_find_wash_rings (sample_lib [{''A'', ''B''}]) default_config (\<lambda>_ _ _. []) (\<lambda>_ es. es)
      (2, 10, 0) sample_sharded) = Inr rings \<and>
    (\<forall>k\<in>set rings. \<exists>v. set (r_accounts (fst k)) \<subseteq> account_scc (sg_edges sample_sharded) v)"
proof -
  let ?find = "sharded_find_wash_rings (sample_lib [{''A'', ''B''}]) default_config (\<lambda>_ _ _. []) (\<lambda>_ es. es) (2, 10, 0) sample_sharded"
  have key: "valid_key (2, 10, 0)" by (simp add: valid_key_def)
  have small: "node_count (sg_index sample_sharded) < mmap_threshold default_config"
    by (simp add: sample_sharded_def node_count_def default_config_def)
  have ok: "\<exists>rs. run_shard_find_rings default_config (\<lambda>_ _ _. []) (\<lambda>_ es. es) (2, 10, 0) (sg_index sample_sharded)
      (shard_edges a (sg_edges sample_sharded) s) = Inr rs" for a s
  proof -
    let ?g = "\<lparr>g_index = sg_index sample_sharded, g_edges = shard_edges a (sg_edges sample_sharded) s,
        g_cache = None, g_sharded = False\<rparr>"
    have "representable default_config (\<lambda>_ _ _. []) ?g" using small by (simp add: representable_def)
    moreover have "cache_ok default_config (\<lambda>_ _ _. []) (\<lambda>_ es. es) ?g" by (simp add: cache_ok_def)
    ultimately show ?thesis
      using compute_rings_correct [OF shard_graph_wf [OF sample_sharded_wf]] find_wash_rings_result [OF _ key]
      unfolding run_shard_find_rings_def by metis
  qed
  have part: "partition (sample_lib [{''A'', ''B''}]) (nat (sg_shard_count sample_sharded))
      (nat (sg_overlap_hops sample_sharded)) (sg_edges sample_sharded) =
     Inr \<lparr>node_to_shard = [(''A'', 0), (''B'', 0)], boundary_nodes = [], shard_count = 1, sa_modularity = 0\<rparr>"
    using sample_partition by (simp add: sample_sharded_def)
  have "new_partitioner (sg_shard_count sample_sharded) (sg_overlap_hops sample_sharded) = None"
    by (simp add: sample_sharded_def new_partitioner_def)
  moreover have "sg_cache sample_sharded = None" by (simp add: sample_sharded_def)
  moreover obtain rs where "run_shard_find_rings default_config (\<lambda>_ _ _. []) (\<lambda>_ es. es) (2, 10, 0) (sg_index sample_sharded)
      (shard_edges \<lparr>node_to_shard = [(''A'', 0), (''B'', 0)], boundary_nodes = [], shard_count = 1, sa_modularity = 0\<rparr>
        (sg_edges sample_sharded) 0) = Inr rs" using ok by blast
  ultimately have "\<exists>rings. snd ?find = Inr rings"
    using part by (simp add: sharded_find_wash_rings_def search_shards_def Let_def)
  then obtain rings where rings: "snd ?find = Inr rings" by blast
  have "\<exists>v. set (r_accounts (fst k)) \<subseteq> account_scc (sg_edges sample_sharded) v" if "k \<in> set rings" for k
    by (rule sharded_rings_sound [OF sample_sharded_wf small key _ rings that]) (simp add: sample_sharded_def)
  with rings show ?thesis by blast
qed

text \<open>
  A graph is sharded only when it has more than \<open>MAX_GRAPH_NODES\<close> accounts, and each
  shard is searched with a copy of the whole account index. When the sparse threshold is
  reached too (as in the default configuration, 50,000 against 1,000,000), the adjacency of
  every shard is refused for the size of that index: every search that the cache does not
  answer raises \<open>GraphTooLargeError\<close>.
\<close>

lemma sharded_search_refused:
  assumes "max_graph_nodes cfg < node_count (sg_index g)" "mmap_threshold cfg \<le> node_count (sg_index g)"
    and "valid_key key" "sg_cache g = None"
    and "new_partitioner (sg_shard_count g) (sg_overlap_hops g) = None"
    and "partition lib (nat (sg_shard_count g)) (nat (sg_overlap_hops g)) (sg_edges g) = Inr a" "1 \<le> shard_count a"
  shows "snd (sharded_find_wash_rings lib cfg csr nxe key g) = Inl (Graph_Failed Graph_Too_Large)"
proof -
  obtain m M x where k: "key = (m, M, x)" by (metis prod_cases3)
  have "run_shard_find_rings cfg csr nxe key (sg_index g) es = Inl Graph_Too_Large" for es
    using assms(1-3) k
    by (simp add: run_shard_find_rings_def find_wash_rings_def valid_key_def compute_rings_def
        build_int_adjacency_def load_edge_data_def Let_def)
  moreover have "[0..<shard_count a] = 0 # [1..<shard_count a]" using assms(7) by (simp add: upt_conv_Cons)
  ultimately show ?thesis
    using assms(4-6) by (simp add: sharded_find_wash_rings_def search_shards_def Let_def)
qed

lemma sharded_search_refused_witness:
  "snd (sharded_find_wash_rings (sample_lib [{''A'', ''B''}])
      \<lparr>max_graph_nodes = 1, mmap_threshold = 1, shard_enabled = True\<rparr> (\<lambda>_ _ _. []) (\<lambda>_ es. es) (2, 10, 0) sample_sharded) =
     Inl (Graph_Failed Graph_Too_Large)"
  by (rule sharded_search_refused [where a = "\<lparr>node_to_shard = [(''A'', 0), (''B'', 0)], boundary_nodes = [],
        shard_count = 1, sa_modularity = 0\<rparr>"])
    (use sample_partition in \<open>simp_all add: sample_sharded_def node_count_def valid_key_def new_partitioner_def\<close>)

definition five_accounts :: edge_data where
  "five_accounts = [((''A'', ''B''), sample_edge 1), ((''C'', ''D''), sample_edge 1), ((''E'', ''E''), sample_edge 1)]"

text \<open>
  Balancing can make more communities than there are shards. Two pairs and a lone
  account, which Louvain separates into three communities, raise \<open>IndexError\<close> for two shards
  with one overlap hop; without overlap the edge of the third community is silently in no shard.
\<close>

lemma balanced_communities_exceed_shards:
  "partition (sample_lib [{''A'', ''B''}, {''C'', ''D''}, {''E''}]) 2 1 five_accounts = Inl Index_Error \<and>
   (\<exists>a. partition (sample_lib [{''A'', ''B''}, {''C'', ''D''}, {''E''}]) 2 0 five_accounts = Inr a \<and>
      shard_count a = 2 \<and> target_shards a (''E'', ''E'') = {2})"
proof -
  let ?lib = "sample_lib [{''A'', ''B''}, {''C'', ''D''}, {''E''}]"
  have F: "Field {(''A'', ''B''), (''C'', ''D''), (''E'', ''E'')} = {''A'', ''B'', ''C'', ''D'', ''E''}"
    by (auto simp: Field_def)
  have nds: "ug_nodes ?lib (dict_keys five_accounts) = [''A'', ''B'', ''C'', ''D'', ''E'']"
    by (simp add: sample_lib_def five_accounts_def)
  have det: "detect_communities ?lib 2 (dict_keys five_accounts) 5 = [{''A'', ''B''}, {''C'', ''D''}, {''E''}]"
    using F by (simp add: detect_communities_def sample_lib_def five_accounts_def)
  have bal: "balance_communities ?lib [{''A'', ''B''}, {''C'', ''D''}, {''E''}] 5 2 = [{''A'', ''B''}, {''C'', ''D''}, {''E''}]"
    by (simp add: balance_communities_def merge_small_communities_def merge_small_step_def Let_def
        split_large_communities_def split_members.simps sample_lib_def sorted_list_of_set_insert_remove)
  have shards: "assign_shards ?lib [{''A'', ''B''}, {''C'', ''D''}, {''E''}] =
      [(''A'', 0), (''B'', 0), (''C'', 1), (''D'', 1), (''E'', 2)]"
    by (simp add: assign_shards_def sample_lib_def sorted_list_of_set_insert_remove)
  have len: "length [''A'', ''B'', ''C'', ''D'', ''E''] = 5" "(if (5::nat) < 2 then 5 else 2) = (2::nat)" by simp_all
  show ?thesis unfolding partition_def Let_def nds len det bal shards
    by (simp add: find_boundary_nodes_def target_shards_def)
qed

end
