(* ===== verification/Data_Models.thy ===== *)
theory Data_Models
  imports Prelude
begin

text \<open>
  The asset of the ingestion models (\<open>packages/core/ingestion/data_models.py\<close>), shared by the search for
  payment cycles, the Benford analysis and the streaming features.
\<close>

record asset =
  a_code :: string
  a_issuer :: "string option"

definition is_native :: "asset \<Rightarrow> bool" where
  "is_native a \<longleftrightarrow> a_issuer a = None"

definition pair_symbol :: "asset \<Rightarrow> string" where
  "pair_symbol a = (case a_issuer a of None \<Rightarrow> a_code a | Some i \<Rightarrow> a_code a @ '':'' @ i)"

end
