(* ===== verification/Path_Cycles.thy ===== *)
theory Path_Cycles
  imports Data_Models "HOL-Library.Product_Lexorder"
begin

text \<open>
  Path payment cycles: \<open>packages/core/detection/path_cycle_detector.py\<close> and
  \<open>add_path_payment_edges\<close> of \<open>packages/core/detection/graph_engine.py\<close>.

  A networkx digraph is the insertion-ordered dictionary of its edges (pairs of accounts)
  with their attributes. The two networkx searches are parameters: \<open>sccs\<close> for
  \<open>nx.strongly_connected_components\<close> and \<open>cycles\<close> for \<open>nx.simple_cycles\<close> with its
  \<open>length_bound\<close>; \<open>nx_sccs_ok\<close> and \<open>nx_cycles_ok\<close> state what networkx documents of them. A
  data frame is its columns and rows; of a payment only the fields the search reads are kept, so
  not its id, destination amount and path. The logged warning for a skipped component is left out.
\<close>

section \<open>Payments and their graph\<close>

record path_payment =
  pp_transaction_hash :: string
  pp_timestamp :: instant
  pp_source_account :: string
  pp_destination_account :: string
  pp_source_asset :: asset
  pp_destination_asset :: asset
  pp_source_amount :: real

record payment_row =
  pr_source_account :: string
  pr_destination_account :: string
  pr_source_asset :: "string option"
  pr_destination_asset :: "string option"
  pr_source_amount :: "real option"
  pr_timestamp :: "instant option"
  pr_transaction_hash :: string

record payment_frame =
  pf_columns :: "string list"
  pf_rows :: "payment_row list"

definition frame_columns :: "string list" where
  "frame_columns = [''source_account'', ''destination_account'', ''source_asset'',
     ''destination_asset'', ''source_amount'', ''destination_amount'', ''timestamp'',
     ''transaction_hash'']"

definition payment_row_of :: "path_payment \<Rightarrow> payment_row" where
  "payment_row_of p =
     \<lparr>pr_source_account = pp_source_account p, pr_destination_account = pp_destination_account p,
      pr_source_asset = Some (pair_symbol (pp_source_asset p)),
      pr_destination_asset = Some (pair_symbol (pp_destination_asset p)),
      pr_source_amount = Some (pp_source_amount p), pr_timestamp = Some (pp_timestamp p),
      pr_transaction_hash = pp_transaction_hash p\<rparr>"

definition path_payments_to_frame :: "path_payment list \<Rightarrow> payment_frame" where
  "path_payments_to_frame payments =
     \<lparr>pf_columns = frame_columns, pf_rows = map payment_row_of payments\<rparr>"

record hop =
  h_amount_xlm :: real
  h_source_asset :: string
  h_destination_asset :: string
  h_timestamp :: "instant option"
  h_transaction_hash :: "string option"

record pay_edge =
  pe_total_volume :: real
  pe_payment_count :: int
  pe_path_payments :: "hop list"

type_synonym pay_graph = "(string \<times> string, pay_edge) dict"

definition hop_of :: "bool \<Rightarrow> payment_row \<Rightarrow> hop" where
  "hop_of has_tx_hash row =
     \<lparr>h_amount_xlm = (case pr_source_amount row of None \<Rightarrow> 0 | Some a \<Rightarrow> a),
      h_source_asset = (case pr_source_asset row of None \<Rightarrow> [] | Some a \<Rightarrow> a),
      h_destination_asset = (case pr_destination_asset row of None \<Rightarrow> [] | Some a \<Rightarrow> a),
      h_timestamp = pr_timestamp row,
      h_transaction_hash = (if has_tx_hash then Some (pr_transaction_hash row) else None)\<rparr>"

definition add_hop :: "hop \<Rightarrow> pay_edge \<Rightarrow> pay_edge" where
  "add_hop h edge =
     edge\<lparr>pe_total_volume := pe_total_volume edge + h_amount_xlm h,
          pe_payment_count := pe_payment_count edge + 1,
          pe_path_payments := pe_path_payments edge @ [h]\<rparr>"

definition add_payment_row :: "bool \<Rightarrow> payment_row \<Rightarrow> pay_graph \<Rightarrow> pay_graph" where
  "add_payment_row has_tx_hash row graph =
     (let e = (pr_source_account row, pr_destination_account row); h = hop_of has_tx_hash row in
      if fst e = [] \<or> snd e = [] then graph
      else case dict_get graph e of
        Some edge \<Rightarrow> dict_set e (add_hop h edge) graph
      | None \<Rightarrow> dict_set e \<lparr>pe_total_volume = h_amount_xlm h, pe_payment_count = 1,
                             pe_path_payments = [h]\<rparr> graph)"

datatype cycle_error = Missing_Columns "string list" | Bad_Cycle_Length

definition add_path_payment_edges :: "pay_graph \<Rightarrow> payment_frame \<Rightarrow> cycle_error + pay_graph" where
  "add_path_payment_edges graph payments =
     (if pf_rows payments = [] then Inr graph
      else let missing = filter (\<lambda>c. c \<notin> set (pf_columns payments)) [''destination_account'', ''source_account'']
        in if missing \<noteq> [] then Inl (Missing_Columns missing)
           else Inr (fold (add_payment_row (''transaction_hash'' \<in> set (pf_columns payments)))
                       (pf_rows payments) graph))"

definition build_path_payment_graph :: "path_payment list \<Rightarrow> cycle_error + pay_graph" where
  "build_path_payment_graph payments = add_path_payment_edges [] (path_payments_to_frame payments)"

section \<open>One payment per hop within a window\<close>

definition time_of :: "instant \<Rightarrow> real" where
  "time_of t = of_int t / 1000000"

definition edge_hops :: "pay_graph \<Rightarrow> string \<times> string \<Rightarrow> hop list" where
  "edge_hops graph e = (case dict_get graph e of None \<Rightarrow> [] | Some edge \<Rightarrow> pe_path_payments edge)"

definition timed_hops :: "hop list \<Rightarrow> (real \<times> hop) list" where
  "timed_hops hops =
     sort_key fst (List.map_filter (\<lambda>h. case h_timestamp h of None \<Rightarrow> None | Some t \<Rightarrow> Some (time_of t, h)) hops)"

definition ring_hops :: "string list \<Rightarrow> (string \<times> string) list" where
  "ring_hops cycle = map (\<lambda>i. (cycle ! i, cycle ! (Suc i mod length cycle))) [0..<length cycle]"

fun gather_hops :: "pay_graph \<Rightarrow> (string \<times> string) list \<Rightarrow> ((real \<times> hop) list list \<times> hop list) option" where
  "gather_hops graph [] = Some ([], [])"
| "gather_hops graph (e # es) =
     (case edge_hops graph e of
        [] \<Rightarrow> None
      | h # hs \<Rightarrow>
          (case gather_hops graph es of
             None \<Rightarrow> None
           | Some (timed, untimed) \<Rightarrow>
               (let with_ts = timed_hops (h # hs)
                in if with_ts \<noteq> [] then Some (with_ts # timed, untimed) else Some (timed, h # untimed))))"

record sweep =
  sw_pointers :: "nat list"
  sw_heap :: "(real \<times> nat) list"
  sw_max :: real
  sw_best_range :: "real option"
  sw_best_choice :: "nat list"

definition init_sweep :: "(real \<times> hop) list list \<Rightarrow> sweep" where
  "init_sweep timed =
     \<lparr>sw_pointers = replicate (length timed) 0,
      sw_heap = sort (map (\<lambda>i. (fst (timed ! i ! 0), i)) [0..<length timed]),
      sw_max = Max (set (map (\<lambda>lst. fst (lst ! 0)) timed)),
      sw_best_range = None,
      sw_best_choice = replicate (length timed) 0\<rparr>"

definition note_range :: "real \<Rightarrow> sweep \<Rightarrow> sweep" where
  "note_range ts_min s =
     (if (case sw_best_range s of None \<Rightarrow> True | Some best \<Rightarrow> sw_max s - ts_min < best)
      then s\<lparr>sw_best_range := Some (sw_max s - ts_min), sw_best_choice := sw_pointers s\<rparr>
      else s)"

definition advance :: "(real \<times> hop) list list \<Rightarrow> nat \<Rightarrow> (real \<times> nat) list \<Rightarrow> sweep \<Rightarrow> sweep" where
  "advance timed li rest s =
     (let nxt = sw_pointers s ! li + 1; ts_next = fst (timed ! li ! nxt)
      in s\<lparr>sw_pointers := (sw_pointers s)[li := nxt], sw_max := max (sw_max s) ts_next,
           sw_heap := insort (ts_next, li) rest\<rparr>)"

definition sweep_left :: "(real \<times> hop) list list \<Rightarrow> sweep \<Rightarrow> nat" where
  "sweep_left timed s = (\<Sum>i<length timed. length (timed ! i) - sw_pointers s ! i)"

lemma sweep_left_advance:
  assumes "li < length (sw_pointers s)" "li < length timed" "sw_pointers s ! li + 1 < length (timed ! li)"
  shows "sweep_left timed (advance timed li rest (note_range m s)) < sweep_left timed s"
  unfolding sweep_left_def using assms
  by (intro sum_strict_mono_ex1)
     (auto simp: advance_def note_range_def Let_def nth_list_update intro!: bexI [of _ li])

text \<open>
  The \<open>while True\<close> loop; \<open>None\<close> stands for an \<open>IndexError\<close> (of an empty heap or an index out of
  range).
\<close>

function sweep_loop :: "(real \<times> hop) list list \<Rightarrow> sweep \<Rightarrow> sweep option" where
  "sweep_loop timed s =
     (case sw_heap s of
        [] \<Rightarrow> None
      | (ts_min, li) # rest \<Rightarrow>
          if li < length (sw_pointers s) \<and> li < length timed then
            (if sw_pointers s ! li + 1 = length (timed ! li) then Some (note_range ts_min s)
             else if sw_pointers s ! li + 1 < length (timed ! li)
               then sweep_loop timed (advance timed li rest (note_range ts_min s))
             else None)
          else None)"
  by pat_completeness auto
termination
  by (relation "measure (\<lambda>(timed, s). sweep_left timed s)") (auto intro!: sweep_left_advance [simplified])

declare sweep_loop.simps [simp del]

definition chosen :: "(real \<times> hop) list list \<Rightarrow> nat list \<Rightarrow> hop list" where
  "chosen timed choice = map (\<lambda>i. snd (timed ! i ! (choice ! i))) [0..<length timed]"

definition select_timed_cycle_edges :: "pay_graph \<Rightarrow> string list \<Rightarrow> real \<Rightarrow> hop list option" where
  "select_timed_cycle_edges graph cycle window =
     (case gather_hops graph (ring_hops cycle) of
        None \<Rightarrow> None
      | Some (timed, untimed) \<Rightarrow>
          if timed = [] then Some untimed
          else (case sweep_loop timed (init_sweep timed) of
                  None \<Rightarrow> None
                | Some s \<Rightarrow>
                    (case sw_best_range s of
                       None \<Rightarrow> None
                     | Some best \<Rightarrow>
                         if window < best then None
                         else Some (chosen timed (sw_best_choice s) @ untimed))))"

section \<open>Detection\<close>

record pay_cycle =
  pc_accounts :: "string list"
  pc_cycle_path :: "string list"
  pc_cycle_value_xlm :: real
  pc_cycle_length :: nat
  pc_completed_in_seconds :: real
  pc_asset_diversity :: nat
  pc_transaction_hashes :: "string list"

type_synonym sccs_lib = "pay_graph \<Rightarrow> string list list"
type_synonym cycles_lib = "pay_graph \<Rightarrow> nat \<Rightarrow> string list list"

definition subgraph :: "pay_graph \<Rightarrow> string list \<Rightarrow> pay_graph" where
  "subgraph graph component = filter (\<lambda>x. fst (fst x) \<in> set component \<and> snd (fst x) \<in> set component) graph"

definition touches_roots :: "string set option \<Rightarrow> string list \<Rightarrow> bool" where
  "touches_roots roots accounts = (case roots of None \<Rightarrow> True | Some rs \<Rightarrow> set accounts \<inter> rs \<noteq> {})"

definition least_amount :: "hop list \<Rightarrow> real" where
  "least_amount selected = (if selected = [] then 0 else Min (set (map h_amount_xlm selected)))"

definition completion_seconds :: "hop list \<Rightarrow> real" where
  "completion_seconds selected =
     (let timestamps = List.map_filter h_timestamp selected
      in if 2 \<le> length timestamps then time_of (Max (set timestamps) - Min (set timestamps)) else 0)"

definition describe_cycle :: "string list \<Rightarrow> hop list \<Rightarrow> pay_cycle" where
  "describe_cycle node_cycle selected =
     (let assets = map h_source_asset selected
      in \<lparr>pc_accounts = node_cycle,
          pc_cycle_path = assets @ [hd assets],
          pc_cycle_value_xlm = least_amount selected,
          pc_cycle_length = length node_cycle,
          pc_completed_in_seconds = completion_seconds selected,
          pc_asset_diversity =
            length (remdups (filter (\<lambda>a. a \<noteq> []) (map h_source_asset selected @ map h_destination_asset selected))),
          pc_transaction_hashes = filter (\<lambda>t. t \<noteq> []) (List.map_filter h_transaction_hash selected)\<rparr>)"

type_synonym cycle_search = "pay_cycle list \<times> (string set \<times> nat) list"

definition consider_cycle ::
  "pay_graph \<Rightarrow> string set option \<Rightarrow> real \<Rightarrow> real \<Rightarrow> string list \<Rightarrow> cycle_search \<Rightarrow> cycle_search" where
  "consider_cycle sub roots window min_xlm node_cycle st =
     (if length node_cycle < 2 \<or> \<not> touches_roots roots node_cycle then st
      else case select_timed_cycle_edges sub node_cycle window of
        None \<Rightarrow> st
      | Some selected \<Rightarrow>
          if least_amount selected < min_xlm then st
          else if (set node_cycle, length node_cycle) \<in> set (snd st) then st
          else (fst st @ [describe_cycle node_cycle selected], snd st @ [(set node_cycle, length node_cycle)]))"

definition search_component ::
  "cycles_lib \<Rightarrow> pay_graph \<Rightarrow> string set option \<Rightarrow> int \<Rightarrow> real \<Rightarrow> real \<Rightarrow> int \<Rightarrow> string list
    \<Rightarrow> cycle_search \<Rightarrow> cycle_search" where
  "search_component cycles graph roots max_len window min_xlm max_size component st =
     (if length component < 2 \<or> \<not> touches_roots roots component \<or> max_size < int (length component) then st
      else fold (consider_cycle (subgraph graph component) roots window min_xlm)
             (cycles (subgraph graph component) (nat max_len)) st)"

definition detect_path_payment_cycles ::
  "sccs_lib \<Rightarrow> cycles_lib \<Rightarrow> pay_graph \<Rightarrow> string set option \<Rightarrow> int \<Rightarrow> real \<Rightarrow> real \<Rightarrow> int
    \<Rightarrow> cycle_error + pay_cycle list" where
  "detect_path_payment_cycles sccs cycles graph roots max_len window min_xlm max_size =
     (if max_len < 2 then Inl Bad_Cycle_Length
      else Inr (sort_key (\<lambda>c. - pc_cycle_value_xlm c)
        (fst (fold (search_component cycles graph roots max_len window min_xlm max_size) (sccs graph) ([], [])))))"

definition detect_cycles_from_payments ::
  "sccs_lib \<Rightarrow> cycles_lib \<Rightarrow> path_payment list \<Rightarrow> string set option \<Rightarrow> int \<Rightarrow> real \<Rightarrow> real \<Rightarrow> int
    \<Rightarrow> cycle_error + pay_cycle list" where
  "detect_cycles_from_payments sccs cycles payments roots max_len window min_xlm max_size =
     (case build_path_payment_graph payments of
        Inl e \<Rightarrow> Inl e
      | Inr graph \<Rightarrow> detect_path_payment_cycles sccs cycles graph roots max_len window min_xlm max_size)"

record cycle_features =
  cf_count :: real
  cf_xlm_volume :: real
  cf_max_cycle_length :: real
  cf_asset_diversity :: real

definition zero_features :: cycle_features where
  "zero_features = \<lparr>cf_count = 0, cf_xlm_volume = 0, cf_max_cycle_length = 0, cf_asset_diversity = 0\<rparr>"

definition path_cycle_features :: "pay_cycle list option \<Rightarrow> string \<Rightarrow> cycle_features" where
  "path_cycle_features cycles account =
     (case cycles of
        None \<Rightarrow> zero_features
      | Some cs \<Rightarrow>
          (let own = filter (\<lambda>c. account \<in> set (pc_accounts c)) cs
           in if own = [] then zero_features
              else \<lparr>cf_count = real (length own),
                    cf_xlm_volume = sum_list (map pc_cycle_value_xlm own),
                    cf_max_cycle_length = real (Max (set (map pc_cycle_length own))),
                    cf_asset_diversity =
                      real (length (remdups (filter (\<lambda>a. a \<noteq> []) (concat (map pc_cycle_path own)))))\<rparr>))"

record cycle_alert =
  ca_alert_type :: string
  ca_wallet :: string
  ca_asset_pair :: string
  ca_detail :: pay_cycle

definition alert_pair :: "string list \<Rightarrow> string" where
  "alert_pair path = (if 2 \<le> length path then hd path @ ''/'' @ last path else ''UNKNOWN'')"

definition path_payment_cycles_to_alerts :: "pay_cycle list \<Rightarrow> cycle_alert list" where
  "path_payment_cycles_to_alerts cycles =
     map (\<lambda>c. \<lparr>ca_alert_type = ''PATH_PAYMENT_CYCLE'', ca_wallet = hd (pc_accounts c),
               ca_asset_pair = alert_pair (pc_cycle_path c), ca_detail = c\<rparr>)
       (filter (\<lambda>c. pc_accounts c \<noteq> []) cycles)"

section \<open>The sweep finds the tightest choice\<close>

text \<open>
  A choice \<open>q\<close> names one entry of each list; its spread is the distance of its latest and its
  earliest time. The loop keeps its pointers below every choice it has not yet beaten.
\<close>

definition at_choice :: "(real \<times> hop) list list \<Rightarrow> nat list \<Rightarrow> nat \<Rightarrow> real" where
  "at_choice timed q i = fst (timed ! i ! (q ! i))"

definition valid_choice :: "(real \<times> hop) list list \<Rightarrow> nat list \<Rightarrow> bool" where
  "valid_choice timed q \<longleftrightarrow> length q = length timed \<and> (\<forall>i<length timed. q ! i < length (timed ! i))"

definition spread :: "(real \<times> hop) list list \<Rightarrow> nat list \<Rightarrow> real" where
  "spread timed q =
     Max (at_choice timed q ` {..<length timed}) - Min (at_choice timed q ` {..<length timed})"

definition sweepable :: "(real \<times> hop) list list \<Rightarrow> bool" where
  "sweepable timed \<longleftrightarrow> timed \<noteq> [] \<and> (\<forall>lst\<in>set timed. lst \<noteq> [] \<and> sorted (map fst lst))"

definition beaten :: "(real \<times> hop) list list \<Rightarrow> sweep \<Rightarrow> nat list \<Rightarrow> bool" where
  "beaten timed s q \<longleftrightarrow> (\<exists>b. sw_best_range s = Some b \<and> b \<le> spread timed q)"

definition sweep_inv :: "(real \<times> hop) list list \<Rightarrow> sweep \<Rightarrow> bool" where
  "sweep_inv timed s \<longleftrightarrow>
     valid_choice timed (sw_pointers s) \<and>
     sorted (sw_heap s) \<and> distinct (sw_heap s) \<and>
     set (sw_heap s) = (\<lambda>i. (at_choice timed (sw_pointers s) i, i)) ` {..<length timed} \<and>
     sw_max s = Max (at_choice timed (sw_pointers s) ` {..<length timed}) \<and>
     (\<forall>b. sw_best_range s = Some b \<longrightarrow>
        valid_choice timed (sw_best_choice s) \<and> b = spread timed (sw_best_choice s)) \<and>
     (\<forall>q. valid_choice timed q \<longrightarrow> (\<forall>i<length timed. sw_pointers s ! i \<le> q ! i) \<or> beaten timed s q)"

lemma at_choice_mono:
  assumes "sweepable timed" "valid_choice timed q" "i < length timed" "p ! i \<le> q ! i"
  shows "at_choice timed p i \<le> at_choice timed q i"
proof -
  have "sorted (map fst (timed ! i))" "q ! i < length (timed ! i)"
    using assms by (auto simp: sweepable_def valid_choice_def)
  then show ?thesis using assms(4) sorted_nth_mono [of "map fst (timed ! i)" "p ! i" "q ! i"]
    by (simp add: at_choice_def)
qed

lemma init_sweep_inv:
  assumes "sweepable timed"
  shows "sweep_inv timed (init_sweep timed)"
proof -
  let ?z = "replicate (length timed) 0"
  have at0: "at_choice timed ?z i = fst (timed ! i ! 0)" if "i < length timed" for i
    using that by (simp add: at_choice_def)
  have v: "valid_choice timed ?z" using assms by (auto simp: valid_choice_def sweepable_def)
  have "set (map (\<lambda>lst. fst (lst ! 0)) timed) = at_choice timed ?z ` {..<length timed}"
    by (force simp: at0 in_set_conv_nth image_iff)
  moreover have "(\<lambda>i. (fst (timed ! i ! 0), i)) ` {0..<length timed} =
      (\<lambda>i. (at_choice timed ?z i, i)) ` {..<length timed}"
    by (intro image_cong) (auto simp: at0)
  ultimately show ?thesis using v by (simp add: sweep_inv_def init_sweep_def distinct_map inj_on_def)
qed

lemma heap_least:
  assumes "sweep_inv timed s" "sw_heap s = (m, li) # rest"
  shows "li < length timed" "m = at_choice timed (sw_pointers s) li"
    "m = Min (at_choice timed (sw_pointers s) ` {..<length timed})"
    "set rest = (\<lambda>i. (at_choice timed (sw_pointers s) i, i)) ` ({..<length timed} - {li})"
proof -
  let ?at = "at_choice timed (sw_pointers s)"
  have heap: "insert (m, li) (set rest) = (\<lambda>i. (?at i, i)) ` {..<length timed}" "(m, li) \<notin> set rest"
    "\<forall>e\<in>set rest. (m, li) \<le> e"
    using assms by (auto simp: sweep_inv_def)
  from heap(1) show li: "li < length timed" and m: "m = ?at li" by (auto simp: set_eq_iff)
  have "m \<le> ?at i" if "i < length timed" for i
  proof -
    have "(?at i, i) \<in> insert (m, li) (set rest)" using that by (simp add: heap(1))
    then show ?thesis using heap(3) by (fastforce simp: less_eq_prod_def)
  qed
  then show "m = Min (?at ` {..<length timed})" using li m by (intro Min_eqI [symmetric]) auto
  have "set rest = (\<lambda>i. (?at i, i)) ` {..<length timed} - {(m, li)}" using heap by auto
  also have "\<dots> = (\<lambda>i. (?at i, i)) ` ({..<length timed} - {li})" using m by auto
  finally show "set rest = (\<lambda>i. (?at i, i)) ` ({..<length timed} - {li})" .
qed

lemma note_range_inv:
  assumes "sweep_inv timed s" "sw_heap s = (m, li) # rest"
  shows "sweep_inv timed (note_range m s)"
    and "\<exists>b. sw_best_range (note_range m s) = Some b \<and> b \<le> spread timed (sw_pointers s)"
proof -
  have sp: "sw_max s - m = spread timed (sw_pointers s)"
    using assms heap_least(3) [OF assms] by (simp add: sweep_inv_def spread_def)
  show "\<exists>b. sw_best_range (note_range m s) = Some b \<and> b \<le> spread timed (sw_pointers s)"
    by (auto simp: note_range_def sp split: option.splits)
  have better: "beaten timed (note_range m s) q" if "beaten timed s q" for q
    using that by (auto simp: beaten_def note_range_def)
  show "sweep_inv timed (note_range m s)"
  proof (cases "note_range m s = s")
    case False
    then have "note_range m s = s\<lparr>sw_best_range := Some (spread timed (sw_pointers s)), sw_best_choice := sw_pointers s\<rparr>"
      by (auto simp: note_range_def sp)
    then show ?thesis using assms(1) better unfolding sweep_inv_def by auto
  qed (simp add: assms(1))
qed

text \<open>A choice that uses the current entry of the earliest list is no tighter than the pointers.\<close>

lemma spread_at_least:
  assumes "sweepable timed" "sweep_inv timed s" "sw_heap s = (m, li) # rest"
    and "valid_choice timed q" "\<forall>i<length timed. sw_pointers s ! i \<le> q ! i" "q ! li = sw_pointers s ! li"
  shows "spread timed (sw_pointers s) \<le> spread timed q"
proof -
  let ?p = "sw_pointers s" and ?I = "{..<length timed}"
  note least = heap_least [OF assms(2,3)]
  have ne: "?I \<noteq> {}" using least(1) by auto
  have mono: "at_choice timed ?p i \<le> at_choice timed q i" if "i \<in> ?I" for i
    using that assms(5) by (auto intro: at_choice_mono [OF assms(1,4)])
  have "Max (at_choice timed ?p ` ?I) \<le> Max (at_choice timed q ` ?I)"
    using ne mono by (auto intro!: Max.boundedI intro: order_trans [OF _ Max_ge])
  moreover have "Min (at_choice timed q ` ?I) \<le> at_choice timed q li"
    using least(1) by (intro Min_le) auto
  moreover have "at_choice timed q li = Min (at_choice timed ?p ` ?I)"
    using least(2,3) assms(6) by (simp add: at_choice_def)
  ultimately show ?thesis by (simp add: spread_def)
qed

lemma sweep_advance_inv:
  assumes tm: "sweepable timed" and inv: "sweep_inv timed s" and heap: "sw_heap s = (m, li) # rest"
    and nxt: "sw_pointers s ! li + 1 < length (timed ! li)"
    and best: "sw_best_range s = Some b" "b \<le> spread timed (sw_pointers s)"
  shows "sweep_inv timed (advance timed li rest s)"
proof -
  let ?p = "sw_pointers s" and ?I = "{..<length timed}"
  let ?p' = "?p[li := Suc (?p ! li)]" and ?t = "fst (timed ! li ! Suc (?p ! li))"
  note least = heap_least [OF inv heap]
  have lp: "length ?p = length timed" using inv by (simp add: sweep_inv_def valid_choice_def)
  have at': "at_choice timed ?p' i = (if i = li then ?t else at_choice timed ?p i)" for i
    using least(1) lp by (simp add: at_choice_def nth_list_update)
  have v': "valid_choice timed ?p'"
    using inv nxt lp least(1) by (auto simp: sweep_inv_def valid_choice_def nth_list_update)
  have set': "insert (?t, li) (set rest) = (\<lambda>i. (at_choice timed ?p' i, i)) ` ?I"
    unfolding least(4) using least(1) by (auto simp: at' image_iff)
  have fresh: "(?t, li) \<notin> set rest" by (auto simp: least(4))
  have img: "at_choice timed ?p' ` ?I = insert ?t (at_choice timed ?p ` (?I - {li}))"
    using least(1) by (auto simp: at' image_iff)
  have up: "at_choice timed ?p li \<le> ?t"
    using at_choice_mono [OF tm v' least(1), of ?p] least(1) lp by (simp add: at')
  have "max (Max (at_choice timed ?p ` ?I)) ?t = Max (insert ?t (at_choice timed ?p ` ?I))"
    using least(1) by (subst Max_insert) (auto simp: max.commute)
  also have "insert ?t (at_choice timed ?p ` ?I) = insert (at_choice timed ?p li) (at_choice timed ?p' ` ?I)"
    unfolding img using least(1) by auto
  also have "Max \<dots> = Max (at_choice timed ?p' ` ?I)"
    using least(1) up by (subst Max_insert) (auto simp: at' intro!: max_absorb2 Max_ge_iff [THEN iffD2] bexI [of _ li])
  finally have mx: "max (Max (at_choice timed ?p ` ?I)) ?t = Max (at_choice timed ?p' ` ?I)" .
  have opt: "(\<forall>i<length timed. ?p' ! i \<le> q ! i) \<or> beaten timed s q" if q: "valid_choice timed q" for q
  proof (cases "(\<forall>i<length timed. ?p ! i \<le> q ! i) \<and> \<not> beaten timed s q")
    case True
    have "q ! li \<noteq> ?p ! li"
    proof
      assume "q ! li = ?p ! li"
      then have "spread timed ?p \<le> spread timed q" using True by (intro spread_at_least [OF tm inv heap q]) auto
      then have "beaten timed s q" using best by (auto simp: beaten_def)
      then show False using True by simp
    qed
    then have "Suc (?p ! li) \<le> q ! li" using True least(1) by (metis Suc_leI le_neq_implies_less)
    then show ?thesis using True lp least(1) by (auto simp: nth_list_update)
  next
    case False
    then show ?thesis using inv q by (auto simp: sweep_inv_def)
  qed
  have "sorted rest" "distinct rest" using inv heap by (simp_all add: sweep_inv_def)
  then have h': "sorted (insort (?t, li) rest)" "distinct (insort (?t, li) rest)"
    "set (insort (?t, li) rest) = (\<lambda>i. (at_choice timed ?p' i, i)) ` ?I"
    using fresh set' by (simp_all add: sorted_insort distinct_insort set_insort_key)
  show ?thesis
    using inv v' h' mx opt unfolding sweep_inv_def
    by (simp add: advance_def Let_def beaten_def)
qed

lemma sweep_loop_finds_tightest:
  assumes "sweepable timed" "sweep_inv timed s"
  shows "\<exists>s' b. sweep_loop timed s = Some s' \<and> sw_best_range s' = Some b \<and>
    valid_choice timed (sw_best_choice s') \<and> b = spread timed (sw_best_choice s') \<and>
    (\<forall>q. valid_choice timed q \<longrightarrow> b \<le> spread timed q)"
  using assms
proof (induction timed s rule: sweep_loop.induct)
  case (1 timed s)
  have "0 < length timed" using 1(2) by (simp add: sweepable_def)
  then have "set (sw_heap s) \<noteq> {}" using 1(3) by (auto simp: sweep_inv_def)
  then obtain m li rest where heap: "sw_heap s = (m, li) # rest" by (cases "sw_heap s") auto
  note least = heap_least [OF 1(3) heap]
  let ?s = "note_range m s"
  have lp: "length (sw_pointers s) = length timed" and lt: "sw_pointers s ! li < length (timed ! li)"
    using 1(3) least(1) by (auto simp: sweep_inv_def valid_choice_def)
  have inv: "sweep_inv timed ?s" by (rule note_range_inv(1) [OF 1(3) heap])
  obtain b where b: "sw_best_range ?s = Some b" "b \<le> spread timed (sw_pointers s)"
    using note_range_inv(2) [OF 1(3) heap] by blast
  have p: "sw_pointers ?s = sw_pointers s" "sw_heap ?s = (m, li) # rest"
    by (simp_all add: note_range_def heap)
  show ?case
  proof (cases "sw_pointers s ! li + 1 = length (timed ! li)")
    case True
    have "b \<le> spread timed q" if q: "valid_choice timed q" for q
    proof (cases "\<forall>i<length timed. sw_pointers s ! i \<le> q ! i")
      case le: True
      have "q ! li < length (timed ! li)" using q least(1) by (simp add: valid_choice_def)
      moreover have "sw_pointers s ! li \<le> q ! li" using le least(1) by simp
      ultimately have "q ! li = sw_pointers s ! li" using True by linarith
      then show ?thesis using spread_at_least [OF 1(2,3) heap q le] b(2) by simp
    next
      case False
      then show ?thesis using inv q b(1) p(1) by (auto simp: sweep_inv_def beaten_def)
    qed
    moreover have "sweep_loop timed s = Some ?s"
      using True heap least(1) lp by (simp add: sweep_loop.simps)
    moreover have "valid_choice timed (sw_best_choice ?s)" "b = spread timed (sw_best_choice ?s)"
      using inv b(1) by (simp_all add: sweep_inv_def)
    ultimately show ?thesis using b(1) by blast
  next
    case False
    then have more: "sw_pointers s ! li + 1 < length (timed ! li)" using lt by simp
    have "sweep_inv timed (advance timed li rest ?s)"
      using more b by (intro sweep_advance_inv [OF 1(2) inv p(2)]) (simp_all add: p(1))
    moreover have "sweep_loop timed s = sweep_loop timed (advance timed li rest ?s)"
      using more heap least(1) lp by (subst sweep_loop.simps) simp
    ultimately show ?thesis
      using 1(1) [OF heap refl _ False more 1(2)] least(1) lp by simp
  qed
qed

section \<open>The selection is the tightest one\<close>

text \<open>
  The reference: a pick takes one candidate for every hop of the ring, a timestamped payment
  where the hop has one and its first payment otherwise; the span of a pick is the time
  between its first and its last timestamp.
\<close>

definition hop_timed :: "hop \<Rightarrow> bool" where
  "hop_timed h \<longleftrightarrow> h_timestamp h \<noteq> None"

definition hop_time :: "hop \<Rightarrow> real" where
  "hop_time h = time_of (the (h_timestamp h))"

definition pick_candidates :: "hop list \<Rightarrow> hop list" where
  "pick_candidates hops = (if list_ex hop_timed hops then filter hop_timed hops else take 1 hops)"

definition picks :: "pay_graph \<Rightarrow> (string \<times> string) list \<Rightarrow> hop list \<Rightarrow> bool" where
  "picks graph es ps \<longleftrightarrow> list_all2 (\<lambda>e p. p \<in> set (pick_candidates (edge_hops graph e))) es ps"

definition pick_span :: "hop list \<Rightarrow> real" where
  "pick_span ps = (let ts = map hop_time (filter hop_timed ps) in if ts = [] then 0 else Max (set ts) - Min (set ts))"

definition timed_first :: "hop list \<Rightarrow> hop list" where
  "timed_first ps = filter hop_timed ps @ filter (\<lambda>h. \<not> hop_timed h) ps"

lemma set_timed_hops: "set (timed_hops hops) = (\<lambda>h. (hop_time h, h)) ` set (filter hop_timed hops)"
  by (induction hops)
     (auto simp: timed_hops_def hop_timed_def hop_time_def List.map_filter_simps split: option.splits)

lemma sorted_timed_hops: "sorted (map fst (timed_hops hops))"
  by (simp add: timed_hops_def)

lemma timed_hops_Nil_iff: "timed_hops hops = [] \<longleftrightarrow> \<not> list_ex hop_timed hops"
proof -
  have "timed_hops hops = [] \<longleftrightarrow> set (timed_hops hops) = {}" by simp
  then show ?thesis unfolding set_timed_hops by (auto simp: list_ex_iff filter_empty_conv)
qed

lemma valid_choice_Cons:
  "valid_choice (lst # timed) q \<longleftrightarrow> (\<exists>j q'. q = j # q' \<and> j < length lst \<and> valid_choice timed q')"
  by (cases q) (auto simp: valid_choice_def less_Suc_eq_0_disj)

lemma chosen_Cons [simp]: "chosen (lst # timed) (j # q) = snd (lst ! j) # chosen timed q"
  unfolding chosen_def by (simp only: length_Cons map_upt_Suc) simp

lemma chosen_Nil [simp]: "chosen [] q = []"
  by (simp add: chosen_def)

lemma gather_hops_None: "gather_hops graph es = None \<longleftrightarrow> (\<exists>e\<in>set es. edge_hops graph e = [])"
  by (induction es) (auto simp: Let_def split: list.splits option.splits if_splits)

definition stamped :: "(real \<times> hop) list list \<Rightarrow> bool" where
  "stamped timed \<longleftrightarrow> (\<forall>lst\<in>set timed. \<forall>x\<in>set lst. hop_timed (snd x) \<and> fst x = hop_time (snd x))"

lemma gather_hops_shape:
  "gather_hops graph es = Some (timed, untimed) \<Longrightarrow>
     (\<forall>lst\<in>set timed. lst \<noteq> [] \<and> sorted (map fst lst)) \<and> stamped timed \<and> list_all (\<lambda>h. \<not> hop_timed h) untimed"
proof (induction es arbitrary: timed untimed)
  case (Cons e es)
  from Cons.prems obtain h hs t u where 1: "edge_hops graph e = h # hs" "gather_hops graph es = Some (t, u)"
    by (auto split: list.splits option.splits)
  have 2: "timed_hops (h # hs) = [] \<Longrightarrow> \<not> hop_timed h" by (simp add: timed_hops_Nil_iff)
  from Cons.IH [OF 1(2)] Cons.prems show ?case
    by (auto simp: 1 Let_def stamped_def set_timed_hops sorted_timed_hops 2 split: if_splits)
qed (simp add: stamped_def)

lemma gather_hops_choice:
  assumes "gather_hops graph es = Some (timed, untimed)" "valid_choice timed q"
  shows "\<exists>ps. picks graph es ps \<and> filter hop_timed ps = chosen timed q \<and> filter (\<lambda>h. \<not> hop_timed h) ps = untimed"
  using assms
proof (induction es arbitrary: timed untimed q)
  case (Cons e es)
  from Cons.prems obtain h hs t u where 1: "edge_hops graph e = h # hs" "gather_hops graph es = Some (t, u)"
    by (auto split: list.splits option.splits)
  show ?case
  proof (cases "timed_hops (h # hs) = []")
    case True
    then have "timed = t" "untimed = h # u" "\<not> hop_timed h" "\<not> list_ex hop_timed (h # hs)"
      using Cons.prems(1) 1 by (auto simp: timed_hops_Nil_iff)
    moreover obtain ps where "picks graph es ps" "filter hop_timed ps = chosen t q" "filter (\<lambda>h. \<not> hop_timed h) ps = u"
      using Cons.IH [OF 1(2)] Cons.prems(2) calculation(1) by blast
    ultimately show ?thesis by (intro exI [of _ "h # ps"]) (simp add: picks_def pick_candidates_def 1)
  next
    case False
    then have 2: "timed = timed_hops (h # hs) # t" "untimed = u" "list_ex hop_timed (h # hs)"
      using Cons.prems(1) 1 by (auto simp: Let_def timed_hops_Nil_iff)
    then obtain j q' where q: "q = j # q'" "j < length (timed_hops (h # hs))" "valid_choice t q'"
      using Cons.prems(2) by (auto simp: valid_choice_Cons)
    let ?x = "timed_hops (h # hs) ! j"
    have "?x \<in> set (timed_hops (h # hs))" using q(2) by simp
    then have "snd ?x \<in> set (filter hop_timed (h # hs))" unfolding set_timed_hops by force
    moreover from this have "hop_timed (snd ?x)" by (simp only: set_filter mem_Collect_eq)
    moreover obtain ps where "picks graph es ps" "filter hop_timed ps = chosen t q'" "filter (\<lambda>h. \<not> hop_timed h) ps = u"
      using Cons.IH [OF 1(2) q(3)] by blast
    ultimately show ?thesis using 2 q(1)
      by (intro exI [of _ "snd ?x # ps"]) (auto simp: picks_def pick_candidates_def 1)
  qed
qed (auto simp: picks_def valid_choice_def)

lemma gather_hops_pick:
  assumes "gather_hops graph es = Some (timed, untimed)" "picks graph es ps"
  shows "\<exists>q. valid_choice timed q \<and> filter hop_timed ps = chosen timed q"
  using assms
proof (induction es arbitrary: timed untimed ps)
  case (Cons e es)
  from Cons.prems obtain h hs t u where 1: "edge_hops graph e = h # hs" "gather_hops graph es = Some (t, u)"
    by (auto split: list.splits option.splits)
  from Cons.prems(2) obtain p ps' where ps: "ps = p # ps'" "p \<in> set (pick_candidates (h # hs))" "picks graph es ps'"
    by (auto simp: picks_def list_all2_Cons1 1)
  from Cons.IH [OF 1(2) ps(3)] obtain q where q: "valid_choice t q" "filter hop_timed ps' = chosen t q" by blast
  show ?case
  proof (cases "timed_hops (h # hs) = []")
    case True
    then have "timed = t" "\<not> hop_timed p"
      using Cons.prems(1) 1 ps(2) by (auto simp: timed_hops_Nil_iff pick_candidates_def)
    then show ?thesis using q ps(1) by auto
  next
    case False
    then have 2: "timed = timed_hops (h # hs) # t" "list_ex hop_timed (h # hs)"
      using Cons.prems(1) 1 by (auto simp: Let_def timed_hops_Nil_iff)
    then have p: "p \<in> set (filter hop_timed (h # hs))" using ps(2) by (simp add: pick_candidates_def)
    then have "(hop_time p, p) \<in> set (timed_hops (h # hs))" unfolding set_timed_hops by blast
    then obtain j where j: "j < length (timed_hops (h # hs))" "timed_hops (h # hs) ! j = (hop_time p, p)"
      by (auto simp: in_set_conv_nth)
    have "hop_timed p" using p by (auto split: if_splits)
    then have "filter hop_timed ps = chosen timed (j # q)" using 2(1) q(2) ps(1) j(2) by simp
    moreover have "valid_choice timed (j # q)" using 2(1) q(1) j(1) by (simp add: valid_choice_Cons)
    ultimately show ?thesis by blast
  qed
qed (auto simp: picks_def valid_choice_def)

lemma span_of_choice:
  assumes "stamped timed" "timed \<noteq> []" "valid_choice timed q" "filter hop_timed ps = chosen timed q"
  shows "pick_span ps = spread timed q"
proof -
  have "map hop_time (chosen timed q) = map (at_choice timed q) [0..<length timed]"
    using assms(1,3) by (auto simp: chosen_def at_choice_def stamped_def valid_choice_def dest!: bspec [OF _ nth_mem])
  then have "set (map hop_time (filter hop_timed ps)) = at_choice timed q ` {..<length timed}"
    using assms(4) by (simp add: lessThan_atLeast0)
  moreover have "map hop_time (filter hop_timed ps) \<noteq> []" using assms(2,4) by (simp add: chosen_def)
  ultimately show ?thesis unfolding pick_span_def spread_def Let_def by presburger
qed

lemma select_timed_tightest:
  assumes "0 \<le> window"
  shows "case select_timed_cycle_edges graph cycle window of
      None \<Rightarrow> \<not> (\<exists>ps. picks graph (ring_hops cycle) ps \<and> pick_span ps \<le> window)
    | Some sel \<Rightarrow> \<exists>ps. picks graph (ring_hops cycle) ps \<and> sel = timed_first ps \<and> pick_span ps \<le> window \<and>
        (\<forall>qs. picks graph (ring_hops cycle) qs \<longrightarrow> pick_span ps \<le> pick_span qs)"
proof (cases "gather_hops graph (ring_hops cycle)")
  case None
  then obtain e where e: "e \<in> set (ring_hops cycle)" "edge_hops graph e = []" by (auto simp: gather_hops_None)
  have "\<not> picks graph (ring_hops cycle) ps" for ps
  proof
    assume "picks graph (ring_hops cycle) ps"
    then have "\<exists>p\<in>set ps. p \<in> set (pick_candidates (edge_hops graph e))"
      using e(1) unfolding picks_def list_all2_conv_all_nth by (metis in_set_conv_nth)
    then show False by (simp add: e(2) pick_candidates_def)
  qed
  then show ?thesis using None by (simp add: select_timed_cycle_edges_def)
next
  case (Some g)
  obtain timed untimed where g: "gather_hops graph (ring_hops cycle) = Some (timed, untimed)"
    using Some by (cases g) auto
  note shape = gather_hops_shape [OF g]
  show ?thesis
  proof (cases "timed = []")
    case True
    obtain ps where ps: "picks graph (ring_hops cycle) ps" "filter hop_timed ps = []" "filter (\<lambda>h. \<not> hop_timed h) ps = untimed"
      using gather_hops_choice [OF g, of "[]"] True by (auto simp: valid_choice_def)
    have "pick_span qs = 0" if "picks graph (ring_hops cycle) qs" for qs
      using gather_hops_pick [OF g that] True by (auto simp: pick_span_def)
    moreover have "select_timed_cycle_edges graph cycle window = Some (timed_first ps)"
      using g True ps by (simp add: select_timed_cycle_edges_def timed_first_def)
    ultimately show ?thesis using ps(1) assms by auto
  next
    case False
    then have tm: "sweepable timed" using shape by (simp add: sweepable_def)
    obtain s b where s: "sweep_loop timed (init_sweep timed) = Some s" "sw_best_range s = Some b"
      "valid_choice timed (sw_best_choice s)" "b = spread timed (sw_best_choice s)"
      "\<forall>q. valid_choice timed q \<longrightarrow> b \<le> spread timed q"
      using sweep_loop_finds_tightest [OF tm init_sweep_inv [OF tm]] by blast
    have sel: "select_timed_cycle_edges graph cycle window =
        (if window < b then None else Some (chosen timed (sw_best_choice s) @ untimed))"
      using g False s by (simp add: select_timed_cycle_edges_def)
    have least: "b \<le> pick_span qs" if "picks graph (ring_hops cycle) qs" for qs
      using gather_hops_pick [OF g that] s(5) span_of_choice [OF _ False] shape by metis
    obtain ps where ps: "picks graph (ring_hops cycle) ps" "filter hop_timed ps = chosen timed (sw_best_choice s)"
      "filter (\<lambda>h. \<not> hop_timed h) ps = untimed"
      using gather_hops_choice [OF g s(3)] by blast
    have "pick_span ps = b" using span_of_choice [OF _ False s(3) ps(2)] shape s(4) by simp
    then show ?thesis using sel least ps by (force simp: timed_first_def)
  qed
qed

section \<open>Rings of a graph\<close>

definition strong_component :: "pay_graph \<Rightarrow> string \<Rightarrow> string set" where
  "strong_component g v = {u. (u, v) \<in> (set (dict_keys g))\<^sup>* \<and> (v, u) \<in> (set (dict_keys g))\<^sup>*}"

definition simple_cycle :: "pay_graph \<Rightarrow> string list \<Rightarrow> bool" where
  "simple_cycle g c \<longleftrightarrow> c \<noteq> [] \<and> distinct c \<and> set (ring_hops c) \<subseteq> set (dict_keys g)"

definition nx_sccs_ok :: "sccs_lib \<Rightarrow> bool" where
  "nx_sccs_ok sccs \<longleftrightarrow>
     (\<forall>g. set ` set (sccs g) = strong_component g ` Field (set (dict_keys g)) \<and> (\<forall>c\<in>set (sccs g). distinct c))"

definition nx_cycles_ok :: "cycles_lib \<Rightarrow> bool" where
  "nx_cycles_ok cycles \<longleftrightarrow>
     (\<forall>g k. (\<forall>c\<in>set (cycles g k). simple_cycle g c \<and> length c \<le> k) \<and>
            (\<forall>c. simple_cycle g c \<and> length c \<le> k \<longrightarrow> (\<exists>i. rotate i c \<in> set (cycles g k))))"

lemma dict_get_subgraph:
  "dict_get (subgraph g part) e = (if fst e \<in> set part \<and> snd e \<in> set part then dict_get g e else None)"
  by (induction g) (auto simp: subgraph_def)

lemma keys_subgraph:
  "set (dict_keys (subgraph g part)) = {e \<in> set (dict_keys g). fst e \<in> set part \<and> snd e \<in> set part}"
  by (auto simp: subgraph_def)

lemma set_ring_hops: "set (ring_hops c) = {(c ! i, c ! (Suc i mod length c)) |i. i < length c}"
  by (auto simp: ring_hops_def)

lemma ring_hops_image: "set (ring_hops c) = (\<lambda>i. (c ! i, c ! (Suc i mod length c))) ` {..<length c}"
  by (simp add: ring_hops_def lessThan_atLeast0)

lemma ring_hops_within: "e \<in> set (ring_hops c) \<Longrightarrow> fst e \<in> set c \<and> snd e \<in> set c"
  by (auto simp: set_ring_hops) (metis mod_less_divisor nth_mem gr_implies_not0 neq0_conv)

lemma ring_hops_rotate: "set (ring_hops (rotate i c)) = set (ring_hops c)"
proof (induction i)
  case (Suc i)
  have one: "set (ring_hops (rotate1 d)) = set (ring_hops d)" for d :: "string list"
  proof (cases "d = []")
    case False
    let ?n = "length d"
    have r: "rotate1 d ! j = d ! (Suc j mod ?n)" if "j < ?n" for j using that by (rule nth_rotate1)
    have n: "0 < ?n" using False by simp
    have "set (ring_hops (rotate1 d)) = (\<lambda>i. (d ! i, d ! (Suc i mod ?n))) ` ((\<lambda>j. Suc j mod ?n) ` {..<?n})"
      unfolding ring_hops_image image_image using n by (intro image_cong) (simp_all add: r)
    also have "(\<lambda>j. Suc j mod ?n) ` {..<?n} = {..<?n}"
    proof (rule endo_inj_surj)
      show "inj_on (\<lambda>j. Suc j mod ?n) {..<?n}" using n by (auto simp: inj_on_def mod_Suc split: if_splits)
    qed (use n in auto)
    finally show ?thesis by (simp only: ring_hops_image)
  qed simp
  show ?case using Suc by (simp add: one)
qed simp

lemma ring_reaches:
  assumes "set (ring_hops c) \<subseteq> E" "i < length c" "j < length c"
  shows "(c ! i, c ! j) \<in> E\<^sup>*"
proof -
  have edge: "(c ! k, c ! (Suc k mod length c)) \<in> E" if "k < length c" for k
    using that assms(1) by (auto simp: set_ring_hops)
  have walk: "(c ! i, c ! ((i + k) mod length c)) \<in> E\<^sup>*" for k
  proof (induction k)
    case (Suc k)
    have "(i + k) mod length c < length c" using assms(2) by (cases c) simp_all
    then have "(c ! ((i + k) mod length c), c ! (Suc ((i + k) mod length c) mod length c)) \<in> E" by (rule edge)
    with Suc show ?case by (simp add: mod_Suc_eq rtrancl.rtrancl_into_rtrancl)
  qed (use assms(2) in simp)
  show ?thesis using walk [of "j + (length c - i)"] assms(2,3) by (simp add: mod_simps)
qed

lemma ring_in_component:
  assumes "simple_cycle g c"
  shows "set c \<subseteq> strong_component g (hd c)" "hd c \<in> Field (set (dict_keys g))"
proof -
  have c: "c \<noteq> []" "set (ring_hops c) \<subseteq> set (dict_keys g)" using assms by (simp_all add: simple_cycle_def)
  show "set c \<subseteq> strong_component g (hd c)"
    using ring_reaches [OF c(2)] c(1) by (auto simp: strong_component_def in_set_conv_nth hd_conv_nth)
  have "(c ! 0, c ! (Suc 0 mod length c)) \<in> set (ring_hops c)" using c(1) by (auto simp: set_ring_hops)
  then show "hd c \<in> Field (set (dict_keys g))" using c by (auto simp: hd_conv_nth Field_def)
qed

lemma simple_cycle_subgraph:
  assumes "simple_cycle (subgraph g part) c"
  shows "simple_cycle g c \<and> set c \<subseteq> set part"
proof -
  have "c ! i \<in> set part" if "i < length c" for i
  proof -
    have "(c ! i, c ! (Suc i mod length c)) \<in> set (ring_hops c)" using that by (auto simp: ring_hops_image)
    then have "(c ! i, c ! (Suc i mod length c)) \<in> set (dict_keys (subgraph g part))"
      using assms unfolding simple_cycle_def by blast
    then show ?thesis unfolding keys_subgraph by simp
  qed
  then have "set c \<subseteq> set part" by (auto simp: in_set_conv_nth)
  then show ?thesis using assms unfolding simple_cycle_def keys_subgraph by blast
qed

lemma edge_hops_subgraph:
  "set c \<subseteq> set part \<Longrightarrow> e \<in> set (ring_hops c) \<Longrightarrow> edge_hops (subgraph g part) e = edge_hops g e"
  using ring_hops_within [of e c] by (auto simp: edge_hops_def dict_get_subgraph)

lemma picks_cong: "(\<And>e. e \<in> set es \<Longrightarrow> edge_hops g e = edge_hops g' e) \<Longrightarrow> picks g es ps \<longleftrightarrow> picks g' es ps"
  unfolding picks_def list_all2_conv_all_nth by auto

section \<open>What is reported\<close>

definition accepts :: "pay_graph \<Rightarrow> string set option \<Rightarrow> real \<Rightarrow> real \<Rightarrow> string list \<Rightarrow> hop list \<Rightarrow> bool" where
  "accepts g roots window min_xlm c sel \<longleftrightarrow>
     2 \<le> length c \<and> touches_roots roots c \<and> select_timed_cycle_edges g c window = Some sel \<and>
     min_xlm \<le> least_amount sel"

definition signature :: "pay_cycle \<Rightarrow> string set \<times> nat" where
  "signature r = (set (pc_accounts r), pc_cycle_length r)"

definition examined :: "cycles_lib \<Rightarrow> pay_graph \<Rightarrow> string set option \<Rightarrow> int \<Rightarrow> int \<Rightarrow> string list \<Rightarrow> string list list" where
  "examined cycles g roots max_len max_size part =
     (if length part < 2 \<or> \<not> touches_roots roots part \<or> max_size < int (length part) then []
      else cycles (subgraph g part) (nat max_len))"

lemma examined_rings:
  assumes "nx_cycles_ok cycles" "c \<in> set (examined cycles g roots max_len max_size part)"
  shows "simple_cycle g c \<and> length c \<le> nat max_len"
proof -
  have "c \<in> set (cycles (subgraph g part) (nat max_len))"
    using assms(2) by (simp add: examined_def split: if_splits)
  then have "simple_cycle (subgraph g part) c \<and> length c \<le> nat max_len"
    using assms(1) unfolding nx_cycles_ok_def by blast
  then show ?thesis using simple_cycle_subgraph by blast
qed

lemma signature_describe [simp]: "signature (describe_cycle c sel) = (set c, length c)"
  by (simp add: signature_def describe_cycle_def Let_def)

lemma select_cong:
  assumes "\<And>e. e \<in> set (ring_hops c) \<Longrightarrow> edge_hops g e = edge_hops g' e"
  shows "select_timed_cycle_edges g c window = select_timed_cycle_edges g' c window"
proof -
  have "gather_hops g es = gather_hops g' es" if "set es \<subseteq> set (ring_hops c)" for es
    using that by (induction es) (auto simp: assms split: list.split)
  then show ?thesis by (simp add: select_timed_cycle_edges_def)
qed

lemma consider_subgraph:
  "set c \<subseteq> set part \<Longrightarrow> consider_cycle (subgraph g part) roots window min_xlm c = consider_cycle g roots window min_xlm c"
  using select_cong [of c "subgraph g part" g window] edge_hops_subgraph [of c part]
  by (auto simp: consider_cycle_def fun_eq_iff)

lemma consider_cycle_cases:
  "(\<exists>sel. accepts g roots window min_xlm c sel \<and> (set c, length c) \<notin> set seen \<and>
      consider_cycle g roots window min_xlm c (out, seen) =
        (out @ [describe_cycle c sel], seen @ [(set c, length c)])) \<or>
   (\<forall>sel. accepts g roots window min_xlm c sel \<longrightarrow> (set c, length c) \<in> set seen) \<and>
     consider_cycle g roots window min_xlm c (out, seen) = (out, seen)"
  by (cases "select_timed_cycle_edges g c window") (auto simp: consider_cycle_def accepts_def)

lemma consider_all:
  assumes "fold (consider_cycle g roots window min_xlm) cs (out, map signature out) = (out', seen')"
    and "distinct (map signature out)"
  shows "seen' = map signature out' \<and> distinct (map signature out') \<and> set out \<subseteq> set out' \<and>
    (\<forall>r\<in>set out'. r \<in> set out \<or> (\<exists>c\<in>set cs. \<exists>sel. accepts g roots window min_xlm c sel \<and> r = describe_cycle c sel)) \<and>
    (\<forall>c\<in>set cs. \<forall>sel. accepts g roots window min_xlm c sel \<longrightarrow> (set c, length c) \<in> signature ` set out')"
  using assms
proof (induction cs arbitrary: out)
  case (Cons c cs)
  from consider_cycle_cases [of g roots window min_xlm c "map signature out" out]
  show ?case
  proof (elim disjE exE conjE)
    fix sel
    assume a: "accepts g roots window min_xlm c sel" "(set c, length c) \<notin> set (map signature out)"
      "consider_cycle g roots window min_xlm c (out, map signature out) =
         (out @ [describe_cycle c sel], map signature out @ [(set c, length c)])"
    let ?out = "out @ [describe_cycle c sel]"
    have "fold (consider_cycle g roots window min_xlm) cs (?out, map signature ?out) = (out', seen')"
      using Cons.prems(1) a(3) by simp
    moreover have "distinct (map signature ?out)" using Cons.prems(2) a(2) by simp
    ultimately have ih: "seen' = map signature out' \<and> distinct (map signature out') \<and> set ?out \<subseteq> set out' \<and>
      (\<forall>r\<in>set out'. r \<in> set ?out \<or> (\<exists>c\<in>set cs. \<exists>sel. accepts g roots window min_xlm c sel \<and> r = describe_cycle c sel)) \<and>
      (\<forall>c\<in>set cs. \<forall>sel. accepts g roots window min_xlm c sel \<longrightarrow> (set c, length c) \<in> signature ` set out')"
      by (rule Cons.IH)
    moreover have "(set c, length c) \<in> signature ` set out'"
      using ih by (intro image_eqI [of _ _ "describe_cycle c sel"]) auto
    ultimately show ?thesis using a(1) by auto
  next
    assume a: "\<forall>sel. accepts g roots window min_xlm c sel \<longrightarrow> (set c, length c) \<in> set (map signature out)"
      "consider_cycle g roots window min_xlm c (out, map signature out) = (out, map signature out)"
    then have "fold (consider_cycle g roots window min_xlm) cs (out, map signature out) = (out', seen')"
      using Cons.prems(1) by simp
    note ih = Cons.IH [OF this Cons.prems(2)]
    then show ?thesis using a(1) by auto
  qed
qed auto

lemma search_examines:
  assumes "nx_cycles_ok cycles"
  shows "fold (search_component cycles g roots max_len window min_xlm max_size) parts st =
    fold (consider_cycle g roots window min_xlm) (concat (map (examined cycles g roots max_len max_size) parts)) st"
proof (induction parts arbitrary: st)
  case (Cons part parts)
  have "consider_cycle (subgraph g part) roots window min_xlm c = consider_cycle g roots window min_xlm c"
    if "c \<in> set (cycles (subgraph g part) (nat max_len))" for c
    using that assms simple_cycle_subgraph [of g part c] by (intro consider_subgraph) (simp add: nx_cycles_ok_def)
  then have "fold (consider_cycle (subgraph g part) roots window min_xlm) (cycles (subgraph g part) (nat max_len)) st =
      fold (consider_cycle g roots window min_xlm) (cycles (subgraph g part) (nat max_len)) st"
    by (intro fold_cong) auto
  then show ?case using Cons by (simp add: search_component_def examined_def)
qed simp

lemma detect_reports:
  assumes "nx_cycles_ok cycles" "2 \<le> max_len"
  obtains rs where "detect_path_payment_cycles sccs cycles g roots max_len window min_xlm max_size = Inr rs"
    "sorted (map (\<lambda>r. - pc_cycle_value_xlm r) rs)" "distinct (map signature rs)"
    "\<forall>r\<in>set rs. \<exists>part\<in>set (sccs g). \<exists>c\<in>set (examined cycles g roots max_len max_size part). \<exists>sel.
        accepts g roots window min_xlm c sel \<and> r = describe_cycle c sel"
    "\<forall>part\<in>set (sccs g). \<forall>c\<in>set (examined cycles g roots max_len max_size part). \<forall>sel.
        accepts g roots window min_xlm c sel \<longrightarrow> (set c, length c) \<in> signature ` set rs"
proof -
  let ?cs = "concat (map (examined cycles g roots max_len max_size) (sccs g))"
  obtain out seen where f: "fold (consider_cycle g roots window min_xlm) ?cs ([], map signature []) = (out, seen)"
    by (cases "fold (consider_cycle g roots window min_xlm) ?cs ([], map signature [])") auto
  let ?rs = "sort_key (\<lambda>c. - pc_cycle_value_xlm c) out"
  have "detect_path_payment_cycles sccs cycles g roots max_len window min_xlm max_size = Inr ?rs"
    using f assms by (simp add: detect_path_payment_cycles_def search_examines)
  moreover have "distinct (map signature ?rs)"
    using consider_all [OF f] mset_map [of signature ?rs] mset_map [of signature out]
    by (metis distinct_map_filter distinct.simps(1) list.map(1) mset_eq_imp_distinct_iff mset_sort)
  ultimately show thesis using consider_all [OF f] by (intro that [of ?rs]) auto
qed

lemma set_timed_first [simp]: "set (timed_first ps) = set ps"
  by (auto simp: timed_first_def)

lemma least_amount_cong: "set xs = set ys \<Longrightarrow> least_amount xs = least_amount ys"
  unfolding least_amount_def set_map by (metis set_empty)

lemma length_ring_hops [simp]: "length (ring_hops c) = length c"
  by (simp add: ring_hops_def)

lemma picks_length: "picks g es ps \<Longrightarrow> length ps = length es"
  by (auto simp: picks_def dest: list_all2_lengthD)

lemma set_pick_candidates: "set (pick_candidates hops) \<subseteq> set hops"
  by (auto simp: pick_candidates_def dest: in_set_takeD)

lemma picks_amounts:
  assumes "picks g es ps" "\<forall>e\<in>set es. \<forall>h\<in>set (edge_hops g e). lo \<le> h_amount_xlm h" "es \<noteq> []"
  shows "lo \<le> least_amount ps"
proof -
  have "lo \<le> h_amount_xlm p" if p: "p \<in> set ps" for p
  proof -
    obtain i where "i < length ps" "p = ps ! i" using p by (auto simp: in_set_conv_nth)
    then have "es ! i \<in> set es" "p \<in> set (pick_candidates (edge_hops g (es ! i)))"
      using assms(1) by (auto simp: picks_def list_all2_conv_all_nth)
    then show ?thesis using assms(2) set_pick_candidates by blast
  qed
  moreover have "ps \<noteq> []" using picks_length [OF assms(1)] assms(3) by auto
  ultimately show ?thesis by (simp add: least_amount_def)
qed

lemma span_cong:
  assumes "set xs = set ys"
  shows "pick_span xs = pick_span ys"
proof -
  have "filter hop_timed xs = [] \<longleftrightarrow> filter hop_timed ys = []" using assms by (simp add: filter_empty_conv)
  then show ?thesis using assms by (simp add: pick_span_def Let_def)
qed

text \<open>A ring that has a pick within the window has one however it is rotated.\<close>

lemma picks_rotate:
  assumes "distinct c" "picks g (ring_hops c) ps" "pick_span ps \<le> window"
  shows "\<exists>qs. picks g (ring_hops (rotate i c)) qs \<and> pick_span qs \<le> window"
proof -
  have dist: "distinct (ring_hops c)"
    using assms(1) by (auto simp: ring_hops_def distinct_map inj_on_def nth_eq_iff_index_eq)
  have len: "length ps = length (ring_hops c)" by (rule picks_length [OF assms(2)])
  define f where "f e = the (map_of (zip (ring_hops c) ps) e)" for e
  have f: "f (ring_hops c ! k) = ps ! k" if "k < length c" for k
    using that dist len by (simp add: f_def map_of_zip_nth)
  have psf: "ps = map f (ring_hops c)" using f len by (intro nth_equalityI) simp_all
  have cand: "f e \<in> set (pick_candidates (edge_hops g e))" if "e \<in> set (ring_hops c)" for e
    using that assms(2) f by (auto simp: picks_def list_all2_conv_all_nth in_set_conv_nth)
  let ?qs = "map f (ring_hops (rotate i c))"
  have "picks g (ring_hops (rotate i c)) ?qs"
    using cand unfolding picks_def list_all2_map2 ring_hops_rotate [of i c, symmetric]
    by (simp add: list_all2_same)
  moreover have "set ?qs = set ps" using psf ring_hops_rotate [of i c] by simp
  then have "pick_span ?qs = pick_span ps" by (rule span_cong)
  ultimately show ?thesis using assms(3) by auto
qed

lemma select_within_window:
  assumes "0 \<le> window" "distinct c" "picks g (ring_hops c) ps" "pick_span ps \<le> window"
  shows "\<exists>sel qs. select_timed_cycle_edges g (rotate i c) window = Some sel \<and>
    picks g (ring_hops (rotate i c)) qs \<and> sel = timed_first qs"
proof -
  obtain qs where "picks g (ring_hops (rotate i c)) qs" "pick_span qs \<le> window"
    using picks_rotate [OF assms(2-4)] by blast
  then show ?thesis using select_timed_tightest [OF assms(1), of g "rotate i c"]
    by (auto split: option.splits)
qed

lemma accepts_rotated:
  assumes "0 \<le> window" "simple_cycle g c" "2 \<le> length c" "touches_roots roots c"
    and "picks g (ring_hops c) ps" "pick_span ps \<le> window"
    and "\<forall>e\<in>set (ring_hops c). \<forall>h\<in>set (edge_hops g e). min_xlm \<le> h_amount_xlm h"
  shows "\<exists>sel. accepts g roots window min_xlm (rotate i c) sel"
proof -
  have "distinct c" "c \<noteq> []" using assms(2) by (simp_all add: simple_cycle_def)
  then obtain sel qs where sel: "select_timed_cycle_edges g (rotate i c) window = Some sel"
    "picks g (ring_hops (rotate i c)) qs" "sel = timed_first qs"
    using select_within_window [OF assms(1) _ assms(5,6)] by blast
  have "ring_hops (rotate i c) \<noteq> []" using \<open>c \<noteq> []\<close> by (auto simp: ring_hops_def)
  then have "min_xlm \<le> least_amount qs"
    using sel(2) assms(7) by (intro picks_amounts) (simp_all add: ring_hops_rotate)
  moreover have "least_amount sel = least_amount qs" by (rule least_amount_cong) (simp add: sel(3))
  ultimately show ?thesis using assms(3,4) sel(1) by (auto simp: accepts_def touches_roots_def split: option.splits)
qed

lemma component_examined:
  assumes "nx_sccs_ok sccs" "nx_cycles_ok cycles" "simple_cycle g c" "2 \<le> length c"
    and "int (length c) \<le> max_len" "touches_roots roots c" "int (card (strong_component g (hd c))) \<le> max_size"
  obtains part i where "part \<in> set (sccs g)" "rotate i c \<in> set (examined cycles g roots max_len max_size part)"
proof -
  have "strong_component g (hd c) \<in> set ` set (sccs g)"
    using assms(1) ring_in_component(2) [OF assms(3)] by (auto simp: nx_sccs_ok_def)
  then obtain part where part: "part \<in> set (sccs g)" "set part = strong_component g (hd c)" by auto
  have sub: "set c \<subseteq> set part" using ring_in_component(1) [OF assms(3)] part(2) by simp
  have "distinct part" using assms(1) part(1) by (simp add: nx_sccs_ok_def)
  then have len: "length part = card (strong_component g (hd c))" using part(2) distinct_card by fastforce
  have "card (set c) = length c" using assms(3) by (simp add: simple_cycle_def distinct_card)
  then have "2 \<le> length part" using card_mono [OF _ sub] card_length [of part] assms(4) by simp
  moreover have "touches_roots roots part" using assms(6) sub by (auto simp: touches_roots_def split: option.splits)
  moreover have len_c: "length c \<le> nat max_len" using assms(5) by linarith
  moreover have "simple_cycle (subgraph g part) c"
    unfolding simple_cycle_def keys_subgraph
  proof (intro conjI subsetI CollectI)
    fix e assume e: "e \<in> set (ring_hops c)"
    then show "e \<in> set (dict_keys g)" using assms(3) by (auto simp: simple_cycle_def)
    show "fst e \<in> set part" "snd e \<in> set part" using ring_hops_within [OF e] sub by auto
  qed (use assms(3) in \<open>simp_all add: simple_cycle_def\<close>)
  then obtain i where "rotate i c \<in> set (cycles (subgraph g part) (nat max_len))"
    using assms(2) len_c unfolding nx_cycles_ok_def by blast
  ultimately show thesis using that [OF part(1), of i] assms(7) len by (simp add: examined_def)
qed

lemma reported_ring:
  assumes "nx_cycles_ok cycles" "0 \<le> window" "2 \<le> max_len"
    and c: "c \<in> set (examined cycles g roots max_len max_size part)" "accepts g roots window min_xlm c sel"
      "r = describe_cycle c sel"
  shows "simple_cycle g (pc_accounts r) \<and> pc_cycle_length r = length (pc_accounts r) \<and>
       2 \<le> pc_cycle_length r \<and> int (pc_cycle_length r) \<le> max_len \<and> touches_roots roots (pc_accounts r) \<and>
       min_xlm \<le> pc_cycle_value_xlm r \<and>
       (\<exists>ps. picks g (ring_hops (pc_accounts r)) ps \<and> pick_span ps \<le> window \<and> pc_cycle_value_xlm r = least_amount ps)"
proof -
  have "simple_cycle g c" "length c \<le> nat max_len" using examined_rings [OF assms(1) c(1)] by simp_all
  moreover obtain ps where "picks g (ring_hops c) ps" "sel = timed_first ps" "pick_span ps \<le> window"
    using select_timed_tightest [OF assms(2), of g c] c(2) by (auto simp: accepts_def)
  moreover have "least_amount (timed_first ps) = least_amount ps" for ps
    by (rule least_amount_cong) simp
  moreover have "pc_accounts r = c" "pc_cycle_length r = length c" "pc_cycle_value_xlm r = least_amount sel"
    by (simp_all add: c(3) describe_cycle_def Let_def)
  moreover have "int (length c) \<le> max_len" using calculation(2) assms(3) by linarith
  ultimately show ?thesis using c(2) unfolding accepts_def by metis
qed

section \<open>The graph holds the payments\<close>

lemma edge_hops_dict_set:
  "edge_hops (dict_set e edge g) e' = (if e' = e then pe_path_payments edge else edge_hops g e')"
  by (simp add: edge_hops_def dict_simps)

lemma edge_hops_add_row:
  "edge_hops (add_payment_row has_tx row g) e =
     edge_hops g e @ (if e = (pr_source_account row, pr_destination_account row) \<and> fst e \<noteq> [] \<and> snd e \<noteq> []
                      then [hop_of has_tx row] else [])"
  by (auto simp: add_payment_row_def Let_def edge_hops_dict_set add_hop_def split: option.splits)
     (auto simp: edge_hops_def)

lemma edge_hops_build:
  assumes "build_path_payment_graph payments = Inr g" "fst e \<noteq> []" "snd e \<noteq> []"
  shows "edge_hops g e = map (hop_of True \<circ> payment_row_of)
    (filter (\<lambda>p. e = (pp_source_account p, pp_destination_account p)) payments)"
proof -
  have rows: "edge_hops (fold (add_payment_row True) rows g0) e = edge_hops g0 e @
      map (hop_of True) (filter (\<lambda>r. e = (pr_source_account r, pr_destination_account r)) rows)" for rows g0
    using assms(2,3) by (induction rows arbitrary: g0) (auto simp: edge_hops_add_row)
  have g: "g = fold (add_payment_row True) (map payment_row_of payments) []"
    using assms(1) by (auto simp: build_path_payment_graph_def add_path_payment_edges_def
        path_payments_to_frame_def frame_columns_def Let_def split: if_splits)
  have "edge_hops [] e = []" by (simp add: edge_hops_def)
  then show ?thesis unfolding g rows by (simp add: filter_map comp_def payment_row_of_def)
qed

section \<open>Properties\<close>

text \<open>
  C6: \<open>_select_timed_cycle_edges\<close> returns for every ring (its loop ends and no index is out of
  range). It returns nothing only if no way to take one payment per hop completes within the
  window; otherwise it returns one payment of every hop (timestamped ones first) that
  completes within the window, in the shortest time any such choice takes.
\<close>

theorem select_timed_cycle_edges_correct:
  assumes "0 \<le> window"
  shows "case select_timed_cycle_edges graph cycle window of
      None \<Rightarrow> \<not> (\<exists>ps. picks graph (ring_hops cycle) ps \<and> pick_span ps \<le> window)
    | Some sel \<Rightarrow> \<exists>ps. picks graph (ring_hops cycle) ps \<and> sel = timed_first ps \<and> pick_span ps \<le> window \<and>
        (\<forall>qs. picks graph (ring_hops cycle) qs \<longrightarrow> pick_span ps \<le> pick_span qs)"
  using assms by (rule select_timed_tightest)

definition sample_hop :: "real \<Rightarrow> int \<Rightarrow> hop" where
  "sample_hop amount t = \<lparr>h_amount_xlm = amount, h_source_asset = ''XLM'', h_destination_asset = ''USD:G'',
     h_timestamp = Some (t * 1000000), h_transaction_hash = Some ''t''\<rparr>"

definition sample_pay_edge :: "hop list \<Rightarrow> pay_edge" where
  "sample_pay_edge hops = \<lparr>pe_total_volume = sum_list (map h_amount_xlm hops),
     pe_payment_count = int (length hops), pe_path_payments = hops\<rparr>"

text \<open>Two accounts: a dust payment and a large one an hour later against one large payment.\<close>

definition dust_graph :: pay_graph where
  "dust_graph = [((''A'', ''B''), sample_pay_edge [sample_hop 1 0, sample_hop 1000 3600]),
                 ((''B'', ''A''), sample_pay_edge [sample_hop 1000 0])]"

lemma dust_select:
  "select_timed_cycle_edges dust_graph [''A'', ''B''] 86400 = Some [sample_hop 1 0, sample_hop 1000 0]"
  "select_timed_cycle_edges dust_graph [''B'', ''A''] 86400 = Some [sample_hop 1000 0, sample_hop 1 0]"
  by code_simp+

theorem select_timed_cycle_edges_correct_witness:
  "\<exists>ps. picks dust_graph (ring_hops [''A'', ''B'']) ps \<and> timed_first ps = [sample_hop 1 0, sample_hop 1000 0] \<and>
     pick_span ps \<le> 86400"
  using select_timed_cycle_edges_correct [of 86400 dust_graph "[''A'', ''B'']"] by (auto simp: dust_select)


text \<open>A reference for the two searches, enumerating all lists of accounts of a length.\<close>

definition graph_nodes :: "pay_graph \<Rightarrow> string list" where
  "graph_nodes g = remdups (map fst (dict_keys g) @ map snd (dict_keys g))"

definition ref_sccs :: sccs_lib where
  "ref_sccs g = map (\<lambda>v. filter (\<lambda>u. u \<in> strong_component g v) (graph_nodes g)) (graph_nodes g)"

definition ref_cycles :: cycles_lib where
  "ref_cycles g k = filter (simple_cycle g) (concat (map (\<lambda>n. List.n_lists n (graph_nodes g)) [0..<Suc k]))"

lemma set_graph_nodes: "set (graph_nodes g) = Field (set (dict_keys g))"
  by (simp add: graph_nodes_def Field_def Domain_fst Range_snd image_image)

lemma strong_component_Field:
  assumes "v \<in> Field (set (dict_keys g))"
  shows "strong_component g v \<subseteq> Field (set (dict_keys g))"
proof
  fix u assume "u \<in> strong_component g v"
  then have "(v, u) \<in> (set (dict_keys g))\<^sup>*" by (simp add: strong_component_def)
  then show "u \<in> Field (set (dict_keys g))" using assms by (induction) (auto simp: Field_def)
qed

lemma ref_sccs_ok: "nx_sccs_ok ref_sccs"
proof -
  have "set ` set (ref_sccs g) = strong_component g ` Field (set (dict_keys g))" for g
    unfolding ref_sccs_def set_map set_graph_nodes image_image
    using strong_component_Field [of _ g] by (intro image_cong) (auto simp: set_graph_nodes)
  then show ?thesis by (auto simp: nx_sccs_ok_def ref_sccs_def graph_nodes_def)
qed

lemma ref_cycles_ok: "nx_cycles_ok ref_cycles"
proof -
  have "rotate 0 c \<in> set (ref_cycles g k)" if "simple_cycle g c" "length c \<le> k" for g c k
  proof -
    have "set c \<subseteq> Field (set (dict_keys g))"
      using ring_in_component [OF that(1)] strong_component_Field by blast
    then show ?thesis using that by (auto simp: ref_cycles_def set_n_lists set_graph_nodes)
  qed
  moreover have "simple_cycle g c \<and> length c \<le> k" if "c \<in> set (ref_cycles g k)" for g c k
    using that by (auto simp: ref_cycles_def set_n_lists simp del: upt_Suc)
  ultimately show ?thesis unfolding nx_cycles_ok_def by blast
qed

lemma dust_ring: "simple_cycle dust_graph [''A'', ''B'']"
  by code_simp

lemma dust_component: "card (strong_component dust_graph ''A'') \<le> 2"
proof -
  have "Field (set (dict_keys dust_graph)) = {''A'', ''B''}" by (auto simp: dust_graph_def Field_def)
  then have "strong_component dust_graph ''A'' \<subseteq> {''A'', ''B''}"
    using strong_component_Field [of "''A''" dust_graph] by simp
  then have "card (strong_component dust_graph ''A'') \<le> card {''A'', ''B''}" by (intro card_mono) simp_all
  then show ?thesis by simp
qed


text \<open>
  The search misses rings it documents as qualifying. The payments of a ring are chosen for the
  shortest completion time, and only the amounts of that choice are compared with the minimum:
  a dust payment sent along one hop hides a ring whose large payments complete within the window
  too. Here both large payments are 1000 and an hour apart, the minimum is 100 and the
  window a day, and nothing is reported.
\<close>

lemma dust_payment_hides_ring:
  assumes "nx_sccs_ok sccs" "nx_cycles_ok cycles"
  shows "detect_path_payment_cycles sccs cycles dust_graph None 6 86400 100 12 = Inr [] \<and>
    (\<exists>ps. picks dust_graph (ring_hops [''A'', ''B'']) ps \<and> pick_span ps \<le> 86400 \<and> 100 \<le> least_amount ps)"
proof -
  obtain rs where rs: "detect_path_payment_cycles sccs cycles dust_graph None 6 86400 100 12 = Inr rs"
    and ring: "\<forall>r\<in>set rs. \<exists>part\<in>set (sccs dust_graph). \<exists>c\<in>set (examined cycles dust_graph None 6 12 part). \<exists>sel.
        accepts dust_graph None 86400 100 c sel \<and> r = describe_cycle c sel"
    by (rule detect_reports [OF assms(2), of 6]) simp_all
  have no: "\<not> accepts dust_graph None 86400 100 c sel" if c: "simple_cycle dust_graph c" for c sel
  proof
    assume a: "accepts dust_graph None 86400 100 c sel"
    have "set c \<subseteq> Field (set (dict_keys dust_graph))"
      using ring_in_component [OF c] strong_component_Field by blast
    then have sub: "set c \<subseteq> {''A'', ''B''}" by (simp add: dust_graph_def Field_def insert_commute)
    have "distinct c" "2 \<le> length c" using c a by (simp_all add: simple_cycle_def accepts_def)
    then obtain x y zs where xy: "c = x # y # zs" by (cases c; cases "tl c") auto
    have "zs = []" using \<open>distinct c\<close> sub unfolding xy by (cases zs) auto
    then have "c = [''A'', ''B''] \<or> c = [''B'', ''A'']" using \<open>distinct c\<close> sub xy by auto
    then show False using a by (auto simp: accepts_def dust_select least_amount_def sample_hop_def)
  qed
  have "rs = []"
  proof (rule ccontr)
    assume "rs \<noteq> []"
    then obtain part c sel where "c \<in> set (examined cycles dust_graph None 6 12 part)"
      "accepts dust_graph None 86400 100 c sel"
      using ring by (cases rs) auto
    then show False using no examined_rings [OF assms(2)] by blast
  qed
  moreover have "picks dust_graph (ring_hops [''A'', ''B'']) [sample_hop 1000 3600, sample_hop 1000 0]"
    by (simp add: picks_def ring_hops_def edge_hops_def dust_graph_def sample_pay_edge_def pick_candidates_def
        hop_timed_def sample_hop_def)
  moreover have "pick_span [sample_hop 1000 3600, sample_hop 1000 0] \<le> 86400"
    by (simp add: pick_span_def hop_timed_def hop_time_def sample_hop_def time_of_def)
  moreover have "100 \<le> least_amount [sample_hop 1000 3600, sample_hop 1000 0]"
    by (simp add: least_amount_def sample_hop_def)
  ultimately show ?thesis using rs by blast
qed

lemma dust_payment_hides_ring_witness:
  "detect_path_payment_cycles ref_sccs ref_cycles dust_graph None 6 86400 100 12 = Inr []"
  using dust_payment_hides_ring [OF ref_sccs_ok ref_cycles_ok] by simp

text \<open>
  Every alert of a detected cycle names the pair of one asset with itself: the asset path is
  closed, so its first and its last element agree.
\<close>

lemma alert_pair_is_degenerate:
  assumes "sel \<noteq> []"
  shows "alert_pair (pc_cycle_path (describe_cycle c sel)) = h_source_asset (hd sel) @ ''/'' @ h_source_asset (hd sel)"
  using assms by (cases sel) (simp_all add: alert_pair_def describe_cycle_def Let_def)

end
