(* ===== verification/Py_Text.thy ===== *)
theory Py_Text
  imports Main
begin

text \<open>
  The parts of Python's text handling the components use: decimal rendering of integers,
  \<open>str.strip\<close> and \<open>str.lower\<close>, and the escapes of \<open>json.dumps\<close>, with the facts that make
  rendered keys and records unambiguous. Text is a string of characters below 256.
\<close>

section \<open>Integers\<close>

text \<open>Python's rendering of an integer in an f-string.\<close>

fun digits :: "nat \<Rightarrow> string" where
  "digits n = (if n < 10 then [char_of (48 + n)] else digits (n div 10) @ [char_of (48 + n mod 10)])"

declare digits.simps [simp del]

definition show_int :: "int \<Rightarrow> string" where
  "show_int i = (if i < 0 then ''-'' @ digits (nat (- i)) else digits (nat i))"

definition read_digits :: "string \<Rightarrow> nat" where
  "read_digits ds = foldl (\<lambda>a c. 10 * a + (of_char c - 48)) 0 ds"

lemma digit_char: "n < 10 \<Longrightarrow> of_char (char_of (48 + n) :: char) = (48 + n :: nat)"
  by simp

lemma read_digits: "read_digits (digits n) = n"
proof (induction n rule: digits.induct)
  case (1 n)
  show ?case
  proof (cases "n < 10")
    case True
    then show ?thesis by (simp add: digits.simps [of n] read_digits_def digit_char)
  next
    case False
    then have "read_digits (digits n) = 10 * read_digits (digits (n div 10)) + n mod 10"
      by (simp add: digits.simps [of n] read_digits_def digit_char)
    with 1 False show ?thesis by simp
  qed
qed

lemma digits_chars: "c \<in> set (digits n) \<Longrightarrow> 48 \<le> (of_char c :: nat) \<and> (of_char c :: nat) < 58"
proof (induction n rule: digits.induct)
  case (1 n)
  then show ?case
    by (cases "n < 10") (auto simp: digits.simps [of n] digit_char)
qed

lemma colon_notin_show: "CHR '':'' \<notin> set (show_int i)"
proof -
  have "CHR '':'' \<notin> set (digits n)" for n
    using digits_chars [of "CHR '':''" n] by (auto simp: of_char_def)
  then show ?thesis by (simp add: show_int_def)
qed

lemma show_int_inj: "show_int i = show_int j \<Longrightarrow> i = j"
proof -
  have minus: "CHR ''-'' \<notin> set (digits n)" for n
    using digits_chars [of "CHR ''-''" n] by (auto simp: of_char_def)
  have inj: "digits m = digits n \<Longrightarrow> m = n" for m n using read_digits by metis
  have ne: "digits m \<noteq> CHR ''-'' # ds" for m ds using minus [of m] by auto
  assume "show_int i = show_int j"
  then show "i = j"
    using ne [of "nat i"] ne [of "nat j"] ne [of "nat i", symmetric] ne [of "nat j", symmetric]
    by (auto simp: show_int_def split: if_splits dest!: inj)
qed

lemma last_colon_split:
  assumes "xs @ CHR '':'' # a = ys @ CHR '':'' # b" "CHR '':'' \<notin> set a" "CHR '':'' \<notin> set b"
  shows "xs = ys \<and> a = b"
  using assms
proof (induction xs arbitrary: ys)
  case Nil
  then show ?case by (cases ys) auto
next
  case (Cons x xs)
  then show ?case by (cases ys) auto
qed

section \<open>Whitespace and case\<close>

text \<open>\<open>str.strip\<close> and \<open>str.lower\<close> on these characters.\<close>

definition py_space :: "char \<Rightarrow> bool" where
  "py_space c \<longleftrightarrow> (of_char c :: nat) \<in> {9, 10, 11, 12, 13, 28, 29, 30, 31, 32, 133, 160}"

definition py_strip :: "string \<Rightarrow> string" where
  "py_strip s = rev (dropWhile py_space (rev (dropWhile py_space s)))"

definition lower_char :: "char \<Rightarrow> char" where
  "lower_char c =
     (let n = (of_char c :: nat)
      in if 65 \<le> n \<and> n \<le> 90 \<or> 192 \<le> n \<and> n \<le> 222 \<and> n \<noteq> 215 then char_of (n + 32) else c)"

definition py_lower :: "string \<Rightarrow> string" where
  "py_lower s = map lower_char s"

text \<open>\<open>str.upper\<close> on ASCII text.\<close>

definition py_upper :: "string \<Rightarrow> string" where
  "py_upper s = map (\<lambda>c. if 97 \<le> (of_char c :: nat) \<and> (of_char c :: nat) \<le> 122 then char_of ((of_char c :: nat) - 32) else c) s"

text \<open>\<open>str.split\<close> on a one-character separator.\<close>

fun py_split :: "char \<Rightarrow> string \<Rightarrow> string list" where
  "py_split sep [] = [[]]"
| "py_split sep (c # cs) =
     (if c = sep then [] # py_split sep cs
      else case py_split sep cs of [] \<Rightarrow> [[c]] | p # ps \<Rightarrow> (c # p) # ps)"

section \<open>Reading integers\<close>

text \<open>
  \<open>int(s)\<close>: surrounding whitespace, an optional sign, digits with single underscores between
  them; \<open>None\<close> is the \<open>ValueError\<close>. The flag says that the previous character was a digit.
\<close>

definition is_digit :: "char \<Rightarrow> bool" where
  "is_digit c \<longleftrightarrow> 48 \<le> (of_char c :: nat) \<and> (of_char c :: nat) < 58"

fun read_int :: "bool \<Rightarrow> nat \<Rightarrow> string \<Rightarrow> nat option" where
  "read_int p n [] = (if p then Some n else None)"
| "read_int p n (c # cs) =
     (if is_digit c then read_int True (10 * n + (of_char c - 48)) cs
      else if c = CHR ''_'' \<and> p then read_int False n cs
      else None)"

definition py_int :: "string \<Rightarrow> int option" where
  "py_int s =
     (case py_strip s of
        [] \<Rightarrow> None
      | c # cs \<Rightarrow>
          if c = CHR ''-'' then map_option (\<lambda>n. - int n) (read_int False 0 cs)
          else if c = CHR ''+'' then map_option int (read_int False 0 cs)
          else map_option int (read_int False 0 (c # cs)))"

lemma digits_are_digits: "c \<in> set (digits n) \<Longrightarrow> is_digit c"
  using digits_chars by (simp add: is_digit_def)

lemma digits_nonempty: "digits n \<noteq> []"
  by (simp add: digits.simps [of n])

lemma digit_not_space: "is_digit c \<Longrightarrow> \<not> py_space c"
  by (auto simp: is_digit_def py_space_def)

lemma read_int_digits:
  "\<forall>c\<in>set ds. is_digit c \<Longrightarrow> read_int p n ds = (if p \<or> ds \<noteq> [] then Some (foldl (\<lambda>a c. 10 * a + (of_char c - 48)) n ds) else None)"
  by (induction ds arbitrary: p n) auto

lemma strip_unspaced: "\<forall>c\<in>set s. \<not> py_space c \<Longrightarrow> py_strip s = s"
proof -
  have d: "dropWhile py_space t = t" if "\<forall>c\<in>set t. \<not> py_space c" for t :: string using that by (cases t) auto
  assume "\<forall>c\<in>set s. \<not> py_space c"
  then show ?thesis using d [of s] d [of "rev s"] by (simp add: py_strip_def)
qed

lemma py_int_show: "py_int (show_int i) = Some i"
proof -
  have dig: "read_int False 0 (digits n) = Some n" for n
    using read_int_digits [of "digits n" False 0] read_digits [of n] digits_are_digits digits_nonempty
    by (simp add: read_digits_def)
  have "py_space CHR ''-'' = False" by (simp add: py_space_def of_char_def)
  then have strip: "py_strip (show_int i) = show_int i"
    using digits_are_digits digit_not_space by (intro strip_unspaced) (auto simp: show_int_def split: if_splits)
  show ?thesis
  proof (cases "i < 0")
    case True
    then show ?thesis by (simp add: py_int_def strip, simp add: show_int_def dig)
  next
    case False
    obtain c cs where d: "digits (nat i) = c # cs" using digits_nonempty by (cases "digits (nat i)") auto
    then have "is_digit c" using digits_are_digits [of c "nat i"] by simp
    then have "c \<noteq> CHR ''-''" "c \<noteq> CHR ''+''" by (auto simp: is_digit_def of_char_def)
    then show ?thesis using dig [of "nat i"] False d by (simp add: py_int_def strip, simp add: show_int_def)
  qed
qed

section \<open>JSON\<close>

definition hex_digit :: "nat \<Rightarrow> char" where
  "hex_digit n = (if n < 10 then char_of (48 + n) else char_of (87 + n))"

definition escape_char :: "char \<Rightarrow> string" where
  "escape_char c =
     (let n = (of_char c :: nat) in
      if n = 34 then [CHR 0x5C, CHR 0x22]
      else if n = 92 then [CHR 0x5C, CHR 0x5C]
      else if n = 10 then [CHR 0x5C, CHR ''n'']
      else if n = 13 then [CHR 0x5C, CHR ''r'']
      else if n = 9 then [CHR 0x5C, CHR ''t'']
      else if n = 12 then [CHR 0x5C, CHR ''f'']
      else if n = 8 then [CHR 0x5C, CHR ''b'']
      else if n < 32 \<or> 126 < n
      then [CHR 0x5C, CHR ''u'', CHR ''0'', CHR ''0'', hex_digit (n div 16), hex_digit (n mod 16)]
      else [c])"

definition json_string :: "string \<Rightarrow> string" where
  "json_string s = CHR 0x22 # concat (map escape_char s) @ [CHR 0x22]"

definition json_opt :: "('a \<Rightarrow> string) \<Rightarrow> 'a option \<Rightarrow> string" where
  "json_opt f v = (case v of None \<Rightarrow> ''null'' | Some x \<Rightarrow> f x)"

definition hex_value :: "char \<Rightarrow> nat" where
  "hex_value c = (let n = (of_char c :: nat) in if n < 58 then n - 48 else n - 87)"

lemma hex_value_digit: "n < 16 \<Longrightarrow> hex_value (hex_digit n) = n"
  by (auto simp: hex_value_def hex_digit_def Let_def)

text \<open>Reads one character back from an escaped string.\<close>

definition unescape :: "string \<Rightarrow> (char \<times> string) option" where
  "unescape s =
     (case s of
        [] \<Rightarrow> None
      | x # xs \<Rightarrow>
          if x \<noteq> CHR 0x5C then Some (x, xs)
          else (case xs of
                  [] \<Rightarrow> None
                | y # ys \<Rightarrow>
                    if y = CHR ''n'' then Some (char_of (10::nat), ys)
                    else if y = CHR ''r'' then Some (char_of (13::nat), ys)
                    else if y = CHR ''t'' then Some (char_of (9::nat), ys)
                    else if y = CHR ''f'' then Some (char_of (12::nat), ys)
                    else if y = CHR ''b'' then Some (char_of (8::nat), ys)
                    else if y = CHR ''u'' then
                      Some (char_of (16 * hex_value (ys ! 2) + hex_value (ys ! 3)), drop 4 ys)
                    else Some (y, ys)))"

lemma char_of_of_char: "of_char c = (n::nat) \<Longrightarrow> c = char_of n"
  by auto

lemma unescape_escape: "unescape (escape_char c @ rest) = Some (c, rest)"
proof -
  define n where "n = (of_char c :: nat)"
  have c: "c = char_of n" by (simp add: n_def)
  have n: "n < 256" by (simp add: n_def)
  consider "n = 34" | "n = 92" | "n = 10" | "n = 13" | "n = 9" | "n = 12" | "n = 8"
    | (hex) "n \<notin> {34, 92, 10, 13, 9, 12, 8}" "n < 32 \<or> 126 < n"
    | (plain) "n \<notin> {34, 92, 10, 13, 9, 12, 8}" "\<not> (n < 32 \<or> 126 < n)" by auto
  then show ?thesis
  proof cases
    case hex
    then have "escape_char c = [CHR 0x5C, CHR ''u'', CHR ''0'', CHR ''0'', hex_digit (n div 16), hex_digit (n mod 16)]"
      by (simp add: escape_char_def Let_def n_def [symmetric])
    moreover have "hex_value (hex_digit (n div 16)) = n div 16" "hex_value (hex_digit (n mod 16)) = n mod 16"
      using n by (auto intro!: hex_value_digit)
    moreover have "16 * (n div 16) + n mod 16 = n" by simp
    ultimately show ?thesis unfolding c by (simp add: unescape_def)
  next
    case plain
    then have "escape_char c = [c]" by (simp add: escape_char_def Let_def n_def [symmetric])
    moreover have "c \<noteq> CHR 0x5C" using plain by (auto simp: n_def of_char_def)
    ultimately show ?thesis by (simp add: unescape_def)
  qed (simp_all add: escape_char_def unescape_def Let_def n_def [symmetric], simp_all add: c char_of_def bit_0)
qed

lemma escape_not_quote: "escape_char c @ rest \<noteq> CHR 0x22 # rest'"
  by (auto simp: escape_char_def Let_def of_char_def split: if_splits)

lemma json_body_split:
  "concat (map escape_char s) @ CHR 0x22 # rest = concat (map escape_char s') @ CHR 0x22 # rest' \<Longrightarrow>
     s = s' \<and> rest = rest'"
proof (induction s arbitrary: s')
  case Nil
  then show ?case by (cases s') (auto simp: escape_not_quote [symmetric] simp del: append_Cons)
next
  case (Cons c s)
  show ?case
  proof (cases s')
    case Nil
    then show ?thesis using Cons.prems escape_not_quote [of c] by simp
  next
    case (Cons c' t)
    with Cons.prems have "unescape (escape_char c @ concat (map escape_char s) @ CHR 0x22 # rest) =
        unescape (escape_char c' @ concat (map escape_char t) @ CHR 0x22 # rest')" by simp
    then have "c = c'" "concat (map escape_char s) @ CHR 0x22 # rest = concat (map escape_char t) @ CHR 0x22 # rest'"
      by (simp_all add: unescape_escape)
    with Cons.IH Cons show ?thesis by blast
  qed
qed

lemma json_string_split: "json_string s @ rest = json_string s' @ rest' \<Longrightarrow> s = s' \<and> rest = rest'"
  using json_body_split [of s rest s' rest'] by (simp add: json_string_def)

lemma comma_notin_show: "CHR '','' \<notin> set (show_int i)"
proof -
  have "CHR '','' \<notin> set (digits n)" for n
    using digits_chars [of "CHR '',''" n] by (auto simp: of_char_def)
  then show ?thesis by (simp add: show_int_def)
qed

lemma show_int_not_null: "show_int i \<noteq> ''null''"
proof -
  have "CHR ''l'' \<notin> set (digits n)" for n
    using digits_chars [of "CHR ''l''" n] by (auto simp: of_char_def)
  then have "CHR ''l'' \<notin> set (show_int i)" by (simp add: show_int_def)
  then show ?thesis by auto
qed

lemma comma_split: "a @ CHR '','' # x = b @ CHR '','' # y \<Longrightarrow> CHR '','' \<notin> set a \<Longrightarrow> CHR '','' \<notin> set b \<Longrightarrow> a = b \<and> x = y"
proof (induction a arbitrary: b)
  case Nil
  then show ?case by (cases b) auto
next
  case (Cons c a)
  then show ?case by (cases b) auto
qed

lemma json_score_split:
  "json_opt show_int v @ CHR '','' # x = json_opt show_int v' @ CHR '','' # y \<Longrightarrow> v = v' \<and> x = y"
proof -
  assume eq: "json_opt show_int v @ CHR '','' # x = json_opt show_int v' @ CHR '','' # y"
  have "CHR '','' \<notin> set (json_opt show_int w)" for w
    using comma_notin_show by (auto simp: json_opt_def split: option.splits)
  then have "json_opt show_int v = json_opt show_int v'" "x = y" using comma_split [OF eq] by auto
  then show ?thesis
    using show_int_inj show_int_not_null show_int_not_null [symmetric]
    by (auto simp: json_opt_def split: option.splits)
qed

lemma json_wallet_split:
  "json_opt json_string v @ x = json_opt json_string v' @ y \<Longrightarrow> v = v' \<and> x = y"
  using json_string_split [of "the v" x "the v'" y]
  by (cases v; cases v') (auto simp: json_opt_def, auto simp: json_string_def)

lemma json_string_eq: "json_string s @ rest = json_string s' @ rest' \<longleftrightarrow> s = s' \<and> rest = rest'"
  using json_string_split [of s rest s' rest'] by (rule iffI) simp_all

lemma json_score_eq:
  "json_opt show_int v @ CHR '','' # x = json_opt show_int v' @ CHR '','' # y \<longleftrightarrow> v = v' \<and> x = y"
  using json_score_split [of v x v' y] by (rule iffI) simp_all

lemma json_wallet_eq: "json_opt json_string w = json_opt json_string w' \<longleftrightarrow> w = w'"
  using json_wallet_split [of w "[]" w' "[]"] by auto

end
