(* ===== verification/Chain_Queue.thy ===== *)
theory Chain_Queue
  imports Prelude Py_Text
begin

text \<open>
  The durable queue of on-chain submissions, \<open>packages/core/detection/chain_submission_queue.py\<close>:
  the table \<open>pending_chain_submissions\<close> as a list of rows in the order of their ids, and the
  operations that enqueue, claim, retry, close and drain. Timestamps are instants; each
  operation receives the readings of \<open>_now()\<close> it makes. The publisher of scores
  (\<open>SorobanPublisher.submit_score\<close>) is a parameter. The column \<open>payload_json\<close>, a fixed
  function of the dispute id that no operation reads back, is left out.
\<close>

section \<open>The table\<close>

datatype sub_status = Pending | In_Flight | Submitted | Abandoned

datatype sub_kind = Dispute_Override | Other_Kind string

record submission =
  sub_id :: nat
  sub_key :: string
  sub_kind_of :: sub_kind
  sub_override_id :: int
  sub_dispute_id :: string
  sub_wallet :: string
  sub_asset_pair :: string
  sub_status_of :: sub_status
  sub_attempts :: nat
  sub_max_attempts :: nat
  sub_next_attempt_at :: instant
  sub_leased_until :: "instant option"
  sub_tx_hash :: "string option"
  sub_last_error :: "string option"
  sub_created_at :: instant
  sub_updated_at :: instant

type_synonym queue = "submission list"

definition lease_seconds :: int where "lease_seconds = 300"
definition backoff_base_seconds :: int where "backoff_base_seconds = 5"
definition backoff_cap_seconds :: int where "backoff_cap_seconds = 3600"

abbreviation timedelta_seconds :: "int \<Rightarrow> int" where
  "timedelta_seconds s \<equiv> s * microseconds_per_second"

definition backoff_seconds :: "nat \<Rightarrow> int" where
  "backoff_seconds attempts =
     (if attempts < 1 then backoff_base_seconds
      else min (backoff_base_seconds * 2 ^ (attempts - 1)) backoff_cap_seconds)"

section \<open>Enqueue\<close>

definition override_idempotency_key :: "string \<Rightarrow> int \<Rightarrow> string" where
  "override_idempotency_key dispute_id override_id =
     ''dispute_override:'' @ dispute_id @ '':'' @ show_int override_id"

record enqueue_request =
  rq_dispute_id :: string
  rq_override_id :: int
  rq_wallet :: string
  rq_asset_pair :: string
  rq_max_attempts :: nat
  rq_now :: instant

definition next_id :: "queue \<Rightarrow> nat" where
  "next_id q = Suc (foldr max (map sub_id q) 0)"

definition request_key :: "enqueue_request \<Rightarrow> string" where
  "request_key rq = override_idempotency_key (rq_dispute_id rq) (rq_override_id rq)"

definition enqueue_override_submission :: "enqueue_request \<Rightarrow> queue \<Rightarrow> queue" where
  "enqueue_override_submission rq q =
     (if request_key rq \<in> sub_key ` set q then q
      else q @ [\<lparr>sub_id = next_id q, sub_key = request_key rq, sub_kind_of = Dispute_Override,
                 sub_override_id = rq_override_id rq, sub_dispute_id = rq_dispute_id rq,
                 sub_wallet = rq_wallet rq, sub_asset_pair = rq_asset_pair rq,
                 sub_status_of = Pending, sub_attempts = 0, sub_max_attempts = rq_max_attempts rq,
                 sub_next_attempt_at = rq_now rq, sub_leased_until = None, sub_tx_hash = None,
                 sub_last_error = None, sub_created_at = rq_now rq, sub_updated_at = rq_now rq\<rparr>])"

section \<open>Claim\<close>

definition due :: "instant \<Rightarrow> submission \<Rightarrow> bool" where
  "due now r \<longleftrightarrow> sub_next_attempt_at r \<le> now \<and>
     (sub_status_of r = Pending \<or>
      sub_status_of r = In_Flight \<and> (case sub_leased_until r of None \<Rightarrow> True | Some t \<Rightarrow> t \<le> now))"

text \<open>\<open>ORDER BY next_attempt_at ASC, id ASC LIMIT 1\<close>\<close>

fun first_due :: "queue \<Rightarrow> submission option" where
  "first_due [] = None"
| "first_due (r # q) =
     (case first_due q of
        None \<Rightarrow> Some r
      | Some b \<Rightarrow>
          if sub_next_attempt_at b < sub_next_attempt_at r \<or>
             sub_next_attempt_at b = sub_next_attempt_at r \<and> sub_id b < sub_id r
          then Some b else Some r)"

definition claim_next_due :: "instant \<Rightarrow> queue \<Rightarrow> queue \<times> submission option" where
  "claim_next_due now q =
     (case first_due (filter (due now) q) of
        None \<Rightarrow> (q, None)
      | Some row \<Rightarrow>
          let p = (\<lambda>r. sub_id r = sub_id row \<and> due now r);
              q' = update_where p
                     (\<lambda>r. r\<lparr>sub_status_of := In_Flight,
                            sub_leased_until := Some (now + timedelta_seconds lease_seconds),
                            sub_updated_at := now\<rparr>) q
          in if row_count p q \<noteq> 1 then (q', None) else (q', Some row))"

section \<open>Outcomes\<close>

definition mark_submitted :: "instant \<Rightarrow> nat \<Rightarrow> string \<Rightarrow> queue \<Rightarrow> queue" where
  "mark_submitted now job_id tx_hash q =
     update_where (\<lambda>r. sub_id r = job_id \<and> sub_status_of r \<noteq> Submitted)
       (\<lambda>r. r\<lparr>sub_status_of := Submitted, sub_tx_hash := Some tx_hash, sub_last_error := None,
              sub_leased_until := None, sub_attempts := sub_attempts r + 1, sub_updated_at := now\<rparr>) q"

definition mark_retry :: "instant \<Rightarrow> submission \<Rightarrow> string \<Rightarrow> queue \<Rightarrow> queue \<times> sub_status" where
  "mark_retry now job error q =
     (let attempts = sub_attempts job + 1 in
      if sub_max_attempts job \<le> attempts then
        (update_where (\<lambda>r. sub_id r = sub_id job)
           (\<lambda>r. r\<lparr>sub_status_of := Abandoned, sub_attempts := attempts, sub_last_error := Some error,
                  sub_leased_until := None, sub_updated_at := now\<rparr>) q, Abandoned)
      else
        (update_where (\<lambda>r. sub_id r = sub_id job)
           (\<lambda>r. r\<lparr>sub_status_of := Pending, sub_attempts := attempts, sub_last_error := Some error,
                  sub_leased_until := None,
                  sub_next_attempt_at := now + timedelta_seconds (backoff_seconds attempts),
                  sub_updated_at := now\<rparr>) q, Pending))"

datatype publish_outcome = Tx_Hash string | No_Hash | Publish_Error string

type_synonym publisher = "string \<Rightarrow> string \<Rightarrow> publish_outcome"

definition publish :: "publisher \<Rightarrow> submission \<Rightarrow> publish_outcome" where
  "publish submit_score job =
     (case sub_kind_of job of
        Dispute_Override \<Rightarrow> submit_score (sub_wallet job) (sub_asset_pair job)
      | Other_Kind k \<Rightarrow> Publish_Error (''SorobanSubmissionError: Unknown submission kind: '' @ k))"

text \<open>\<open>process_once\<close>: the claim at \<open>now\<close>, the bookkeeping at \<open>now'\<close>.\<close>

definition settle :: "instant \<Rightarrow> submission \<Rightarrow> publish_outcome \<Rightarrow> queue \<Rightarrow> queue \<times> sub_status" where
  "settle now' job outcome q =
     (case outcome of
        Publish_Error e \<Rightarrow> mark_retry now' job e q
      | No_Hash \<Rightarrow> mark_retry now' job ''publisher returned no transaction hash'' q
      | Tx_Hash h \<Rightarrow>
          if h = [] then mark_retry now' job ''publisher returned no transaction hash'' q
          else (mark_submitted now' (sub_id job) h q, Submitted))"

definition process_once ::
    "instant \<Rightarrow> instant \<Rightarrow> publisher \<Rightarrow> queue \<Rightarrow> queue \<times> (submission \<times> sub_status) option" where
  "process_once now now' submit_score q =
     (case claim_next_due now q of
        (q', None) \<Rightarrow> (q', None)
      | (q', Some job) \<Rightarrow>
          (case settle now' job (publish submit_score job) q' of
             (q'', res) \<Rightarrow> (q'', Some (job, res))))"

text \<open>\<open>run_worker\<close> with \<open>max_iterations\<close>, one reading of the clock and publisher per iteration.\<close>

fun run_worker :: "(instant \<times> instant \<times> publisher) list \<Rightarrow> queue \<Rightarrow> queue \<times> nat" where
  "run_worker [] q = (q, 0)"
| "run_worker ((now, now', submit) # rest) q =
     (case process_once now now' submit q of
        (q', None) \<Rightarrow> (q', 0)
      | (q', Some _) \<Rightarrow> (case run_worker rest q' of (q'', n) \<Rightarrow> (q'', n + 1)))"

definition queue_stats :: "queue \<Rightarrow> (sub_status \<Rightarrow> nat) \<times> nat" where
  "queue_stats q = ((\<lambda>s. row_count (\<lambda>r. sub_status_of r = s) q), length q)"

section \<open>Keys\<close>

interpretation chain_keys: unique_insert sub_key request_key enqueue_override_submission
  by unfold_locales (auto simp: enqueue_override_submission_def)

section \<open>Invariants\<close>

definition queue_wf :: "queue \<Rightarrow> bool" where
  "queue_wf q \<longleftrightarrow> distinct (map sub_id q) \<and> distinct (map sub_key q)"

lemma id_below_next: "r \<in> set q \<Longrightarrow> sub_id r < next_id q"
proof -
  have "r \<in> set q \<Longrightarrow> sub_id r \<le> foldr max (map sub_id q) 0" by (induction q) auto
  then show "r \<in> set q \<Longrightarrow> sub_id r < next_id q" by (simp add: next_id_def less_Suc_eq_le)
qed

lemma enqueue_wf [wf_intros]: "queue_wf q \<Longrightarrow> queue_wf (enqueue_override_submission rq q)"
proof -
  assume wf: "queue_wf q"
  have "next_id q \<notin> sub_id ` set q" using id_below_next [of _ q] by fastforce
  then have "distinct (map sub_id (enqueue_override_submission rq q))"
    using wf by (simp add: enqueue_override_submission_def queue_wf_def)
  then show ?thesis using wf chain_keys.distinct_ins [of q rq] by (simp add: queue_wf_def)
qed

lemma update_wf:
  assumes "queue_wf q" "\<And>r. sub_id (f r) = sub_id r" "\<And>r. sub_key (f r) = sub_key r"
  shows "queue_wf (update_where p f q)"
  using assms by (simp add: queue_wf_def map_update_where_frame)

lemma claim_wf [wf_intros]: "queue_wf q \<Longrightarrow> queue_wf (fst (claim_next_due now q))"
  by (auto simp: claim_next_due_def Let_def intro: update_wf split: option.splits)

lemma settle_wf [wf_intros]: "queue_wf q \<Longrightarrow> queue_wf (fst (settle now job outcome q))"
  by (auto simp: settle_def mark_retry_def mark_submitted_def Let_def intro: update_wf split: publish_outcome.splits)

subsection \<open>The claim\<close>

definition before :: "submission \<Rightarrow> submission \<Rightarrow> bool" where
  "before a b \<longleftrightarrow> sub_next_attempt_at a < sub_next_attempt_at b \<or>
     sub_next_attempt_at a = sub_next_attempt_at b \<and> sub_id a \<le> sub_id b"

lemma first_due_None: "first_due q = None \<longleftrightarrow> q = []"
  by (cases q) (auto split: option.splits if_splits)

lemma first_due_least: "first_due q = Some b \<Longrightarrow> b \<in> set q \<and> (\<forall>r\<in>set q. before b r)"
proof (induction q arbitrary: b)
  case (Cons x q)
  show ?case
  proof (cases "first_due q")
    case None
    then show ?thesis using Cons.prems first_due_None [of q] by (auto simp: before_def)
  next
    case (Some c)
    have c: "c \<in> set q" "\<forall>r\<in>set q. before c r" using Cons.IH [OF Some] by auto
    show ?thesis
    proof (cases "sub_next_attempt_at c < sub_next_attempt_at x \<or>
        sub_next_attempt_at c = sub_next_attempt_at x \<and> sub_id c < sub_id x")
      case True
      then have "b = c" using Cons.prems Some by simp
      then show ?thesis using c True by (auto simp: before_def)
    next
      case False
      then have "b = x" using Cons.prems Some by (auto split: if_splits)
      moreover have "before x r" if "r \<in> set q" for r
        using c(2) that False by (force simp: before_def)
      ultimately show ?thesis by (auto simp: before_def)
    qed
  qed
qed simp

definition leased :: "instant \<Rightarrow> submission \<Rightarrow> submission" where
  "leased now r = r\<lparr>sub_status_of := In_Flight,
     sub_leased_until := Some (now + timedelta_seconds lease_seconds), sub_updated_at := now\<rparr>"

lemma same_id_same_row: "queue_wf q \<Longrightarrow> r \<in> set q \<Longrightarrow> r' \<in> set q \<Longrightarrow> sub_id r = sub_id r' \<Longrightarrow> r = r'"
  by (simp add: queue_wf_def distinct_map inj_on_def)

lemma claim_spec:
  assumes wf: "queue_wf q"
  shows "(claim_next_due now q = (q, None) \<and> (\<forall>r\<in>set q. \<not> due now r)) \<or>
    (\<exists>job\<in>set q. due now job \<and> (\<forall>r\<in>set q. due now r \<longrightarrow> before job r) \<and>
       claim_next_due now q = (update_where (\<lambda>r. sub_id r = sub_id job) (leased now) q, Some job))"
proof (cases "first_due (filter (due now) q)")
  case None
  then have "\<forall>r\<in>set q. \<not> due now r" using first_due_None by (auto simp: filter_empty_conv)
  with None show ?thesis by (simp add: claim_next_due_def)
next
  case (Some job)
  then have job: "job \<in> set q" "due now job" "\<forall>r\<in>set q. due now r \<longrightarrow> before job r"
    using first_due_least [OF Some] by auto
  have p: "sub_id r = sub_id job \<and> due now r \<longleftrightarrow> sub_id r = sub_id job" if "r \<in> set q" for r
    using that same_id_same_row [OF wf that job(1)] job(2) by auto
  have upd: "update_where (\<lambda>r. sub_id r = sub_id job \<and> due now r) f q = update_where (\<lambda>r. sub_id r = sub_id job) f q" for f
    using p by (simp add: update_where_def)
  have "filter (\<lambda>r. sub_id r = sub_id job \<and> due now r) q \<noteq> []" using job by (auto simp: filter_empty_conv)
  then have "row_count (\<lambda>r. sub_id r = sub_id job \<and> due now r) q = 1"
    using row_count_distinct_key [of sub_id q "sub_id job" "due now"] wf
    by (cases "filter (\<lambda>r. sub_id r = sub_id job \<and> due now r) q") (auto simp: row_count_def queue_wf_def)
  then have "claim_next_due now q = (update_where (\<lambda>r. sub_id r = sub_id job) (leased now) q, Some job)"
    using Some upd by (simp add: claim_next_due_def Let_def leased_def [abs_def])
  with job show ?thesis by blast
qed

subsection \<open>One pass of a worker\<close>

definition retried :: "instant \<Rightarrow> submission \<Rightarrow> string \<Rightarrow> submission \<Rightarrow> submission" where
  "retried now job error r =
     (if sub_max_attempts job \<le> sub_attempts job + 1
      then r\<lparr>sub_status_of := Abandoned, sub_attempts := sub_attempts job + 1, sub_last_error := Some error,
             sub_leased_until := None, sub_updated_at := now\<rparr>
      else r\<lparr>sub_status_of := Pending, sub_attempts := sub_attempts job + 1, sub_last_error := Some error,
             sub_leased_until := None,
             sub_next_attempt_at := now + timedelta_seconds (backoff_seconds (sub_attempts job + 1)),
             sub_updated_at := now\<rparr>)"

definition closed_row :: "instant \<Rightarrow> string \<Rightarrow> submission \<Rightarrow> submission" where
  "closed_row now h r = r\<lparr>sub_status_of := Submitted, sub_tx_hash := Some h, sub_last_error := None,
     sub_leased_until := None, sub_attempts := sub_attempts r + 1, sub_updated_at := now\<rparr>"

definition settled :: "instant \<Rightarrow> submission \<Rightarrow> publish_outcome \<Rightarrow> submission \<Rightarrow> submission" where
  "settled now job outcome r =
     (case outcome of
        Publish_Error e \<Rightarrow> retried now job e r
      | No_Hash \<Rightarrow> retried now job ''publisher returned no transaction hash'' r
      | Tx_Hash h \<Rightarrow> if h = [] then retried now job ''publisher returned no transaction hash'' r
                     else closed_row now h r)"

lemma mark_retry_rows: "fst (mark_retry now job e q) = update_where (\<lambda>r. sub_id r = sub_id job) (retried now job e) q"
  by (simp add: mark_retry_def retried_def [abs_def] Let_def)

lemma update_where_twice:
  assumes "\<And>r. sub_id (g r) = sub_id r"
  shows "update_where (\<lambda>r. sub_id r = j \<and> P r) f (update_where (\<lambda>r. sub_id r = j) g q) =
           update_where (\<lambda>r. sub_id r = j) (\<lambda>r. if P (g r) then f (g r) else g r) q"
  using assms by (simp add: update_where_def)

lemma settle_claimed:
  "fst (settle now' job outcome (update_where (\<lambda>r. sub_id r = sub_id job) (leased now) q)) =
     update_where (\<lambda>r. sub_id r = sub_id job) (\<lambda>r. settled now' job outcome (leased now r)) q"
proof -
  have id: "sub_id (leased now r) = sub_id r" "sub_status_of (leased now r) = In_Flight" for r
    by (simp_all add: leased_def)
  have retry: "fst (mark_retry now' job e (update_where (\<lambda>r. sub_id r = sub_id job) (leased now) q)) =
      update_where (\<lambda>r. sub_id r = sub_id job) (\<lambda>r. retried now' job e (leased now r)) q" for e
    unfolding mark_retry_rows using update_where_twice [of "leased now" "sub_id job" "\<lambda>_. True"] id(1) by simp
  have closed: "mark_submitted now' (sub_id job) h (update_where (\<lambda>r. sub_id r = sub_id job) (leased now) q) =
      update_where (\<lambda>r. sub_id r = sub_id job) (\<lambda>r. closed_row now' h (leased now r)) q" for h
    unfolding mark_submitted_def
    using update_where_twice [of "leased now" "sub_id job" "\<lambda>r. sub_status_of r \<noteq> Submitted" "closed_row now' h"] id
    by (simp add: closed_row_def [abs_def])
  show ?thesis by (cases outcome) (simp_all add: settle_def settled_def [abs_def] retry closed)
qed

text \<open>What one pass does: nothing, or it replaces the row of the claimed job.\<close>

lemma process_once_spec:
  assumes "queue_wf q"
  shows "(process_once now now' submit q = (q, None) \<and> (\<forall>r\<in>set q. \<not> due now r)) \<or>
    (\<exists>job\<in>set q. \<exists>res. due now job \<and>
       process_once now now' submit q =
         (update_where (\<lambda>r. sub_id r = sub_id job)
            (\<lambda>r. settled now' job (publish submit job) (leased now r)) q, Some (job, res)))"
proof -
  consider "claim_next_due now q = (q, None)" "\<forall>r\<in>set q. \<not> due now r"
    | job where "job \<in> set q" "due now job"
        "claim_next_due now q = (update_where (\<lambda>r. sub_id r = sub_id job) (leased now) q, Some job)"
    using claim_spec [OF assms] by blast
  then show ?thesis
  proof cases
    case 1
    then show ?thesis by (simp add: process_once_def)
  next
    case (2 job)
    obtain q'' res where st: "settle now' job (publish submit job)
        (update_where (\<lambda>r. sub_id r = sub_id job) (leased now) q) = (q'', res)" by fastforce
    then have "q'' = update_where (\<lambda>r. sub_id r = sub_id job)
        (\<lambda>r. settled now' job (publish submit job) (leased now r)) q"
      using settle_claimed [of now' job "publish submit job" now q] by simp
    with 2 st show ?thesis by (auto simp: process_once_def)
  qed
qed

lemma update_one_row:
  assumes "queue_wf q" "job \<in> set q" "r \<in> set (update_where (\<lambda>r. sub_id r = sub_id job) f q)"
  shows "r = f job \<or> r \<in> set q \<and> sub_id r \<noteq> sub_id job"
  using assms same_id_same_row [OF assms(1) _ assms(2)] by (auto simp: set_update_where)

lemma settled_frame [simp]:
  "sub_id (settled now job oc r) = sub_id r" "sub_key (settled now job oc r) = sub_key r"
  "sub_max_attempts (settled now job oc r) = sub_max_attempts r"
  "sub_kind_of (settled now job oc r) = sub_kind_of r"
  by (auto simp: settled_def retried_def closed_row_def split: publish_outcome.splits)

lemma leased_frame [simp]:
  "sub_id (leased now r) = sub_id r" "sub_key (leased now r) = sub_key r"
  "sub_max_attempts (leased now r) = sub_max_attempts r" "sub_attempts (leased now r) = sub_attempts r"
  "sub_status_of (leased now r) = In_Flight" "sub_kind_of (leased now r) = sub_kind_of r"
  by (simp_all add: leased_def)

section \<open>Histories\<close>

text \<open>
  Histories in which a worker either finishes its pass or dies right after the claim;
  decisions may be enqueued (any number of times) in between.
\<close>

inductive queue_step :: "queue \<Rightarrow> queue \<Rightarrow> bool" where
  enqueue: "1 \<le> rq_max_attempts rq \<Longrightarrow> queue_step q (enqueue_override_submission rq q)"
| pass: "queue_step q (fst (process_once now now' submit q))"
| crash: "queue_step q (fst (claim_next_due now q))"

inductive queue_history :: "queue \<Rightarrow> bool" where
  empty: "queue_history []"
| step: "queue_history q \<Longrightarrow> queue_step q q' \<Longrightarrow> queue_history q'"

definition owed :: "submission \<Rightarrow> bool" where
  "owed r \<longleftrightarrow> sub_status_of r = Pending \<or> sub_status_of r = In_Flight"

definition row_ok :: "submission \<Rightarrow> bool" where
  "row_ok r \<longleftrightarrow> sub_attempts r \<le> sub_max_attempts r \<and> (owed r \<longrightarrow> sub_attempts r < sub_max_attempts r) \<and>
     (sub_status_of r = Submitted \<longrightarrow> (\<exists>h. sub_tx_hash r = Some h \<and> h \<noteq> [])) \<and>
     (sub_status_of r = Abandoned \<longrightarrow> sub_attempts r = sub_max_attempts r)"

definition queue_inv :: "queue \<Rightarrow> bool" where
  "queue_inv q \<longleftrightarrow> queue_wf q \<and> (\<forall>r\<in>set q. row_ok r)"

lemma due_owed: "due now r \<Longrightarrow> owed r"
  by (auto simp: due_def owed_def)

lemma settled_ok:
  assumes "row_ok job" "owed job"
  shows "row_ok (settled now' job oc (leased now job))"
  using assms
  by (auto simp: row_ok_def settled_def retried_def closed_row_def owed_def leased_def
      split: publish_outcome.splits)

lemma leased_ok: "row_ok job \<Longrightarrow> owed job \<Longrightarrow> row_ok (leased now job)"
  by (auto simp: row_ok_def owed_def leased_def)

lemma queue_step_inv:
  assumes "queue_inv q" "queue_step q q'"
  shows "queue_inv q' \<and> (\<forall>r\<in>set q. \<not> owed r \<longrightarrow> r \<in> set q')"
proof -
  have wf: "queue_wf q" and ok: "\<forall>r\<in>set q. row_ok r" using assms(1) by (auto simp: queue_inv_def)
  have one: "queue_inv (update_where (\<lambda>r. sub_id r = sub_id job) f q) \<and>
      (\<forall>r\<in>set q. \<not> owed r \<longrightarrow> r \<in> set (update_where (\<lambda>r. sub_id r = sub_id job) f q))"
    if "job \<in> set q" "owed job" "row_ok (f job)" "\<And>r. sub_id (f r) = sub_id r" "\<And>r. sub_key (f r) = sub_key r" for job f
  proof -
    have "queue_wf (update_where (\<lambda>r. sub_id r = sub_id job) f q)" by (rule update_wf [OF wf that(4,5)])
    moreover have "r \<in> set (update_where (\<lambda>r. sub_id r = sub_id job) f q)" if "r \<in> set q" "\<not> owed r" for r
      using that \<open>owed job\<close> same_id_same_row [OF wf that(1) \<open>job \<in> set q\<close>] by (auto simp: set_update_where image_iff)
    ultimately show ?thesis
      using ok that(3) update_one_row [OF wf that(1)] by (auto simp: queue_inv_def)
  qed
  from assms(2) show ?thesis
  proof cases
    case (enqueue rq)
    have "row_ok r" if "r \<in> set q'" for r
      using that ok enqueue by (auto simp: enqueue_override_submission_def row_ok_def split: if_splits)
    then show ?thesis using enqueue enqueue_wf [OF wf] chain_keys.kept_by_ins by (auto simp: queue_inv_def)
  next
    case (pass now now' submit)
    then consider "q' = q" | job where "job \<in> set q" "due now job"
      "q' = update_where (\<lambda>r. sub_id r = sub_id job) (\<lambda>r. settled now' job (publish submit job) (leased now r)) q"
      using process_once_spec [OF wf, of now now' submit] by auto
    then show ?thesis
      by cases (use assms(1) one ok due_owed settled_ok in auto)
  next
    case (crash now)
    then consider "q' = q" | job where "job \<in> set q" "due now job"
      "q' = update_where (\<lambda>r. sub_id r = sub_id job) (leased now) q"
      using claim_spec [OF wf, of now] by auto
    then show ?thesis
      by cases (use assms(1) one ok due_owed leased_ok in auto)
  qed
qed

lemma history_inv: "queue_history q \<Longrightarrow> queue_inv q"
proof (induction rule: queue_history.induct)
  case (step q q')
  then show ?case using queue_step_inv by blast
qed (simp add: queue_inv_def queue_wf_def)

section \<open>Draining\<close>

lemma row_count_update:
  assumes "queue_wf q" "job \<in> set q" "P job" "\<not> P (f job)"
  shows "Suc (row_count P (update_where (\<lambda>r. sub_id r = sub_id job) f q)) = row_count P q"
proof -
  obtain xs ys where q: "q = xs @ job # ys" using assms(2) by (meson split_list)
  have "update_where (\<lambda>r. sub_id r = sub_id job) f zs = zs" if "zs = xs \<or> zs = ys" for zs
    by (rule update_where_none) (use that assms(1) q in \<open>auto simp: queue_wf_def image_iff\<close>)
  then have "update_where (\<lambda>r. sub_id r = sub_id job) f q = xs @ f job # ys"
    by (simp add: q update_where_def)
  then show ?thesis using assms(3,4) by (simp add: q row_count_def)
qed

lemma run_worker_drains:
  assumes "queue_wf q" "\<forall>r\<in>set q. owed r \<longrightarrow> due now r" "row_count owed q \<le> n"
    and "\<forall>r\<in>set q. sub_kind_of r = Dispute_Override" "\<forall>w p. \<exists>h. submit w p = Tx_Hash h \<and> h \<noteq> []"
  shows "\<exists>q'. run_worker (replicate n (now, now', submit)) q = (q', row_count owed q) \<and>
    map sub_id q' = map sub_id q \<and> (\<forall>r\<in>set q'. \<not> owed r) \<and> (\<forall>r\<in>set q. \<not> owed r \<longrightarrow> r \<in> set q') \<and>
    (\<forall>r\<in>set q. owed r \<longrightarrow> (\<exists>r'\<in>set q'. sub_id r' = sub_id r \<and> sub_status_of r' = Submitted))"
  using assms(1-4)
proof (induction n arbitrary: q)
  case 0
  then have "\<forall>r\<in>set q. \<not> owed r" by (simp add: row_count_def filter_empty_conv)
  with 0 show ?case by auto
next
  case (Suc n)
  consider "process_once now now' submit q = (q, None)" "\<forall>r\<in>set q. \<not> due now r"
    | job res where "job \<in> set q" "due now job" "process_once now now' submit q =
         (update_where (\<lambda>r. sub_id r = sub_id job)
            (\<lambda>r. settled now' job (publish submit job) (leased now r)) q, Some (job, res))"
    using process_once_spec [OF Suc.prems(1)] by metis
  then show ?case
  proof cases
    case 1
    then have none: "\<forall>r\<in>set q. \<not> owed r" using Suc.prems(2) by blast
    then have "row_count owed q = 0" by (simp add: row_count_def filter_empty_conv)
    with 1 none show ?thesis by auto
  next
    case (2 job res)
    let ?f = "\<lambda>r. settled now' job (publish submit job) (leased now r)"
    let ?q = "update_where (\<lambda>r. sub_id r = sub_id job) ?f q"
    have "publish submit job = submit (sub_wallet job) (sub_asset_pair job)"
      using Suc.prems(4) 2(1) by (simp add: publish_def)
    then obtain h where h: "publish submit job = Tx_Hash h" "h \<noteq> []" using assms(5) by metis
    have f: "?f r = closed_row now' h (leased now r)" for r using h by (simp add: settled_def)
    have fjob: "sub_status_of (?f job) = Submitted" "\<not> owed (?f job)" "sub_id (?f job) = sub_id job"
      by (simp_all add: f closed_row_def owed_def)
    have wf: "queue_wf ?q" by (rule update_wf [OF Suc.prems(1)]) simp_all
    have cnt: "Suc (row_count owed ?q) = row_count owed q"
      by (rule row_count_update [where f = ?f, OF Suc.prems(1) 2(1)]) (use due_owed [OF 2(2)] fjob(2) in auto)
    have rows: "r = ?f job \<or> r \<in> set q \<and> sub_id r \<noteq> sub_id job" if "r \<in> set ?q" for r
      by (rule update_one_row [OF Suc.prems(1) 2(1) that])
    have ids: "map sub_id ?q = map sub_id q" by (rule map_update_where_frame) simp
    have due: "\<forall>r\<in>set ?q. owed r \<longrightarrow> due now r" using rows Suc.prems(2) fjob(2) by blast
    have kind: "\<forall>r\<in>set ?q. sub_kind_of r = Dispute_Override"
    proof
      fix r assume "r \<in> set ?q"
      moreover have "sub_kind_of (?f job) = sub_kind_of job" by simp
      ultimately show "sub_kind_of r = Dispute_Override" using rows [of r] Suc.prems(4) 2(1) by auto
    qed
    obtain q' where q': "run_worker (replicate n (now, now', submit)) ?q = (q', row_count owed ?q)"
      "map sub_id q' = map sub_id ?q" "\<forall>r\<in>set q'. \<not> owed r" "\<forall>r\<in>set ?q. \<not> owed r \<longrightarrow> r \<in> set q'"
      "\<forall>r\<in>set ?q. owed r \<longrightarrow> (\<exists>r'\<in>set q'. sub_id r' = sub_id r \<and> sub_status_of r' = Submitted)"
      using Suc.IH [OF wf due _ kind] cnt Suc.prems(3) by auto
    have run: "run_worker (replicate (Suc n) (now, now', submit)) q = (q', row_count owed q)"
      using 2(3) q'(1) cnt by simp
    have job: "?f job \<in> set ?q" using 2(1) by (auto simp: set_update_where)
    have stays: "r \<in> set ?q" if "r \<in> set q" "sub_id r \<noteq> sub_id job" for r
      using that by (force simp: set_update_where)
    have finished: "\<exists>r'\<in>set q'. sub_id r' = sub_id r \<and> sub_status_of r' = Submitted" if r: "r \<in> set q" "owed r" for r
    proof (cases "sub_id r = sub_id job")
      case True
      then show ?thesis using q'(4) job fjob by metis
    next
      case False
      then show ?thesis using q'(5) stays [OF r(1)] r(2) by blast
    qed
    have "r \<in> set q'" if "r \<in> set q" "\<not> owed r" for r
      using that q'(4) stays [OF that(1)] same_id_same_row [OF Suc.prems(1) that(1) 2(1)] due_owed [OF 2(2)] by blast
    with run q'(2,3) ids finished show ?thesis by auto
  qed
qed

section \<open>Properties\<close>


definition sample_request :: enqueue_request where
  "sample_request = \<lparr>rq_dispute_id = ''d1'', rq_override_id = 7, rq_wallet = ''GA'', rq_asset_pair = ''XLM/USDC'',
     rq_max_attempts = 2, rq_now = 0\<rparr>"

definition sample_queue :: queue where
  "sample_queue = enqueue_override_submission sample_request []"

lemma sample_queue_history: "queue_history sample_queue"
  unfolding sample_queue_def
  by (rule queue_history.step [OF queue_history.empty queue_step.enqueue]) (simp add: sample_request_def)


text \<open>
  C16: \<open>claim_next_due\<close> returns nothing only if no row is due; otherwise it takes the due row
  that is first by next attempt and id, marks exactly that row in flight, and until its lease
  of 300 seconds ends no other claim can take it.
\<close>

theorem claim_is_single_flight:
  assumes "queue_wf q"
  shows "(claim_next_due now q = (q, None) \<and> (\<forall>r\<in>set q. \<not> due now r)) \<or>
    (\<exists>job\<in>set q. due now job \<and> (\<forall>r\<in>set q. due now r \<longrightarrow> before job r) \<and>
       claim_next_due now q = (update_where (\<lambda>r. sub_id r = sub_id job) (leased now) q, Some job) \<and>
       (\<forall>now' q'' job'. now' < now + timedelta_seconds 300 \<longrightarrow>
          claim_next_due now' (update_where (\<lambda>r. sub_id r = sub_id job) (leased now) q) = (q'', Some job') \<longrightarrow>
          sub_id job' \<noteq> sub_id job))"
proof -
  have held: "sub_id job' \<noteq> sub_id job"
    if "job \<in> set q" "now' < now + timedelta_seconds 300"
      "claim_next_due now' (update_where (\<lambda>r. sub_id r = sub_id job) (leased now) q) = (q'', Some job')"
    for job now' q'' job'
  proof -
    let ?q = "update_where (\<lambda>r. sub_id r = sub_id job) (leased now) q"
    have wf: "queue_wf ?q" by (rule update_wf [OF assms]) simp_all
    have j: "job' \<in> set ?q" "due now' job'" using claim_spec [OF wf, of now'] that(3) by auto
    then show ?thesis using update_one_row [OF assms that(1) j(1)] that(2)
      by (auto simp: due_def leased_def lease_seconds_def)
  qed
  from claim_spec [OF assms, of now] show ?thesis
  proof (elim disjE bexE conjE)
    assume "claim_next_due now q = (q, None)" "\<forall>r\<in>set q. \<not> due now r"
    then show ?thesis by blast
  next
    fix job assume "job \<in> set q" "due now job" "\<forall>r\<in>set q. due now r \<longrightarrow> before job r"
      "claim_next_due now q = (update_where (\<lambda>r. sub_id r = sub_id job) (leased now) q, Some job)"
    with held [of job] show ?thesis by blast
  qed
qed

theorem claim_is_single_flight_witness:
  "queue_wf sample_queue \<and> (\<exists>job q'. claim_next_due 10 sample_queue = (q', Some job))"
proof -
  have wf: "queue_wf sample_queue" using history_inv [OF sample_queue_history] by (simp add: queue_inv_def)
  have "\<exists>r\<in>set sample_queue. due 10 r"
    by (simp add: sample_queue_def sample_request_def enqueue_override_submission_def due_def)
  with claim_is_single_flight [OF wf, of 10] wf show ?thesis by blast
qed



text \<open>
  \<open>_mark_retry\<close> has no guard on the status: a worker whose lease ran out and whose
  submission then fails reopens a row that another worker has meanwhile submitted, so the
  decision is published a second time.
\<close>

lemma stale_retry_reopens_submitted:
  assumes "r \<in> set q" "sub_id r = sub_id job" "sub_status_of r = Submitted" "sub_attempts job + 1 < sub_max_attempts job"
  shows "\<exists>r'\<in>set (fst (mark_retry now job e q)). sub_id r' = sub_id r \<and> sub_status_of r' = Pending \<and>
    due (now + timedelta_seconds (backoff_seconds (sub_attempts job + 1))) r'"
  using assms by (intro bexI [of _ "retried now job e r"])
    (auto simp: mark_retry_rows set_update_where retried_def due_def)

definition long_lived :: submission where
  "long_lived = (hd sample_queue)\<lparr>sub_max_attempts := 10\<rparr>"

lemma stale_retry_reopens_submitted_witness:
  "\<exists>r'\<in>set (fst (mark_retry 900 long_lived ''late'' [closed_row 600 ''ab'' (leased 400 long_lived)])).
     sub_status_of r' = Pending"
proof -
  have "sub_attempts long_lived + 1 < sub_max_attempts long_lived"
    by (simp add: long_lived_def sample_queue_def enqueue_override_submission_def)
  with stale_retry_reopens_submitted [of "closed_row 600 ''ab'' (leased 400 long_lived)"
      "[closed_row 600 ''ab'' (leased 400 long_lived)]" long_lived 900 "''late''"]
  show ?thesis by (auto simp: closed_row_def leased_def)
qed

text \<open>
  The idempotency key identifies the decision: two requests have the same key only if
  they name the same dispute and the same override, whatever characters the dispute id has.
\<close>

lemma override_key_injective:
  "override_idempotency_key d i = override_idempotency_key d' j \<longleftrightarrow> d = d' \<and> i = j"
proof
  assume "override_idempotency_key d i = override_idempotency_key d' j"
  then have "d @ CHR '':'' # show_int i = d' @ CHR '':'' # show_int j"
    by (simp add: override_idempotency_key_def)
  then show "d = d' \<and> i = j" using last_colon_split colon_notin_show show_int_inj by metis
qed simp

text \<open>
  The backoff never leaves the range from 5 seconds to one hour, never shrinks as attempts
  accumulate, and doubles from one attempt to the next until the cap.
\<close>

lemma backoff_bounds:
  "5 \<le> backoff_seconds n \<and> backoff_seconds n \<le> 3600 \<and> backoff_seconds n \<le> backoff_seconds (Suc n) \<and>
   (1 \<le> n \<longrightarrow> backoff_seconds (Suc n) = min (2 * backoff_seconds n) 3600)"
proof (cases n)
  case 0
  then show ?thesis by (simp add: backoff_seconds_def backoff_base_seconds_def backoff_cap_seconds_def)
next
  case (Suc m)
  have "(1::int) \<le> 2 ^ m" by simp
  then show ?thesis
    using Suc by (auto simp: backoff_seconds_def backoff_base_seconds_def backoff_cap_seconds_def min_def)
qed

end
