(* ===== verification/Audit_Log.thy ===== *)
theory Audit_Log
  imports Prelude Py_Text
begin

text \<open>
  The HMAC-chained audit log of \<open>packages/core/storage/audit_log.py\<close>: resolution of the signing
  secret, canonical JSON, appending, verification and the genesis row. HMAC-SHA256 is the
  parameter \<open>hmac\<close> (key, message, hexadecimal digest); \<open>json.dumps\<close> with sorted keys on the
  records the module builds is defined here, escapes included. Text is a string of
  characters below 256. A raised exception is \<open>Inl\<close>.
\<close>

section \<open>The signing secret\<close>

datatype read_outcome = File_Missing | File_Unreadable | File_Text string

record audit_env =
  env_audit_secret :: string
  env_environment :: string
  env_network :: string
  dev_file :: read_outcome
  dev_file_writable :: bool

datatype audit_error = Audit_Secret_Error | Integrity_Error

definition min_audit_secret_length :: nat where "min_audit_secret_length = 32"

definition is_production_environment :: "audit_env \<Rightarrow> bool" where
  "is_production_environment e =
     (if py_lower (py_strip (env_environment e)) \<in> {''production'', ''prod'', ''staging''} then True
      else py_lower (py_strip (env_network e)) = ''mainnet'')"

text \<open>\<open>token\<close> is the value \<open>secrets.token_urlsafe(48)\<close> would return now.\<close>

definition load_or_create_dev_secret :: "string \<Rightarrow> audit_env \<Rightarrow> audit_env \<times> string" where
  "load_or_create_dev_secret token e =
     (case dev_file e of
        File_Text t \<Rightarrow>
          if py_strip t \<noteq> [] then (e, py_strip t)
          else (if dev_file_writable e then e\<lparr>dev_file := File_Text token\<rparr> else e, token)
      | _ \<Rightarrow> (if dev_file_writable e then e\<lparr>dev_file := File_Text token\<rparr> else e, token))"

definition get_audit_secret :: "string \<Rightarrow> audit_env \<Rightarrow> audit_env \<times> (audit_error + string)" where
  "get_audit_secret token e =
     (let secret = py_strip (env_audit_secret e) in
      if secret \<noteq> [] then
        (if length secret < min_audit_secret_length then (e, Inl Audit_Secret_Error) else (e, Inr secret))
      else if is_production_environment e then (e, Inl Audit_Secret_Error)
      else (case load_or_create_dev_secret token e of (e', s) \<Rightarrow> (e', Inr s)))"

section \<open>Canonical JSON\<close>

record audit_record =
  a_timestamp :: string
  a_event_type :: string
  a_actor :: string
  a_wallet :: "string option"
  a_score :: "int option"
  a_prev_hash :: string

text \<open>Keys in sorted order, separators \<open>,\<close> and \<open>:\<close> without spaces.\<close>

definition canonical_json :: "audit_record \<Rightarrow> string" where
  "canonical_json r =
     CHR ''{'' # json_string ''actor'' @ '':'' @ json_string (a_actor r) @ '','' @
     json_string ''event_type'' @ '':'' @ json_string (a_event_type r) @ '','' @
     json_string ''prev_hash'' @ '':'' @ json_string (a_prev_hash r) @ '','' @
     json_string ''score'' @ '':'' @ json_opt show_int (a_score r) @ '','' @
     json_string ''timestamp'' @ '':'' @ json_string (a_timestamp r) @ '','' @
     json_string ''wallet'' @ '':'' @ json_opt json_string (a_wallet r) @ ''}''"

type_synonym hmac_lib = "string \<Rightarrow> string \<Rightarrow> string"

definition compute_entry_hash :: "hmac_lib \<Rightarrow> string \<Rightarrow> audit_record \<Rightarrow> string" where
  "compute_entry_hash hmac key r = hmac key (canonical_json r)"

section \<open>The log\<close>

record audit_row =
  row_id :: nat
  row_record :: audit_record
  row_entry_hash :: string

type_synonym audit_db = "audit_row list"

definition genesis_prev_hash :: string where "genesis_prev_hash = ''genesis''"

definition genesis_record :: "string \<Rightarrow> audit_record" where
  "genesis_record ts = \<lparr>a_timestamp = ts, a_event_type = ''genesis'', a_actor = ''system'', a_wallet = None,
     a_score = None, a_prev_hash = genesis_prev_hash\<rparr>"

definition insert_row :: "audit_record \<Rightarrow> string \<Rightarrow> audit_db \<Rightarrow> audit_error + audit_db" where
  "insert_row r h db =
     (if h \<in> row_entry_hash ` set db then Inl Integrity_Error
      else Inr (db @ [\<lparr>row_id = (if db = [] then 1 else row_id (last db) + 1), row_record = r, row_entry_hash = h\<rparr>]))"

definition init_audit_db :: "hmac_lib \<Rightarrow> string \<Rightarrow> string \<Rightarrow> audit_db \<Rightarrow> audit_error + audit_db" where
  "init_audit_db hmac key ts db =
     (if length db = 0
      then insert_row (genesis_record ts) (compute_entry_hash hmac key (genesis_record ts)) db
      else Inr db)"

record audit_event =
  ev_type :: string
  ev_actor :: string
  ev_wallet :: "string option"
  ev_score :: "int option"
  ev_timestamp :: string

definition entry_for :: "audit_event \<Rightarrow> audit_db \<Rightarrow> audit_record" where
  "entry_for ev db =
     \<lparr>a_timestamp = ev_timestamp ev, a_event_type = ev_type ev, a_actor = ev_actor ev, a_wallet = ev_wallet ev,
      a_score = ev_score ev,
      a_prev_hash = (if db = [] then genesis_prev_hash else row_entry_hash (last db))\<rparr>"

text \<open>\<open>append_entry\<close>; \<open>ts0\<close> is the clock when a genesis row has to be written.\<close>

definition append_entry ::
    "hmac_lib \<Rightarrow> string \<Rightarrow> string \<Rightarrow> audit_event \<Rightarrow> audit_db \<Rightarrow> audit_error + audit_db" where
  "append_entry hmac key ts0 ev db =
     (case init_audit_db hmac key ts0 db of
        Inl e \<Rightarrow> Inl e
      | Inr db1 \<Rightarrow> insert_row (entry_for ev db1) (compute_entry_hash hmac key (entry_for ev db1)) db1)"

definition log_score_computed ::
    "hmac_lib \<Rightarrow> string \<Rightarrow> string \<Rightarrow> string \<Rightarrow> string \<Rightarrow> int \<Rightarrow> string \<Rightarrow> audit_db \<Rightarrow> audit_error + audit_db" where
  "log_score_computed hmac key ts0 actor wallet score ts db =
     append_entry hmac key ts0 \<lparr>ev_type = ''score_computed'', ev_actor = actor, ev_wallet = Some wallet,
       ev_score = Some score, ev_timestamp = ts\<rparr> db"

definition log_plain :: "string \<Rightarrow> hmac_lib \<Rightarrow> string \<Rightarrow> string \<Rightarrow> string \<Rightarrow> string \<Rightarrow> audit_db \<Rightarrow> audit_error + audit_db" where
  "log_plain event_type hmac key ts0 actor ts db =
     append_entry hmac key ts0 \<lparr>ev_type = event_type, ev_actor = actor, ev_wallet = None,
       ev_score = None, ev_timestamp = ts\<rparr> db"

section \<open>Verification\<close>

datatype link_error = Hash_Mismatch nat string string | Bad_Genesis nat string | Broken_Link nat string string

record link_result =
  lr_id :: nat
  lr_entry_hash :: string
  lr_computed_hash :: string
  lr_prev_hash_ok :: bool
  lr_hash_ok :: bool
  lr_error :: "link_error option"

definition check_link :: "hmac_lib \<Rightarrow> string \<Rightarrow> string option \<Rightarrow> audit_row \<Rightarrow> link_result" where
  "check_link hmac key previous row =
     (let computed = compute_entry_hash hmac key (row_record row);
          prev = a_prev_hash (row_record row);
          res = \<lparr>lr_id = row_id row, lr_entry_hash = row_entry_hash row, lr_computed_hash = computed,
                 lr_prev_hash_ok = True, lr_hash_ok = True, lr_error = None\<rparr>;
          res1 = (if row_entry_hash row \<noteq> computed
                  then res\<lparr>lr_hash_ok := False,
                           lr_error := Some (Hash_Mismatch (row_id row) (row_entry_hash row) computed)\<rparr>
                  else res)
      in case previous of
           None \<Rightarrow>
             if prev \<noteq> genesis_prev_hash
             then res1\<lparr>lr_prev_hash_ok := False, lr_error := Some (Bad_Genesis (row_id row) prev)\<rparr> else res1
         | Some p \<Rightarrow>
             if prev \<noteq> p
             then res1\<lparr>lr_prev_hash_ok := False, lr_error := Some (Broken_Link (row_id row) prev p)\<rparr> else res1)"

fun check_links :: "hmac_lib \<Rightarrow> string \<Rightarrow> string option \<Rightarrow> audit_db \<Rightarrow> link_result list" where
  "check_links hmac key previous [] = []"
| "check_links hmac key previous (row # rows) =
     check_link hmac key previous row # check_links hmac key (Some (row_entry_hash row)) rows"

definition verify_chain :: "hmac_lib \<Rightarrow> string \<Rightarrow> string \<Rightarrow> audit_db \<Rightarrow> audit_error + link_result list" where
  "verify_chain hmac key ts0 db =
     (case init_audit_db hmac key ts0 db of
        Inl e \<Rightarrow> Inl e
      | Inr rows \<Rightarrow> Inr (check_links hmac key None rows))"

definition is_chain_intact :: "hmac_lib \<Rightarrow> string \<Rightarrow> string \<Rightarrow> audit_db \<Rightarrow> audit_error + bool" where
  "is_chain_intact hmac key ts0 db =
     (case verify_chain hmac key ts0 db of
        Inl e \<Rightarrow> Inl e | Inr rs \<Rightarrow> Inr (\<forall>r\<in>set rs. lr_error r = None))"

section \<open>Canonical JSON is injective\<close>

lemma canonical_json_inj: "canonical_json r = canonical_json r' \<Longrightarrow> r = r'"
  by (simp add: canonical_json_def json_string_eq json_score_eq json_wallet_eq)

section \<open>Linked rows\<close>

fun linked :: "hmac_lib \<Rightarrow> string \<Rightarrow> string \<Rightarrow> audit_db \<Rightarrow> bool" where
  "linked hmac key p [] = True"
| "linked hmac key p (r # rs) \<longleftrightarrow>
     row_entry_hash r = compute_entry_hash hmac key (row_record r) \<and> a_prev_hash (row_record r) = p \<and>
     linked hmac key (row_entry_hash r) rs"

lemma check_link_ok:
  "lr_error (check_link hmac key previous r) = None \<longleftrightarrow>
     row_entry_hash r = compute_entry_hash hmac key (row_record r) \<and>
     a_prev_hash (row_record r) = (case previous of None \<Rightarrow> genesis_prev_hash | Some p \<Rightarrow> p)"
  by (auto simp: check_link_def Let_def split: option.splits)

lemma check_links_ok:
  "(\<forall>x\<in>set (check_links hmac key previous rows). lr_error x = None) \<longleftrightarrow>
     linked hmac key (case previous of None \<Rightarrow> genesis_prev_hash | Some p \<Rightarrow> p) rows"
  by (induction rows arbitrary: previous) (auto simp: check_link_ok)

lemma linked_snoc:
  "linked hmac key p (rows @ [r]) \<longleftrightarrow> linked hmac key p rows \<and>
     row_entry_hash r = compute_entry_hash hmac key (row_record r) \<and>
     a_prev_hash (row_record r) = (if rows = [] then p else row_entry_hash (last rows))"
  by (induction rows arbitrary: p) auto

lemma insert_row_linked:
  assumes "linked hmac key genesis_prev_hash db" "insert_row r (compute_entry_hash hmac key r) db = Inr db'"
    and "a_prev_hash r = (if db = [] then genesis_prev_hash else row_entry_hash (last db))"
  shows "linked hmac key genesis_prev_hash db' \<and> db' \<noteq> []"
  using assms by (auto simp: insert_row_def linked_snoc split: if_splits)

lemma init_linked:
  "linked hmac key genesis_prev_hash db \<Longrightarrow> \<exists>db'. init_audit_db hmac key ts db = Inr db' \<and>
     linked hmac key genesis_prev_hash db' \<and> db' \<noteq> [] \<and> (db \<noteq> [] \<longrightarrow> db' = db)"
  by (auto simp: init_audit_db_def insert_row_def genesis_record_def compute_entry_hash_def)

lemma append_linked:
  assumes "linked hmac key genesis_prev_hash db" "append_entry hmac key ts ev db = Inr db'"
  shows "linked hmac key genesis_prev_hash db'"
proof -
  obtain db1 where db1: "init_audit_db hmac key ts db = Inr db1" "linked hmac key genesis_prev_hash db1"
    using init_linked [OF assms(1)] by blast
  then have ins: "insert_row (entry_for ev db1) (compute_entry_hash hmac key (entry_for ev db1)) db1 = Inr db'"
    using assms(2) by (simp add: append_entry_def)
  have "a_prev_hash (entry_for ev db1) = (if db1 = [] then genesis_prev_hash else row_entry_hash (last db1))"
    by (simp add: entry_for_def)
  then show ?thesis using insert_row_linked [OF db1(2) ins] by simp
qed

lemma intact_iff:
  "is_chain_intact hmac key ts0 db = Inr True \<longleftrightarrow> linked hmac key genesis_prev_hash db"
proof (cases "db = []")
  case True
  then show ?thesis
    using init_linked [of hmac key "[]" ts0] check_links_ok [of hmac key None]
    by (auto simp: is_chain_intact_def verify_chain_def)
next
  case False
  then have "init_audit_db hmac key ts0 db = Inr db" by (simp add: init_audit_db_def)
  then show ?thesis using check_links_ok [of hmac key None db] by (simp add: is_chain_intact_def verify_chain_def)
qed

lemma append_extends:
  "append_entry hmac key ts ev db = Inr db' \<Longrightarrow> \<exists>new. new \<noteq> [] \<and> db' = db @ new"
  by (auto simp: append_entry_def init_audit_db_def insert_row_def split: if_splits sum.splits)

lemma linked_determined:
  assumes inj: "\<And>m m'. hmac key m = hmac key m' \<Longrightarrow> m = m'" and fresh: "\<And>m. hmac key m \<noteq> genesis_prev_hash"
  shows "linked hmac key genesis_prev_hash xs \<Longrightarrow> linked hmac key genesis_prev_hash ys \<Longrightarrow> xs \<noteq> [] \<Longrightarrow> ys \<noteq> [] \<Longrightarrow>
    row_entry_hash (last xs) = row_entry_hash (last ys) \<Longrightarrow>
    map (\<lambda>r. (row_record r, row_entry_hash r)) xs = map (\<lambda>r. (row_record r, row_entry_hash r)) ys"
proof (induction xs arbitrary: ys rule: rev_induct)
  case (snoc x xs)
  obtain y ys' where ys: "ys = ys' @ [y]" using snoc.prems(4) by (metis rev_exhaust)
  have x: "linked hmac key genesis_prev_hash xs" "row_entry_hash x = compute_entry_hash hmac key (row_record x)"
    "a_prev_hash (row_record x) = (if xs = [] then genesis_prev_hash else row_entry_hash (last xs))"
    using snoc.prems(1) by (simp_all add: linked_snoc)
  have y: "linked hmac key genesis_prev_hash ys'" "row_entry_hash y = compute_entry_hash hmac key (row_record y)"
    "a_prev_hash (row_record y) = (if ys' = [] then genesis_prev_hash else row_entry_hash (last ys'))"
    using snoc.prems(2) by (simp_all add: linked_snoc ys)
  have h: "row_entry_hash x = row_entry_hash y" using snoc.prems(5) ys by simp
  then have rec: "row_record x = row_record y"
    using x(2) y(2) inj canonical_json_inj by (simp add: compute_entry_hash_def)
  have hashed: "row_entry_hash (last zs) \<noteq> genesis_prev_hash" if "linked hmac key genesis_prev_hash zs" "zs \<noteq> []" for zs
    using that fresh by (cases zs rule: rev_cases) (auto simp: linked_snoc compute_entry_hash_def)
  have "map (\<lambda>r. (row_record r, row_entry_hash r)) xs = map (\<lambda>r. (row_record r, row_entry_hash r)) ys'"
  proof (cases "xs = [] \<or> ys' = []")
    case True
    then have "xs = [] \<and> ys' = []"
      using x(3) y(3) rec hashed [OF x(1)] hashed [OF y(1)] by (auto split: if_splits)
    then show ?thesis by simp
  next
    case False
    then show ?thesis using snoc.IH [OF x(1) y(1)] x(3) y(3) rec by auto
  qed
  then show ?case using rec h ys by simp
qed simp

inductive audit_history :: "hmac_lib \<Rightarrow> string \<Rightarrow> audit_db \<Rightarrow> bool" for hmac key where
  empty: "audit_history hmac key []"
| init: "audit_history hmac key db \<Longrightarrow> init_audit_db hmac key ts db = Inr db' \<Longrightarrow> audit_history hmac key db'"
| append: "audit_history hmac key db \<Longrightarrow> append_entry hmac key ts ev db = Inr db' \<Longrightarrow> audit_history hmac key db'"

lemma audit_history_linked: "audit_history hmac key db \<Longrightarrow> linked hmac key genesis_prev_hash db"
proof (induction rule: audit_history.induct)
  case (init db ts db')
  then show ?case using init_linked [of hmac key db ts] by auto
next
  case (append db ts ev db')
  then show ?case using append_linked by blast
qed simp

section \<open>Properties\<close>


definition toy_hmac :: hmac_lib where
  "toy_hmac key m = ''#'' @ key @ m"

definition sample_event :: audit_event where
  "sample_event = \<lparr>ev_type = ''api_key_used'', ev_actor = ''ops'', ev_wallet = None, ev_score = None, ev_timestamp = ''t1''\<rparr>"



definition sample_db :: audit_db where
  "sample_db = [\<lparr>row_id = 1, row_record = genesis_record ''t0'',
     row_entry_hash = compute_entry_hash toy_hmac ''k'' (genesis_record ''t0'')\<rparr>]"


text \<open>
  Resolution of the signing secret. A production deployment never signs with a generated
  secret: it uses the configured one, of at least 32 characters, or raises. A development
  secret, once written, is the one later runs use, so a chain verifies across restarts.
\<close>

lemma audit_secret_resolution:
  "(is_production_environment e \<longrightarrow>
      (case snd (get_audit_secret token e) of
         Inl err \<Rightarrow> err = Audit_Secret_Error
       | Inr s \<Rightarrow> s = py_strip (env_audit_secret e) \<and> 32 \<le> length s)) \<and>
   (\<forall>e' s. get_audit_secret token e = (e', Inr s) \<and> dev_file_writable e \<and> py_strip token = token \<and> token \<noteq> [] \<longrightarrow>
      get_audit_secret token' e' = (e', Inr s))"
proof (intro conjI allI impI)
  show "case snd (get_audit_secret token e) of Inl err \<Rightarrow> err = Audit_Secret_Error
      | Inr s \<Rightarrow> s = py_strip (env_audit_secret e) \<and> 32 \<le> length s" if "is_production_environment e"
    using that by (simp add: get_audit_secret_def Let_def min_audit_secret_length_def)
next
  fix e' s assume a: "get_audit_secret token e = (e', Inr s) \<and> dev_file_writable e \<and> py_strip token = token \<and> token \<noteq> []"
  show "get_audit_secret token' e' = (e', Inr s)"
  proof (cases "py_strip (env_audit_secret e) = []")
    case False
    with a show ?thesis by (auto simp: get_audit_secret_def Let_def split: if_splits)
  next
    case True
    then have np: "\<not> is_production_environment e" and ld: "load_or_create_dev_secret token e = (e', s)"
      using a by (auto simp: get_audit_secret_def Let_def split: if_splits prod.splits)
    have e': "e' = e \<and> s \<noteq> [] \<and> (\<exists>t. dev_file e = File_Text t \<and> py_strip t = s) \<or> e' = e\<lparr>dev_file := File_Text token\<rparr> \<and> s = token"
      using ld a by (auto simp: load_or_create_dev_secret_def split: read_outcome.splits if_splits)
    have "is_production_environment e' = is_production_environment e" "env_audit_secret e' = env_audit_secret e"
      using e' by (auto simp: is_production_environment_def)
    moreover have "load_or_create_dev_secret token' e' = (e', s)"
      using e' a by (auto simp: load_or_create_dev_secret_def)
    ultimately show ?thesis using True np by (simp add: get_audit_secret_def Let_def)
  qed
qed

text \<open>
  Appending is not atomic. \<open>append_entry\<close> reads the last hash and inserts in a
  transaction that begins only with the insert; when a second writer reads before the first
  inserts, both inserts succeed (with fresh digests) and the chain no longer verifies, though
  nobody tampered with it.
\<close>

lemma concurrent_appends_break_chain:
  assumes "is_chain_intact hmac key ts0 db = Inr True" "db \<noteq> []"
    and "h1 = compute_entry_hash hmac key (entry_for ev1 db)" "h2 = compute_entry_hash hmac key (entry_for ev2 db)"
    and "h1 \<notin> row_entry_hash ` set db" "h2 \<notin> row_entry_hash ` set db" "h1 \<noteq> h2"
  shows "\<exists>db1 db2. append_entry hmac key ts0 ev1 db = Inr db1 \<and> insert_row (entry_for ev2 db) h2 db1 = Inr db2 \<and>
    is_chain_intact hmac key ts0 db2 = Inr False"
proof -
  have "last db \<in> set db" using assms(2) by simp
  then have fork: "row_entry_hash (last db) \<noteq> h1" using assms(5) by auto
  obtain db1 where db1: "append_entry hmac key ts0 ev1 db = Inr db1" "db1 \<noteq> []" "row_entry_hash (last db1) = h1"
      "h2 \<notin> row_entry_hash ` set db1"
    using assms(2-) by (auto simp: append_entry_def init_audit_db_def insert_row_def)
  then obtain db2 where db2: "insert_row (entry_for ev2 db) h2 db1 = Inr db2" by (auto simp: insert_row_def)
  have "\<not> linked hmac key genesis_prev_hash db2"
    using db1(2,3) db2 fork assms(2) by (auto simp: insert_row_def linked_snoc entry_for_def split: if_splits)
  then have "is_chain_intact hmac key ts0 db2 \<noteq> Inr True" by (simp add: intact_iff)
  moreover have "\<exists>b. is_chain_intact hmac key ts0 db2 = Inr b"
    using db2 by (auto simp: is_chain_intact_def verify_chain_def init_audit_db_def insert_row_def split: if_splits)
  ultimately show ?thesis using db1(1) db2 by auto
qed

lemma concurrent_appends_break_chain_witness:
  "\<exists>db1 db2. append_entry toy_hmac ''k'' ''t9'' sample_event sample_db = Inr db1 \<and>
     insert_row (entry_for (sample_event\<lparr>ev_actor := ''bob''\<rparr>) sample_db)
       (compute_entry_hash toy_hmac ''k'' (entry_for (sample_event\<lparr>ev_actor := ''bob''\<rparr>) sample_db)) db1 = Inr db2 \<and>
     is_chain_intact toy_hmac ''k'' ''t9'' db2 = Inr False"
proof (rule concurrent_appends_break_chain)
  have inj: "compute_entry_hash toy_hmac ''k'' r = compute_entry_hash toy_hmac ''k'' r' \<longleftrightarrow> r = r'" for r r'
    using canonical_json_inj by (auto simp: compute_entry_hash_def toy_hmac_def)
  show "is_chain_intact toy_hmac ''k'' ''t9'' sample_db = Inr True"
    by (simp add: intact_iff sample_db_def genesis_record_def)
  show "sample_db \<noteq> []" by (simp add: sample_db_def)
  show "compute_entry_hash toy_hmac ''k'' (entry_for sample_event sample_db) \<notin> row_entry_hash ` set sample_db"
    "compute_entry_hash toy_hmac ''k'' (entry_for (sample_event\<lparr>ev_actor := ''bob''\<rparr>) sample_db) \<notin> row_entry_hash ` set sample_db"
    "compute_entry_hash toy_hmac ''k'' (entry_for sample_event sample_db) \<noteq>
     compute_entry_hash toy_hmac ''k'' (entry_for (sample_event\<lparr>ev_actor := ''bob''\<rparr>) sample_db)"
    by (simp_all add: sample_db_def inj entry_for_def sample_event_def genesis_record_def)
qed (rule refl)+

end
