(* ===== verification/Rate_Limiter.thy ===== *)
theory Rate_Limiter
  imports Prelude
begin

text \<open>
  The rate limiting of \<open>packages/core/ingestion/rate_limiter.py\<close>: the token bucket, the
  backpressure controller and the adaptive rate controller. Every reading of
  \<open>time.monotonic()\<close> and of the queue size is an argument; floats are exact reals. A
  blocking loop takes the list of the readings it makes and is \<open>None\<close> while it is still
  waiting at their end.
\<close>

section \<open>Token bucket\<close>

definition min_rate :: real where "min_rate = 1 / 10"

record bucket =
  b_rate :: real
  b_capacity :: real
  b_tokens :: real
  b_last_refill :: seconds

definition new_bucket :: "real \<Rightarrow> real option \<Rightarrow> seconds \<Rightarrow> bucket option" where
  "new_bucket rate capacity now =
     (if rate \<le> 0 then None
      else let cap = (case capacity of None \<Rightarrow> rate * 2 | Some c \<Rightarrow> if c = 0 then rate * 2 else c)
           in Some \<lparr>b_rate = rate, b_capacity = cap, b_tokens = cap, b_last_refill = now\<rparr>)"

definition set_rate :: "real \<Rightarrow> bucket \<Rightarrow> bucket" where
  "set_rate new_rate b = b\<lparr>b_rate := max new_rate min_rate\<rparr>"

definition refill :: "seconds \<Rightarrow> bucket \<Rightarrow> bucket" where
  "refill now b =
     (let elapsed = now - b_last_refill b
      in b\<lparr>b_tokens := min (b_capacity b) (b_tokens b + elapsed * b_rate b), b_last_refill := now\<rparr>)"

definition bucket_level :: "seconds \<Rightarrow> bucket \<Rightarrow> real \<times> bucket" where
  "bucket_level now b = (let b' = refill now b in (b_tokens b', b'))"

definition try_acquire :: "seconds \<Rightarrow> bucket \<Rightarrow> bool \<times> bucket" where
  "try_acquire now b =
     (let b' = refill now b in
      if 1 \<le> b_tokens b' then (True, b'\<lparr>b_tokens := b_tokens b' - 1\<rparr>) else (False, b'))"

definition sleep_time :: "real \<Rightarrow> bucket \<Rightarrow> seconds" where
  "sleep_time cap b = min (1 / max (b_rate b) min_rate) cap"

text \<open>
  \<open>acquire\<close>: each round reads the clock for the attempt and, if it failed, for the deadline.
\<close>

fun acquire :: "seconds option \<Rightarrow> (seconds \<times> seconds) list \<Rightarrow> bucket \<Rightarrow> (bool \<times> bucket) option" where
  "acquire deadline [] b = None"
| "acquire deadline ((t, t') # rounds) b =
     (case try_acquire t b of
        (True, b') \<Rightarrow> Some (True, b')
      | (False, b') \<Rightarrow>
          if (case deadline of None \<Rightarrow> False | Some d \<Rightarrow> d < t') then Some (False, b')
          else acquire deadline rounds b')"

fun async_acquire :: "seconds list \<Rightarrow> bucket \<Rightarrow> bucket option" where
  "async_acquire [] b = None"
| "async_acquire (t # ts) b =
     (case try_acquire t b of (True, b') \<Rightarrow> Some b' | (False, b') \<Rightarrow> async_acquire ts b')"

section \<open>Backpressure\<close>

record backpressure =
  bp_high :: int
  bp_low :: int
  bp_paused :: bool

text \<open>
  \<open>check_and_wait\<close>: the first reading of the queue size decides whether to engage, the
  others are those of the drain loop.
\<close>

definition engage :: "int \<Rightarrow> backpressure \<Rightarrow> backpressure" where
  "engage qsize c = (if \<not> bp_paused c \<and> bp_high c \<le> qsize then c\<lparr>bp_paused := True\<rparr> else c)"

fun drain :: "int list \<Rightarrow> backpressure \<Rightarrow> backpressure option" where
  "drain [] c = None"
| "drain (qsize # qsizes) c = (if bp_low c < qsize then drain qsizes c else Some (c\<lparr>bp_paused := False\<rparr>))"

definition check_and_wait :: "int \<Rightarrow> int list \<Rightarrow> backpressure \<Rightarrow> backpressure option" where
  "check_and_wait qsize qsizes c =
     (let c' = engage qsize c in if bp_paused c' then drain qsizes c' else Some c')"

section \<open>Adaptive rate\<close>

record adaptive =
  ad_bucket :: bucket
  ad_configured_rate :: real
  ad_restore_seconds :: seconds
  ad_last_429 :: "seconds option"

definition on_429 :: "seconds \<Rightarrow> adaptive \<Rightarrow> adaptive" where
  "on_429 now a = a\<lparr>ad_bucket := set_rate (b_rate (ad_bucket a) / 2) (ad_bucket a), ad_last_429 := Some now\<rparr>"

definition tick :: "seconds \<Rightarrow> adaptive \<Rightarrow> adaptive" where
  "tick now a =
     (case ad_last_429 a of
        None \<Rightarrow> a
      | Some t \<Rightarrow>
          if ad_restore_seconds a \<le> now - t
          then a\<lparr>ad_bucket := set_rate (ad_configured_rate a) (ad_bucket a), ad_last_429 := None\<rparr>
          else let r = b_rate (ad_bucket a);
                   step = (ad_configured_rate a - r) * (1 / ad_restore_seconds a)
               in a\<lparr>ad_bucket := set_rate (r + step) (ad_bucket a)\<rparr>)"

section \<open>Lemmas\<close>

text \<open>What callers do to a bucket, each with its clock reading.\<close>

datatype bucket_op = Try seconds | Level seconds | Rate real

fun op_time :: "bucket_op \<Rightarrow> seconds option" where
  "op_time (Try t) = Some t" | "op_time (Level t) = Some t" | "op_time (Rate r) = None"

fun run_op :: "bucket_op \<Rightarrow> nat \<times> bucket \<Rightarrow> nat \<times> bucket" where
  "run_op (Try t) (n, b) = (case try_acquire t b of (ok, b') \<Rightarrow> (if ok then Suc n else n, b'))"
| "run_op (Level t) (n, b) = (n, snd (bucket_level t b))"
| "run_op (Rate r) (n, b) = (n, set_rate r b)"

text \<open>The readings of a monotonic clock from \<open>t0\<close> on.\<close>

definition monotonic :: "seconds \<Rightarrow> bucket_op list \<Rightarrow> bool" where
  "monotonic t0 ops \<longleftrightarrow> sorted (t0 # List.map_filter op_time ops)"

definition bucket_wf :: "bucket \<Rightarrow> bool" where
  "bucket_wf b \<longleftrightarrow> 0 < b_rate b \<and> 0 \<le> b_tokens b \<and> b_tokens b \<le> b_capacity b"

lemma refill_wf [wf_intros]: "bucket_wf b \<Longrightarrow> b_last_refill b \<le> now \<Longrightarrow> bucket_wf (refill now b)"
  by (auto simp: bucket_wf_def refill_def Let_def min_def)

lemma refill_gain:
  assumes "bucket_wf b" "b_last_refill b \<le> now" "b_rate b \<le> R"
  shows "b_tokens (refill now b) \<le> b_tokens b + R * (now - b_last_refill b)"
proof -
  have "(now - b_last_refill b) * b_rate b \<le> R * (now - b_last_refill b)"
    using assms(2,3) by (simp add: mult.commute mult_right_mono)
  then show ?thesis by (simp add: refill_def Let_def min_def)
qed

lemma refill_frame [simp]:
  "b_rate (refill now b) = b_rate b" "b_capacity (refill now b) = b_capacity b" "b_last_refill (refill now b) = now"
  by (simp_all add: refill_def Let_def)

lemma set_rate_frame [simp]:
  "b_tokens (set_rate r b) = b_tokens b" "b_capacity (set_rate r b) = b_capacity b"
  "b_last_refill (set_rate r b) = b_last_refill b" "b_rate (set_rate r b) = max r min_rate"
  by (simp_all add: set_rate_def)

lemma set_rate_wf [wf_intros]: "bucket_wf b \<Longrightarrow> bucket_wf (set_rate r b)"
  by (auto simp: bucket_wf_def min_rate_def)

lemma try_acquire_facts:
  assumes "bucket_wf b" "b_last_refill b \<le> now" "b_rate b \<le> R" "try_acquire now b = (ok, b')"
  shows "bucket_wf b' \<and> b_rate b' = b_rate b \<and> b_capacity b' = b_capacity b \<and> b_last_refill b' = now \<and>
    b_tokens b' + (if ok then 1 else 0) \<le> b_tokens b + R * (now - b_last_refill b)"
  using refill_wf [OF assms(1,2)] refill_gain [OF assms(1-3)] assms(4)
  by (auto simp: try_acquire_def Let_def bucket_wf_def split: if_splits)

lemma run_ops_bound:
  assumes "bucket_wf b" "b_rate b \<le> R" "min_rate \<le> R" "\<forall>r. Rate r \<in> set ops \<longrightarrow> r \<le> R" "monotonic (b_last_refill b) ops"
    and "fold run_op ops (n, b) = (n', b')"
  shows "bucket_wf b' \<and> b_capacity b' = b_capacity b \<and> b_last_refill b \<le> b_last_refill b' \<and>
    real n' + b_tokens b' \<le> real n + b_tokens b + R * (b_last_refill b' - b_last_refill b)"
  using assms
proof (induction ops arbitrary: n b)
  case (Cons x ops)
  obtain n1 b1 where st: "run_op x (n, b) = (n1, b1)" by fastforce
  have mono: "monotonic (b_last_refill b1) ops" and
    one: "bucket_wf b1 \<and> b_rate b1 \<le> R \<and> b_capacity b1 = b_capacity b \<and> b_last_refill b \<le> b_last_refill b1 \<and>
      real n1 + b_tokens b1 \<le> real n + b_tokens b + R * (b_last_refill b1 - b_last_refill b)"
  proof -
    consider t where "x = Try t" | t where "x = Level t" | r where "x = Rate r" by (cases x)
    then have "monotonic (b_last_refill b1) ops \<and> bucket_wf b1 \<and> b_rate b1 \<le> R \<and> b_capacity b1 = b_capacity b \<and>
      b_last_refill b \<le> b_last_refill b1 \<and>
      real n1 + b_tokens b1 \<le> real n + b_tokens b + R * (b_last_refill b1 - b_last_refill b)"
    proof cases
      case (1 t)
      have t: "b_last_refill b \<le> t" "sorted (t # List.map_filter op_time ops)"
        using Cons.prems(5) 1 by (auto simp: monotonic_def List.map_filter_simps)
      obtain ok b' where r: "try_acquire t b = (ok, b')" by fastforce
      note try_acquire_facts [OF Cons.prems(1) t(1) Cons.prems(2) r]
      then show ?thesis using 1 st r t Cons.prems(2) by (auto simp: monotonic_def)
    next
      case (2 t)
      have t: "b_last_refill b \<le> t" "sorted (t # List.map_filter op_time ops)"
        using Cons.prems(5) 2 by (auto simp: monotonic_def List.map_filter_simps)
      then show ?thesis
        using 2 st refill_wf [OF Cons.prems(1) t(1)] refill_gain [OF Cons.prems(1) t(1) Cons.prems(2)] Cons.prems(2)
        by (auto simp: monotonic_def bucket_level_def Let_def)
    next
      case (3 r)
      then show ?thesis
        using st Cons.prems set_rate_wf [OF Cons.prems(1)] by (auto simp: monotonic_def List.map_filter_simps)
    qed
    then show "monotonic (b_last_refill b1) ops" and
      "bucket_wf b1 \<and> b_rate b1 \<le> R \<and> b_capacity b1 = b_capacity b \<and> b_last_refill b \<le> b_last_refill b1 \<and>
      real n1 + b_tokens b1 \<le> real n + b_tokens b + R * (b_last_refill b1 - b_last_refill b)" by auto
  qed
  have "bucket_wf b' \<and> b_capacity b' = b_capacity b1 \<and> b_last_refill b1 \<le> b_last_refill b' \<and>
    real n' + b_tokens b' \<le> real n1 + b_tokens b1 + R * (b_last_refill b' - b_last_refill b1)"
    by (rule Cons.IH [of b1 n1]) (use one mono Cons.prems st in auto)
  then show ?case using one by (auto simp: algebra_simps)
qed simp

lemma failed_attempts_accumulate:
  assumes "bucket_wf b" "1 \<le> b_capacity b" "sorted (b_last_refill b # ts)" "async_acquire ts b = None"
  shows "ts = [] \<or> b_tokens b + (last ts - b_last_refill b) * b_rate b < 1"
  using assms
proof (induction ts arbitrary: b)
  case (Cons t ts)
  obtain ok b' where st: "try_acquire t b = (ok, b')" by fastforce
  have t: "b_last_refill b \<le> t" using Cons.prems(3) by simp
  have nok: "\<not> ok" and rest: "async_acquire ts b' = None"
    using Cons.prems(4) st by (cases ok; simp)+
  have b': "b' = refill t b" "b_tokens b' < 1"
    using st nok by (auto simp: try_acquire_def Let_def split: if_splits)
  have tok: "b_tokens b' = b_tokens b + (t - b_last_refill b) * b_rate b"
    using b' Cons.prems(2) by (auto simp: refill_def Let_def min_def split: if_splits)
  have "ts = [] \<or> b_tokens b' + (last ts - b_last_refill b') * b_rate b' < 1"
    by (rule Cons.IH) (use refill_wf [OF Cons.prems(1) t] b' Cons.prems rest in auto)
  then show ?case using tok b' by (auto simp: algebra_simps)
qed simp

lemma starved:
  assumes "b_capacity b < 1"
  shows "fst (try_acquire now b) = False \<and> b_capacity (snd (try_acquire now b)) = b_capacity b"
  using assms by (auto simp: try_acquire_def Let_def refill_def)

datatype rate_event = Got_429 seconds | Tick seconds

fun rate_step :: "rate_event \<Rightarrow> adaptive \<Rightarrow> adaptive" where
  "rate_step (Got_429 t) a = on_429 t a"
| "rate_step (Tick t) a = tick t a"

definition adaptive_wf :: "adaptive \<Rightarrow> bool" where
  "adaptive_wf a \<longleftrightarrow> 1 \<le> ad_restore_seconds a \<and> min_rate \<le> b_rate (ad_bucket a) \<and>
     b_rate (ad_bucket a) \<le> ad_configured_rate a"

lemma rate_step_wf [wf_intros]:
  assumes "adaptive_wf a"
  shows "adaptive_wf (rate_step e a) \<and> ad_configured_rate (rate_step e a) = ad_configured_rate a"
proof (cases e)
  case (Got_429 t)
  then show ?thesis using assms by (auto simp: adaptive_wf_def on_429_def min_rate_def)
next
  case (Tick t)
  let ?r = "b_rate (ad_bucket a)" and ?c = "ad_configured_rate a" and ?w = "ad_restore_seconds a"
  have "0 \<le> ?c - ?r" "1 / ?w \<le> 1" using assms by (simp_all add: adaptive_wf_def)
  then have "(?c - ?r) * (1 / ?w) \<le> ?c - ?r" by (rule mult_left_le [rotated])
  then have "?r + (?c - ?r) * (1 / ?w) \<le> ?c" by simp
  then show ?thesis using assms Tick
    by (auto simp: adaptive_wf_def tick_def Let_def min_rate_def max_def split: option.splits)
qed

section \<open>Properties\<close>

text \<open>
  C35: the bucket enforces its rate. Over any sequence of attempts, level readings and rate
  changes on a monotonic clock, with rates at most \<open>R\<close>, the number of tokens granted is at
  most the tokens at the start plus \<open>R\<close> times the elapsed time, hence at most the capacity
  plus that; and the level stays between zero and the capacity.
\<close>

theorem token_bucket_rate_bound:
  assumes "bucket_wf b" "b_rate b \<le> R" "min_rate \<le> R" "\<forall>r. Rate r \<in> set ops \<longrightarrow> r \<le> R" "monotonic (b_last_refill b) ops"
    and "fold run_op ops (0, b) = (granted, b')"
  shows "real granted \<le> b_tokens b + R * (b_last_refill b' - b_last_refill b) \<and>
    real granted \<le> b_capacity b + R * (b_last_refill b' - b_last_refill b) \<and>
    0 \<le> b_tokens b' \<and> b_tokens b' \<le> b_capacity b"
  using run_ops_bound [OF assms] assms(1) by (auto simp: bucket_wf_def)

definition sample_bucket :: bucket where
  "sample_bucket = \<lparr>b_rate = 1, b_capacity = 2, b_tokens = 2, b_last_refill = 0\<rparr>"

theorem token_bucket_rate_bound_witness:
  "\<exists>granted b'. fold run_op [Try 0, Try 0, Try 0, Rate (1 / 2), Try 1] (0, sample_bucket) = (granted, b') \<and>
     real granted \<le> 2 + 1 * (b_last_refill b' - 0)"
proof -
  let ?ops = "[Try 0, Try 0, Try 0, Rate (1 / 2), Try 1]"
  obtain n b' where run: "fold run_op ?ops (0, sample_bucket) = (n, b')" by (metis surj_pair)
  have "real n \<le> b_capacity sample_bucket + 1 * (b_last_refill b' - b_last_refill sample_bucket)"
    using token_bucket_rate_bound [OF _ _ _ _ _ run, of 1]
    by (simp add: sample_bucket_def bucket_wf_def min_rate_def monotonic_def List.map_filter_simps)
  with run show ?thesis by (auto simp: sample_bucket_def)
qed

text \<open>
  With room for one token, waiting ends: an asynchronous acquire whose attempts reach
  a time by which \<open>1 - tokens\<close> tokens have been refilled has returned by then.
\<close>

lemma async_acquire_returns:
  assumes "bucket_wf b" "1 \<le> b_capacity b" "sorted (b_last_refill b # ts)" "ts \<noteq> []"
    and "b_last_refill b + (1 - b_tokens b) / b_rate b \<le> last ts"
  shows "\<exists>b'. async_acquire ts b = Some b'"
proof (rule ccontr)
  assume "\<nexists>b'. async_acquire ts b = Some b'"
  then have "b_tokens b + (last ts - b_last_refill b) * b_rate b < 1"
    using failed_attempts_accumulate [OF assms(1-3)] assms(4) by auto
  moreover have "0 < b_rate b" using assms(1) by (simp add: bucket_wf_def)
  then have "1 - b_tokens b \<le> (last ts - b_last_refill b) * b_rate b"
    using assms(5) by (simp add: pos_divide_le_eq [symmetric])
  ultimately show False by simp
qed

lemma async_acquire_returns_witness:
  "\<exists>b'. async_acquire [1 / 2, 1] (sample_bucket\<lparr>b_tokens := 0\<rparr>) = Some b'"
  by (rule async_acquire_returns) (simp_all add: sample_bucket_def bucket_wf_def)

text \<open>
  A bucket whose capacity is below one token never grants any, so \<open>acquire\<close> without a
  timeout waits for ever; the default capacity of twice the rate is such a capacity for
  every rate below one half.
\<close>

lemma small_capacity_starves:
  "(\<forall>rate now. 0 < rate \<and> rate < 1 / 2 \<longrightarrow> (\<exists>b. new_bucket rate None now = Some b \<and> b_capacity b < 1)) \<and>
   (\<forall>b rounds. b_capacity b < 1 \<longrightarrow> acquire None rounds b = None)"
proof -
  have "acquire None rounds b = None" if "b_capacity b < 1" for b rounds
    using that
  proof (induction rounds arbitrary: b)
    case (Cons x rounds)
    obtain t t' where x: "x = (t, t')" by (cases x)
    obtain ok b' where st: "try_acquire t b = (ok, b')" by fastforce
    then have "\<not> ok" "b_capacity b' < 1" using starved [OF Cons.prems, of t] Cons.prems by auto
    then show ?case using Cons.IH x st by simp
  qed simp
  then show ?thesis by (auto simp: new_bucket_def Let_def)
qed

lemma small_capacity_starves_witness:
  "\<exists>b. new_bucket (3 / 10) None 0 = Some b \<and> b_capacity b < 1"
proof -
  have "0 < (3 / 10 :: real) \<and> (3 / 10 :: real) < 1 / 2" by simp
  with small_capacity_starves show ?thesis by blast
qed

text \<open>
  Under any sequence of HTTP 429 responses and ticks the adaptive controller keeps the
  bucket's rate between the minimum and the configured rate (with a restore window of at
  least a second), and a tick after the window restores the configured rate exactly.
\<close>

lemma adaptive_rate_bounds:
  assumes "adaptive_wf a"
  shows "min_rate \<le> b_rate (ad_bucket (fold rate_step evs a)) \<and>
    b_rate (ad_bucket (fold rate_step evs a)) \<le> ad_configured_rate a \<and>
    (\<forall>t now. ad_last_429 (fold rate_step evs a) = Some t \<and> ad_restore_seconds (fold rate_step evs a) \<le> now - t \<longrightarrow>
       b_rate (ad_bucket (tick now (fold rate_step evs a))) = ad_configured_rate a)"
proof -
  have inv: "adaptive_wf (fold rate_step evs a) \<and> ad_configured_rate (fold rate_step evs a) = ad_configured_rate a"
    using assms
  proof (induction evs arbitrary: a)
    case (Cons e evs)
    then show ?case using rate_step_wf [OF Cons.prems, of e] by simp
  qed simp
  then show ?thesis by (auto simp: adaptive_wf_def tick_def max_def)
qed

end
