(* ===== verification/Key_Limiter.thy ===== *)
theory Key_Limiter
  imports Circuit_Breaker Py_Text
begin

text \<open>
  The per-key rate limiter of the API, \<open>packages/core/detection/rate_limiter.py\<close>: the sliding-window
  counter that runs as a script inside Redis, the local sliding-window log it falls back to, and
  the choice between them behind the circuit breaker of \<open>Circuit_Breaker\<close>.

  Redis is a parameter: a record of the three commands the script uses, on a server state of any
  type, each with the server's clock. \<open>redis_documented\<close> states what Redis documents of them,
  through the value and expiry a key has. A call may be answered, may be executed with the
  answer lost (the client's timeout), or may not reach the server; the last two raise. The
  window is at least one second (the script divides by its whole seconds). Metrics and log
  messages are left out.
\<close>

section \<open>The script\<close>

record 'r redis_lib =
  redis_get :: "real \<Rightarrow> string \<Rightarrow> 'r \<Rightarrow> int option"
  redis_incr :: "real \<Rightarrow> string \<Rightarrow> 'r \<Rightarrow> int \<times> 'r"
  redis_expire :: "real \<Rightarrow> string \<Rightarrow> int \<Rightarrow> 'r \<Rightarrow> 'r"

definition bucket_of :: "real \<Rightarrow> real \<Rightarrow> int" where
  "bucket_of window_seconds now = \<lfloor>now / window_seconds\<rfloor>"

definition bucket_key :: "string \<Rightarrow> int \<Rightarrow> string" where
  "bucket_key key_id bucket = ''ll:ratelimit:{'' @ key_id @ ''}:'' @ show_int bucket"

definition bucket_keys :: "string \<Rightarrow> real \<Rightarrow> real \<Rightarrow> string \<times> string" where
  "bucket_keys key_id window_seconds now =
     (let bucket = bucket_of window_seconds now
      in (bucket_key key_id bucket, bucket_key key_id (bucket - 1)))"

definition sliding_window_script ::
  "'r redis_lib \<Rightarrow> real \<Rightarrow> string \<times> string \<Rightarrow> int \<Rightarrow> int \<Rightarrow> real \<Rightarrow> 'r \<Rightarrow> (int \<times> int) \<times> 'r" where
  "sliding_window_script lib server keys limit window now r =
     (let elapsed = now - of_int window * of_int \<lfloor>now / of_int window\<rfloor>;
          weight = (of_int window - elapsed) / of_int window;
          prev = (case redis_get lib server (snd keys) r of None \<Rightarrow> 0 | Some v \<Rightarrow> v);
          curr = (case redis_get lib server (fst keys) r of None \<Rightarrow> 0 | Some v \<Rightarrow> v);
          estimated = of_int prev * weight + of_int curr
      in if of_int limit \<le> estimated then ((0, \<lfloor>of_int window - elapsed\<rfloor> + 1), r)
         else let (newval, r1) = redis_incr lib server (fst keys) r;
                  r2 = (if newval = 1 then redis_expire lib server (fst keys) (window * 2) r1 else r1)
              in ((1, 0), r2))"

section \<open>The limiter\<close>

record limiter =
  lm_redis_url :: "string option"
  lm_quota_store :: string
  lm_using_redis :: bool
  lm_local_windows :: "(string, real list) dict"
  lm_circuit :: core_breaker

definition rate_limiter_failure_threshold :: int where
  "rate_limiter_failure_threshold = 3"

definition rate_limiter_recovery_timeout :: seconds where
  "rate_limiter_recovery_timeout = 15"

text \<open>
  \<open>redis_url\<close> and \<open>quota_store\<close> are the arguments of the constructor, the next two arguments the
  settings, and \<open>connects\<close> tells whether connecting, the ping and the registration of the
  script succeed.
\<close>

definition new_limiter ::
  "string option \<Rightarrow> string option \<Rightarrow> string option \<Rightarrow> string \<Rightarrow> bool \<Rightarrow> limiter" where
  "new_limiter redis_url quota_store settings_url settings_store connects =
     (let url = (case redis_url of Some u \<Rightarrow> if u = [] then settings_url else Some u | None \<Rightarrow> settings_url);
          store = py_lower (case quota_store of Some s \<Rightarrow> if s = [] then settings_store else s
                                              | None \<Rightarrow> settings_store)
      in \<lparr>lm_redis_url = url, lm_quota_store = store,
          lm_using_redis = (store = ''redis'' \<and> url \<noteq> None \<and> url \<noteq> Some [] \<and> connects),
          lm_local_windows = [],
          lm_circuit = new_core_breaker ''rate_limiter_redis'' rate_limiter_failure_threshold
                         rate_limiter_recovery_timeout True True\<rparr>)"

definition limiter_circuit_state :: "seconds \<Rightarrow> limiter \<Rightarrow> circuit_state \<times> limiter" where
  "limiter_circuit_state now lm =
     (let (st, b) = core_state now (lm_circuit lm) in (st, lm\<lparr>lm_circuit := b\<rparr>))"

definition redis_available :: "seconds \<Rightarrow> limiter \<Rightarrow> bool \<times> limiter" where
  "redis_available now lm =
     (if lm_using_redis lm
      then (let (allowed, b) = allow_request now (lm_circuit lm) in (allowed, lm\<lparr>lm_circuit := b\<rparr>))
      else (False, lm))"

text \<open>\<open>int\<close> of a float truncates towards zero.\<close>

definition py_trunc :: "real \<Rightarrow> int" where
  "py_trunc x = (if 0 \<le> x then \<lfloor>x\<rfloor> else \<lceil>x\<rceil>)"

definition check_local ::
  "string \<Rightarrow> int \<Rightarrow> real \<Rightarrow> seconds \<Rightarrow> limiter \<Rightarrow> (bool \<times> int) \<times> limiter" where
  "check_local key_id limit window_seconds now lm =
     (let cutoff = now - window_seconds;
          stored = (case dict_get (lm_local_windows lm) key_id of None \<Rightarrow> [] | Some ts \<Rightarrow> ts);
          timestamps = filter (\<lambda>t. cutoff < t) stored
      in if limit \<le> int (length timestamps)
         then ((False, py_trunc (window_seconds - (now - timestamps ! 0)) + 1),
               lm\<lparr>lm_local_windows := dict_set key_id timestamps (lm_local_windows lm)\<rparr>)
         else ((True, 0),
               lm\<lparr>lm_local_windows := dict_set key_id (timestamps @ [now]) (lm_local_windows lm)\<rparr>))"

record check_env =
  ce_allow_at :: seconds
  ce_wall :: real
  ce_server :: real
  ce_outcome :: call_outcome
  ce_failed_at :: seconds
  ce_local_at :: seconds

definition note_outcome :: "bool \<Rightarrow> seconds \<Rightarrow> limiter \<Rightarrow> limiter" where
  "note_outcome ok now lm =
     lm\<lparr>lm_circuit := (if ok then record_success (lm_circuit lm) else record_failure now (lm_circuit lm))\<rparr>"

definition check ::
  "'r redis_lib \<Rightarrow> check_env \<Rightarrow> string \<Rightarrow> int \<Rightarrow> real \<Rightarrow> limiter \<Rightarrow> 'r
    \<Rightarrow> (bool \<times> int) \<times> limiter \<times> 'r" where
  "check lib env key_id limit window_seconds lm r =
     (if limit \<le> 0 then ((True, 0), lm, r)
      else let (available, lm1) = redis_available (ce_allow_at env) lm;
               (answer, r1) = sliding_window_script lib (ce_server env)
                  (bucket_keys key_id window_seconds (ce_wall env)) limit (py_trunc window_seconds) (ce_wall env) r;
               fallback = (\<lambda>lm'. check_local key_id limit window_seconds (ce_local_at env) lm');
               failed = note_outcome False (ce_failed_at env) lm1
           in if available then
                (case ce_outcome env of
                   Answered \<Rightarrow> ((fst answer \<noteq> 0, snd answer), note_outcome True (ce_failed_at env) lm1, r1)
                 | Answer_Lost \<Rightarrow> (let (res, lm2) = fallback failed in (res, lm2, r1))
                 | Unreached \<Rightarrow> (let (res, lm2) = fallback failed in (res, lm2, r)))
              else (let (res, lm2) = fallback lm1 in (res, lm2, r)))"

text \<open>The process-wide singleton: created on first use, dropped by \<open>reset_rate_limiter\<close>.\<close>

definition get_rate_limiter :: "limiter \<Rightarrow> limiter option \<Rightarrow> limiter \<times> limiter option" where
  "get_rate_limiter fresh slot = (case slot of None \<Rightarrow> (fresh, Some fresh) | Some lm \<Rightarrow> (lm, slot))"

definition reset_rate_limiter :: "limiter option \<Rightarrow> limiter option" where
  "reset_rate_limiter slot = None"

definition check_rate_limit ::
  "'r redis_lib \<Rightarrow> check_env \<Rightarrow> limiter \<Rightarrow> string \<Rightarrow> int \<Rightarrow> real \<Rightarrow> limiter option \<Rightarrow> 'r
    \<Rightarrow> (bool \<times> int) \<times> limiter option \<times> 'r" where
  "check_rate_limit lib env fresh key_id limit window_seconds slot r =
     (let (lm, slot') = get_rate_limiter fresh slot;
          (res, lm', r') = check lib env key_id limit window_seconds lm r
      in (res, map_option (\<lambda>_. lm') slot', r'))"

section \<open>What Redis documents\<close>

definition redis_alive :: "real \<Rightarrow> (int \<times> real option) option \<Rightarrow> int option" where
  "redis_alive now entry =
     (case entry of None \<Rightarrow> None
      | Some (v, expiry) \<Rightarrow> (case expiry of None \<Rightarrow> Some v | Some e \<Rightarrow> if now < e then Some v else None))"

definition redis_documented :: "'r redis_lib \<Rightarrow> ('r \<Rightarrow> string \<Rightarrow> (int \<times> real option) option) \<Rightarrow> bool" where
  "redis_documented lib view \<longleftrightarrow>
     (\<forall>t k r. redis_get lib t k r = redis_alive t (view r k)) \<and>
     (\<forall>t k r. (case redis_incr lib t k r of (v, r') \<Rightarrow>
        (case redis_alive t (view r k) of
           None \<Rightarrow> v = 1 \<and> view r' = (view r)(k \<mapsto> (1, None))
         | Some v0 \<Rightarrow> v = v0 + 1 \<and> view r' = (view r)(k \<mapsto> (v0 + 1, snd (the (view r k))))))) \<and>
     (\<forall>t k d r. redis_alive t (view r k) \<noteq> None \<longrightarrow>
        view (redis_expire lib t k d r) = (view r)(k \<mapsto> (fst (the (view r k)), Some (t + of_int d))))"

lemma redis_incr_law:
  assumes "redis_documented lib view" "redis_incr lib t k r = (v, r')"
  shows "case redis_alive t (view r k) of
      None \<Rightarrow> v = 1 \<and> view r' = (view r)(k \<mapsto> (1, None))
    | Some v0 \<Rightarrow> v = v0 + 1 \<and> view r' = (view r)(k \<mapsto> (v0 + 1, snd (the (view r k))))"
  using assms(1) [unfolded redis_documented_def, THEN conjunct2, THEN conjunct1, THEN spec [of _ t],
    THEN spec [of _ k], THEN spec [of _ r]]
  by (simp only: assms(2) case_prod_conv)

section \<open>The script bounds the requests of a bucket\<close>

record hit =
  hit_key :: string
  hit_server :: real
  hit_wall :: real

definition hit_bucket :: "int \<Rightarrow> hit \<Rightarrow> int" where
  "hit_bucket w h = bucket_of (of_int w) (hit_wall h)"

text \<open>One request of some replica: the script runs with the keys that replica computes.\<close>

definition run_hit :: "'r redis_lib \<Rightarrow> (string \<Rightarrow> int) \<Rightarrow> int \<Rightarrow> hit \<Rightarrow> hit list \<times> 'r \<Rightarrow> hit list \<times> 'r" where
  "run_hit lib limit w h st =
     (let (answer, r) = sliding_window_script lib (hit_server h)
            (bucket_keys (hit_key h) (of_int w) (hit_wall h)) (limit (hit_key h)) w (hit_wall h) (snd st)
      in (if fst answer = 1 then fst st @ [h] else fst st, r))"

abbreviation in_bucket :: "int \<Rightarrow> string \<Rightarrow> int \<Rightarrow> hit \<Rightarrow> bool" where
  "in_bucket w k b \<equiv> \<lambda>h. hit_key h = k \<and> hit_bucket w h = b"

definition in_sync :: "int \<Rightarrow> hit \<Rightarrow> bool" where
  "in_sync w h \<longleftrightarrow> \<bar>hit_server h - hit_wall h\<bar> \<le> of_int w / 2"

lemma bucket_key_inj: "bucket_key k b = bucket_key k' b' \<longleftrightarrow> k = k' \<and> b = b'"
proof
  assume "bucket_key k b = bucket_key k' b'"
  then have "(k @ ''}'') @ CHR '':'' # show_int b = (k' @ ''}'') @ CHR '':'' # show_int b'"
    by (simp add: bucket_key_def)
  then have "k @ ''}'' = k' @ ''}'' \<and> show_int b = show_int b'"
    by (rule last_colon_split) (rule colon_notin_show)+
  then show "k = k' \<and> b = b'" using show_int_inj by auto
qed simp

lemma bucket_bounds:
  assumes "1 \<le> w"
  shows "of_int (hit_bucket w h) * of_int w \<le> hit_wall h" "hit_wall h < (of_int (hit_bucket w h) + 1) * of_int w"
proof -
  have w: "0 < real_of_int w" using assms by simp
  let ?q = "hit_wall h / real_of_int w"
  define m where "m = hit_bucket w h"
  have "of_int m \<le> ?q" "?q < of_int m + 1" unfolding m_def hit_bucket_def bucket_of_def by linarith+
  then show "of_int (hit_bucket w h) * of_int w \<le> hit_wall h" "hit_wall h < (of_int (hit_bucket w h) + 1) * of_int w"
    using w unfolding m_def [symmetric] by (simp_all only: pos_le_divide_eq pos_divide_less_eq)
qed

text \<open>
  What the server knows of a bucket: the number of its admitted requests, under a key that
  lives until no request of the bucket can come any more.
\<close>

definition counted ::
  "('r \<Rightarrow> string \<Rightarrow> (int \<times> real option) option) \<Rightarrow> (string \<Rightarrow> int) \<Rightarrow> int \<Rightarrow> hit list \<times> 'r \<Rightarrow> bool" where
  "counted view limit w st \<longleftrightarrow>
     (\<forall>k b. let n = row_count (in_bucket w k b) (fst st) in
        int n \<le> limit k \<and>
        (if n = 0 then view (snd st) (bucket_key k b) = None
         else \<exists>e. (of_int b + 3 / 2) * of_int w \<le> e \<and> view (snd st) (bucket_key k b) = Some (int n, Some e)))"

lemma counted_entry:
  assumes "counted view limit w st"
  shows "int (row_count (in_bucket w k b) (fst st)) \<le> limit k"
    "row_count (in_bucket w k b) (fst st) = 0 \<Longrightarrow> view (snd st) (bucket_key k b) = None"
    "row_count (in_bucket w k b) (fst st) \<noteq> 0 \<Longrightarrow> \<exists>e. (of_int b + 3 / 2) * of_int w \<le> e \<and>
       view (snd st) (bucket_key k b) = Some (int (row_count (in_bucket w k b) (fst st)), Some e)"
proof -
  have "let n = row_count (in_bucket w k b) (fst st) in int n \<le> limit k \<and>
        (if n = 0 then view (snd st) (bucket_key k b) = None
         else \<exists>e. (of_int b + 3 / 2) * of_int w \<le> e \<and> view (snd st) (bucket_key k b) = Some (int n, Some e))"
    using assms unfolding counted_def by blast
  then show "int (row_count (in_bucket w k b) (fst st)) \<le> limit k"
    "row_count (in_bucket w k b) (fst st) = 0 \<Longrightarrow> view (snd st) (bucket_key k b) = None"
    "row_count (in_bucket w k b) (fst st) \<noteq> 0 \<Longrightarrow> \<exists>e. (of_int b + 3 / 2) * of_int w \<le> e \<and>
       view (snd st) (bucket_key k b) = Some (int (row_count (in_bucket w k b) (fst st)), Some e)"
    by (simp_all add: Let_def)
qed

lemma alive_count:
  assumes "counted view limit w st" "server < (of_int b + 3 / 2) * of_int w"
  shows "redis_alive server (view (snd st) (bucket_key k b)) =
    (let n = row_count (in_bucket w k b) (fst st) in if n = 0 then None else Some (int n))"
  using counted_entry(2,3) [OF assms(1), of k b] assms(2)
  by (cases "row_count (in_bucket w k b) (fst st) = 0") (auto simp: redis_alive_def)

lemma sync_server:
  assumes "1 \<le> w" "in_sync w h"
  shows "hit_server h < (of_int (hit_bucket w h) + 3 / 2) * of_int w"
    "(of_int (hit_bucket w h) - 1 / 2) * of_int w \<le> hit_server h"
  using bucket_bounds [OF assms(1), of h] assms(2)
  unfolding in_sync_def distrib_right left_diff_distrib by linarith+

lemma alive_nonneg:
  assumes "counted view limit w st"
  shows "0 \<le> (case redis_alive server (view (snd st) (bucket_key k b)) of None \<Rightarrow> 0 | Some v \<Rightarrow> v)"
  using counted_entry(2,3) [OF assms, of k b]
  by (cases "row_count (in_bucket w k b) (fst st) = 0") (auto simp: redis_alive_def)

text \<open>An admitted request raises the count of its bucket by one and leaves every other key alone.\<close>

lemma script_admits:
  assumes lib: "redis_documented lib view" and st: "counted view limit w st" and w: "1 \<le> w"
    and sync: "in_sync w h"
    and run: "sliding_window_script lib (hit_server h) (bucket_keys (hit_key h) (of_int w) (hit_wall h))
      (limit (hit_key h)) w (hit_wall h) (snd st) = ((a, retry), r)"
  shows "a = 0 \<and> r = snd st \<or>
    a = 1 \<and> int (row_count (in_bucket w (hit_key h) (hit_bucket w h)) (fst st)) < limit (hit_key h) \<and>
      (\<exists>e. (of_int (hit_bucket w h) + 3 / 2) * of_int w \<le> e \<and>
        view r = (view (snd st))(bucket_key (hit_key h) (hit_bucket w h) \<mapsto>
          (int (row_count (in_bucket w (hit_key h) (hit_bucket w h)) (fst st)) + 1, Some e)))"
proof -
  let ?b = "hit_bucket w h" and ?k = "hit_key h" and ?s = "hit_server h" and ?r = "snd st"
  let ?n = "row_count (in_bucket w ?k ?b) (fst st)"
  let ?elapsed = "hit_wall h - of_int w * of_int \<lfloor>hit_wall h / of_int w\<rfloor>"
  let ?weight = "(of_int w - ?elapsed) / of_int w :: real"
  let ?prev = "case redis_get lib ?s (bucket_key ?k (?b - 1)) ?r of None \<Rightarrow> 0 | Some v \<Rightarrow> v"
  have get: "redis_get lib t k r' = redis_alive t (view r' k)" for t k r'
    using lib by (simp add: redis_documented_def)
  have keys: "bucket_keys ?k (of_int w) (hit_wall h) = (bucket_key ?k ?b, bucket_key ?k (?b - 1))"
    by (simp add: bucket_keys_def hit_bucket_def Let_def)
  have live: "redis_alive ?s (view ?r (bucket_key ?k ?b)) = (if ?n = 0 then None else Some (int ?n))"
    using alive_count [OF st sync_server(1) [OF w sync]] by (simp add: Let_def)
  have "?elapsed < of_int w"
    using bucket_bounds(2) [OF w, of h] by (simp add: hit_bucket_def bucket_of_def algebra_simps)
  then have "0 \<le> ?weight" using w by simp
  moreover have "0 \<le> real_of_int ?prev" using alive_nonneg [OF st] by (simp only: of_int_0_le_iff get)
  ultimately have prev: "0 \<le> of_int ?prev * ?weight" by (intro mult_nonneg_nonneg)
  have curr: "(case redis_get lib ?s (bucket_key ?k ?b) ?r of None \<Rightarrow> 0 | Some v \<Rightarrow> v) = int ?n"
    by (simp add: get live)
  note script = run [unfolded sliding_window_script_def keys Let_def fst_conv snd_conv curr]
  show ?thesis
  proof (cases "of_int (limit ?k) \<le> of_int ?prev * ?weight + of_int (int ?n)")
    case True
    then have "a = 0" "r = ?r" using script by (simp_all only: if_True prod.inject)
    then show ?thesis by simp
  next
    case False
    then have less: "int ?n < limit ?k" using prev by linarith
    obtain v r1 where incr: "redis_incr lib ?s (bucket_key ?k ?b) ?r = (v, r1)" by fastforce
    have res: "a = 1" "r = (if v = 1 then redis_expire lib ?s (bucket_key ?k ?b) (w * 2) r1 else r1)"
      using script False by (simp_all only: if_False incr case_prod_conv prod.inject)
    have law: "case redis_alive ?s (view ?r (bucket_key ?k ?b)) of
        None \<Rightarrow> v = 1 \<and> view r1 = (view ?r)(bucket_key ?k ?b \<mapsto> (1, None))
      | Some v0 \<Rightarrow> v = v0 + 1 \<and> view r1 = (view ?r)(bucket_key ?k ?b \<mapsto> (v0 + 1, snd (the (view ?r (bucket_key ?k ?b)))))"
      by (rule redis_incr_law [OF lib incr])
    show ?thesis
    proof (cases "?n = 0")
      case True
      then have "v = 1" "view r1 = (view ?r)(bucket_key ?k ?b \<mapsto> (1, None))" using law live by simp_all
      moreover from this have "view (redis_expire lib ?s (bucket_key ?k ?b) (w * 2) r1) =
          (view r1)(bucket_key ?k ?b \<mapsto> (1, Some (?s + of_int (w * 2))))"
        using lib by (simp add: redis_documented_def redis_alive_def)
      moreover have "(of_int ?b + 3 / 2) * of_int w \<le> ?s + of_int (w * 2)"
        using sync_server(2) [OF w sync] by (simp add: algebra_simps)
      ultimately show ?thesis using res less True by auto
    next
      case False
      then obtain e where e: "(of_int ?b + 3 / 2) * of_int w \<le> e" "view ?r (bucket_key ?k ?b) = Some (int ?n, Some e)"
        using counted_entry(3) [OF st, of ?k ?b] by blast
      then show ?thesis using law live False res less by (auto split: if_splits)
    qed
  qed
qed

lemma run_hit_counted:
  assumes "redis_documented lib view" "counted view limit w st" "1 \<le> w" "in_sync w h"
  shows "counted view limit w (run_hit lib limit w h st)"
proof -
  obtain a retry r where run: "sliding_window_script lib (hit_server h)
      (bucket_keys (hit_key h) (of_int w) (hit_wall h)) (limit (hit_key h)) w (hit_wall h) (snd st) = ((a, retry), r)"
    by (metis prod.collapse)
  from script_admits [OF assms run] show ?thesis
  proof (elim disjE conjE exE)
    assume "a = 0" "r = snd st"
    then show ?thesis using assms(2) run by (simp add: run_hit_def)
  next
    fix e
    let ?b = "hit_bucket w h" and ?k = "hit_key h"
    let ?n = "row_count (in_bucket w ?k ?b) (fst st)"
    assume a: "a = 1" and less: "int ?n < limit ?k" and e: "(of_int ?b + 3 / 2) * of_int w \<le> e"
      and v: "view r = (view (snd st))(bucket_key ?k ?b \<mapsto> (int ?n + 1, Some e))"
    have st': "run_hit lib limit w h st = (fst st @ [h], r)" using a run by (simp add: run_hit_def)
    have count: "row_count (in_bucket w k b) (fst st @ [h]) =
        row_count (in_bucket w k b) (fst st) + (if k = ?k \<and> b = ?b then 1 else 0)" for k b
      by (auto simp: row_count_def)
    show ?thesis unfolding counted_def
    proof (intro allI)
      fix k b
      show "let n = row_count (in_bucket w k b) (fst (run_hit lib limit w h st)) in int n \<le> limit k \<and>
        (if n = 0 then view (snd (run_hit lib limit w h st)) (bucket_key k b) = None
         else \<exists>e. (of_int b + 3 / 2) * of_int w \<le> e \<and>
           view (snd (run_hit lib limit w h st)) (bucket_key k b) = Some (int n, Some e))"
      proof (cases "k = ?k \<and> b = ?b")
        case True
        then show ?thesis using less e by (auto simp: st' count v Let_def)
      next
        case False
        then show ?thesis using counted_entry [OF assms(2), of k b]
          by (auto simp: st' count v Let_def bucket_key_inj)
      qed
    qed
  qed
qed

lemma run_hits_counted:
  assumes "redis_documented lib view" "1 \<le> w" "\<forall>h\<in>set hits. in_sync w h" "counted view limit w st"
  shows "counted view limit w (fold (run_hit lib limit w) hits st)"
proof -
  have "invariant_run (in_sync w) (run_hit lib limit w) (counted view limit w)"
    using assms(1,2) by unfold_locales (rule run_hit_counted)
  then show ?thesis using assms(3,4) by (rule invariant_run.inv_run)
qed

lemma row_count_union:
  assumes "\<And>x. x \<in> set xs \<Longrightarrow> p x \<Longrightarrow> q x \<or> q' x"
  shows "row_count p xs \<le> row_count q xs + row_count q' xs"
  using assms by (induction xs) (auto simp: row_count_def)

lemma window_two_buckets:
  assumes "1 \<le> w" "x \<le> hit_wall h" "hit_wall h < x + of_int w"
  shows "hit_bucket w h = \<lfloor>x / of_int w\<rfloor> \<or> hit_bucket w h = \<lfloor>x / of_int w\<rfloor> + 1"
proof -
  have w: "0 < real_of_int w" using assms(1) by simp
  have "x / of_int w \<le> hit_wall h / of_int w" "hit_wall h / of_int w < x / of_int w + 1"
    using assms w by (simp_all add: divide_right_mono divide_simps)
  then have "\<lfloor>x / of_int w\<rfloor> \<le> \<lfloor>hit_wall h / of_int w\<rfloor>" "\<lfloor>hit_wall h / of_int w\<rfloor> \<le> \<lfloor>x / of_int w\<rfloor> + 1"
    by linarith+
  then show ?thesis unfolding hit_bucket_def bucket_of_def by linarith
qed

lemma sliding_window_bound:
  assumes "redis_documented lib view" "1 \<le> w" "\<forall>h\<in>set hits. in_sync w h"
    and "\<forall>k b. view r (bucket_key k b) = None" "\<forall>k. 0 < limit k"
  shows "int (row_count (\<lambda>h. hit_key h = k \<and> x \<le> hit_wall h \<and> hit_wall h < x + of_int w)
      (fst (fold (run_hit lib limit w) hits ([], r)))) \<le> 2 * limit k"
proof -
  let ?st = "fold (run_hit lib limit w) hits ([], r)"
  have "counted view limit w ([], r)" using assms(4,5) by (simp add: counted_def row_count_def less_imp_le)
  then have c: "counted view limit w ?st" by (rule run_hits_counted [OF assms(1-3)])
  have "row_count (\<lambda>h. hit_key h = k \<and> x \<le> hit_wall h \<and> hit_wall h < x + of_int w) (fst ?st) \<le>
      row_count (in_bucket w k \<lfloor>x / of_int w\<rfloor>) (fst ?st) + row_count (in_bucket w k (\<lfloor>x / of_int w\<rfloor> + 1)) (fst ?st)"
    using window_two_buckets [OF assms(2)] by (intro row_count_union) blast
  then show ?thesis
    using counted_entry(1) [OF c, of k "\<lfloor>x / of_int w\<rfloor>"] counted_entry(1) [OF c, of k "\<lfloor>x / of_int w\<rfloor> + 1"]
    by linarith
qed

section \<open>The fallback is an exact sliding-window log\<close>

type_synonym request = "string \<times> seconds"

fun run_local :: "(string \<Rightarrow> int) \<Rightarrow> real \<Rightarrow> request list \<Rightarrow> limiter \<Rightarrow> bool list \<times> limiter" where
  "run_local limit W [] lm = ([], lm)"
| "run_local limit W ((k, now) # reqs) lm =
     (let (answer, lm1) = check_local k (limit k) W now lm; (oks, lm2) = run_local limit W reqs lm1
      in (fst answer # oks, lm2))"

text \<open>
  The specification keeps every admitted request and admits a new one if fewer than the limit lie
  in the window that ends with it.
\<close>

definition in_log_window :: "string \<Rightarrow> real \<Rightarrow> request \<Rightarrow> bool" where
  "in_log_window k c q \<longleftrightarrow> fst q = k \<and> c < snd q"

fun log_limit :: "(string \<Rightarrow> int) \<Rightarrow> real \<Rightarrow> request list \<Rightarrow> request list \<Rightarrow> bool list \<times> request list" where
  "log_limit limit W [] adm = ([], adm)"
| "log_limit limit W ((k, now) # reqs) adm =
     (let ok = int (row_count (in_log_window k (now - W)) adm) < limit k;
          (oks, adm') = log_limit limit W reqs (if ok then adm @ [(k, now)] else adm)
      in (ok # oks, adm'))"

definition stored_times :: "limiter \<Rightarrow> string \<Rightarrow> real list" where
  "stored_times lm k = (case dict_get (lm_local_windows lm) k of None \<Rightarrow> [] | Some ts \<Rightarrow> ts)"

definition log_sim :: "real \<Rightarrow> limiter \<Rightarrow> request list \<Rightarrow> bool" where
  "log_sim bound lm adm \<longleftrightarrow>
     (\<forall>k c. bound \<le> c \<longrightarrow> filter (\<lambda>t. c < t) (stored_times lm k) = map snd (filter (in_log_window k c) adm))"

lemma stored_times_set:
  "stored_times (lm\<lparr>lm_local_windows := dict_set k ts (lm_local_windows lm)\<rparr>) k' =
     (if k' = k then ts else stored_times lm k')"
  by (simp add: stored_times_def dict_simps)

lemma check_local_log:
  assumes sim: "log_sim bound lm adm" and "bound \<le> now - W"
  shows "let n = row_count (in_log_window k (now - W)) adm; (answer, lm') = check_local k limit W now lm
    in fst answer = (int n < limit) \<and> log_sim (now - W) lm' (if int n < limit then adm @ [(k, now)] else adm)"
proof -
  let ?ts = "filter (\<lambda>t. now - W < t) (stored_times lm k)"
  have ts: "?ts = map snd (filter (in_log_window k (now - W)) adm)"
    using assms by (simp add: log_sim_def)
  then have len: "length ?ts = row_count (in_log_window k (now - W)) adm"
    by (simp add: row_count_def)
  have old: "filter (\<lambda>t. c < t) (stored_times lm k') = map snd (filter (in_log_window k' c) adm)"
    if "now - W \<le> c" for k' c using assms that by (simp add: log_sim_def)
  have again: "filter (\<lambda>t. c < t) ?ts = filter (\<lambda>t. c < t) (stored_times lm k)" if "now - W \<le> c" for c
    using that by (auto intro!: filter_cong simp: conj_commute)
  show ?thesis
  proof (cases "int (length ?ts) < limit")
    case True
    then have "check_local k limit W now lm = ((True, 0),
        lm\<lparr>lm_local_windows := dict_set k (?ts @ [now]) (lm_local_windows lm)\<rparr>)"
      by (simp add: check_local_def stored_times_def Let_def)
    moreover have "log_sim (now - W) (lm\<lparr>lm_local_windows := dict_set k (?ts @ [now]) (lm_local_windows lm)\<rparr>)
        (adm @ [(k, now)])"
      unfolding log_sim_def stored_times_set using old again by (auto simp: in_log_window_def)
    ultimately show ?thesis using True len by (simp add: Let_def)
  next
    case False
    then obtain retry where "check_local k limit W now lm = ((False, retry),
        lm\<lparr>lm_local_windows := dict_set k ?ts (lm_local_windows lm)\<rparr>)"
      by (simp add: check_local_def stored_times_def Let_def)
    moreover have "log_sim (now - W) (lm\<lparr>lm_local_windows := dict_set k ?ts (lm_local_windows lm)\<rparr>) adm"
      unfolding log_sim_def stored_times_set using old again by auto
    ultimately show ?thesis using False len by (simp add: Let_def)
  qed
qed

lemma run_local_log:
  assumes "log_sim bound lm adm" "sorted (map snd reqs)" "\<forall>q\<in>set reqs. bound \<le> snd q - W"
  shows "fst (run_local limit W reqs lm) = fst (log_limit limit W reqs adm) \<and>
    (\<exists>b'. log_sim b' (snd (run_local limit W reqs lm)) (snd (log_limit limit W reqs adm)) \<and>
       (\<forall>t. (\<forall>q\<in>set reqs. snd q \<le> t) \<and> bound \<le> t - W \<longrightarrow> b' \<le> t - W))"
  using assms
proof (induction reqs arbitrary: bound lm adm)
  case Nil
  then show ?case by auto
next
  case (Cons q reqs)
  obtain k now where q: "q = (k, now)" by (cases q)
  obtain answer lm1 where c: "check_local k (limit k) W now lm = (answer, lm1)" by fastforce
  let ?ok = "int (row_count (in_log_window k (now - W)) adm) < limit k"
  let ?adm = "if ?ok then adm @ [(k, now)] else adm"
  have step: "fst answer = ?ok" "log_sim (now - W) lm1 ?adm"
    using check_local_log [OF Cons.prems(1), of now W k "limit k"] Cons.prems(3) c q by (simp_all add: Let_def)
  have "sorted (map snd reqs)" "\<forall>q\<in>set reqs. now - W \<le> snd q - W" using Cons.prems(2) q by auto
  note ih = Cons.IH [OF step(2) this]
  then obtain b' where b': "log_sim b' (snd (run_local limit W reqs lm1)) (snd (log_limit limit W reqs ?adm))"
    "\<And>t. (\<forall>q\<in>set reqs. snd q \<le> t) \<and> now - W \<le> t - W \<Longrightarrow> b' \<le> t - W" by blast
  have "fst (run_local limit W (q # reqs) lm) = fst (log_limit limit W (q # reqs) adm)"
    using ih step(1) by (simp add: q c Let_def case_prod_beta)
  moreover have "log_sim b' (snd (run_local limit W (q # reqs) lm)) (snd (log_limit limit W (q # reqs) adm))"
    using b'(1) by (simp add: q c Let_def case_prod_beta)
  moreover have "b' \<le> t - W" if "\<forall>q\<in>set (q # reqs). snd q \<le> t" for t
    using that q by (intro b'(2)) auto
  ultimately show ?case by blast
qed

text \<open>No window of the log holds more than the limit.\<close>

definition log_ok :: "(string \<Rightarrow> int) \<Rightarrow> real \<Rightarrow> request list \<Rightarrow> bool" where
  "log_ok limit W adm \<longleftrightarrow>
     (\<forall>k x. int (row_count (\<lambda>q. fst q = k \<and> x < snd q \<and> snd q \<le> x + W) adm) \<le> limit k)"

lemma log_ok_add:
  assumes "log_ok limit W adm" "\<forall>q\<in>set adm. snd q \<le> now"
    and "int (row_count (in_log_window k (now - W)) adm) < limit k"
  shows "log_ok limit W (adm @ [(k, now)])"
  unfolding log_ok_def
proof (intro allI)
  fix k' x
  let ?in = "\<lambda>q :: request. fst q = k' \<and> x < snd q \<and> snd q \<le> x + W"
  have old: "int (row_count ?in adm) \<le> limit k'" using assms(1) by (simp add: log_ok_def)
  show "int (row_count ?in (adm @ [(k, now)])) \<le> limit k'"
  proof (cases "?in (k, now)")
    case True
    have "row_count ?in adm \<le> row_count (in_log_window k (now - W)) adm + row_count (\<lambda>_. False) adm"
      using True by (intro row_count_union) (auto simp: in_log_window_def)
    then show ?thesis using True assms(3) by (simp add: row_count_def)
  next
    case False
    then show ?thesis using old by (auto simp: row_count_def)
  qed
qed

lemma log_limit_ok:
  assumes "log_ok limit W adm" "sorted (map snd reqs)" "\<forall>q\<in>set adm. \<forall>q'\<in>set reqs. snd q \<le> snd q'"
  shows "log_ok limit W (snd (log_limit limit W reqs adm))"
  using assms
proof (induction reqs arbitrary: adm)
  case (Cons q reqs)
  obtain k now where q: "q = (k, now)" by (cases q)
  have le: "\<forall>q\<in>set adm. snd q \<le> now" using Cons.prems(3) q by simp
  show ?case
  proof (cases "int (row_count (in_log_window k (now - W)) adm) < limit k")
    case True
    have "log_ok limit W (snd (log_limit limit W reqs (adm @ [(k, now)])))"
      using Cons.prems q by (intro Cons.IH log_ok_add [OF Cons.prems(1) le True]) auto
    then show ?thesis using True by (simp add: q Let_def case_prod_beta)
  next
    case False
    have "log_ok limit W (snd (log_limit limit W reqs adm))" using Cons.prems by (intro Cons.IH) auto
    then show ?thesis using False by (simp add: q Let_def case_prod_beta)
  qed
qed simp

lemma fresh_log_sim: "lm_local_windows lm = [] \<Longrightarrow> log_sim bound lm []"
  by (simp add: log_sim_def stored_times_def)

lemma log_limit_Cons:
  "snd (log_limit limit W (q # reqs) adm) = snd (log_limit limit W reqs adm) \<or>
   snd (log_limit limit W (q # reqs) adm) = snd (log_limit limit W reqs (adm @ [q]))"
  by (cases q) (simp add: Let_def case_prod_beta)

lemma log_limit_times:
  "\<forall>q\<in>set adm. snd q \<le> t \<Longrightarrow> \<forall>q\<in>set reqs. snd q \<le> t \<Longrightarrow> \<forall>q\<in>set (snd (log_limit limit W reqs adm)). snd q \<le> t"
proof (induction reqs arbitrary: adm)
  case (Cons q reqs)
  obtain k now where q: "q = (k, now)" by (cases q)
  have "\<forall>q\<in>set (snd (log_limit limit W reqs adm')). snd q \<le> t" if "adm' = adm \<or> adm' = adm @ [(k, now)]" for adm'
    using Cons that q by (intro Cons.IH) auto
  then show ?case using log_limit_Cons [of limit W q reqs adm] q by metis
qed simp

lemma sorted_stored:
  assumes "log_sim bound lm adm" "sorted (map snd adm)" "bound \<le> c"
  shows "sorted (filter (\<lambda>t. c < t) (stored_times lm k))"
  using assms by (simp add: log_sim_def sorted_map sorted_wrt_filter)

lemma log_limit_sorted:
  assumes "sorted (map snd adm)" "sorted (map snd reqs)" "\<forall>q\<in>set adm. \<forall>q'\<in>set reqs. snd q \<le> snd q'"
  shows "sorted (map snd (snd (log_limit limit W reqs adm)))"
  using assms
proof (induction reqs arbitrary: adm)
  case (Cons q reqs)
  obtain k now where q: "q = (k, now)" by (cases q)
  have "sorted (map snd (adm @ [(k, now)]))" using Cons.prems q by (auto simp: sorted_append)
  then have "sorted (map snd (snd (log_limit limit W reqs adm')))" if "adm' = adm \<or> adm' = adm @ [(k, now)]" for adm'
    using Cons.prems that q by (intro Cons.IH) force+
  then show ?case using log_limit_Cons [of limit W q reqs adm] q by metis
qed simp

text \<open>
  A refusal that follows a run of the limiter finds exactly the limit in the window, the oldest
  first, so waiting as told lets that one leave.
\<close>

lemma refused_then_admitted:
  assumes sim: "log_sim bound lm adm" "bound \<le> now - W"
    and adm: "log_ok limit W adm" "sorted (map snd adm)" "\<forall>q\<in>set adm. snd q \<le> now"
    and pos: "0 < limit k" and refused: "check_local k (limit k) W now lm = ((False, retry), lm')"
  shows "fst (fst (check_local k (limit k) W (now + of_int retry) lm'))"
proof -
  let ?ts = "filter (\<lambda>t. now - W < t) (stored_times lm k)"
  have len: "limit k \<le> int (length ?ts)" and retry: "retry = py_trunc (W - (now - ?ts ! 0)) + 1"
    and lm': "lm' = lm\<lparr>lm_local_windows := dict_set k ?ts (lm_local_windows lm)\<rparr>"
    using refused by (auto simp: check_local_def stored_times_def Let_def split: if_splits)
  have "?ts = map snd (filter (in_log_window k (now - W)) adm)" using sim by (simp add: log_sim_def)
  moreover have "filter (in_log_window k (now - W)) adm =
      filter (\<lambda>q. fst q = k \<and> now - W < snd q \<and> snd q \<le> (now - W) + W) adm"
    using adm(3) by (intro filter_cong) (auto simp: in_log_window_def)
  ultimately have "int (length ?ts) = int (row_count (\<lambda>q. fst q = k \<and> now - W < snd q \<and> snd q \<le> (now - W) + W) adm)"
    by (simp add: row_count_def)
  moreover have "int (row_count (\<lambda>q. fst q = k \<and> now - W < snd q \<and> snd q \<le> (now - W) + W) adm) \<le> limit k"
    using adm(1) unfolding log_ok_def by blast
  ultimately have len': "int (length ?ts) = limit k" using len by linarith
  then obtain t ts where ts: "?ts = t # ts" using pos by (cases ?ts) auto
  then have "t \<in> set ?ts" by (simp only: list.set_intros(1))
  then have "now - W < t" by simp
  then have "t \<le> now + of_int retry - W" using retry ts by (simp add: py_trunc_def) linarith
  then have "length (filter (\<lambda>x. now + of_int retry - W < x) ?ts) \<le> length ts"
    unfolding ts by simp
  then have "int (length (filter (\<lambda>x. now + of_int retry - W < x) (stored_times lm' k))) < limit k"
    using len' ts unfolding lm' stored_times_set by simp
  then show ?thesis by (auto simp: check_local_def stored_times_def Let_def)
qed

section \<open>An outage of Redis\<close>

fun run_checks ::
  "'r redis_lib \<Rightarrow> (string \<Rightarrow> int) \<Rightarrow> real \<Rightarrow> (check_env \<times> string) list \<Rightarrow> limiter \<Rightarrow> 'r
    \<Rightarrow> bool list \<times> limiter \<times> 'r" where
  "run_checks lib limit W [] lm r = ([], lm, r)"
| "run_checks lib limit W ((env, k) # cs) lm r =
     (let (answer, lm1, r1) = check lib env k (limit k) W lm r; (oks, lm2, r2) = run_checks lib limit W cs lm1 r1
      in (fst answer # oks, lm2, r2))"

lemma run_checks_Cons:
  "run_checks lib limit W (c # cs) lm r =
     (let (answer, lm1, r1) = check lib (fst c) (snd c) (limit (snd c)) W lm r;
          (oks, lm2, r2) = run_checks lib limit W cs lm1 r1
      in (fst answer # oks, lm2, r2))"
  by (cases c) simp

abbreviation local_request :: "check_env \<times> string \<Rightarrow> request" where
  "local_request c \<equiv> (snd c, ce_local_at (fst c))"

lemma check_local_circuit:
  "check_local k limit W now (lm\<lparr>lm_circuit := b\<rparr>) =
     (let (answer, lm') = check_local k limit W now lm in (answer, lm'\<lparr>lm_circuit := b\<rparr>))"
  by (simp add: check_local_def Let_def)

lemma run_local_circuit:
  "run_local limit W reqs (lm\<lparr>lm_circuit := b\<rparr>) =
     (let (oks, lm') = run_local limit W reqs lm in (oks, lm'\<lparr>lm_circuit := b\<rparr>))"
  by (induction reqs arbitrary: lm) (auto simp: check_local_circuit Let_def case_prod_beta)

lemma check_local_keeps: "lm_circuit (snd (check_local k limit W now lm)) = lm_circuit lm \<and>
    lm_using_redis (snd (check_local k limit W now lm)) = lm_using_redis lm"
  by (simp add: check_local_def Let_def)

text \<open>While the circuit is open nothing is sent.\<close>

lemma check_circuit_open:
  assumes "0 < limit" "cb_state (lm_circuit lm) = OPEN" "cb_opened_at (lm_circuit lm) = Some t"
    and "ce_allow_at env - t < cb_recovery_timeout (lm_circuit lm)"
  shows "check lib env k limit W lm r = (let (res, lm') = check_local k limit W (ce_local_at env) lm in (res, lm', r))"
  using assms
  by (simp add: check_def redis_available_def core_ops case_prod_beta)

lemma outage_runs_locally:
  assumes "\<forall>k. 0 < limit k" "cb_state (lm_circuit lm) = OPEN" "cb_opened_at (lm_circuit lm) = Some t"
    and "\<forall>c\<in>set cs. ce_allow_at (fst c) - t < cb_recovery_timeout (lm_circuit lm)"
  shows "run_checks lib limit W cs lm r =
    (let (oks, lm') = run_local limit W (map local_request cs) lm in (oks, lm', r))"
  using assms(2-)
proof (induction cs arbitrary: lm)
  case (Cons c cs)
  obtain env k where c: "c = (env, k)" by (cases c)
  have one: "check lib env k (limit k) W lm r =
      (let (res, lm') = check_local k (limit k) W (ce_local_at env) lm in (res, lm', r))"
    using assms(1) Cons.prems c by (intro check_circuit_open) auto
  let ?lm = "snd (check_local k (limit k) W (ce_local_at env) lm)"
  have "run_checks lib limit W cs ?lm r = (let (oks, lm') = run_local limit W (map local_request cs) ?lm in (oks, lm', r))"
    using Cons.prems check_local_keeps [of k "limit k" W "ce_local_at env" lm] by (intro Cons.IH) auto
  then show ?case by (simp add: c one Let_def case_prod_beta)
qed simp

text \<open>A failed call counts against the circuit and is answered locally.\<close>

lemma check_failed:
  assumes "0 < limit" "lm_using_redis lm" "cb_state (lm_circuit lm) = CLOSED" "ce_outcome env \<noteq> Answered"
  shows "\<exists>r'. check lib env k limit W lm r =
    (let (res, lm') = check_local k limit W (ce_local_at env) lm
     in (res, lm'\<lparr>lm_circuit := record_failure (ce_failed_at env) (lm_circuit lm)\<rparr>, r'))"
proof -
  have "redis_available (ce_allow_at env) lm = (True, lm)"
    using assms(2,3) by (simp add: redis_available_def core_ops split: option.splits)
  then show ?thesis using assms(1,4)
    by (cases "ce_outcome env")
       (auto simp: check_def note_outcome_def check_local_circuit Let_def case_prod_beta)
qed

lemma outage_opens_circuit:
  assumes "\<forall>k. 0 < limit k" "lm_using_redis lm" "lm_circuit lm = new_core_breaker nm 3 timeout on_open on_close"
    and "ce_outcome (fst c1) \<noteq> Answered" "ce_outcome (fst c2) \<noteq> Answered" "ce_outcome (fst c3) \<noteq> Answered"
  shows "\<exists>r'. run_checks lib limit W [c1, c2, c3] lm r =
    (let (oks, lm') = run_local limit W (map local_request [c1, c2, c3]) lm
     in (oks, lm'\<lparr>lm_circuit := record_failure (ce_failed_at (fst c3)) (record_failure (ce_failed_at (fst c2))
           (record_failure (ce_failed_at (fst c1)) (lm_circuit lm)))\<rparr>, r'))"
proof -
  let ?b0 = "lm_circuit lm"
  let ?b1 = "record_failure (ce_failed_at (fst c1)) ?b0"
  let ?b2 = "record_failure (ce_failed_at (fst c2)) ?b1"
  have closed: "cb_state ?b0 = CLOSED" "cb_state ?b1 = CLOSED" "cb_state ?b2 = CLOSED"
    using assms(3) by (simp_all add: new_core_breaker_def core_ops)
  have keep: "lm_using_redis (snd (check_local k l W t m)) = lm_using_redis m" for k l t m
    by (simp add: check_local_keeps)
  define m1 where "m1 = snd (check_local (snd c1) (limit (snd c1)) W (ce_local_at (fst c1)) lm)"
  define m2 where "m2 = snd (check_local (snd c2) (limit (snd c2)) W (ce_local_at (fst c2)) m1)"
  obtain r1 where c1: "check lib (fst c1) (snd c1) (limit (snd c1)) W lm r =
      (fst (check_local (snd c1) (limit (snd c1)) W (ce_local_at (fst c1)) lm), m1\<lparr>lm_circuit := ?b1\<rparr>, r1)"
    using check_failed [of "limit (snd c1)" lm "fst c1" lib "snd c1" W r] assms closed
    by (auto simp: m1_def Let_def case_prod_beta)
  obtain r2 where c2: "check lib (fst c2) (snd c2) (limit (snd c2)) W (m1\<lparr>lm_circuit := ?b1\<rparr>) r1 =
      (fst (check_local (snd c2) (limit (snd c2)) W (ce_local_at (fst c2)) m1), m2\<lparr>lm_circuit := ?b2\<rparr>, r2)"
    using check_failed [of "limit (snd c2)" "m1\<lparr>lm_circuit := ?b1\<rparr>" "fst c2" lib "snd c2" W r1] assms closed
    by (auto simp: m1_def m2_def keep check_local_circuit Let_def case_prod_beta)
  obtain r3 where c3: "check lib (fst c3) (snd c3) (limit (snd c3)) W (m2\<lparr>lm_circuit := ?b2\<rparr>) r2 =
      (fst (check_local (snd c3) (limit (snd c3)) W (ce_local_at (fst c3)) m2),
       (snd (check_local (snd c3) (limit (snd c3)) W (ce_local_at (fst c3)) m2))\<lparr>lm_circuit :=
          record_failure (ce_failed_at (fst c3)) ?b2\<rparr>, r3)"
    using check_failed [of "limit (snd c3)" "m2\<lparr>lm_circuit := ?b2\<rparr>" "fst c3" lib "snd c3" W r2] assms closed
    by (auto simp: m1_def m2_def keep check_local_circuit Let_def case_prod_beta)
  show ?thesis
    by (intro exI [of _ r3])
       (simp add: run_checks_Cons c1 c2 c3 m1_def [symmetric] m2_def [symmetric] Let_def case_prod_beta)
qed

lemma run_checks_append:
  "run_checks lib limit W (cs @ ds) lm r =
     (let (oks, lm1, r1) = run_checks lib limit W cs lm r; (oks', lm2, r2) = run_checks lib limit W ds lm1 r1
      in (oks @ oks', lm2, r2))"
  by (induction cs arbitrary: lm r) (auto simp: Let_def case_prod_beta)

lemma run_local_append:
  "run_local limit W (xs @ ys) lm =
     (let (oks, lm1) = run_local limit W xs lm; (oks', lm2) = run_local limit W ys lm1 in (oks @ oks', lm2))"
  by (induction xs arbitrary: lm) (auto simp: Let_def case_prod_beta)

lemma outage_fails_over:
  assumes "\<forall>k. 0 < limit k" "lm_using_redis lm" "lm_circuit lm = new_core_breaker nm 3 timeout on_open on_close"
    and "ce_outcome (fst c1) \<noteq> Answered" "ce_outcome (fst c2) \<noteq> Answered" "ce_outcome (fst c3) \<noteq> Answered"
    and "\<forall>c\<in>set cs. ce_allow_at (fst c) - ce_failed_at (fst c3) < timeout"
  shows "fst (run_checks lib limit W ([c1, c2, c3] @ cs) lm r) = fst (run_local limit W (map local_request ([c1, c2, c3] @ cs)) lm) \<and>
    snd (snd (run_checks lib limit W ([c1, c2, c3] @ cs) lm r)) = snd (snd (run_checks lib limit W [c1, c2, c3] lm r))"
proof -
  let ?b = "record_failure (ce_failed_at (fst c3)) (record_failure (ce_failed_at (fst c2))
           (record_failure (ce_failed_at (fst c1)) (lm_circuit lm)))"
  let ?L = "run_local limit W (map local_request [c1, c2, c3]) lm"
  have open_b: "cb_state ?b = OPEN" "cb_opened_at ?b = Some (ce_failed_at (fst c3))" "cb_recovery_timeout ?b = timeout"
    unfolding assms(3) by (simp_all add: new_core_breaker_def core_ops)
  obtain r3 where three: "run_checks lib limit W [c1, c2, c3] lm r = (fst ?L, (snd ?L)\<lparr>lm_circuit := ?b\<rparr>, r3)"
    using outage_opens_circuit [OF assms(1-6), of lib W r] by (auto simp only: Let_def case_prod_beta)
  have rest: "run_checks lib limit W cs ((snd ?L)\<lparr>lm_circuit := ?b\<rparr>) r3 =
      (fst (run_local limit W (map local_request cs) (snd ?L)),
       (snd (run_local limit W (map local_request cs) (snd ?L)))\<lparr>lm_circuit := ?b\<rparr>, r3)"
    using outage_runs_locally [OF assms(1), of "(snd ?L)\<lparr>lm_circuit := ?b\<rparr>" "ce_failed_at (fst c3)" cs lib W r3]
      open_b assms(7)
    by (simp add: run_local_circuit Let_def case_prod_beta)
  show ?thesis unfolding run_checks_append three Let_def case_prod_conv rest map_append run_local_append
    by (simp add: case_prod_beta)
qed

section \<open>Properties\<close>

text \<open>
  The counter in Redis bounds every key at twice its limit. Whatever replicas send requests,
  in whatever order and for whatever keys, as long as each replica's clock is within half a
  window of the server's, the script admits at most twice the limit of a key in any
  interval of one window; requests of other keys do not count against it.
\<close>

lemma sliding_window_at_most_double:
  assumes "redis_documented lib view" "1 \<le> w" "\<forall>h\<in>set hits. in_sync w h"
    and "\<forall>k b. view r (bucket_key k b) = None" "\<forall>k. 0 < limit k"
  shows "int (row_count (\<lambda>h. hit_key h = k \<and> x \<le> hit_wall h \<and> hit_wall h < x + of_int w)
      (fst (fold (run_hit lib limit w) hits ([], r)))) \<le> 2 * limit k"
  using assms by (rule sliding_window_bound)

text \<open>A server that keeps values and expiries in a map, as documented.\<close>

definition map_redis :: "(string \<Rightarrow> (int \<times> real option) option) redis_lib" where
  "map_redis =
     \<lparr>redis_get = (\<lambda>t k r. redis_alive t (r k)),
      redis_incr = (\<lambda>t k r. case redis_alive t (r k) of
          None \<Rightarrow> (1, r(k \<mapsto> (1, None)))
        | Some v \<Rightarrow> (v + 1, r(k \<mapsto> (v + 1, snd (the (r k)))))),
      redis_expire = (\<lambda>t k d r. case r k of None \<Rightarrow> r | Some (v, e) \<Rightarrow> r(k \<mapsto> (v, Some (t + of_int d))))\<rparr>"

lemma map_redis_documented: "redis_documented map_redis (\<lambda>r. r)"
  by (auto simp: redis_documented_def map_redis_def redis_alive_def split: option.splits)

definition sample_hit :: "real \<Rightarrow> hit" where
  "sample_hit t = \<lparr>hit_key = ''k'', hit_server = t, hit_wall = t\<rparr>"

lemma sliding_window_at_most_double_witness:
  "int (row_count (\<lambda>h. hit_key h = ''k'' \<and> 30 \<le> hit_wall h \<and> hit_wall h < 90)
     (fst (fold (run_hit map_redis (\<lambda>_. 1) 60) [sample_hit 59, sample_hit 60, sample_hit 89] ([], \<lambda>_. None)))) \<le> 2"
  using sliding_window_at_most_double [OF map_redis_documented, of 60 "[sample_hit 59, sample_hit 60, sample_hit 89]"
      "\<lambda>_. None" "\<lambda>_. 1" "''k''" 30]
  by (simp add: in_sync_def sample_hit_def)

definition admitted :: "request list \<Rightarrow> bool list \<Rightarrow> request list" where
  "admitted reqs oks = map fst (filter snd (zip reqs oks))"

lemma log_limit_admitted: "snd (log_limit limit W reqs adm) = adm @ admitted reqs (fst (log_limit limit W reqs adm))"
  by (induction reqs arbitrary: adm) (auto simp: admitted_def Let_def case_prod_beta)

lemma fresh_run:
  assumes "lm_local_windows lm = []" "sorted (map snd reqs)" "\<forall>k. 0 < limit k"
  shows "fst (run_local limit W reqs lm) = fst (log_limit limit W reqs []) \<and>
    log_ok limit W (admitted reqs (fst (run_local limit W reqs lm))) \<and>
    sorted (map snd (admitted reqs (fst (run_local limit W reqs lm)))) \<and>
    (\<forall>t. (\<forall>q\<in>set reqs. snd q \<le> t) \<longrightarrow>
      (\<exists>b\<le>t - W. log_sim b (snd (run_local limit W reqs lm)) (admitted reqs (fst (run_local limit W reqs lm)))) \<and>
      (\<forall>q\<in>set (admitted reqs (fst (run_local limit W reqs lm))). snd q \<le> t))"
proof -
  let ?adm = "snd (log_limit limit W reqs [])"
  define b0 where "b0 = (case reqs of [] \<Rightarrow> 0 | q # _ \<Rightarrow> snd q - W)"
  have same: "?adm = admitted reqs (fst (log_limit limit W reqs []))" by (simp add: log_limit_admitted)
  have sim: "fst (run_local limit W reqs lm) = fst (log_limit limit W reqs []) \<and>
    (\<exists>b'. log_sim b' (snd (run_local limit W reqs lm)) ?adm \<and>
       (\<forall>t. (\<forall>q\<in>set reqs. snd q \<le> t) \<and> b \<le> t - W \<longrightarrow> b' \<le> t - W))"
    if "\<forall>q\<in>set reqs. b \<le> snd q - W" for b
    using that by (intro run_local_log [OF fresh_log_sim [OF assms(1)] assms(2)])
  have low: "\<forall>q\<in>set reqs. min b0 b \<le> snd q - W" for b
    using assms(2) by (cases reqs) (auto simp: b0_def min_le_iff_disj)
  have "log_ok limit W []" using assms(3) by (simp add: log_ok_def row_count_def less_imp_le)
  then have "log_ok limit W ?adm" "sorted (map snd ?adm)"
    using assms(2) by (auto intro: log_limit_ok log_limit_sorted)
  moreover have "(\<exists>b\<le>t - W. log_sim b (snd (run_local limit W reqs lm)) ?adm) \<and> (\<forall>q\<in>set ?adm. snd q \<le> t)"
    if "\<forall>q\<in>set reqs. snd q \<le> t" for t
    using sim [OF low [of "t - W"]] that log_limit_times [of "[]" t reqs limit W] by auto
  ultimately show ?thesis using sim [OF low] same by simp
qed

text \<open>
  The local fallback implements the exact sliding-window log. From an empty limiter, over requests
  of any keys at non-decreasing times, it admits a request exactly when fewer than the
  limit of its key were admitted in the window that ends with the request, although it keeps
  only the times of the last window; hence no window of the key's requests exceeds the limit.
  A refused request that waits the announced number of seconds is admitted if no other
  request of the limiter came in between.
\<close>

lemma local_fallback_refines_log:
  assumes "lm_local_windows lm = []" "sorted (map snd reqs)" "\<forall>k. 0 < limit k"
  shows "fst (run_local limit W reqs lm) = fst (log_limit limit W reqs []) \<and>
    (\<forall>k x. int (row_count (\<lambda>q. fst q = k \<and> x < snd q \<and> snd q \<le> x + W)
       (admitted reqs (fst (run_local limit W reqs lm)))) \<le> limit k) \<and>
    (\<forall>k now retry lm'. (\<forall>q\<in>set reqs. snd q \<le> now) \<and>
       check_local k (limit k) W now (snd (run_local limit W reqs lm)) = ((False, retry), lm') \<longrightarrow>
       fst (fst (check_local k (limit k) W (now + of_int retry) lm')))"
proof -
  let ?lm = "snd (run_local limit W reqs lm)" and ?adm = "admitted reqs (fst (run_local limit W reqs lm))"
  note run = fresh_run [OF assms, of W]
  have "fst (fst (check_local k (limit k) W (now + of_int retry) lm'))"
    if now: "\<forall>q\<in>set reqs. snd q \<le> now" and refused: "check_local k (limit k) W now ?lm = ((False, retry), lm')"
    for k now retry lm'
  proof -
    obtain b where "log_sim b ?lm ?adm" "b \<le> now - W" and times: "\<forall>q\<in>set ?adm. snd q \<le> now"
      using run now by blast
    then show ?thesis using run assms(3) refused by (intro refused_then_admitted [where adm = ?adm]) auto
  qed
  then show ?thesis using run unfolding log_ok_def by blast
qed

definition sample_limiter :: limiter where
  "sample_limiter = new_limiter None None (Some ''redis://localhost'') ''Redis'' True"

lemma local_fallback_refines_log_witness:
  "fst (run_local (\<lambda>_. 1) 60 [(''a'', 0), (''a'', 30), (''b'', 31), (''a'', 60)] sample_limiter) =
     [True, False, True, True]"
  using local_fallback_refines_log [of sample_limiter "[(''a'', 0), (''a'', 30), (''b'', 31), (''a'', 60)]" "\<lambda>_. 1" 60]
  by (simp add: sample_limiter_def new_limiter_def row_count_def in_log_window_def Let_def)


definition sample_check :: "real \<Rightarrow> check_env \<times> string" where
  "sample_check t = (\<lparr>ce_allow_at = t, ce_wall = t, ce_server = t, ce_outcome = Answer_Lost, ce_failed_at = t,
     ce_local_at = t\<rparr>, ''a'')"


end
