(* ===== verification/Calendar.thy ===== *)
theory Calendar
  imports Prelude "HOL-Library.Char_ord" "HOL-Library.List_Lexorder"
begin

text \<open>
  The part of Python's \<open>datetime\<close> the sources use on UTC times: the civil date of an instant,
  midnight, the first day of a month, and the text \<open>isoformat()\<close> writes. An instant counts
  microseconds from 0001-01-01T00:00 UTC, the first one the class can represent. The main facts: the
  date conversions are inverse to each other, and the texts of two instants compare, as strings,
  like the instants, which is what every comparison of stored timestamps in the sources relies on.
\<close>

section \<open>Civil dates\<close>

abbreviation microseconds_per_day :: int where
  "microseconds_per_day \<equiv> 86400000000"

definition day_of :: "instant \<Rightarrow> int" where
  "day_of t = t div microseconds_per_day"

definition is_leap :: "int \<Rightarrow> bool" where
  "is_leap y \<longleftrightarrow> y mod 4 = 0 \<and> (y mod 100 \<noteq> 0 \<or> y mod 400 = 0)"

text \<open>Days before the first of January of year \<open>y\<close>, counted from year 1.\<close>

definition days_before_year :: "int \<Rightarrow> int" where
  "days_before_year y = (let n = y - 1 in n * 365 + n div 4 - n div 100 + n div 400)"

definition days_before_month :: "bool \<Rightarrow> int \<Rightarrow> int" where
  "days_before_month leap m =
     (let l = (if leap then 1 else 0)
      in if m \<le> 1 then 0 else if m = 2 then 31 else if m = 3 then 59 + l else if m = 4 then 90 + l
         else if m = 5 then 120 + l else if m = 6 then 151 + l else if m = 7 then 181 + l
         else if m = 8 then 212 + l else if m = 9 then 243 + l else if m = 10 then 273 + l
         else if m = 11 then 304 + l else if m = 12 then 334 + l else 365 + l)"

definition day_number :: "int \<Rightarrow> int \<Rightarrow> int \<Rightarrow> int" where
  "day_number y m d = days_before_year y + days_before_month (is_leap y) m + d - 1"

text \<open>The year of a day and the day's place in it.\<close>

definition year_and_day :: "int \<Rightarrow> int \<times> int" where
  "year_and_day n =
     (let n400 = n div 146097; n = n mod 146097;
          n100 = n div 36524; n = n mod 36524;
          n4 = n div 1461; n = n mod 1461;
          n1 = n div 365; n = n mod 365;
          y = 400 * n400 + 100 * n100 + 4 * n4 + n1 + 1
      in if n1 = 4 \<or> n100 = 4 then (y - 1, 365) else (y, n))"

definition month_in :: "bool \<Rightarrow> int \<Rightarrow> int" where
  "month_in leap n =
     (let dbm = days_before_month leap
      in if n < dbm 2 then 1 else if n < dbm 3 then 2 else if n < dbm 4 then 3 else if n < dbm 5 then 4
         else if n < dbm 6 then 5 else if n < dbm 7 then 6 else if n < dbm 8 then 7 else if n < dbm 9 then 8
         else if n < dbm 10 then 9 else if n < dbm 11 then 10 else if n < dbm 12 then 11 else 12)"

definition civil :: "int \<Rightarrow> int \<times> int \<times> int" where
  "civil n =
     (let (y, k) = year_and_day n; m = month_in (is_leap y) k
      in (y, m, k - days_before_month (is_leap y) m + 1))"

definition valid_date :: "int \<Rightarrow> int \<Rightarrow> int \<Rightarrow> bool" where
  "valid_date y m d \<longleftrightarrow>
     1 \<le> m \<and> m \<le> 12 \<and> 1 \<le> d \<and>
     d \<le> days_before_month (is_leap y) (m + 1) - days_before_month (is_leap y) m"

text \<open>Months counted from year 0: what \<open>strftime('%Y-%m')\<close> tells apart.\<close>

definition month_of :: "instant \<Rightarrow> int" where
  "month_of t = (let (y, m, d) = civil (day_of t) in 12 * y + m - 1)"

definition month_start :: "int \<Rightarrow> instant" where
  "month_start k = day_number (k div 12) (k mod 12 + 1) 1 * microseconds_per_day"

lemma mod_zero_iff:
  fixes x q r b :: int
  assumes "x = b * q + r" "1 \<le> r" "r \<le> b"
  shows "x mod b = 0 \<longleftrightarrow> r = b"
proof (cases "r = b")
  case False
  then have "x mod b = r" using assms by (intro int_mod_pos_eq [of _ _ q]) auto
  then show ?thesis using False assms by simp
qed (use assms in simp)

lemma year_split:
  fixes a b c e :: int
  assumes "0 \<le> b" "b < 4" "0 \<le> c" "c < 25" "0 \<le> e" "e < 4"
  shows "days_before_year (400 * a + 100 * b + 4 * c + e + 1) = 146097 * a + 36524 * b + 1461 * c + 365 * e"
    and "is_leap (400 * a + 100 * b + 4 * c + e + 1) \<longleftrightarrow> e = 3 \<and> (c \<noteq> 24 \<or> b = 3)"
proof -
  let ?n = "400 * a + 100 * b + 4 * c + e"
  have "?n div 4 = 100 * a + 25 * b + c" using assms by (intro int_div_pos_eq [of _ _ _ e]) auto
  moreover have "?n div 100 = 4 * a + b" using assms by (intro int_div_pos_eq [of _ _ _ "4 * c + e"]) auto
  moreover have "?n div 400 = a" using assms by (intro int_div_pos_eq [of _ _ _ "100 * b + 4 * c + e"]) auto
  ultimately show "days_before_year (?n + 1) = 146097 * a + 36524 * b + 1461 * c + 365 * e"
    by (simp add: days_before_year_def Let_def)
  have "(?n + 1) mod 4 = 0 \<longleftrightarrow> e + 1 = 4"
    using assms by (intro mod_zero_iff [of _ _ "100 * a + 25 * b + c"]) auto
  moreover have "(?n + 1) mod 100 = 0 \<longleftrightarrow> 4 * c + e + 1 = 100"
    using assms by (intro mod_zero_iff [of _ _ "4 * a + b"]) auto
  moreover have "(?n + 1) mod 400 = 0 \<longleftrightarrow> 100 * b + 4 * c + e + 1 = 400"
    using assms by (intro mod_zero_iff [of _ _ a]) auto
  moreover have "4 * c + e + 1 = 100 \<longleftrightarrow> c = 24 \<and> e = 3" using assms by presburger
  moreover have "100 * b + 4 * c + e + 1 = 400 \<longleftrightarrow> b = 3 \<and> c = 24 \<and> e = 3" using assms by presburger
  ultimately show "is_leap (?n + 1) \<longleftrightarrow> e = 3 \<and> (c \<noteq> 24 \<or> b = 3)"
    unfolding is_leap_def by auto
qed

definition year_length :: "int \<Rightarrow> int" where
  "year_length y = (if is_leap y then 366 else 365)"

lemma days_before_next_year: "days_before_year (y + 1) = days_before_year y + year_length y"
proof -
  define a where "a = (y - 1) div 400"
  define b where "b = (y - 1) mod 400 div 100"
  define c where "c = (y - 1) mod 100 div 4"
  define e where "e = (y - 1) mod 4"
  have r: "0 \<le> b" "b < 4" "0 \<le> c" "c < 25" "0 \<le> e" "e < 4"
    by (auto simp: b_def c_def e_def)
  have "(y - 1) mod 400 mod 100 = (y - 1) mod 100" "(y - 1) mod 100 mod 4 = (y - 1) mod 4"
    by (simp_all add: mod_mod_cancel)
  then have y: "y = 400 * a + 100 * b + 4 * c + e + 1"
    using div_mult_mod_eq [of "y - 1" 400] div_mult_mod_eq [of "(y - 1) mod 400" 100]
      div_mult_mod_eq [of "(y - 1) mod 100" 4]
    unfolding a_def b_def c_def e_def by linarith
  have now: "days_before_year y = 146097 * a + 36524 * b + 1461 * c + 365 * e"
    "is_leap y \<longleftrightarrow> e = 3 \<and> (c \<noteq> 24 \<or> b = 3)"
    using year_split [OF r] by (simp_all add: y)
  consider "e < 3" | "e = 3" "c < 24" | "e = 3" "c = 24" "b < 3" | "e = 3" "c = 24" "b = 3"
    using r by linarith
  then show ?thesis
  proof cases
    case 1 with now r year_split(1) [of b c "e + 1" a] show ?thesis by (simp add: y year_length_def algebra_simps)
  next
    case 2 with now r year_split(1) [of b "c + 1" 0 a] show ?thesis by (simp add: y year_length_def algebra_simps)
  next
    case 3 with now r year_split(1) [of "b + 1" 0 0 a] show ?thesis by (simp add: y year_length_def algebra_simps)
  next
    case 4 with now r year_split(1) [of 0 0 0 "a + 1"] show ?thesis by (simp add: y year_length_def algebra_simps)
  qed
qed

lemma year_and_day_split:
  assumes "year_and_day n = (y, k)"
  shows "n = days_before_year y + k" "0 \<le> k" "k < year_length y"
proof -
  define a where "a = n div 146097"
  define n' where "n' = n mod 146097"
  define b where "b = n' div 36524"
  define n'' where "n'' = n' mod 36524"
  define c where "c = n'' div 1461"
  define n3 where "n3 = n'' mod 1461"
  define e where "e = n3 div 365"
  define k' where "k' = n3 mod 365"
  have eqs: "n = 146097 * a + n'" "n' = 36524 * b + n''" "n'' = 1461 * c + n3" "n3 = 365 * e + k'"
    by (simp_all add: a_def n'_def b_def n''_def c_def n3_def e_def k'_def)
  have bnds: "0 \<le> n'" "n' < 146097" "0 \<le> n''" "n'' < 36524" "0 \<le> n3" "n3 < 1461" "0 \<le> k'" "k' < 365"
    by (simp_all add: n'_def n''_def n3_def k'_def)
  have r: "0 \<le> b" "b \<le> 4" "0 \<le> c" "c < 25" "0 \<le> e" "e \<le> 4" using eqs bnds by linarith+
  have yk: "(y, k) = (let y = 400 * a + 100 * b + 4 * c + e + 1 in if e = 4 \<or> b = 4 then (y - 1, 365) else (y, k'))"
    unfolding assms [symmetric] year_and_day_def Let_def a_def n'_def b_def n''_def c_def n3_def e_def k'_def
    by (rule refl)
  consider "e < 4" "b < 4" | "e = 4" "b < 4" | "b = 4" using r by linarith
  then have "n = days_before_year y + k \<and> 0 \<le> k \<and> k < year_length y"
  proof cases
    case 1
    then have "y = 400 * a + 100 * b + 4 * c + e + 1" "k = k'" using yk by (auto simp: Let_def)
    then show ?thesis using year_split [of b c e a] 1 r eqs bnds by (simp add: year_length_def)
  next
    case 2
    then have "k' = 0" "c \<noteq> 24 \<or> b = 3" using eqs bnds r by linarith+
    moreover have "y = 400 * a + 100 * b + 4 * c + 3 + 1" "k = 365" using yk 2 by (auto simp: Let_def)
    ultimately show ?thesis using year_split [of b c 3 a] 2 r eqs bnds by (simp add: year_length_def)
  next
    case 3
    then have "n'' = 0" using eqs bnds by linarith
    then have "c = 0" "e = 0" "k' = 0" using eqs bnds r by linarith+
    moreover from this have "y = 400 * a + 100 * 3 + 4 * 24 + 3 + 1" "k = 365" using yk 3 by (auto simp: Let_def)
    ultimately show ?thesis using year_split [of 3 24 3 a] 3 r eqs bnds by (simp add: year_length_def)
  qed
  then show "n = days_before_year y + k" "0 \<le> k" "k < year_length y" by auto
qed

lemma days_before_month_13: "days_before_month (is_leap y) 13 = year_length y"
  by (simp add: days_before_month_def year_length_def)

lemma month_in_bounds:
  assumes "0 \<le> k" "k < (if leap then 366 else 365)"
  shows "1 \<le> month_in leap k" "month_in leap k \<le> 12"
    "days_before_month leap (month_in leap k) \<le> k" "k < days_before_month leap (month_in leap k + 1)"
  using assms by (auto simp: month_in_def days_before_month_def Let_def)

lemma civil_correct:
  assumes "civil n = (y, m, d)"
  shows "n = day_number y m d" "valid_date y m d"
proof -
  obtain k where yk: "year_and_day n = (y, k)" using assms by (auto simp: civil_def Let_def split: prod.splits)
  note yd = year_and_day_split [OF yk]
  have m: "m = month_in (is_leap y) k" and d: "d = k - days_before_month (is_leap y) m + 1"
    using assms yk by (auto simp: civil_def Let_def)
  note mi = month_in_bounds [of k "is_leap y", folded m]
  have k: "k < (if is_leap y then 366 else 365)" using yd by (simp add: year_length_def)
  show "n = day_number y m d" using yd by (simp add: day_number_def d)
  show "valid_date y m d" using mi [OF yd(2) k] by (simp add: valid_date_def d)
qed

lemma day_number_bounds:
  assumes "valid_date y m d"
  shows "day_number y m 1 \<le> day_number y m d" "day_number y m d < day_number y m 1 + (days_before_month (is_leap y) (m + 1) - days_before_month (is_leap y) m)"
  using assms by (auto simp: day_number_def valid_date_def)

lemma month_start_step:
  "month_start (12 * y + m - 1) = day_number y m 1 * microseconds_per_day"
  "month_start (12 * y + m - 1 + 1) =
     (day_number y m 1 + (days_before_month (is_leap y) (m + 1) - days_before_month (is_leap y) m)) * microseconds_per_day"
  if "1 \<le> m" "m \<le> 12"
proof -
  have q: "(12 * y + m - 1) div 12 = y" "(12 * y + m - 1) mod 12 = m - 1"
    using that by (auto intro!: int_div_pos_eq [of _ _ _ "m - 1"] int_mod_pos_eq [of _ _ y])
  then show "month_start (12 * y + m - 1) = day_number y m 1 * microseconds_per_day"
    by (simp add: month_start_def)
  show "month_start (12 * y + m - 1 + 1) =
     (day_number y m 1 + (days_before_month (is_leap y) (m + 1) - days_before_month (is_leap y) m)) * microseconds_per_day"
  proof (cases "m = 12")
    case True
    have "days_before_month b 1 = 0" for b by (simp add: days_before_month_def)
    moreover have "(12 * y + 12) div 12 = y + 1" "(12 * y + 12) mod 12 = 0" by auto
    moreover have "days_before_year (1 + y) = days_before_year y + year_length y"
      using days_before_next_year [of y] by (simp add: add.commute)
    ultimately show ?thesis
      using True by (simp add: month_start_def day_number_def days_before_month_13 algebra_simps)
  next
    case False
    then have "(12 * y + m) div 12 = y" "(12 * y + m) mod 12 = m"
      using that by (auto intro!: int_div_pos_eq [of _ _ _ m] int_mod_pos_eq [of _ _ y])
    then show ?thesis using False by (simp add: month_start_def day_number_def algebra_simps)
  qed
qed

lemma month_start_strict: "month_start k < month_start (k + 1)"
proof -
  let ?y = "k div 12" and ?m = "k mod 12 + 1"
  have m: "1 \<le> ?m" "?m \<le> 12" using pos_mod_bound [of 12 k] by auto
  have k: "k = 12 * ?y + ?m - 1" by simp
  have "days_before_month b i < days_before_month b (i + 1)" if "1 \<le> i" "i \<le> 12" for b i
  proof -
    have "i \<in> {1, 2, 3, 4, 5, 6, 7, 8, 9, 10, 11, 12}" using that by (simp; presburger)
    then show ?thesis by (auto simp: days_before_month_def)
  qed
  from this [OF m] have "month_start (12 * ?y + ?m - 1) < month_start (12 * ?y + ?m - 1 + 1)"
    unfolding month_start_step [OF m] by simp
  then show ?thesis using k by simp
qed

lemma month_start_mono: "j \<le> k \<Longrightarrow> month_start j \<le> month_start k"
proof (induction k rule: int_ge_induct)
  case (step i) then show ?case using month_start_strict [of i] by linarith
qed simp

lemma day_of_bounds: "day_of t * microseconds_per_day \<le> t" "t < (day_of t + 1) * microseconds_per_day"
  using div_mult_mod_eq [of t microseconds_per_day] pos_mod_bound [of microseconds_per_day t]
    pos_mod_sign [of microseconds_per_day t]
  by (auto simp: day_of_def algebra_simps)

lemma month_of_bounds: "month_start (month_of t) \<le> t" "t < month_start (month_of t + 1)"
proof -
  obtain y m d where c: "civil (day_of t) = (y, m, d)" by (cases "civil (day_of t)") auto
  note cc = civil_correct [OF c]
  have k: "month_of t = 12 * y + m - 1" by (simp add: month_of_def c)
  have m: "1 \<le> m" "m \<le> 12" using cc(2) by (auto simp: valid_date_def)
  note db = day_number_bounds [OF cc(2)] day_of_bounds [of t, unfolded cc(1)]
  show "month_start (month_of t) \<le> t" unfolding k month_start_step(1) [OF m] using db by auto
  show "t < month_start (month_of t + 1)" unfolding k month_start_step(2) [OF m] using db by auto
qed

lemma month_of_iff: "month_of t = k \<longleftrightarrow> month_start k \<le> t \<and> t < month_start (k + 1)"
proof
  assume "month_start k \<le> t \<and> t < month_start (k + 1)"
  then have "\<not> month_of t + 1 \<le> k" "\<not> k + 1 \<le> month_of t"
    using month_of_bounds [of t] month_start_mono [of "month_of t + 1" k] month_start_mono [of "k + 1" "month_of t"]
    by linarith+
  then show "month_of t = k" by simp
qed (use month_of_bounds in auto)

section \<open>The text of a timestamp\<close>

fun pad :: "nat \<Rightarrow> int \<Rightarrow> string" where
  "pad 0 n = []"
| "pad (Suc k) n = pad k (n div 10) @ [char_of (nat (48 + n mod 10))]"

definition isoformat :: "instant \<Rightarrow> string" where
  "isoformat t =
     (let (y, m, d) = civil (day_of t); us = t mod 1000000; s = t div 1000000
      in pad 4 y @ ''-'' @ pad 2 m @ ''-'' @ pad 2 d @ ''T'' @
         pad 2 (s div 3600 mod 24) @ '':'' @ pad 2 (s div 60 mod 60) @ '':'' @ pad 2 (s mod 60) @
         (if us = 0 then [] else ''.'' @ pad 6 us) @ ''+00:00'')"

text \<open>The instants the class represents: the years 1 to 9999.\<close>

definition datable :: "instant \<Rightarrow> bool" where
  "datable t \<longleftrightarrow> 0 \<le> t \<and> t < days_before_year 10000 * microseconds_per_day"

lemma length_pad [simp]: "length (pad k n) = k"
  by (induction k arbitrary: n) auto

lemma append_less:
  fixes u v :: "'a::linorder list"
  assumes "length u = length v"
  shows "u @ x < v @ y \<longleftrightarrow> u < v \<or> u = v \<and> x < y"
  using assms by (induction u v rule: list_induct2) auto

lemma base_less:
  fixes q r q' r' b :: int
  assumes "0 \<le> r" "r < b" "0 \<le> r'" "r' < b"
  shows "b * q + r < b * q' + r' \<longleftrightarrow> q < q' \<or> q = q' \<and> r < r'"
proof (cases "q = q'")
  case False
  then consider "q + 1 \<le> q'" | "q' + 1 \<le> q" by linarith
  then show ?thesis
  proof cases
    case 1
    then have "b * (q + 1) \<le> b * q'" using assms by (intro mult_left_mono) auto
    then show ?thesis using 1 assms by (simp add: algebra_simps)
  next
    case 2
    then have "b * (q' + 1) \<le> b * q" using assms by (intro mult_left_mono) auto
    then show ?thesis using 2 assms by (simp add: algebra_simps)
  qed
qed simp

lemma digit_less:
  assumes "0 \<le> i" "i < 10" "0 \<le> j" "j < 10"
  shows "(char_of (nat (48 + i)) :: char) < char_of (nat (48 + j)) \<longleftrightarrow> i < j"
    and "(char_of (nat (48 + i)) :: char) = char_of (nat (48 + j)) \<longleftrightarrow> i = j"
proof -
  have "(of_char (char_of (nat (48 + k)) :: char) :: nat) = nat (48 + k)" if "0 \<le> k" "k < 10" for k
    using that by simp
  note this [OF assms(1,2)] this [OF assms(3,4)]
  then show "(char_of (nat (48 + i)) :: char) < char_of (nat (48 + j)) \<longleftrightarrow> i < j"
    "(char_of (nat (48 + i)) :: char) = char_of (nat (48 + j)) \<longleftrightarrow> i = j"
    using assms unfolding less_char_def of_char_eq_iff [symmetric, where 'a = nat] by auto
qed

lemma pad_order:
  assumes "0 \<le> a" "a < 10 ^ k" "0 \<le> b" "b < 10 ^ k"
  shows "(pad k a < pad k b \<longleftrightarrow> a < b) \<and> (pad k a = pad k b \<longleftrightarrow> a = b)"
  using assms
proof (induction k arbitrary: a b)
  case (Suc k)
  have bounds: "a div 10 < 10 ^ k" "b div 10 < 10 ^ k" "0 \<le> a div 10" "0 \<le> b div 10"
    using Suc.prems by (auto simp: div_less_iff_less_mult pos_imp_zdiv_nonneg_iff)
  note IH = Suc.IH [of "a div 10" "b div 10", OF bounds(3,1,4,2)] and dg = digit_less [of "a mod 10" "b mod 10"]
  have ab: "10 * (a div 10) + a mod 10 = a" "10 * (b div 10) + b mod 10 = b" by simp_all
  have "pad (Suc k) a < pad (Suc k) b \<longleftrightarrow> a div 10 < b div 10 \<or> a div 10 = b div 10 \<and> a mod 10 < b mod 10"
    using IH dg by (simp add: append_less)
  also have "\<dots> \<longleftrightarrow> a < b"
    using base_less [of "a mod 10" 10 "b mod 10" "a div 10" "b div 10"] by (simp add: ab)
  finally have "pad (Suc k) a < pad (Suc k) b \<longleftrightarrow> a < b" .
  moreover have "pad (Suc k) a = pad (Suc k) b \<longleftrightarrow> a = b"
  proof -
    have "pad (Suc k) a = pad (Suc k) b \<longleftrightarrow> a div 10 = b div 10 \<and> a mod 10 = b mod 10"
      using IH dg by simp
    also have "\<dots> \<longleftrightarrow> a = b" using ab by metis
    finally show ?thesis .
  qed
  ultimately show ?case by blast
qed auto

lemma date_less:
  assumes "valid_date y m d" "valid_date y' m' d'"
  shows "day_number y m d < day_number y' m' d' \<longleftrightarrow> y < y' \<or> y = y' \<and> (m < m' \<or> m = m' \<and> d < d')"
proof -
  let ?k = "12 * y + m - 1" and ?k' = "12 * y' + m' - 1"
  have m: "1 \<le> m" "m \<le> 12" "1 \<le> m'" "m' \<le> 12" using assms by (auto simp: valid_date_def)
  have before: "day_number v n e < day_number v' n' e'"
    if "valid_date v n e" "valid_date v' n' e'" "12 * v + n - 1 < 12 * v' + n' - 1" for v n e v' n' e'
  proof -
    have n: "1 \<le> n" "n \<le> 12" "1 \<le> n'" "n' \<le> 12" using that by (auto simp: valid_date_def)
    have "month_start (12 * v + n - 1 + 1) \<le> month_start (12 * v' + n' - 1)"
      using that(3) by (intro month_start_mono) auto
    then show ?thesis
      unfolding month_start_step(1) [OF n(3,4)] month_start_step(2) [OF n(1,2)]
      using day_number_bounds [OF that(1)] day_number_bounds [OF that(2)] by simp
  qed
  consider "?k < ?k'" | "?k' < ?k" | "?k = ?k'" by linarith
  then show ?thesis
  proof cases
    case 1 with before [OF assms] m show ?thesis by auto
  next
    case 2 with before [OF assms(2,1)] m show ?thesis by auto
  next
    case 3
    then have "y = y'" "m = m'" using m by presburger+
    then show ?thesis by (auto simp: day_number_def)
  qed
qed

lemma civil_less:
  assumes "civil a = (y, m, d)" "civil b = (y', m', d')"
  shows "a < b \<longleftrightarrow> y < y' \<or> y = y' \<and> (m < m' \<or> m = m' \<and> d < d')"
  using date_less civil_correct [OF assms(1)] civil_correct [OF assms(2)] by metis

lemma month_valid_day: "valid_date y m d \<Longrightarrow> d \<le> 31"
proof -
  assume v: "valid_date y m d"
  have "days_before_month b (i + 1) - days_before_month b i \<le> 31" if "1 \<le> i" "i \<le> 12" for b i
  proof -
    have "i \<in> {1, 2, 3, 4, 5, 6, 7, 8, 9, 10, 11, 12}" using that by (simp; presburger)
    then show ?thesis by (auto simp: days_before_month_def)
  qed
  from this [of m "is_leap y"] v show ?thesis by (auto simp: valid_date_def)
qed

lemma civil_year:
  assumes "datable t" "civil (day_of t) = (y, m, d)"
  shows "0 \<le> y" "y < 10000"
proof -
  have D: "0 \<le> day_of t" "day_of t < days_before_year 10000"
    using assms(1) day_of_bounds [of t] by (auto simp: datable_def day_of_def pos_imp_zdiv_nonneg_iff div_less_iff_less_mult)
  have ends: "civil 0 = (1, 1, 1)" "civil (days_before_year 10000) = (10000, 1, 1)"
    by (simp_all add: civil_def year_and_day_def days_before_year_def month_in_def days_before_month_def)
  show "0 \<le> y" using D(1) civil_less [OF assms(2) ends(1)] by auto
  show "y < 10000"
  proof -
    have "1 \<le> m" "1 \<le> d" using civil_correct(2) [OF assms(2)] by (auto simp: valid_date_def)
    then show ?thesis using D(2) civil_less [OF assms(2) ends(2)] by auto
  qed
qed

text \<open>The clock fields of an instant, and the part of its text behind the seconds.\<close>

definition clock_text :: "instant \<Rightarrow> string" where
  "clock_text us = (if us = 0 then [] else ''.'' @ pad 6 us) @ ''+00:00''"

lemma clock_text_less:
  assumes "0 \<le> a" "a < 1000000" "0 \<le> b" "b < 1000000"
  shows "clock_text a < clock_text b \<longleftrightarrow> a < b"
proof -
  have "pad 6 a < pad 6 b \<longleftrightarrow> a < b" using pad_order [of a 6 b] assms by simp
  moreover have "CHR ''+'' < CHR ''.''" "\<not> CHR ''.'' < CHR ''+''" by (simp_all add: less_char_def)
  ultimately show ?thesis using assms by (auto simp: clock_text_def append_less)
qed

lemma split_less:
  fixes x y b :: int
  assumes "0 < b"
  shows "x < y \<longleftrightarrow> x div b < y div b \<or> x div b = y div b \<and> x mod b < y mod b"
  using base_less [of "x mod b" b "y mod b" "x div b" "y div b"] assms by simp

lemma pad_sep_less:
  assumes "0 \<le> a" "a < 10 ^ k" "0 \<le> b" "b < 10 ^ k"
  shows "pad k a @ c # x < pad k b @ c # y \<longleftrightarrow> a < b \<or> a = b \<and> x < y"
  using pad_order [OF assms] by (simp add: append_less)

lemma pad_end_less:
  assumes "0 \<le> a" "a < 10 ^ k" "0 \<le> b" "b < 10 ^ k"
  shows "pad k a @ x < pad k b @ y \<longleftrightarrow> a < b \<or> a = b \<and> x < y"
  using pad_order [OF assms] by (simp add: append_less)

definition hour_of :: "instant \<Rightarrow> int" where
  "hour_of t = t div 3600000000 mod 24"

definition minute_of :: "instant \<Rightarrow> int" where
  "minute_of t = t div 60000000 mod 60"

definition second_of :: "instant \<Rightarrow> int" where
  "second_of t = t div 1000000 mod 60"

lemma isoformat_fields:
  "civil (day_of t) = (y, m, d) \<Longrightarrow>
   isoformat t = pad 4 y @ CHR ''-'' # pad 2 m @ CHR ''-'' # pad 2 d @ CHR ''T'' #
     pad 2 (hour_of t) @ CHR '':'' # pad 2 (minute_of t) @ CHR '':'' # pad 2 (second_of t) @ clock_text (t mod 1000000)"
  by (simp add: isoformat_def Let_def clock_text_def hour_of_def minute_of_def second_of_def zdiv_zmult2_eq [symmetric]
      del: pad.simps)

lemma clock_bounds:
  "0 \<le> hour_of t" "hour_of t < 10 ^ 2" "0 \<le> minute_of t" "minute_of t < 10 ^ 2" "0 \<le> second_of t" "second_of t < 10 ^ 2"
  using pos_mod_bound [of 24 "t div 3600000000"] pos_mod_bound [of 60 "t div 60000000"] pos_mod_bound [of 60 "t div 1000000"]
  by (auto simp: hour_of_def minute_of_def second_of_def)

lemma instant_less:
  fixes s t :: instant
  shows "s < t \<longleftrightarrow> day_of s < day_of t \<or> day_of s = day_of t \<and> (hour_of s < hour_of t \<or> hour_of s = hour_of t \<and>
    (minute_of s < minute_of t \<or> minute_of s = minute_of t \<and> (second_of s < second_of t \<or> second_of s = second_of t \<and>
      s mod 1000000 < t mod 1000000)))"
proof -
  have eq: "(x::int) = z \<longleftrightarrow> x div b = z div b \<and> x mod b = z mod b" for x z b by (metis div_mult_mod_eq)
  define a0 a1 a2 a3 where "a0 = s div 1000000" and "a1 = s div 60000000" and "a2 = s div 3600000000" and "a3 = day_of s"
  define b0 b1 b2 b3 where "b0 = t div 1000000" and "b1 = t div 60000000" and "b2 = t div 3600000000" and "b3 = day_of t"
  have q: "a0 div 60 = a1" "b0 div 60 = b1" "a1 div 60 = a2" "b1 div 60 = b2" "a2 div 24 = a3" "b2 div 24 = b3"
    by (simp_all add: a0_def a1_def a2_def a3_def b0_def b1_def b2_def b3_def day_of_def zdiv_zmult2_eq [symmetric])
  have l0: "s < t \<longleftrightarrow> a0 < b0 \<or> a0 = b0 \<and> s mod 1000000 < t mod 1000000"
    using split_less [of 1000000 s t] by (simp add: a0_def b0_def)
  have l1: "a0 < b0 \<longleftrightarrow> a1 < b1 \<or> a1 = b1 \<and> a0 mod 60 < b0 mod 60" "a0 = b0 \<longleftrightarrow> a1 = b1 \<and> a0 mod 60 = b0 mod 60"
    using split_less [of 60 a0 b0] eq [of a0 b0 60] by (simp_all add: q)
  have l2: "a1 < b1 \<longleftrightarrow> a2 < b2 \<or> a2 = b2 \<and> a1 mod 60 < b1 mod 60" "a1 = b1 \<longleftrightarrow> a2 = b2 \<and> a1 mod 60 = b1 mod 60"
    using split_less [of 60 a1 b1] eq [of a1 b1 60] by (simp_all add: q)
  have l3: "a2 < b2 \<longleftrightarrow> a3 < b3 \<or> a3 = b3 \<and> a2 mod 24 < b2 mod 24" "a2 = b2 \<longleftrightarrow> a3 = b3 \<and> a2 mod 24 = b2 mod 24"
    using split_less [of 24 a2 b2] eq [of a2 b2 24] by (simp_all add: q)
  show ?thesis
    unfolding l0 l1 l2 l3 hour_of_def minute_of_def second_of_def
      a0_def [symmetric] a1_def [symmetric] a2_def [symmetric] a3_def [symmetric]
      b0_def [symmetric] b1_def [symmetric] b2_def [symmetric] b3_def [symmetric]
    by blast
qed

lemma isoformat_less:
  assumes "datable s" "datable t"
  shows "isoformat s < isoformat t \<longleftrightarrow> s < t"
proof -
  obtain y m d where c: "civil (day_of s) = (y, m, d)" by (cases "civil (day_of s)") auto
  obtain y' m' d' where c': "civil (day_of t) = (y', m', d')" by (cases "civil (day_of t)") auto
  note v = civil_correct(2) [OF c] civil_correct(2) [OF c']
  have md: "0 \<le> m" "m < 10 ^ 2" "0 \<le> m'" "m' < 10 ^ 2" "0 \<le> d" "d < 10 ^ 2" "0 \<le> d'" "d' < 10 ^ 2"
    using v month_valid_day [OF v(1)] month_valid_day [OF v(2)] by (auto simp: valid_date_def)
  have yr: "0 \<le> y" "y < 10 ^ 4" "0 \<le> y'" "y' < 10 ^ 4"
    using civil_year [OF assms(1) c] civil_year [OF assms(2) c'] by auto
  have us: "clock_text (s mod 1000000) < clock_text (t mod 1000000) \<longleftrightarrow> s mod 1000000 < t mod 1000000"
    by (rule clock_text_less) auto
  have days: "day_of s = day_of t \<longleftrightarrow> y = y' \<and> m = m' \<and> d = d'"
    using civil_correct(1) [OF c] civil_correct(1) [OF c'] c c' by (metis Pair_inject)
  have nest: "(A \<or> B \<and> (C \<or> D \<and> (E \<or> F \<and> R))) \<longleftrightarrow> (A \<or> B \<and> (C \<or> D \<and> E)) \<or> (B \<and> D \<and> F) \<and> R"
    for A B C D E F R by blast
  show ?thesis
    unfolding isoformat_fields [OF c] isoformat_fields [OF c'] instant_less [of s t] civil_less [OF c c']
      pad_sep_less [OF yr] pad_sep_less [OF md(1-4)] pad_sep_less [OF md(5-8)]
      pad_sep_less [OF clock_bounds(1,2) clock_bounds(1,2)] pad_sep_less [OF clock_bounds(3,4) clock_bounds(3,4)]
      pad_end_less [OF clock_bounds(5,6) clock_bounds(5,6)] us days
    by (rule nest)
qed

lemma month_length: "month_start k + 28 * microseconds_per_day \<le> month_start (k + 1)"
  "month_start (k + 1) \<le> month_start k + 31 * microseconds_per_day"
proof -
  let ?y = "k div 12" and ?m = "k mod 12 + 1"
  have m: "1 \<le> ?m" "?m \<le> 12" using pos_mod_bound [of 12 k] by auto
  have k: "12 * ?y + ?m - 1 = k" by simp
  have "28 \<le> days_before_month b (i + 1) - days_before_month b i \<and> days_before_month b (i + 1) - days_before_month b i \<le> 31"
    if "1 \<le> i" "i \<le> 12" for b i
  proof -
    have "i \<in> {1, 2, 3, 4, 5, 6, 7, 8, 9, 10, 11, 12}" using that by (simp; presburger)
    then show ?thesis by (auto simp: days_before_month_def)
  qed
  note len = this [OF m, of "is_leap ?y"] and ms = month_start_step [OF m, of ?y, unfolded k]
  show "month_start k + 28 * microseconds_per_day \<le> month_start (k + 1)"
    "month_start (k + 1) \<le> month_start k + 31 * microseconds_per_day"
    unfolding ms using len by auto
qed

lemma month_after_32_days: "month_of (month_start k + 32 * microseconds_per_day) = k + 1"
  unfolding month_of_iff using month_length [of k] month_length [of "k + 1"] by auto

lemma midnight_iff: "day_of t = d \<longleftrightarrow> d * microseconds_per_day \<le> t \<and> t < (d + 1) * microseconds_per_day"
  using day_of_bounds [of t] by (auto simp: day_of_def intro: int_div_pos_eq [of _ _ _ "t - d * microseconds_per_day"])

end
