(* ===== verification/Api_Keys.thy ===== *)
theory Api_Keys
  imports Calendar Py_Text Key_Limiter
begin

text \<open>
  The API key store (\<open>packages/core/detection/api_key_store.py\<close>): creation, revocation, rotation
  with an overlap, the sweep of lapsed keys, look-up, the request log of the gateway and the daily
  and monthly quotas counted on it. Keys are stored as BLAKE2b digests; the digest is a parameter.
  Timestamps of keys are the texts the columns hold, compared as strings like in the source; an expiry
  date is whatever text the caller supplied. Readings of the clock and random values are
  arguments, one reading per call. A \<open>SELECT\<close> without an order reads the table from its start.
\<close>

section \<open>Keys\<close>

record api_key =
  ak_key_id :: string
  ak_key_hash :: string
  ak_namespace_id :: string
  ak_scopes :: string
  ak_rate_limit :: int
  ak_daily_quota :: int
  ak_ns_daily_quota :: int
  ak_monthly_quota :: int
  ak_ns_monthly_quota :: int
  ak_created_at :: string
  ak_expires_at :: "string option"
  ak_last_used_at :: "string option"
  ak_revoked :: bool
  ak_status :: string
  ak_rotated_from :: "string option"
  ak_rotated_to :: "string option"
  ak_rotation_deadline :: "string option"

record quota_defaults =
  qd_daily :: int
  qd_ns_daily :: int
  qd_monthly :: int
  qd_ns_monthly :: int

datatype key_error =
    Invalid_Scopes "string list"
  | Key_Integrity
  | Key_Not_Found
  | Key_Is_Revoked
  | Key_Is_Expired
  | Deadline_Overflow

definition key_scopes :: "string list" where
  "key_scopes = [''read:scores'', ''write:suppressions'', ''admin'']"

fun comma_join :: "string list \<Rightarrow> string" where
  "comma_join [] = []"
| "comma_join [s] = s"
| "comma_join (s # ss) = s @ '','' @ comma_join ss"

definition split_scopes :: "string \<Rightarrow> string list" where
  "split_scopes s = filter (\<lambda>w. w \<noteq> []) (map py_strip (py_split (CHR '','') s))"

definition insert_api_key :: "api_key \<Rightarrow> api_key list \<Rightarrow> api_key list option" where
  "insert_api_key row keys =
     (if ak_key_id row \<in> ak_key_id ` set keys \<or> ak_key_hash row \<in> ak_key_hash ` set keys then None
      else Some (keys @ [row]))"

definition create_api_key ::
  "(string \<Rightarrow> string) \<Rightarrow> quota_defaults \<Rightarrow> instant \<Rightarrow> string \<Rightarrow> string \<Rightarrow> string list \<Rightarrow> string \<Rightarrow> int \<Rightarrow> string option
    \<Rightarrow> api_key list \<Rightarrow> (key_error + string \<times> api_key) \<times> api_key list" where
  "create_api_key blake2b qd now key_id token scopes namespace_id rate expires_at keys =
     (let invalid = filter (\<lambda>s. s \<notin> set key_scopes) (sort (remdups scopes));
          plaintext = ''ll_'' @ token;
          row = \<lparr>ak_key_id = key_id, ak_key_hash = blake2b plaintext, ak_namespace_id = namespace_id,
                 ak_scopes = comma_join (sort scopes), ak_rate_limit = rate,
                 ak_daily_quota = qd_daily qd, ak_ns_daily_quota = qd_ns_daily qd,
                 ak_monthly_quota = qd_monthly qd, ak_ns_monthly_quota = qd_ns_monthly qd,
                 ak_created_at = isoformat now, ak_expires_at = expires_at, ak_last_used_at = None,
                 ak_revoked = False, ak_status = ''active'', ak_rotated_from = None, ak_rotated_to = None,
                 ak_rotation_deadline = None\<rparr>
      in if invalid \<noteq> [] then (Inl (Invalid_Scopes invalid), keys)
         else case insert_api_key row keys of
                None \<Rightarrow> (Inl Key_Integrity, keys)
              | Some keys' \<Rightarrow> (Inr (plaintext, row), keys'))"

definition revoke_api_key :: "string \<Rightarrow> api_key list \<Rightarrow> bool \<times> api_key list" where
  "revoke_api_key key_id keys =
     (let p = (\<lambda>r. ak_key_id r = key_id \<and> \<not> ak_revoked r)
      in (0 < row_count p keys, update_where p (\<lambda>r. r\<lparr>ak_revoked := True, ak_status := ''revoked''\<rparr>) keys))"

definition key_expired :: "string \<Rightarrow> api_key \<Rightarrow> bool" where
  "key_expired now r \<longleftrightarrow> (case ak_expires_at r of None \<Rightarrow> False | Some e \<Rightarrow> e \<noteq> [] \<and> e < now)"

definition begin_rotation :: "instant \<Rightarrow> string \<Rightarrow> api_key \<Rightarrow> api_key" where
  "begin_rotation deadline new_key_id r =
     r\<lparr>ak_status := ''rotating'', ak_rotation_deadline := Some (isoformat deadline), ak_rotated_to := Some new_key_id\<rparr>"

definition successor_key :: "string \<Rightarrow> instant \<Rightarrow> string \<Rightarrow> api_key \<Rightarrow> api_key" where
  "successor_key key_hash now new_key_id row =
     \<lparr>ak_key_id = new_key_id, ak_key_hash = key_hash,
      ak_namespace_id = ak_namespace_id row, ak_scopes = comma_join (split_scopes (ak_scopes row)),
      ak_rate_limit = ak_rate_limit row, ak_daily_quota = ak_daily_quota row,
      ak_ns_daily_quota = ak_ns_daily_quota row, ak_monthly_quota = ak_monthly_quota row,
      ak_ns_monthly_quota = ak_ns_monthly_quota row, ak_created_at = isoformat now,
      ak_expires_at = ak_expires_at row, ak_last_used_at = None, ak_revoked = False,
      ak_status = ''active'', ak_rotated_from = Some (ak_key_id row), ak_rotated_to = None,
      ak_rotation_deadline = None\<rparr>"

definition rotate_api_key ::
  "(string \<Rightarrow> string) \<Rightarrow> instant \<Rightarrow> int \<Rightarrow> string \<Rightarrow> string \<Rightarrow> string \<Rightarrow> api_key list
    \<Rightarrow> (key_error + string \<times> api_key) \<times> api_key list" where
  "rotate_api_key blake2b now grace_period_seconds new_key_id token key_id keys =
     (case find (\<lambda>r. ak_key_id r = key_id) keys of
        None \<Rightarrow> (Inl Key_Not_Found, keys)
      | Some row \<Rightarrow>
          if ak_revoked row \<or> ak_status row = ''revoked'' then (Inl Key_Is_Revoked, keys)
          else if key_expired (isoformat now) row then (Inl Key_Is_Expired, keys)
          else
            let plaintext = ''ll_'' @ token;
                deadline = now + grace_period_seconds * microseconds_per_second;
                keys' = update_where (\<lambda>r. ak_key_id r = key_id) (begin_rotation deadline new_key_id) keys;
                new = successor_key (blake2b plaintext) now new_key_id row
            in if \<not> datable deadline then (Inl Deadline_Overflow, keys)
               else case insert_api_key new keys' of
                      None \<Rightarrow> (Inl Key_Integrity, keys)
                    | Some keys'' \<Rightarrow> (Inr (plaintext, new), keys''))"

definition deadline_passed :: "string \<Rightarrow> api_key \<Rightarrow> bool" where
  "deadline_passed now r \<longleftrightarrow> (case ak_rotation_deadline r of None \<Rightarrow> False | Some d \<Rightarrow> d < now)"

definition sweep_expired_api_keys :: "instant \<Rightarrow> api_key list \<Rightarrow> nat \<times> api_key list" where
  "sweep_expired_api_keys now keys =
     (let p = (\<lambda>r. ak_status r = ''rotating'' \<and> deadline_passed (isoformat now) r)
      in (row_count p keys, update_where p (\<lambda>r. r\<lparr>ak_revoked := True, ak_status := ''revoked''\<rparr>) keys))"

definition get_overdue_api_keys_count :: "int \<Rightarrow> instant \<Rightarrow> api_key list \<Rightarrow> nat" where
  "get_overdue_api_keys_count max_age_days now keys =
     row_count (\<lambda>r. \<not> ak_revoked r \<and> (ak_status r = ''active'' \<or> ak_status r = ''rotating'') \<and>
       ak_created_at r < isoformat (now - max_age_days * microseconds_per_day)) keys"

definition get_api_key_by_hash :: "instant \<Rightarrow> string \<Rightarrow> api_key list \<Rightarrow> api_key option" where
  "get_api_key_by_hash now key_hash keys =
     (case find (\<lambda>r. ak_key_hash r = key_hash \<and> \<not> ak_revoked r \<and> ak_status r \<noteq> ''revoked'') keys of
        None \<Rightarrow> None
      | Some row \<Rightarrow>
          if key_expired (isoformat now) row then None
          else if ak_status row = ''rotating'' \<and>
                  (case ak_rotation_deadline row of None \<Rightarrow> False | Some d \<Rightarrow> d \<noteq> [] \<and> d < isoformat now) then None
          else Some row)"

definition touch_api_key_last_used :: "instant \<Rightarrow> string \<Rightarrow> api_key list \<Rightarrow> api_key list" where
  "touch_api_key_last_used now key_id keys =
     update_where (\<lambda>r. ak_key_id r = key_id) (\<lambda>r. r\<lparr>ak_last_used_at := Some (isoformat now)\<rparr>) keys"

text \<open>\<open>lookup_key\<close> repeats the checks of \<open>get_api_key_by_hash\<close> and records the use.\<close>

definition lookup_key :: "(string \<Rightarrow> string) \<Rightarrow> instant \<Rightarrow> string \<Rightarrow> api_key list \<Rightarrow> api_key option \<times> api_key list" where
  "lookup_key blake2b now plaintext keys =
     (case get_api_key_by_hash now (blake2b plaintext) keys of
        None \<Rightarrow> (None, keys)
      | Some row \<Rightarrow> (Some row, touch_api_key_last_used now (ak_key_id row) keys))"

record key_listing =
  kl_key_id :: string
  kl_namespace_id :: string
  kl_scopes :: string
  kl_rate_limit :: int
  kl_daily_quota :: int
  kl_ns_daily_quota :: int
  kl_created_at :: string
  kl_expires_at :: "string option"
  kl_last_used_at :: "string option"
  kl_revoked :: bool

definition list_api_keys :: "api_key list \<Rightarrow> key_listing list" where
  "list_api_keys keys =
     map (\<lambda>r. \<lparr>kl_key_id = ak_key_id r, kl_namespace_id = ak_namespace_id r, kl_scopes = ak_scopes r,
               kl_rate_limit = ak_rate_limit r, kl_daily_quota = ak_daily_quota r,
               kl_ns_daily_quota = ak_ns_daily_quota r, kl_created_at = ak_created_at r,
               kl_expires_at = ak_expires_at r, kl_last_used_at = ak_last_used_at r, kl_revoked = ak_revoked r\<rparr>)
       (rev (sort_key ak_created_at (rev keys)))"

section \<open>Quotas\<close>

record gateway_row =
  gr_key_id :: string
  gr_namespace_id :: string
  gr_method :: string
  gr_path :: string
  gr_status_code :: int
  gr_latency_ms :: real
  gr_scope :: string
  gr_recorded_at :: instant

definition next_midnight :: "instant \<Rightarrow> instant" where
  "next_midnight now = (day_of now + 1) * microseconds_per_day"

definition next_month :: "instant \<Rightarrow> instant" where
  "next_month now = month_start (month_of (month_start (month_of now) + 32 * microseconds_per_day))"

definition check_daily_quota :: "instant \<Rightarrow> string \<Rightarrow> int \<Rightarrow> gateway_row list \<Rightarrow> bool \<times> string" where
  "check_daily_quota now key_id daily_limit rows =
     (if daily_limit \<le> 0 then (True, [])
      else if daily_limit \<le> int (row_count (\<lambda>r. gr_key_id r = key_id \<and> day_of (gr_recorded_at r) = day_of now) rows)
      then (False, isoformat (next_midnight now)) else (True, []))"

definition check_namespace_quota :: "instant \<Rightarrow> string \<Rightarrow> int \<Rightarrow> gateway_row list \<Rightarrow> bool \<times> string" where
  "check_namespace_quota now namespace_id daily_limit rows =
     (if namespace_id = ''*'' \<or> daily_limit \<le> 0 then (True, [])
      else if daily_limit \<le> int (row_count (\<lambda>r. gr_namespace_id r = namespace_id \<and> day_of (gr_recorded_at r) = day_of now) rows)
      then (False, isoformat (next_midnight now)) else (True, []))"

definition check_monthly_quota :: "instant \<Rightarrow> string \<Rightarrow> int \<Rightarrow> gateway_row list \<Rightarrow> bool \<times> string" where
  "check_monthly_quota now key_id monthly_limit rows =
     (if monthly_limit \<le> 0 then (True, [])
      else if monthly_limit \<le> int (row_count (\<lambda>r. gr_key_id r = key_id \<and> month_of (gr_recorded_at r) = month_of now) rows)
      then (False, isoformat (next_month now)) else (True, []))"

definition check_namespace_monthly_quota :: "instant \<Rightarrow> string \<Rightarrow> int \<Rightarrow> gateway_row list \<Rightarrow> bool \<times> string" where
  "check_namespace_monthly_quota now namespace_id monthly_limit rows =
     (if namespace_id = ''*'' \<or> monthly_limit \<le> 0 then (True, [])
      else if monthly_limit \<le> int (row_count (\<lambda>r. gr_namespace_id r = namespace_id \<and> month_of (gr_recorded_at r) = month_of now) rows)
      then (False, isoformat (next_month now)) else (True, []))"

text \<open>\<open>stored\<close> says whether the database accepted the row; a failure is caught and logged.\<close>

definition log_gateway_request :: "bool \<Rightarrow> gateway_row \<Rightarrow> gateway_row list \<Rightarrow> gateway_row list" where
  "log_gateway_request stored row rows = (if stored then rows @ [row] else rows)"

section \<open>The key table under its operations\<close>

definition key_row_ok :: "api_key \<Rightarrow> bool" where
  "key_row_ok r \<longleftrightarrow>
     (ak_revoked r \<longleftrightarrow> ak_status r = ''revoked'') \<and> ak_status r \<in> {''active'', ''rotating'', ''revoked''} \<and>
     (ak_status r = ''rotating'' \<longrightarrow> (\<exists>d. datable d \<and> ak_rotation_deadline r = Some (isoformat d)))"

definition key_table_wf :: "api_key list \<Rightarrow> bool" where
  "key_table_wf keys \<longleftrightarrow>
     distinct (map ak_key_id keys) \<and> distinct (map ak_key_hash keys) \<and> (\<forall>r\<in>set keys. key_row_ok r)"

datatype key_op =
    Op_Create instant string string "string list" string int "string option"
  | Op_Revoke string
  | Op_Rotate instant int string string string
  | Op_Sweep instant
  | Op_Lookup instant string
  | Op_Touch instant string

definition key_step :: "(string \<Rightarrow> string) \<Rightarrow> quota_defaults \<Rightarrow> key_op \<Rightarrow> api_key list \<Rightarrow> api_key list" where
  "key_step blake2b qd op keys =
     (case op of
        Op_Create now key_id token scopes ns rate expires \<Rightarrow>
          snd (create_api_key blake2b qd now key_id token scopes ns rate expires keys)
      | Op_Revoke key_id \<Rightarrow> snd (revoke_api_key key_id keys)
      | Op_Rotate now grace new_id token key_id \<Rightarrow> snd (rotate_api_key blake2b now grace new_id token key_id keys)
      | Op_Sweep now \<Rightarrow> snd (sweep_expired_api_keys now keys)
      | Op_Lookup now plaintext \<Rightarrow> snd (lookup_key blake2b now plaintext keys)
      | Op_Touch now key_id \<Rightarrow> touch_api_key_last_used now key_id keys)"

lemma update_keys_wf:
  assumes "key_table_wf keys" "\<And>r. ak_key_id (f r) = ak_key_id r" "\<And>r. ak_key_hash (f r) = ak_key_hash r"
    "\<And>r. r \<in> set keys \<Longrightarrow> p r \<Longrightarrow> key_row_ok (f r)"
  shows "key_table_wf (update_where p f keys)"
  using assms by (auto simp: key_table_wf_def map_update_where_frame set_update_where)

lemma insert_key_wf:
  assumes "key_table_wf keys" "insert_api_key row keys = Some keys'" "key_row_ok row"
  shows "key_table_wf keys'"
  using assms by (auto simp: key_table_wf_def insert_api_key_def split: if_splits)

lemma touch_wf [wf_intros]: "key_table_wf keys \<Longrightarrow> key_table_wf (touch_api_key_last_used now k keys)"
  unfolding touch_api_key_last_used_def
  by (rule update_keys_wf) (auto simp: key_table_wf_def key_row_ok_def)

lemma retire_wf:
  "key_table_wf keys \<Longrightarrow> key_table_wf (update_where p (\<lambda>r. r\<lparr>ak_revoked := True, ak_status := ''revoked''\<rparr>) keys)"
  by (rule update_keys_wf) (auto simp: key_row_ok_def)

lemma create_wf [wf_intros]:
  "key_table_wf keys \<Longrightarrow> key_table_wf (snd (create_api_key blake2b qd now k token scopes ns rate e keys))"
  by (auto simp: create_api_key_def Let_def key_row_ok_def split: option.splits intro: insert_key_wf)

lemma find_key: "find (\<lambda>r. ak_key_id r = k) keys = Some row \<Longrightarrow> row \<in> set keys \<and> ak_key_id row = k"
  by (auto simp: find_Some_iff)

lemma key_unique:
  assumes "key_table_wf keys" "r \<in> set keys" "s \<in> set keys" "ak_key_id r = ak_key_id s \<or> ak_key_hash r = ak_key_hash s"
  shows "r = s"
  using assms by (auto simp: key_table_wf_def distinct_map dest: inj_onD)

lemma rotate_wf [wf_intros]:
  assumes "key_table_wf keys"
  shows "key_table_wf (snd (rotate_api_key blake2b now grace new_id token k keys))"
proof (cases "find (\<lambda>r. ak_key_id r = k) keys")
  case (Some row)
  note row = find_key [OF Some]
  let ?d = "now + grace * microseconds_per_second"
  have "key_table_wf (update_where (\<lambda>r. ak_key_id r = k) (begin_rotation ?d new_id) keys)"
    if "datable ?d" "\<not> ak_revoked row"
  proof (rule update_keys_wf [OF assms])
    fix r assume "r \<in> set keys" "ak_key_id r = k"
    then have "r = row" using key_unique [OF assms] row by blast
    then show "key_row_ok (begin_rotation ?d new_id r)"
      using that by (auto simp: key_row_ok_def begin_rotation_def)
  qed (simp_all add: begin_rotation_def)
  then show ?thesis
    using Some assms
    by (auto simp: rotate_api_key_def Let_def key_row_ok_def successor_key_def split: option.splits intro: insert_key_wf)
qed (simp add: rotate_api_key_def assms)

lemma key_step_wf [wf_intros]: "key_table_wf keys \<Longrightarrow> key_table_wf (key_step blake2b qd op keys)"
  by (auto simp: key_step_def revoke_api_key_def sweep_expired_api_keys_def lookup_key_def Let_def
      split: key_op.splits option.splits intro: wf_intros retire_wf)

text \<open>What no operation changes of a row, and that a revoked row stays revoked.\<close>

definition key_mark :: "api_key \<Rightarrow> string \<times> string \<times> bool" where
  "key_mark r = (ak_key_id r, ak_key_hash r, ak_revoked r)"

lemma mark_kept_by_update:
  assumes "m \<in> key_mark ` set keys" "\<And>r. r \<in> set keys \<Longrightarrow> key_mark r = m \<Longrightarrow> p r \<Longrightarrow> key_mark (f r) = m"
  shows "m \<in> key_mark ` set (update_where p f keys)"
proof -
  from assms(1) obtain r where r: "r \<in> set keys" "key_mark r = m" by auto
  then have "key_mark (if p r then f r else r) = m" using assms(2) by simp
  moreover have "(if p r then f r else r) \<in> set (update_where p f keys)"
    using r by (simp add: update_where_def)
  ultimately show ?thesis by (rule image_eqI [OF sym])
qed

lemma mark_kept_by_insert:
  "m \<in> key_mark ` set keys \<Longrightarrow> insert_api_key row keys = Some keys' \<Longrightarrow> m \<in> key_mark ` set keys'"
  by (auto simp: insert_api_key_def split: if_splits)

lemma revoked_mark_kept:
  assumes wf: "key_table_wf keys" and m: "m \<in> key_mark ` set keys" and rev: "snd (snd m)"
  shows "m \<in> key_mark ` set (key_step blake2b qd op keys)"
proof (cases op)
  case (Op_Create now k token scopes ns rate e)
  with m show ?thesis
    by (auto simp: key_step_def create_api_key_def Let_def split: option.splits intro: mark_kept_by_insert)
next
  case (Op_Revoke k)
  have "m \<in> key_mark ` set (update_where (\<lambda>r. ak_key_id r = k \<and> \<not> ak_revoked r)
      (\<lambda>r. r\<lparr>ak_revoked := True, ak_status := ''revoked''\<rparr>) keys)"
    using m rev by (intro mark_kept_by_update) (auto simp: key_mark_def)
  with Op_Revoke show ?thesis by (simp add: key_step_def revoke_api_key_def Let_def)
next
  case (Op_Rotate now grace new_id token k)
  have "m \<in> key_mark ` set (update_where (\<lambda>r. ak_key_id r = k) (begin_rotation d new_id) keys)" for d
    using m by (intro mark_kept_by_update) (auto simp: key_mark_def begin_rotation_def)
  with Op_Rotate m show ?thesis
    by (auto simp: key_step_def rotate_api_key_def Let_def split: option.splits intro: mark_kept_by_insert)
next
  case (Op_Sweep now)
  have "m \<in> key_mark ` set (update_where (\<lambda>r. ak_status r = ''rotating'' \<and> deadline_passed (isoformat now) r)
      (\<lambda>r. r\<lparr>ak_revoked := True, ak_status := ''revoked''\<rparr>) keys)"
    using m rev by (intro mark_kept_by_update) (auto simp: key_mark_def)
  with Op_Sweep show ?thesis by (simp add: key_step_def sweep_expired_api_keys_def Let_def)
next
  case (Op_Lookup now p)
  have "m \<in> key_mark ` set (touch_api_key_last_used now k keys)" for k
    unfolding touch_api_key_last_used_def using m by (intro mark_kept_by_update) (auto simp: key_mark_def)
  with Op_Lookup m show ?thesis by (auto simp: key_step_def lookup_key_def split: option.splits)
next
  case (Op_Touch now k)
  have "m \<in> key_mark ` set (touch_api_key_last_used now k keys)"
    unfolding touch_api_key_last_used_def using m by (intro mark_kept_by_update) (auto simp: key_mark_def)
  with Op_Touch show ?thesis by (simp add: key_step_def)
qed

interpretation key_history: settling_run "\<lambda>_. True" "key_step blake2b qd" key_table_wf
  "\<lambda>keys. key_mark ` set keys" "\<lambda>m. snd (snd m)" for blake2b qd
  by unfold_locales (auto intro: key_step_wf revoked_mark_kept)

definition authenticates :: "(string \<Rightarrow> string) \<Rightarrow> instant \<Rightarrow> string \<Rightarrow> api_key list \<Rightarrow> bool" where
  "authenticates blake2b t p keys \<longleftrightarrow> fst (lookup_key blake2b t p keys) \<noteq> None"

text \<open>When a row lets its holder in.\<close>

definition key_valid :: "instant \<Rightarrow> api_key \<Rightarrow> bool" where
  "key_valid t r \<longleftrightarrow> \<not> ak_revoked r \<and> \<not> key_expired (isoformat t) r \<and>
     (ak_status r = ''rotating'' \<longrightarrow> \<not> deadline_passed (isoformat t) r)"

lemma isoformat_nonempty: "isoformat t \<noteq> []"
  by (simp add: isoformat_def Let_def split: prod.splits)

lemma lookup_row:
  assumes "key_table_wf keys" "r \<in> set keys" "ak_key_hash r = h"
  shows "get_api_key_by_hash t h keys = (if key_valid t r then Some r else None)"
proof (cases "ak_revoked r")
  case True
  have "\<not> (\<exists>x. x \<in> set keys \<and> ak_key_hash x = h \<and> \<not> ak_revoked x \<and> ak_status x \<noteq> ''revoked'')"
    using key_unique [OF assms(1,2)] assms(3) True by blast
  then have "find (\<lambda>r. ak_key_hash r = h \<and> \<not> ak_revoked r \<and> ak_status r \<noteq> ''revoked'') keys = None"
    unfolding find_None_iff .
  with True show ?thesis by (simp add: get_api_key_by_hash_def key_valid_def)
next
  case False
  have ok: "key_row_ok r" using assms by (auto simp: key_table_wf_def)
  obtain s where s: "find (\<lambda>r. ak_key_hash r = h \<and> \<not> ak_revoked r \<and> ak_status r \<noteq> ''revoked'') keys = Some s"
    using False ok assms by (cases "find (\<lambda>r. ak_key_hash r = h \<and> \<not> ak_revoked r \<and> ak_status r \<noteq> ''revoked'') keys")
      (auto simp: find_None_iff key_row_ok_def)
  have "s \<in> set keys" "ak_key_hash s = h" using s by (auto simp: find_Some_iff)
  then have "s = r" using key_unique [OF assms(1)] assms by metis
  with s False ok show ?thesis
    by (auto simp: get_api_key_by_hash_def key_valid_def deadline_passed_def key_row_ok_def isoformat_nonempty)
qed

lemma authenticates_row:
  assumes "key_table_wf keys" "r \<in> set keys" "ak_key_hash r = blake2b p"
  shows "authenticates blake2b t p keys \<longleftrightarrow> key_valid t r"
  using lookup_row [OF assms] by (simp add: authenticates_def lookup_key_def)

lemma authenticates_unknown:
  "blake2b p \<notin> ak_key_hash ` set keys \<Longrightarrow> \<not> authenticates blake2b t p keys"
proof -
  assume "blake2b p \<notin> ak_key_hash ` set keys"
  then have "find (\<lambda>r. ak_key_hash r = blake2b p \<and> \<not> ak_revoked r \<and> ak_status r \<noteq> ''revoked'') keys = None"
    by (force simp: find_None_iff)
  then show ?thesis by (simp add: authenticates_def lookup_key_def get_api_key_by_hash_def)
qed

section \<open>Rotation\<close>

lemma py_split_nonempty: "py_split sep s \<noteq> []"
  by (induction s) (auto split: list.splits)

lemma py_split_pieces: "w \<in> set (py_split sep s) \<Longrightarrow> sep \<notin> set w"
  by (induction s arbitrary: w) (auto split: list.splits if_splits)

lemma py_split_single: "sep \<notin> set w \<Longrightarrow> py_split sep w = [w]"
  by (induction w) auto

lemma py_split_append: "sep \<notin> set w \<Longrightarrow> py_split sep (w @ sep # s) = w # py_split sep s"
  by (induction w) auto

lemma split_comma_join:
  "ss \<noteq> [] \<Longrightarrow> \<forall>w\<in>set ss. CHR '','' \<notin> set w \<Longrightarrow> py_split (CHR '','') (comma_join ss) = ss"
  by (induction ss rule: comma_join.induct) (auto simp: py_split_single py_split_append)

lemma dropWhile_hd: "dropWhile P s \<noteq> [] \<Longrightarrow> \<not> P (hd (dropWhile P s))"
  by (rule hd_dropWhile) (induction s, auto)

lemma strip_hd: "py_strip s \<noteq> [] \<Longrightarrow> \<not> py_space (hd (py_strip s))"
proof -
  let ?u = "dropWhile py_space s"
  assume ne: "py_strip s \<noteq> []"
  have "rev ?u = takeWhile py_space (rev ?u) @ dropWhile py_space (rev ?u)" by simp
  then have "?u = py_strip s @ rev (takeWhile py_space (rev ?u))"
    unfolding py_strip_def by (metis rev_append rev_rev_ident)
  then have "hd (py_strip s) = hd ?u" "?u \<noteq> []" using ne by (metis hd_append, metis append_is_Nil_conv)
  then show ?thesis using dropWhile_hd [of py_space s] by simp
qed

lemma strip_last: "py_strip s \<noteq> [] \<Longrightarrow> \<not> py_space (last (py_strip s))"
  using dropWhile_hd [of py_space "rev (dropWhile py_space s)"] by (simp add: py_strip_def last_rev)

lemma strip_idem: "py_strip (py_strip s) = py_strip s"
proof (cases "py_strip s = []")
  case False
  let ?w = "py_strip s"
  have "dropWhile py_space ?w = ?w" using strip_hd [OF False] by (cases ?w) auto
  moreover have "dropWhile py_space (rev ?w) = rev ?w"
    using strip_last [OF False] False by (cases ?w rule: rev_cases) auto
  ultimately show ?thesis by (simp add: py_strip_def [of ?w])
next
  case True
  have "py_strip [] = []" by (simp add: py_strip_def)
  with True show ?thesis by simp
qed

lemma set_strip: "set (py_strip s) \<subseteq> set s"
  by (auto simp: py_strip_def dest!: set_dropWhileD)

lemma split_scopes_again: "split_scopes (comma_join (split_scopes s)) = split_scopes s"
proof (cases "split_scopes s = []")
  case True then show ?thesis by (simp add: split_scopes_def py_strip_def)
next
  case False
  have "\<forall>w\<in>set (split_scopes s). CHR '','' \<notin> set w"
    using py_split_pieces set_strip by (fastforce simp: split_scopes_def)
  moreover have "map py_strip (split_scopes s) = split_scopes s"
    by (rule map_idI) (auto simp: split_scopes_def strip_idem)
  moreover have "filter (\<lambda>w. w \<noteq> []) (split_scopes s) = split_scopes s" by (simp add: split_scopes_def)
  ultimately show ?thesis
    using split_comma_join [OF False] by (subst split_scopes_def) simp
qed

lemma rotate_result:
  assumes "key_table_wf keys" "r \<in> set keys" "ak_key_id r = k"
    "rotate_api_key blake2b now grace new_id token k keys = (Inr (p', new), keys')"
  defines "d \<equiv> now + grace * microseconds_per_second"
  shows "\<not> ak_revoked r" "datable d" "new = successor_key (blake2b p') now new_id r"
    "keys' = update_where (\<lambda>r. ak_key_id r = k) (begin_rotation d new_id) keys @ [new]"
    "blake2b p' \<notin> ak_key_hash ` set keys"
proof -
  have f: "find (\<lambda>r. ak_key_id r = k) keys = Some r"
  proof (cases "find (\<lambda>r. ak_key_id r = k) keys")
    case None with assms(2,3) show ?thesis by (auto simp: find_None_iff)
  next
    case (Some s) with find_key [OF Some] key_unique [OF assms(1,2), of s] assms(3) show ?thesis by simp
  qed
  have "map ak_key_hash (update_where (\<lambda>r. ak_key_id r = k) (begin_rotation d new_id) keys) = map ak_key_hash keys"
    by (rule map_update_where_frame) (simp add: begin_rotation_def)
  then have hashes: "ak_key_hash ` set (update_where (\<lambda>r. ak_key_id r = k) (begin_rotation d new_id) keys) = ak_key_hash ` set keys"
    by (metis set_map)
  have hash: "ak_key_hash (successor_key h now new_id r) = h" for h by (simp add: successor_key_def)
  note eqs = assms(4) [unfolded rotate_api_key_def f option.case Let_def, folded d_def]
  show "\<not> ak_revoked r" "datable d" "new = successor_key (blake2b p') now new_id r"
    "keys' = update_where (\<lambda>r. ak_key_id r = k) (begin_rotation d new_id) keys @ [new]"
    "blake2b p' \<notin> ak_key_hash ` set keys"
    using eqs by (auto simp: insert_api_key_def hashes hash split: if_splits)
qed

lemma sweep_keeps_access:
  assumes "key_table_wf keys" "datable s" "datable t" "s \<le> t"
  shows "authenticates blake2b t p (snd (sweep_expired_api_keys s keys)) \<longleftrightarrow> authenticates blake2b t p keys"
proof (cases "blake2b p \<in> ak_key_hash ` set keys")
  case True
  then obtain r where r: "r \<in> set keys" "ak_key_hash r = blake2b p" by auto
  define q where "q = (\<lambda>r. ak_status r = ''rotating'' \<and> deadline_passed (isoformat s) r)"
  define f where "f = (\<lambda>r :: api_key. r\<lparr>ak_revoked := True, ak_status := ''revoked''\<rparr>)"
  have sw: "snd (sweep_expired_api_keys s keys) = update_where q f keys"
    by (simp add: sweep_expired_api_keys_def q_def f_def Let_def)
  have wf: "key_table_wf (update_where q f keys)" unfolding f_def by (rule retire_wf [OF assms(1)])
  have mem: "(if q r then f r else r) \<in> set (update_where q f keys)"
    using r by (simp add: update_where_def)
  have "isoformat s \<le> isoformat t" using isoformat_less [OF assms(3,2)] assms(4) by (simp add: not_less [symmetric])
  then have "q r \<Longrightarrow> \<not> key_valid t r" by (auto simp: q_def key_valid_def deadline_passed_def split: option.splits)
  then show ?thesis
    using authenticates_row [OF wf mem, of blake2b p t] authenticates_row [OF assms(1) r(1), of blake2b p t] r
    by (auto simp: sw f_def key_valid_def)
next
  case False
  have "map ak_key_hash (snd (sweep_expired_api_keys s keys)) = map ak_key_hash keys"
    unfolding sweep_expired_api_keys_def Let_def snd_conv by (rule map_update_where_frame) simp
  then have "ak_key_hash ` set (snd (sweep_expired_api_keys s keys)) = ak_key_hash ` set keys" by (metis set_map)
  then show ?thesis using False authenticates_unknown by metis
qed

lemma rotation_effects:
  assumes wf: "key_table_wf keys" and r: "r \<in> set keys" "ak_key_id r = k" "ak_key_hash r = blake2b p"
    and rot: "rotate_api_key blake2b now grace new_id token k keys = (Inr (p', new), keys')"
    and t: "datable t"
  shows "authenticates blake2b t p keys' \<longleftrightarrow> \<not> key_expired (isoformat t) r \<and> t \<le> now + grace * microseconds_per_second"
    and "authenticates blake2b t p' keys' \<longleftrightarrow> \<not> key_expired (isoformat t) r"
    and "split_scopes (ak_scopes new) = split_scopes (ak_scopes r) \<and> ak_namespace_id new = ak_namespace_id r \<and>
      ak_rate_limit new = ak_rate_limit r \<and> ak_daily_quota new = ak_daily_quota r \<and> ak_monthly_quota new = ak_monthly_quota r"
    and "blake2b q \<noteq> blake2b p \<Longrightarrow> blake2b q \<noteq> blake2b p' \<Longrightarrow> authenticates blake2b t q keys' \<longleftrightarrow> authenticates blake2b t q keys"
proof -
  let ?d = "now + grace * microseconds_per_second" and ?t = "begin_rotation (now + grace * microseconds_per_second) new_id"
  note res = rotate_result [OF wf r(1,2) rot]
  have wf': "key_table_wf keys'" using rotate_wf [OF wf, of blake2b now grace new_id token k] rot by simp
  have row: "(if ak_key_id s = k then ?t s else s) \<in> set keys'" if "s \<in> set keys" for s
    using that by (simp add: res(4) update_where_def)
  have "key_valid t (?t r) \<longleftrightarrow> \<not> key_expired (isoformat t) r \<and> t \<le> ?d"
    using res(1) isoformat_less [OF res(2) t]
    by (auto simp: key_valid_def begin_rotation_def key_expired_def deadline_passed_def)
  moreover have "ak_key_hash (?t r) = blake2b p" using r by (simp add: begin_rotation_def)
  ultimately show "authenticates blake2b t p keys' \<longleftrightarrow> \<not> key_expired (isoformat t) r \<and> t \<le> ?d"
    using authenticates_row [OF wf', of "?t r" blake2b p t] row [OF r(1)] r(2) by simp
  have "key_valid t new \<longleftrightarrow> \<not> key_expired (isoformat t) r"
    by (simp add: res(3) key_valid_def successor_key_def key_expired_def)
  moreover have "ak_key_hash new = blake2b p'" "new \<in> set keys'" by (simp add: res(3) successor_key_def, simp add: res(4))
  ultimately show "authenticates blake2b t p' keys' \<longleftrightarrow> \<not> key_expired (isoformat t) r"
    using authenticates_row [OF wf', of new blake2b p' t] by simp
  show "split_scopes (ak_scopes new) = split_scopes (ak_scopes r) \<and> ak_namespace_id new = ak_namespace_id r \<and>
      ak_rate_limit new = ak_rate_limit r \<and> ak_daily_quota new = ak_daily_quota r \<and> ak_monthly_quota new = ak_monthly_quota r"
    by (simp add: res(3) successor_key_def split_scopes_again)
  assume q: "blake2b q \<noteq> blake2b p" "blake2b q \<noteq> blake2b p'"
  show "authenticates blake2b t q keys' \<longleftrightarrow> authenticates blake2b t q keys"
  proof (cases "blake2b q \<in> ak_key_hash ` set keys")
    case True
    then obtain s where s: "s \<in> set keys" "ak_key_hash s = blake2b q" by auto
    then have "ak_key_id s \<noteq> k" using key_unique [OF wf s(1) r(1)] r q by auto
    then show ?thesis using authenticates_row [OF wf s(1), of blake2b q t] authenticates_row [OF wf', of s blake2b q t] row [OF s(1)] s by simp
  next
    case False
    have "map ak_key_hash keys' = map ak_key_hash keys @ [blake2b p']"
      unfolding res(4) map_append by (subst map_update_where_frame) (simp_all add: begin_rotation_def res(3) successor_key_def)
    then have "ak_key_hash ` set keys' = insert (blake2b p') (ak_key_hash ` set keys)"
      by (metis list.set(1,2) set_append set_map Un_insert_right sup_bot_right)
    then show ?thesis using False q authenticates_unknown [of blake2b q] by simp
  qed
qed

section \<open>Quota periods\<close>

text \<open>
  What a quota relies on: the periods are intervals, \<open>reset t\<close> is the end of the period of \<open>t\<close> and
  the start of the next.
\<close>

locale quota_period =
  fixes period :: "instant \<Rightarrow> int" and start reset :: "instant \<Rightarrow> instant"
  assumes window: "period t = period now \<longleftrightarrow> start now \<le> t \<and> t < reset now"
    and reset_same: "period t = period now \<Longrightarrow> reset t = reset now"
    and reset_starts: "start (reset now) = reset now"
begin

lemma reset_later: "now < reset now"
  using window [of now now] by simp

lemma same_period: "now \<le> t \<Longrightarrow> t < reset now \<Longrightarrow> period t = period now \<and> reset t = reset now"
  using window [of now now] window [of t now] reset_same [of t now] by auto

lemma past_period: "t < reset now \<Longrightarrow> period t \<noteq> period (reset now)"
  using window [of t "reset now"] by (simp add: reset_starts)

lemma no_rows_at_reset:
  "\<forall>row\<in>set rows. gr_recorded_at row < reset now \<Longrightarrow>
   row_count (\<lambda>r. who r = k \<and> period (gr_recorded_at r) = period (reset now)) rows = 0"
  using past_period by (auto simp: row_count_def filter_empty_conv)

end

interpretation daily: quota_period day_of "\<lambda>t. day_of t * microseconds_per_day" next_midnight
proof
  show "day_of t = day_of now \<longleftrightarrow> day_of now * microseconds_per_day \<le> t \<and> t < next_midnight now" for t now
    by (simp add: midnight_iff next_midnight_def)
qed (simp_all add: next_midnight_def day_of_def)

lemma next_month_start: "next_month now = month_start (month_of now + 1)"
  unfolding next_month_def month_after_32_days by (rule refl)

interpretation monthly: quota_period month_of "\<lambda>t. month_start (month_of t)" next_month
proof
  have "month_of (month_start k) = k" for k by (simp add: month_of_iff month_start_strict)
  then show "month_start (month_of (next_month now)) = next_month now" for now by (simp add: next_month_start)
  show "month_of t = month_of now \<Longrightarrow> next_month t = next_month now" for t now by (simp add: next_month_start)
qed (simp add: month_of_iff next_month_start)

section \<open>Properties\<close>

text \<open>C34: Rotation replaces a key without a gap. When \<open>rotate_api_key\<close> succeeds on the row \<open>r\<close> of a
  well-formed table, the old plaintext keeps working exactly until the rotation deadline, the
  new one works from now on, each only while the inherited expiry date lasts; the new key carries the same
  scopes, namespace and limits, and no other key gains or loses access.\<close>

theorem rotation_overlaps:
  assumes "key_table_wf keys" "r \<in> set keys" "ak_key_id r = k" "ak_key_hash r = blake2b p"
    and "rotate_api_key blake2b now grace new_id token k keys = (Inr (p', new), keys')" and "datable t"
  shows "(authenticates blake2b t p keys' \<longleftrightarrow> \<not> key_expired (isoformat t) r \<and> t \<le> now + grace * microseconds_per_second) \<and>
    (authenticates blake2b t p' keys' \<longleftrightarrow> \<not> key_expired (isoformat t) r) \<and>
    split_scopes (ak_scopes new) = split_scopes (ak_scopes r) \<and> ak_namespace_id new = ak_namespace_id r \<and>
    ak_rate_limit new = ak_rate_limit r \<and> ak_daily_quota new = ak_daily_quota r \<and> ak_monthly_quota new = ak_monthly_quota r \<and>
    (\<forall>q. blake2b q \<notin> {blake2b p, blake2b p'} \<longrightarrow> (authenticates blake2b t q keys' \<longleftrightarrow> authenticates blake2b t q keys))"
  using rotation_effects [OF assms] by simp

text \<open>Revocation is final. Once \<open>revoke_api_key\<close> has run on a key, no later sequence of creations,
  rotations (also of that key), revocations, sweeps, look-ups and updates of the last use lets its
  plaintext authenticate again, at any time.\<close>

lemma revoked_key_stays_refused:
  assumes "key_table_wf keys" "r \<in> set keys" "ak_key_id r = k" "ak_key_hash r = blake2b p"
  shows "\<not> authenticates blake2b t p (fold (key_step blake2b qd) ops (snd (revoke_api_key k keys)))"
proof -
  let ?keys = "snd (revoke_api_key k keys)" and ?m = "(k, blake2b p, True)"
  have wf: "key_table_wf ?keys" by (simp add: revoke_api_key_def Let_def retire_wf assms(1))
  have "?m \<in> key_mark ` set ?keys"
  proof -
    let ?p = "\<lambda>r. ak_key_id r = k \<and> \<not> ak_revoked r"
    let ?s = "if ?p r then r\<lparr>ak_revoked := True, ak_status := ''revoked''\<rparr> else r"
    have "?s \<in> set ?keys" using assms(2) by (simp add: revoke_api_key_def Let_def update_where_def)
    moreover have "key_mark ?s = ?m" using assms(3,4) by (auto simp: key_mark_def)
    ultimately show ?thesis by force
  qed
  then have "?m \<in> key_mark ` set (fold (key_step blake2b qd) ops ?keys)"
    using key_history.final_run [of ops ?keys ?m] wf by simp
  then obtain s where "s \<in> set (fold (key_step blake2b qd) ops ?keys)" "ak_key_hash s = blake2b p" "ak_revoked s"
    by (auto simp: key_mark_def)
  then show ?thesis
    using authenticates_row [OF key_history.inv_run [of ops ?keys]] wf by (simp add: key_valid_def)
qed

text \<open>A refused quota is refused exactly until the reset date it reports. When the daily check of a key
  refuses, it reports the next midnight; at every instant before that the same log refuses the key
  again with the same date, and at midnight a log with no rows of the future admits it. The monthly
  check behaves in the same way with the first instant of the next calendar month.\<close>

lemma quota_refused_until_reset:
  "(check_daily_quota now key_id bound rows = (False, reset) \<longrightarrow>
      now < next_midnight now \<and> reset = isoformat (next_midnight now) \<and>
      (\<forall>t. now \<le> t \<and> t < next_midnight now \<longrightarrow> check_daily_quota t key_id bound rows = (False, reset)) \<and>
      ((\<forall>row\<in>set rows. gr_recorded_at row < next_midnight now) \<longrightarrow>
        check_daily_quota (next_midnight now) key_id bound rows = (True, []))) \<and>
   (check_monthly_quota now key_id bound rows = (False, reset) \<longrightarrow>
      now < next_month now \<and> next_month now = month_start (month_of now + 1) \<and> reset = isoformat (next_month now) \<and>
      (\<forall>t. now \<le> t \<and> t < next_month now \<longrightarrow> check_monthly_quota t key_id bound rows = (False, reset)) \<and>
      ((\<forall>row\<in>set rows. gr_recorded_at row < next_month now) \<longrightarrow>
        check_monthly_quota (next_month now) key_id bound rows = (True, [])))"
proof (intro conjI impI allI)
  assume c: "check_daily_quota now key_id bound rows = (False, reset)"
  show "now < next_midnight now" by (rule daily.reset_later)
  show "reset = isoformat (next_midnight now)" using c by (auto simp: check_daily_quota_def split: if_splits)
  show "check_daily_quota t key_id bound rows = (False, reset)" if "now \<le> t \<and> t < next_midnight now" for t
    using c daily.same_period [of now t] that by (auto simp: check_daily_quota_def split: if_splits)
  assume "\<forall>row\<in>set rows. gr_recorded_at row < next_midnight now"
  from daily.no_rows_at_reset [OF this, of gr_key_id key_id]
  show "check_daily_quota (next_midnight now) key_id bound rows = (True, [])" by (simp add: check_daily_quota_def)
next
  assume c: "check_monthly_quota now key_id bound rows = (False, reset)"
  show "now < next_month now" by (rule monthly.reset_later)
  show "next_month now = month_start (month_of now + 1)" by (rule next_month_start)
  show "reset = isoformat (next_month now)" using c by (auto simp: check_monthly_quota_def split: if_splits)
  show "check_monthly_quota t key_id bound rows = (False, reset)" if "now \<le> t \<and> t < next_month now" for t
    using c monthly.same_period [of now t] that by (auto simp: check_monthly_quota_def split: if_splits)
  assume "\<forall>row\<in>set rows. gr_recorded_at row < next_month now"
  from monthly.no_rows_at_reset [OF this, of gr_key_id key_id]
  show "check_monthly_quota (next_month now) key_id bound rows = (True, [])" by (simp add: check_monthly_quota_def)
qed

section \<open>Concrete tables\<close>

definition sample_digest :: "string \<Rightarrow> string" where
  "sample_digest s = rev s"

definition sample_quotas :: quota_defaults where
  "sample_quotas = \<lparr>qd_daily = 2, qd_ns_daily = 0, qd_monthly = 3, qd_ns_monthly = 0\<rparr>"

text \<open>2024-02-29T00:00:00 UTC, and a table with one key, created then.\<close>

definition leap_day :: instant where
  "leap_day = day_number 2024 2 29 * microseconds_per_day"

definition sample_key_table :: "api_key list" where
  "sample_key_table = snd (create_api_key sample_digest sample_quotas leap_day ''k1'' ''one'' [''read:scores'', ''admin''] ''ns'' 60 None [])"

lemma sample_key_table_wf: "key_table_wf sample_key_table"
  unfolding sample_key_table_def by (rule create_wf) (simp add: key_table_wf_def)

lemma leap_day_text: "isoformat leap_day = ''2024-02-29T00:00:00+00:00''"
  by code_simp

lemma sample_key_row:
  "sample_key_table = [\<lparr>ak_key_id = ''k1'', ak_key_hash = ''eno_ll'', ak_namespace_id = ''ns'', ak_scopes = ''admin,read:scores'',
     ak_rate_limit = 60, ak_daily_quota = 2, ak_ns_daily_quota = 0, ak_monthly_quota = 3, ak_ns_monthly_quota = 0,
     ak_created_at = ''2024-02-29T00:00:00+00:00'', ak_expires_at = None, ak_last_used_at = None, ak_revoked = False,
     ak_status = ''active'', ak_rotated_from = None, ak_rotated_to = None, ak_rotation_deadline = None\<rparr>]"
  by code_simp

lemma sample_row_in: "hd sample_key_table \<in> set sample_key_table" "ak_key_id (hd sample_key_table) = ''k1''"
  "ak_key_hash (hd sample_key_table) = sample_digest ''ll_one''"
  by (simp_all add: sample_key_row sample_digest_def)

definition rotated_keys :: "api_key list" where
  "rotated_keys = snd (rotate_api_key sample_digest leap_day 3600 ''k2'' ''two'' ''k1'' sample_key_table)"

lemma sample_rotation:
  "rotate_api_key sample_digest leap_day 3600 ''k2'' ''two'' ''k1'' sample_key_table =
     (Inr (''ll_two'', last rotated_keys), rotated_keys)"
  by code_simp

theorem rotation_overlaps_witness:
  "authenticates sample_digest leap_day ''ll_one'' rotated_keys \<and> authenticates sample_digest leap_day ''ll_two'' rotated_keys \<and>
   \<not> authenticates sample_digest (leap_day + 3600000001) ''ll_one'' rotated_keys \<and>
   authenticates sample_digest (leap_day + 3600000001) ''ll_two'' rotated_keys"
proof -
  have rep: "datable leap_day" "datable (leap_day + 3600000001)" by code_simp+
  have live: "\<not> key_expired s (hd sample_key_table)" for s by (simp add: key_expired_def sample_key_row)
  note app = rotation_overlaps [OF sample_key_table_wf sample_row_in sample_rotation]
  from app [OF rep(1)] app [OF rep(2)] live show ?thesis by simp
qed

lemma revoked_key_stays_refused_witness:
  "\<not> authenticates sample_digest leap_day ''ll_one''
     (fold (key_step sample_digest sample_quotas) [Op_Rotate leap_day 3600 ''k2'' ''two'' ''k1'', Op_Touch leap_day ''k1'']
       (snd (revoke_api_key ''k1'' sample_key_table)))"
  by (rule revoked_key_stays_refused [where r = "hd sample_key_table"]) (rule sample_key_table_wf sample_row_in)+

definition sample_request_row :: "instant \<Rightarrow> gateway_row" where
  "sample_request_row t = \<lparr>gr_key_id = ''k1'', gr_namespace_id = ''ns'', gr_method = ''GET'', gr_path = ''/scores'',
     gr_status_code = 200, gr_latency_ms = 1, gr_scope = ''read:scores'', gr_recorded_at = t\<rparr>"

lemma sample_quota_hit:
  "check_monthly_quota leap_day ''k1'' 1 [sample_request_row leap_day] = (False, ''2024-03-01T00:00:00+00:00'')"
  by code_simp

lemma leap_day_month: "next_month leap_day = leap_day + microseconds_per_day"
  by code_simp

lemma quota_refused_until_reset_witness:
  "check_monthly_quota (leap_day + 86399999999) ''k1'' 1 [sample_request_row leap_day] = (False, ''2024-03-01T00:00:00+00:00'') \<and>
   check_monthly_quota (leap_day + microseconds_per_day) ''k1'' 1 [sample_request_row leap_day] = (True, [])"
proof -
  let ?rows = "[sample_request_row leap_day]"
  have "\<forall>row\<in>set ?rows. gr_recorded_at row < next_month leap_day" by (simp add: sample_request_row_def leap_day_month)
  moreover have "leap_day \<le> leap_day + 86399999999 \<and> leap_day + 86399999999 < next_month leap_day" by (simp add: leap_day_month)
  ultimately show ?thesis
    using quota_refused_until_reset [of leap_day "''k1''" 1 ?rows "''2024-03-01T00:00:00+00:00''"] sample_quota_hit
    unfolding leap_day_month [symmetric] by blast
qed

text \<open>A key whose rotation deadline has passed no longer authenticates, but until a sweep has run it can
  be rotated again, and then it authenticates for another grace period.\<close>

lemma lapsed_key_revived:
  "\<not> authenticates sample_digest (leap_day + 3600000001) ''ll_one'' rotated_keys \<and>
   authenticates sample_digest (leap_day + 3600000001) ''ll_one''
     (snd (rotate_api_key sample_digest (leap_day + 3600000001) 3600 ''k3'' ''three'' ''k1'' rotated_keys))"
  by code_simp

end
