(* ===== verification/Gateway.thy ===== *)
theory Gateway
  imports Api_Keys
begin

text \<open>
  The API gateway (\<open>packages/core/api/gateway.py\<close>) and the older enforcement paths beside it
  (\<open>api/api_key_router.py\<close>, \<open>api/grpc_scoring_service.py\<close>, \<open>api/auth.py\<close>): route
  annotations, resolution of the caller, the scope check, the quotas and rate limits, and the access
  log. The rest of the application is the parameter \<open>backend\<close>, a function of the request and the whole
  state that answers or raises; it may do anything a handler can, also serve other
  requests while it runs. Route patterns are plain text, dots and \<open>{param}\<close> segments. Metrics,
  log lines and the latency measurement have no effect on the state.
\<close>

section \<open>Routes\<close>

datatype path_token = Tok_Char char | Tok_Any | Tok_Segment

text \<open>
  The regular expression \<open>_path_matches\<close> builds: every \<open>{name}\<close> becomes \<open>[^/]+\<close>; what is left is read
  as an expression, in which a dot stands for any character but a newline.
\<close>

function path_tokens :: "string \<Rightarrow> path_token list" where
  "path_tokens [] = []"
| "path_tokens (c # s) =
     (if c = CHR ''{'' \<and> takeWhile (\<lambda>x. x \<noteq> CHR ''}'') s \<noteq> [] \<and> dropWhile (\<lambda>x. x \<noteq> CHR ''}'') s \<noteq> []
      then Tok_Segment # path_tokens (tl (dropWhile (\<lambda>x. x \<noteq> CHR ''}'') s))
      else (if c = CHR ''.'' then Tok_Any else Tok_Char c) # path_tokens s)"
  by pat_completeness auto
termination
proof (relation "measure length", goal_cases)
  case (2 c s)
  have "length (tl (dropWhile (\<lambda>x. x \<noteq> CHR ''}'') s)) \<le> length s"
    using length_dropWhile_le [of "\<lambda>x. x \<noteq> CHR ''}''" s] by simp
  then show ?case by simp
qed auto

fun tokens_match :: "path_token list \<Rightarrow> string \<Rightarrow> bool" where
  "tokens_match [] s = (s = [])"
| "tokens_match (t # ts) [] = False"
| "tokens_match (t # ts) (x # s) =
     (case t of
        Tok_Char c \<Rightarrow> x = c \<and> tokens_match ts s
      | Tok_Any \<Rightarrow> x \<noteq> char_of (10 :: nat) \<and> tokens_match ts s
      | Tok_Segment \<Rightarrow> x \<noteq> CHR ''/'' \<and> (tokens_match ts s \<or> tokens_match (t # ts) s))"

definition path_matches :: "string \<Rightarrow> string \<Rightarrow> bool" where
  "path_matches pat path = tokens_match (path_tokens pat) path"

text \<open>\<open>rt_endpoint\<close> is \<open>None\<close> for a route without endpoint, and the endpoint's annotation otherwise.\<close>

record route =
  rt_path :: "string option"
  rt_methods :: "string list option"
  rt_required_scope :: "string option"
  rt_endpoint :: "string option option"

definition check_route :: "route \<Rightarrow> string option" where
  "check_route r =
     (case rt_required_scope r of
        Some s \<Rightarrow> if s \<noteq> [] then Some s else (case rt_endpoint r of None \<Rightarrow> None | Some a \<Rightarrow> a)
      | None \<Rightarrow> (case rt_endpoint r of None \<Rightarrow> None | Some a \<Rightarrow> a))"

fun first_scope :: "string \<Rightarrow> string \<Rightarrow> route list \<Rightarrow> string option" where
  "first_scope path meth [] = None"
| "first_scope path meth (r # rs) =
     (case (rt_path r, rt_methods r) of
        (Some rpath, Some rmethods) \<Rightarrow>
          if meth \<notin> set (map py_upper rmethods) then first_scope path meth rs
          else if \<not> path_matches rpath path then first_scope path meth rs
          else (case check_route r of Some s \<Rightarrow> Some s | None \<Rightarrow> first_scope path meth rs)
      | _ \<Rightarrow> first_scope path meth rs)"

text \<open>\<open>matched\<close> is the route the framework has already put in the request's scope, if any.\<close>

definition ann :: "string \<Rightarrow> string \<Rightarrow> route option \<Rightarrow> route list option \<Rightarrow> string option" where
  "ann path meth matched routes =
     (case Option.bind matched check_route of
        Some s \<Rightarrow> Some s
      | None \<Rightarrow> (case routes of None \<Rightarrow> None | Some rs \<Rightarrow> first_scope path (py_upper meth) rs))"

section \<open>The caller\<close>

record http_request =
  rq_method :: string
  rq_path :: string
  rq_route :: "route option"
  rq_admin_key :: string
  rq_compliance_key :: string
  rq_api_key :: string
  rq_correlation :: string

record gate_config =
  gc_enabled :: bool
  gc_admin_key :: string
  gc_compliance_key :: string
  gc_routes :: "route list"

datatype auth_type = Admin_Key | Compliance_Key | Api_Key_Auth

record key_meta =
  km_key_id :: string
  km_namespace_id :: string
  km_scopes :: string
  km_rate_limit :: int
  km_daily_quota :: int
  km_ns_daily_quota :: int
  km_monthly_quota :: int
  km_ns_monthly_quota :: int
  km_auth_type :: auth_type

definition master_meta :: "string \<Rightarrow> string \<Rightarrow> auth_type \<Rightarrow> key_meta" where
  "master_meta key_id scopes kind =
     \<lparr>km_key_id = key_id, km_namespace_id = ''*'', km_scopes = scopes, km_rate_limit = 0, km_daily_quota = 0,
      km_ns_daily_quota = 0, km_monthly_quota = 0, km_ns_monthly_quota = 0, km_auth_type = kind\<rparr>"

definition meta_of :: "api_key \<Rightarrow> key_meta" where
  "meta_of r =
     \<lparr>km_key_id = ak_key_id r, km_namespace_id = ak_namespace_id r, km_scopes = ak_scopes r,
      km_rate_limit = ak_rate_limit r, km_daily_quota = ak_daily_quota r, km_ns_daily_quota = ak_ns_daily_quota r,
      km_monthly_quota = ak_monthly_quota r, km_ns_monthly_quota = ak_ns_monthly_quota r, km_auth_type = Api_Key_Auth\<rparr>"

definition resolve_auth :: "(string \<Rightarrow> string) \<Rightarrow> gate_config \<Rightarrow> instant \<Rightarrow> http_request \<Rightarrow> api_key list \<Rightarrow> key_meta option" where
  "resolve_auth blake2b cfg now rq keys =
     (if rq_admin_key rq \<noteq> [] \<and> gc_admin_key cfg \<noteq> [] \<and> rq_admin_key rq = gc_admin_key cfg
      then Some (master_meta ''__admin__'' ''admin'' Admin_Key)
      else if rq_compliance_key rq \<noteq> [] \<and> gc_compliance_key cfg \<noteq> [] \<and> rq_compliance_key rq = gc_compliance_key cfg
      then Some (master_meta ''__compliance__'' ''compliance:read'' Compliance_Key)
      else if rq_api_key rq = [] then None
      else map_option meta_of (get_api_key_by_hash now (blake2b (rq_api_key rq)) keys))"

definition check_scope :: "string option \<Rightarrow> key_meta \<Rightarrow> bool" where
  "check_scope required meta =
     (case required of
        None \<Rightarrow> True
      | Some s \<Rightarrow> s \<in> set (split_scopes (km_scopes meta)) \<or> ''admin'' \<in> set (split_scopes (km_scopes meta)))"

section \<open>Quotas and the access log\<close>

record ('r, 'w) gateway =
  gw_keys :: "api_key list"
  gw_log :: "gateway_row list"
  gw_slot :: "limiter option"
  gw_redis :: 'r
  gw_app :: 'w

text \<open>What a request meets outside the program: clock readings, the limiter's environment, and whether
  the access log can be written.\<close>

record gate_env =
  ge_now :: instant
  ge_logged_at :: instant
  ge_latency :: real
  ge_stored :: bool
  ge_check :: check_env
  ge_fresh :: limiter

definition default_window :: real where
  "default_window = 60"

definition check_quota ::
  "'r redis_lib \<Rightarrow> gate_env \<Rightarrow> key_meta \<Rightarrow> ('r, 'w) gateway \<Rightarrow> (bool \<times> (string, string) dict) \<times> ('r, 'w) gateway" where
  "check_quota lib env meta g =
     (let key_id = km_key_id meta; ns = km_namespace_id meta; now = ge_now env; rows = gw_log g;
          ((allowed, retry_after), g') =
            (if 0 < km_rate_limit meta
             then (case check_rate_limit lib (ge_check env) (ge_fresh env) key_id (km_rate_limit meta) default_window
                          (gw_slot g) (gw_redis g) of
                     (res, slot, r) \<Rightarrow> (res, g\<lparr>gw_slot := slot, gw_redis := r\<rparr>))
             else ((True, 0), g));
          daily = (if 0 < km_daily_quota meta then check_daily_quota now key_id (km_daily_quota meta) rows else (True, []));
          ns_daily = (if 0 < km_ns_daily_quota meta \<and> ns \<noteq> ''*''
                      then check_namespace_quota now ns (km_ns_daily_quota meta) rows else (True, []));
          monthly = (if 0 < km_monthly_quota meta then check_monthly_quota now key_id (km_monthly_quota meta) rows else (True, []));
          ns_monthly = (if 0 < km_ns_monthly_quota meta \<and> ns \<noteq> ''*''
                        then check_namespace_monthly_quota now ns (km_ns_monthly_quota meta) rows else (True, []))
      in if \<not> allowed then ((False, [(''Retry-After'', show_int retry_after)]), g')
         else if \<not> fst daily then ((False, [(''X-StellarLense-Quota-Reset'', snd daily)]), g')
         else if \<not> fst ns_daily then ((False, [(''X-StellarLense-Quota-Reset'', snd ns_daily)]), g')
         else if \<not> fst monthly then ((False, [(''X-StellarLense-Quota-Reset'', snd monthly)]), g')
         else if \<not> fst ns_monthly then ((False, [(''X-StellarLense-Quota-Reset'', snd ns_monthly)]), g')
         else ((True, []), g'))"

record response =
  rs_status :: int
  rs_detail :: string
  rs_headers :: "(string, string) dict"

definition with_correlation :: "http_request \<Rightarrow> response \<Rightarrow> response" where
  "with_correlation rq rs = rs\<lparr>rs_headers := dict_set ''X-Correlation-ID'' (rq_correlation rq) (rs_headers rs)\<rparr>"

definition log_access ::
  "gate_env \<Rightarrow> http_request \<Rightarrow> int \<Rightarrow> key_meta option \<Rightarrow> string option \<Rightarrow> ('r, 'w) gateway \<Rightarrow> ('r, 'w) gateway" where
  "log_access env rq status meta required g =
     g\<lparr>gw_log := log_gateway_request (ge_stored env)
        \<lparr>gr_key_id = (case meta of None \<Rightarrow> [] | Some m \<Rightarrow> km_key_id m),
         gr_namespace_id = (case meta of None \<Rightarrow> [] | Some m \<Rightarrow> km_namespace_id m),
         gr_method = rq_method rq, gr_path = rq_path rq, gr_status_code = status, gr_latency_ms = ge_latency env,
         gr_scope = (case required of None \<Rightarrow> ''public'' | Some s \<Rightarrow> if s = [] then ''public'' else s),
         gr_recorded_at = ge_logged_at env\<rparr> (gw_log g)\<rparr>"

section \<open>The middleware\<close>

text \<open>
  What happens before the handler of an annotated route: a refusal, or the caller's key. The text of
  the 401 answer is shortened.
\<close>

definition admit ::
  "(string \<Rightarrow> string) \<Rightarrow> 'r redis_lib \<Rightarrow> gate_config \<Rightarrow> string \<Rightarrow> gate_env \<Rightarrow> http_request \<Rightarrow> ('r, 'w) gateway
    \<Rightarrow> (response + key_meta) \<times> ('r, 'w) gateway" where
  "admit blake2b lib cfg required env rq g =
     (case resolve_auth blake2b cfg (ge_now env) rq (gw_keys g) of
        None \<Rightarrow> (Inl \<lparr>rs_status = 401, rs_detail = ''Unauthorized'', rs_headers = []\<rparr>, g)
      | Some meta \<Rightarrow>
          if \<not> check_scope (Some required) meta
          then (Inl \<lparr>rs_status = 403, rs_detail = ''Scope '' @ [CHR 0x27] @ required @ [CHR 0x27] @ '' required'',
                     rs_headers = []\<rparr>, g)
          else (case check_quota lib env meta g of
                  ((False, headers), g1) \<Rightarrow>
                    (Inl \<lparr>rs_status = 429, rs_detail = ''Quota exceeded'', rs_headers = headers\<rparr>, g1)
                | ((True, _), g1) \<Rightarrow> (Inr meta, g1)))"

text \<open>A result \<open>None\<close> is an exception that leaves the middleware.\<close>

definition dispatch ::
  "(string \<Rightarrow> string) \<Rightarrow> 'r redis_lib \<Rightarrow> gate_config \<Rightarrow>
   (http_request \<Rightarrow> key_meta option \<Rightarrow> ('r, 'w) gateway \<Rightarrow> response option \<times> ('r, 'w) gateway) \<Rightarrow>
   gate_env \<Rightarrow> http_request \<Rightarrow> ('r, 'w) gateway \<Rightarrow> response option \<times> ('r, 'w) gateway" where
  "dispatch blake2b lib cfg backend env rq g =
     (if \<not> gc_enabled cfg then backend rq None g
      else case ann (rq_path rq) (rq_method rq) (rq_route rq) (Some (gc_routes cfg)) of
        None \<Rightarrow>
          (case backend rq None g of
             (None, g1) \<Rightarrow> (None, g1)
           | (Some rs, g1) \<Rightarrow>
               (Some (with_correlation rq rs), log_access env rq (rs_status rs) None None g1))
      | Some required \<Rightarrow>
          (case admit blake2b lib cfg required env rq g of
             (Inl rs, g1) \<Rightarrow> (Some (with_correlation rq rs), g1)
           | (Inr meta, g1) \<Rightarrow>
               (case backend rq (Some meta) g1 of
                  (None, g2) \<Rightarrow> (None, log_access env rq 503 (Some meta) (Some required) g2)
                | (Some rs, g2) \<Rightarrow>
                    (Some (with_correlation rq rs),
                     log_access env rq (rs_status rs) (Some meta) (Some required) g2))))"

section \<open>The older enforcement paths\<close>

datatype http_error = Http_Error int "int option"

text \<open>\<open>api_key_router.require_scope\<close>; the second component of the error is the \<open>Retry-After\<close> value.\<close>

definition require_scope ::
  "(string \<Rightarrow> string) \<Rightarrow> 'r redis_lib \<Rightarrow> string \<Rightarrow> gate_env \<Rightarrow> http_request \<Rightarrow> ('r, 'w) gateway
    \<Rightarrow> http_error option \<times> ('r, 'w) gateway" where
  "require_scope blake2b lib required env rq g =
     (let plaintext = (if rq_api_key rq \<noteq> [] then rq_api_key rq else rq_admin_key rq)
      in if plaintext = [] then (Some (Http_Error 401 None), g)
         else case lookup_key blake2b (ge_now env) plaintext (gw_keys g) of
           (None, keys) \<Rightarrow> (Some (Http_Error 401 None), g\<lparr>gw_keys := keys\<rparr>)
         | (Some row, keys) \<Rightarrow>
             let g1 = g\<lparr>gw_keys := keys\<rparr>; scopes = set (split_scopes (ak_scopes row))
             in if required \<notin> scopes \<and> ''admin'' \<notin> scopes then (Some (Http_Error 403 None), g1)
                else case check_rate_limit lib (ge_check env) (ge_fresh env) (ak_key_id row) (ak_rate_limit row) default_window
                       (gw_slot g1) (gw_redis g1) of
                  ((allowed, retry_after), slot, r) \<Rightarrow>
                    (if allowed then None else Some (Http_Error 429 (Some retry_after)),
                     g1\<lparr>gw_slot := slot, gw_redis := r\<rparr>))"

datatype grpc_error = Unauthenticated | Permission_Denied | Resource_Exhausted

text \<open>\<open>grpc_scoring_service._authenticate\<close>; the scopes of a stored key are not stripped here.\<close>

definition grpc_authenticate ::
  "(string \<Rightarrow> string) \<Rightarrow> 'r redis_lib \<Rightarrow> gate_config \<Rightarrow> string \<Rightarrow> gate_env \<Rightarrow> http_request \<Rightarrow> ('r, 'w) gateway
    \<Rightarrow> (grpc_error + string) \<times> ('r, 'w) gateway" where
  "grpc_authenticate blake2b lib cfg required env rq g =
     (let api_key = (if rq_api_key rq \<noteq> [] then rq_api_key rq else rq_admin_key rq)
      in if api_key = [] then (Inl Unauthenticated, g)
         else if gc_admin_key cfg \<noteq> [] \<and> api_key = gc_admin_key cfg then (Inr ''admin'', g)
         else case lookup_key blake2b (ge_now env) api_key (gw_keys g) of
           (None, keys) \<Rightarrow> (Inl Unauthenticated, g\<lparr>gw_keys := keys\<rparr>)
         | (Some row, keys) \<Rightarrow>
             let g1 = g\<lparr>gw_keys := keys\<rparr>;
                 scopes = (if ak_scopes row = [] then {} else set (py_split (CHR '','') (ak_scopes row)))
             in if required \<notin> scopes \<and> ''admin'' \<notin> scopes then (Inl Permission_Denied, g1)
                else case check_rate_limit lib (ge_check env) (ge_fresh env) (ak_key_id row) (ak_rate_limit row) default_window
                       (gw_slot g1) (gw_redis g1) of
                  ((allowed, _), slot, r) \<Rightarrow>
                    (if allowed then Inr (ak_key_id row) else Inl Resource_Exhausted,
                     g1\<lparr>gw_slot := slot, gw_redis := r\<rparr>))"

text \<open>\<open>auth.py\<close>: the configured key and the header.\<close>

definition require_admin_key :: "gate_config \<Rightarrow> string \<Rightarrow> http_error option" where
  "require_admin_key cfg given =
     (if gc_admin_key cfg = [] then Some (Http_Error 503 None)
      else if given = [] then Some (Http_Error 401 None)
      else if given \<noteq> gc_admin_key cfg then Some (Http_Error 403 None)
      else None)"

definition require_compliance_key :: "gate_config \<Rightarrow> string \<Rightarrow> http_error option" where
  "require_compliance_key cfg given =
     (if gc_compliance_key cfg = [] then Some (Http_Error 503 None)
      else if given = [] \<or> given \<noteq> gc_compliance_key cfg then Some (Http_Error 403 None)
      else None)"

section \<open>Who gets through\<close>

definition presents :: "string \<Rightarrow> string \<Rightarrow> bool" where
  "presents given configured \<longleftrightarrow> configured \<noteq> [] \<and> given = configured"

text \<open>The first credential that is valid decides: the admin key opens every route, the compliance key
  only its own scope, a stored key the scopes of its row.\<close>

definition entitled :: "(string \<Rightarrow> string) \<Rightarrow> gate_config \<Rightarrow> instant \<Rightarrow> string \<Rightarrow> http_request \<Rightarrow> api_key list \<Rightarrow> bool" where
  "entitled blake2b cfg now required rq keys \<longleftrightarrow>
     presents (rq_admin_key rq) (gc_admin_key cfg) \<or>
     (if presents (rq_compliance_key rq) (gc_compliance_key cfg) then required = ''compliance:read''
      else \<exists>r\<in>set keys. rq_api_key rq \<noteq> [] \<and> ak_key_hash r = blake2b (rq_api_key rq) \<and> key_valid now r \<and>
        (required \<in> set (split_scopes (ak_scopes r)) \<or> ''admin'' \<in> set (split_scopes (ak_scopes r))))"

lemma found_row:
  assumes "get_api_key_by_hash now h keys = Some r"
  shows "r \<in> set keys \<and> ak_key_hash r = h"
proof -
  obtain s where "find (\<lambda>r. ak_key_hash r = h \<and> \<not> ak_revoked r \<and> ak_status r \<noteq> ''revoked'') keys = Some s" "s = r"
    using assms by (auto simp: get_api_key_by_hash_def split: option.splits if_splits)
  then show ?thesis by (auto simp: find_Some_iff)
qed

lemma split_admin: "split_scopes ''admin'' = [''admin'']" "split_scopes ''compliance:read'' = [''compliance:read'']"
  by code_simp+

lemma auth_entitled:
  assumes "key_table_wf keys"
  shows "entitled blake2b cfg now required rq keys \<longleftrightarrow>
    (\<exists>meta. resolve_auth blake2b cfg now rq keys = Some meta \<and> check_scope (Some required) meta)"
proof -
  consider (master) "presents (rq_admin_key rq) (gc_admin_key cfg) \<or> presents (rq_compliance_key rq) (gc_compliance_key cfg)"
    | (none) "\<not> presents (rq_admin_key rq) (gc_admin_key cfg)" "\<not> presents (rq_compliance_key rq) (gc_compliance_key cfg)"
        "rq_api_key rq = [] \<or> blake2b (rq_api_key rq) \<notin> ak_key_hash ` set keys"
    | (key) r where "\<not> presents (rq_admin_key rq) (gc_admin_key cfg)" "\<not> presents (rq_compliance_key rq) (gc_compliance_key cfg)"
        "rq_api_key rq \<noteq> []" "r \<in> set keys" "ak_key_hash r = blake2b (rq_api_key rq)"
    by (metis imageE)
  then show ?thesis
  proof cases
    case master
    then show ?thesis
      by (auto simp: entitled_def resolve_auth_def presents_def check_scope_def master_meta_def split_admin)
  next
    case none
    have "get_api_key_by_hash now (blake2b (rq_api_key rq)) keys = None" if "blake2b (rq_api_key rq) \<notin> ak_key_hash ` set keys"
      using authenticates_unknown [of blake2b _ keys now, OF that]
      by (auto simp: authenticates_def lookup_key_def split: option.splits)
    moreover have "\<forall>r\<in>set keys. rq_api_key rq \<noteq> [] \<longrightarrow> ak_key_hash r \<noteq> blake2b (rq_api_key rq)"
      using none(3) by (metis imageI)
    ultimately show ?thesis
      using none by (auto simp: entitled_def resolve_auth_def presents_def)
  next
    case key
    have "s = r" if "s \<in> set keys" "ak_key_hash s = blake2b (rq_api_key rq)" for s
      using key_unique [OF assms that(1) key(4)] key(5) that by simp
    then have "(\<exists>s\<in>set keys. rq_api_key rq \<noteq> [] \<and> ak_key_hash s = blake2b (rq_api_key rq) \<and> key_valid now s \<and> P s) \<longleftrightarrow>
        key_valid now r \<and> P r" for P
      using key(3-5) by blast
    moreover have "resolve_auth blake2b cfg now rq keys = (if key_valid now r then Some (meta_of r) else None)"
      using key lookup_row [OF assms key(4,5), of now] by (auto simp: resolve_auth_def presents_def)
    ultimately show ?thesis
      using key(1,2) by (simp add: entitled_def check_scope_def meta_of_def)
  qed
qed

lemma quota_frame:
  "check_quota lib env meta g = (res, g') \<Longrightarrow> gw_keys g' = gw_keys g \<and> gw_log g' = gw_log g \<and> gw_app g' = gw_app g"
  by (auto simp: check_quota_def Let_def split: if_splits prod.splits)

lemma quota_admits:
  assumes "check_quota lib env meta g = ((True, h), g')"
  shows "0 < km_daily_quota meta \<Longrightarrow> fst (check_daily_quota (ge_now env) (km_key_id meta) (km_daily_quota meta) (gw_log g))"
    and "0 < km_monthly_quota meta \<Longrightarrow> fst (check_monthly_quota (ge_now env) (km_key_id meta) (km_monthly_quota meta) (gw_log g))"
  using assms by (auto simp: check_quota_def Let_def split: if_splits prod.splits)

lemma admit_refused:
  assumes "key_table_wf (gw_keys g)" "\<not> entitled blake2b cfg (ge_now env) required rq (gw_keys g)"
  shows "\<exists>rs. rs_status rs \<in> {401, 403} \<and> admit blake2b lib cfg required env rq g = (Inl rs, g)"
  using assms auth_entitled [OF assms(1), of blake2b cfg "ge_now env" required rq]
  by (auto simp: admit_def split: option.splits)

lemma admit_entitled:
  assumes "key_table_wf (gw_keys g)" "entitled blake2b cfg (ge_now env) required rq (gw_keys g)"
  obtains meta where "resolve_auth blake2b cfg (ge_now env) rq (gw_keys g) = Some meta"
    "admit blake2b lib cfg required env rq g =
       (case check_quota lib env meta g of
          ((False, headers), g1) \<Rightarrow> (Inl \<lparr>rs_status = 429, rs_detail = ''Quota exceeded'', rs_headers = headers\<rparr>, g1)
        | ((True, _), g1) \<Rightarrow> (Inr meta, g1))"
  using assms auth_entitled [OF assms(1), of blake2b cfg "ge_now env" required rq] that
  by (auto simp: admit_def)

section \<open>Runs of the gateway\<close>

definition served ::
  "(string \<Rightarrow> string) \<Rightarrow> 'r redis_lib \<Rightarrow> gate_config \<Rightarrow> gate_env \<Rightarrow> http_request \<Rightarrow> ('r, 'w) gateway \<Rightarrow> string option" where
  "served blake2b lib cfg env rq g =
     (if \<not> gc_enabled cfg then None
      else case ann (rq_path rq) (rq_method rq) (rq_route rq) (Some (gc_routes cfg)) of
        None \<Rightarrow> None
      | Some required \<Rightarrow>
          (case fst (admit blake2b lib cfg required env rq g) of Inl _ \<Rightarrow> None | Inr meta \<Rightarrow> Some (km_key_id meta)))"

text \<open>Requests one after the other; the first component lists the keys that were served, with the time
  their request was logged.\<close>

fun gateway_run ::
  "(string \<Rightarrow> string) \<Rightarrow> 'r redis_lib \<Rightarrow> gate_config \<Rightarrow>
   (http_request \<Rightarrow> key_meta option \<Rightarrow> ('r, 'w) gateway \<Rightarrow> response option \<times> ('r, 'w) gateway) \<Rightarrow>
   (gate_env \<times> http_request) list \<Rightarrow> ('r, 'w) gateway \<Rightarrow> (string \<times> instant) list \<times> ('r, 'w) gateway" where
  "gateway_run blake2b lib cfg backend [] g = ([], g)"
| "gateway_run blake2b lib cfg backend ((env, rq) # reqs) g =
     (let (out, g') = gateway_run blake2b lib cfg backend reqs (snd (dispatch blake2b lib cfg backend env rq g))
      in ((case served blake2b lib cfg env rq g of None \<Rightarrow> [] | Some k \<Rightarrow> [(k, ge_logged_at env)]) @ out, g'))"

definition log_kept ::
  "(http_request \<Rightarrow> key_meta option \<Rightarrow> ('r, 'w) gateway \<Rightarrow> response option \<times> ('r, 'w) gateway) \<Rightarrow> bool" where
  "log_kept backend \<longleftrightarrow>
     (\<forall>rq m g. gw_log (snd (backend rq m g)) = gw_log g \<and> gw_keys (snd (backend rq m g)) = gw_keys g)"

lemma admit_frame:
  "admit blake2b lib cfg required env rq g = (res, g') \<Longrightarrow> gw_keys g' = gw_keys g \<and> gw_log g' = gw_log g \<and> gw_app g' = gw_app g"
  by (auto simp: admit_def dest: quota_frame split: option.splits if_splits prod.splits bool.splits)

lemma dispatch_log:
  assumes "log_kept backend" "ge_stored env"
  shows "gw_keys (snd (dispatch blake2b lib cfg backend env rq g)) = gw_keys g"
    and "k \<noteq> [] \<Longrightarrow> row_count (\<lambda>r. gr_key_id r = k \<and> Q (gr_recorded_at r)) (gw_log (snd (dispatch blake2b lib cfg backend env rq g))) =
      row_count (\<lambda>r. gr_key_id r = k \<and> Q (gr_recorded_at r)) (gw_log g) +
      (if served blake2b lib cfg env rq g = Some k \<and> Q (ge_logged_at env) then 1 else 0)"
proof -
  have kept: "gw_log g2 = gw_log g1 \<and> gw_keys g2 = gw_keys g1" if "backend rq m g1 = (x, g2)" for rq m g1 x g2
    using assms(1) that unfolding log_kept_def by (metis snd_conv)
  show "gw_keys (snd (dispatch blake2b lib cfg backend env rq g)) = gw_keys g"
    by (auto simp: dispatch_def log_access_def dest!: kept admit_frame split: option.splits prod.splits sum.splits)
  show "k \<noteq> [] \<Longrightarrow> row_count (\<lambda>r. gr_key_id r = k \<and> Q (gr_recorded_at r)) (gw_log (snd (dispatch blake2b lib cfg backend env rq g))) =
      row_count (\<lambda>r. gr_key_id r = k \<and> Q (gr_recorded_at r)) (gw_log g) +
      (if served blake2b lib cfg env rq g = Some k \<and> Q (ge_logged_at env) then 1 else 0)"
    using assms(2)
    by (auto simp: dispatch_def served_def log_access_def log_gateway_request_def row_count_def
        dest!: kept admit_frame split: option.splits prod.splits sum.splits)
qed

lemma served_within:
  assumes wf: "key_table_wf (gw_keys g)" and r: "r \<in> set (gw_keys g)" "ak_key_id r = k" "k \<notin> {''__admin__'', ''__compliance__''}"
    and s: "served blake2b lib cfg env rq g = Some k"
  shows "0 < ak_daily_quota r \<Longrightarrow>
      int (row_count (\<lambda>x. gr_key_id x = k \<and> day_of (gr_recorded_at x) = day_of (ge_now env)) (gw_log g)) < ak_daily_quota r"
    and "0 < ak_monthly_quota r \<Longrightarrow>
      int (row_count (\<lambda>x. gr_key_id x = k \<and> month_of (gr_recorded_at x) = month_of (ge_now env)) (gw_log g)) < ak_monthly_quota r"
proof -
  from s obtain required meta h g' where m: "resolve_auth blake2b cfg (ge_now env) rq (gw_keys g) = Some meta"
    "check_quota lib env meta g = ((True, h), g')" "km_key_id meta = k"
    by (auto simp: served_def admit_def split: if_splits option.splits prod.splits bool.splits)
  obtain s where s: "s \<in> set (gw_keys g)" "meta = meta_of s"
    using m(1,3) r(3)
    by (auto simp: resolve_auth_def master_meta_def dest!: found_row split: if_splits)
  then have "s = r" using key_unique [OF wf _ r(1)] m(3) r(2) by (simp add: meta_of_def)
  with s have meta: "meta = meta_of r" by simp
  show "0 < ak_daily_quota r \<Longrightarrow>
      int (row_count (\<lambda>x. gr_key_id x = k \<and> day_of (gr_recorded_at x) = day_of (ge_now env)) (gw_log g)) < ak_daily_quota r"
    using quota_admits(1) [OF m(2)] meta m(3) by (auto simp: meta_of_def check_daily_quota_def split: if_splits)
  show "0 < ak_monthly_quota r \<Longrightarrow>
      int (row_count (\<lambda>x. gr_key_id x = k \<and> month_of (gr_recorded_at x) = month_of (ge_now env)) (gw_log g)) < ak_monthly_quota r"
    using quota_admits(2) [OF m(2)] meta m(3) by (auto simp: meta_of_def check_monthly_quota_def split: if_splits)
qed

text \<open>The number of requests served under \<open>k\<close> in a period, counted on the run itself.\<close>

definition served_in :: "(instant \<Rightarrow> bool) \<Rightarrow> string \<Rightarrow> (string \<times> instant) list \<Rightarrow> nat" where
  "served_in Q k out = row_count (\<lambda>p. fst p = k \<and> Q (snd p)) out"

lemma run_bounded:
  fixes per :: "instant \<Rightarrow> int" and g :: "('r, 'w) gateway"
  assumes kept: "log_kept backend" and k: "k \<noteq> []"
    and envs: "\<forall>(env, rq)\<in>set reqs. ge_stored env \<and> per (ge_logged_at env) = per (ge_now env)"
    and bounded: "\<And>env rq g' :: ('r, 'w) gateway. gw_keys g' = gw_keys g \<Longrightarrow> served blake2b lib cfg env rq g' = Some k \<Longrightarrow>
      row_count (\<lambda>x. gr_key_id x = k \<and> per (gr_recorded_at x) = per (ge_now env)) (gw_log g') < q"
    and start: "row_count (\<lambda>x. gr_key_id x = k \<and> per (gr_recorded_at x) = d) (gw_log g) \<le> q"
  shows "row_count (\<lambda>x. gr_key_id x = k \<and> per (gr_recorded_at x) = d) (gw_log g) +
    served_in (\<lambda>t. per t = d) k (fst (gateway_run blake2b lib cfg backend reqs g)) \<le> q"
  using envs bounded start
proof (induction reqs arbitrary: g)
  case Nil then show ?case by (simp add: served_in_def row_count_def)
next
  case (Cons p reqs)
  obtain env rq where p: "p = (env, rq)" by fastforce
  let ?g = "snd (dispatch blake2b lib cfg backend env rq g)" and ?C = "\<lambda>g. row_count (\<lambda>x. gr_key_id x = k \<and> per (gr_recorded_at x) = d) (gw_log g)"
  have env: "ge_stored env" "per (ge_logged_at env) = per (ge_now env)" using Cons.prems(1) p by auto
  note log = dispatch_log [OF kept env(1), where blake2b = blake2b and lib = lib and cfg = cfg and rq = rq and g = g]
  let ?n = "if served blake2b lib cfg env rq g = Some k \<and> per (ge_logged_at env) = d then 1 else 0 :: nat"
  have count: "?C ?g = ?C g + ?n" using log(2) [OF k, of "\<lambda>t. per t = d"] by simp
  have "?C ?g \<le> q"
  proof (cases "served blake2b lib cfg env rq g = Some k \<and> per (ge_logged_at env) = d")
    case True
    then show ?thesis using Cons.prems(2) [of g env rq] env(2) by (simp add: count)
  next
    case False
    then have "?n = 0" by simp
    then show ?thesis using count Cons.prems(3) by simp
  qed
  then have "?C ?g + served_in (\<lambda>t. per t = d) k (fst (gateway_run blake2b lib cfg backend reqs ?g)) \<le> q"
    using Cons.prems(1,2) by (intro Cons.IH) (auto simp: log(1))
  moreover have "served_in (\<lambda>t. per t = d) k (fst (gateway_run blake2b lib cfg backend (p # reqs) g)) =
      ?n + served_in (\<lambda>t. per t = d) k (fst (gateway_run blake2b lib cfg backend reqs ?g))"
    by (auto simp: p served_in_def row_count_def Let_def split: prod.splits option.splits)
  ultimately show ?case by (simp add: count)
qed

section \<open>Properties\<close>


text \<open>C33: Quotas bound what is served. However many requests come in one after the other, a stored key with
  a daily quota is served at most that often on any day, and at most its monthly quota in
  any month, counting what the log already holds; provided handlers leave the key table and the access log alone, the
  access log accepts its rows, and no request is checked in one period and logged in the next.\<close>

theorem quota_bounds_served_requests:
  fixes g :: "('r, 'w) gateway"
  assumes "key_table_wf (gw_keys g)" "r \<in> set (gw_keys g)" "ak_key_id r = k" "k \<notin> {[], ''__admin__'', ''__compliance__''}"
    and "log_kept backend"
    and "\<forall>(env, rq)\<in>set reqs. ge_stored env \<and> day_of (ge_logged_at env) = day_of (ge_now env) \<and> month_of (ge_logged_at env) = month_of (ge_now env)"
  shows "(0 < ak_daily_quota r \<and> int (row_count (\<lambda>x. gr_key_id x = k \<and> day_of (gr_recorded_at x) = d) (gw_log g)) \<le> ak_daily_quota r \<longrightarrow>
      int (row_count (\<lambda>x. gr_key_id x = k \<and> day_of (gr_recorded_at x) = d) (gw_log g) +
        served_in (\<lambda>t. day_of t = d) k (fst (gateway_run blake2b lib cfg backend reqs g))) \<le> ak_daily_quota r) \<and>
    (0 < ak_monthly_quota r \<and> int (row_count (\<lambda>x. gr_key_id x = k \<and> month_of (gr_recorded_at x) = m) (gw_log g)) \<le> ak_monthly_quota r \<longrightarrow>
      int (row_count (\<lambda>x. gr_key_id x = k \<and> month_of (gr_recorded_at x) = m) (gw_log g) +
        served_in (\<lambda>t. month_of t = m) k (fst (gateway_run blake2b lib cfg backend reqs g))) \<le> ak_monthly_quota r)"
proof (intro conjI impI)
  have k: "k \<noteq> []" "k \<notin> {''__admin__'', ''__compliance__''}" using assms(4) by auto
  have within: "served blake2b lib cfg env rq g' = Some k \<Longrightarrow> 0 < ak_daily_quota r \<Longrightarrow>
      row_count (\<lambda>x. gr_key_id x = k \<and> day_of (gr_recorded_at x) = day_of (ge_now env)) (gw_log g') < nat (ak_daily_quota r)"
    "served blake2b lib cfg env rq g' = Some k \<Longrightarrow> 0 < ak_monthly_quota r \<Longrightarrow>
      row_count (\<lambda>x. gr_key_id x = k \<and> month_of (gr_recorded_at x) = month_of (ge_now env)) (gw_log g') < nat (ak_monthly_quota r)"
    if "gw_keys g' = gw_keys g" for env rq and g' :: "('r, 'w) gateway"
    using served_within [of g' r k blake2b lib cfg env rq] assms(1-3) k(2) that by auto
  {
    assume q: "0 < ak_daily_quota r \<and> int (row_count (\<lambda>x. gr_key_id x = k \<and> day_of (gr_recorded_at x) = d) (gw_log g)) \<le> ak_daily_quota r"
    then have "row_count (\<lambda>x. gr_key_id x = k \<and> day_of (gr_recorded_at x) = d) (gw_log g) +
        served_in (\<lambda>t. day_of t = d) k (fst (gateway_run blake2b lib cfg backend reqs g)) \<le> nat (ak_daily_quota r)"
      using assms(6) within(1) by (intro run_bounded [OF assms(5) k(1)]) auto
    then show "int (row_count (\<lambda>x. gr_key_id x = k \<and> day_of (gr_recorded_at x) = d) (gw_log g) +
        served_in (\<lambda>t. day_of t = d) k (fst (gateway_run blake2b lib cfg backend reqs g))) \<le> ak_daily_quota r"
      using q by linarith
  }
  assume q: "0 < ak_monthly_quota r \<and> int (row_count (\<lambda>x. gr_key_id x = k \<and> month_of (gr_recorded_at x) = m) (gw_log g)) \<le> ak_monthly_quota r"
  then have "row_count (\<lambda>x. gr_key_id x = k \<and> month_of (gr_recorded_at x) = m) (gw_log g) +
      served_in (\<lambda>t. month_of t = m) k (fst (gateway_run blake2b lib cfg backend reqs g)) \<le> nat (ak_monthly_quota r)"
    using assms(6) within(2) by (intro run_bounded [OF assms(5) k(1)]) auto
  then show "int (row_count (\<lambda>x. gr_key_id x = k \<and> month_of (gr_recorded_at x) = m) (gw_log g) +
      served_in (\<lambda>t. month_of t = m) k (fst (gateway_run blake2b lib cfg backend reqs g))) \<le> ak_monthly_quota r"
    using q by linarith
qed

section \<open>Concrete requests\<close>

definition gate_quotas :: quota_defaults where
  "gate_quotas = \<lparr>qd_daily = 1, qd_ns_daily = 0, qd_monthly = 0, qd_ns_monthly = 0\<rparr>"

definition gate_keys :: "api_key list" where
  "gate_keys = snd (create_api_key sample_digest gate_quotas leap_day ''k1'' ''one'' [''read:scores''] ''ns'' 0 None [])"

definition score_route :: route where
  "score_route = \<lparr>rt_path = Some ''/scores/{wallet}'', rt_methods = Some [''GET''], rt_required_scope = None,
     rt_endpoint = Some (Some ''read:scores'')\<rparr>"

definition sample_gate_config :: gate_config where
  "sample_gate_config = \<lparr>gc_enabled = True, gc_admin_key = ''root'', gc_compliance_key = ''audit'', gc_routes = [score_route]\<rparr>"

definition score_request :: "string \<Rightarrow> string \<Rightarrow> http_request" where
  "score_request compliance api_key = \<lparr>rq_method = ''get'', rq_path = ''/scores/G1'', rq_route = None, rq_admin_key = [],
     rq_compliance_key = compliance, rq_api_key = api_key, rq_correlation = ''c''\<rparr>"

definition sample_gate_env :: gate_env where
  "sample_gate_env = \<lparr>ge_now = leap_day, ge_logged_at = leap_day, ge_latency = 1, ge_stored = True,
     ge_check = fst (sample_check 0), ge_fresh = sample_limiter\<rparr>"

definition gate_start :: "(string \<Rightarrow> (int \<times> real option) option, unit) gateway" where
  "gate_start = \<lparr>gw_keys = gate_keys, gw_log = [], gw_slot = None, gw_redis = (\<lambda>_. None), gw_app = ()\<rparr>"

definition ok_backend ::
  "http_request \<Rightarrow> key_meta option \<Rightarrow> ('r, 'w) gateway \<Rightarrow> response option \<times> ('r, 'w) gateway" where
  "ok_backend rq m g = (Some \<lparr>rs_status = 200, rs_detail = ''ok'', rs_headers = []\<rparr>, g)"

lemma gate_keys_wf: "key_table_wf (gw_keys gate_start)"
  unfolding gate_start_def gate_keys_def gateway.simps by (rule create_wf) (simp add: key_table_wf_def)

lemma score_route_found:
  "gc_enabled sample_gate_config"
  "ann (rq_path (score_request c a)) (rq_method (score_request c a)) (rq_route (score_request c a)) (Some (gc_routes sample_gate_config)) =
     Some ''read:scores''"
proof -
  have "ann ''/scores/G1'' ''get'' None (Some [score_route]) = Some ''read:scores''" by code_simp
  then show "ann (rq_path (score_request c a)) (rq_method (score_request c a)) (rq_route (score_request c a)) (Some (gc_routes sample_gate_config)) =
     Some ''read:scores''" by (simp add: score_request_def sample_gate_config_def)
qed (simp add: sample_gate_config_def)


theorem quota_bounds_served_requests_witness:
  "served_in (\<lambda>t. day_of t = day_of leap_day) ''k1''
     (fst (gateway_run sample_digest map_redis sample_gate_config ok_backend (replicate 3 (sample_gate_env, score_request [] ''ll_one'')) gate_start)) \<le> 1"
proof -
  let ?r = "hd (gw_keys gate_start)"
  have row: "?r \<in> set (gw_keys gate_start)" "ak_key_id ?r = ''k1''" "ak_daily_quota ?r = 1"
    by (simp_all add: gate_start_def gate_keys_def create_api_key_def insert_api_key_def key_scopes_def gate_quotas_def Let_def)
  have "log_kept (ok_backend :: http_request \<Rightarrow> key_meta option \<Rightarrow> (string \<Rightarrow> (int \<times> real option) option, unit) gateway \<Rightarrow> _)"
    by (simp add: log_kept_def ok_backend_def)
  from quota_bounds_served_requests [OF gate_keys_wf row(1,2) _ this, where reqs = "replicate 3 (sample_gate_env, score_request [] ''ll_one'')" and
      d = "day_of leap_day" and blake2b = sample_digest and lib = map_redis and cfg = sample_gate_config]
  show ?thesis using row(3) by (simp add: sample_gate_env_def gate_start_def row_count_def)
qed

section \<open>Where the gateway is weaker than documented\<close>

text \<open>With a valid compliance key beside a valid API key the compliance key is taken, and the scopes of the
  API key do not count.\<close>

lemma compliance_key_shadows_api_key:
  "entitled sample_digest sample_gate_config leap_day ''read:scores'' (score_request [] ''ll_one'') gate_keys \<and>
   \<not> entitled sample_digest sample_gate_config leap_day ''read:scores'' (score_request ''audit'' ''ll_one'') gate_keys"
  by code_simp

text \<open>The quota is checked before the handler and counted after it: a request served while another one is being
  handled does not see it, and a key with a daily quota of one is served twice.\<close>

lemma overlapping_requests_exceed_quota:
  "gw_log (snd (dispatch sample_digest map_redis sample_gate_config
       (\<lambda>rq m. dispatch sample_digest map_redis sample_gate_config ok_backend sample_gate_env rq) sample_gate_env (score_request [] ''ll_one'') gate_start)) =
     replicate 2 (sample_request_row leap_day\<lparr>gr_path := ''/scores/G1'', gr_method := ''get''\<rparr>)"
proof -
  have auth: "resolve_auth sample_digest sample_gate_config leap_day (score_request [] ''ll_one'') gate_keys = Some (meta_of (hd gate_keys))"
    by code_simp
  have meta: "meta_of (hd gate_keys) = \<lparr>km_key_id = ''k1'', km_namespace_id = ''ns'', km_scopes = ''read:scores'', km_rate_limit = 0,
      km_daily_quota = 1, km_ns_daily_quota = 0, km_monthly_quota = 0, km_ns_monthly_quota = 0, km_auth_type = Api_Key_Auth\<rparr>"
    by code_simp
  have scopes: "split_scopes ''read:scores'' = [''read:scores'']" by code_simp
  have "ge_now sample_gate_env = leap_day" "gw_keys gate_start = gate_keys" "gw_log gate_start = []"
    by (simp_all add: sample_gate_env_def gate_start_def)
  then have adm: "admit sample_digest map_redis sample_gate_config ''read:scores'' sample_gate_env (score_request [] ''ll_one'') gate_start =
      (Inr (meta_of (hd gate_keys)), gate_start)"
    by (simp add: admit_def auth meta scopes check_scope_def check_quota_def check_daily_quota_def row_count_def)
  have once: "dispatch sample_digest map_redis sample_gate_config backend sample_gate_env (score_request [] ''ll_one'') gate_start =
      (case backend (score_request [] ''ll_one'') (Some (meta_of (hd gate_keys))) gate_start of
         (None, g2) \<Rightarrow> (None, log_access sample_gate_env (score_request [] ''ll_one'') 503 (Some (meta_of (hd gate_keys))) (Some ''read:scores'') g2)
       | (Some rs, g2) \<Rightarrow> (Some (with_correlation (score_request [] ''ll_one'') rs),
           log_access sample_gate_env (score_request [] ''ll_one'') (rs_status rs) (Some (meta_of (hd gate_keys))) (Some ''read:scores'') g2))"
    for backend
    unfolding dispatch_def score_route_found(2) using score_route_found(1) adm by simp
  show ?thesis
    unfolding once
    by (simp add: ok_backend_def log_access_def log_gateway_request_def with_correlation_def meta gate_start_def
        sample_gate_env_def score_request_def sample_request_row_def numeral_2_eq_2)
qed

text \<open>A route without an annotation is public: nothing is checked, whatever keys the request carries.\<close>

lemma unannotated_routes_are_public:
  assumes "gc_enabled cfg" "rq_route rq = None" "\<forall>r\<in>set (gc_routes cfg). check_route r = None"
  shows "fst (dispatch blake2b lib cfg backend env rq g) = map_option (with_correlation rq) (fst (backend rq None g))"
proof -
  have "first_scope path meth rs = None" if "\<forall>r\<in>set rs. check_route r = None" for path meth rs
    using that by (induction path meth rs rule: first_scope.induct) (auto split: option.splits)
  then show ?thesis using assms by (auto simp: dispatch_def ann_def split: prod.splits option.splits)
qed

end
