(* ===== verification/Dedup.thy ===== *)
theory Dedup
  imports Prelude Py_Text "HOL-Library.Char_ord" "HOL-Library.List_Lexorder"
begin

text \<open>
  Event deduplication, \<open>packages/core/ingestion/dedup.py\<close>: the idempotency keys, the key store
  with its two tables and counters, and the wrapper for EVM bridge events with its block
  window and reorganisation handling; and the two callers that only check and mark, the
  Solana adapter and the Horizon trade check. SHA-256 is a parameter. The surrogate row ids
  are never read and are left out; the \<open>metadata_json\<close> column holds the decoded object, which
  is what \<open>json_extract\<close> reads back; identity fields and metadata are strings, integers and
  \<open>None\<close>, which is what the callers pass. Each method runs under the store's lock, so a
  method is one atomic step.
\<close>

section \<open>Keys\<close>

datatype dedup_result = New | Duplicate | Replay_rejected

datatype field_value = F_str string | F_int int | F_null

type_synonym fields = "(string, field_value) dict"

definition normalise_field :: "string \<Rightarrow> string \<times> field_value \<Rightarrow> string \<times> field_value" where
  "normalise_field source kv =
     (case kv of
        (k, F_str v) \<Rightarrow> (k, F_str (if source = ''solana'' \<and> k = ''signature'' then v else py_lower v))
      | _ \<Rightarrow> kv)"

text \<open>\<open>json.dumps\<close> of the payload with \<open>sort_keys=True\<close>.\<close>

fun json_value :: "field_value \<Rightarrow> string" where
  "json_value (F_str s) = json_string s"
| "json_value (F_int i) = show_int i"
| "json_value F_null = ''null''"

fun json_members :: "fields \<Rightarrow> string" where
  "json_members [] = []"
| "json_members [(k, v)] = json_string k @ '': '' @ json_value v"
| "json_members ((k, v) # m # ms) = json_string k @ '': '' @ json_value v @ '', '' @ json_members (m # ms)"

definition key_payload :: "string \<Rightarrow> fields \<Rightarrow> string" where
  "key_payload source identity_fields =
     ''{'' @ json_string ''identity_fields'' @ '': {'' @
     json_members (sort_key fst (map (normalise_field source) identity_fields)) @
     ''}, '' @ json_string ''source'' @ '': '' @ json_string source @ ''}''"

definition compute_key :: "(string \<Rightarrow> string) \<Rightarrow> string \<Rightarrow> fields \<Rightarrow> string" where
  "compute_key sha256 source identity_fields = sha256 (key_payload source identity_fields)"

definition evm_fields :: "int \<Rightarrow> string \<Rightarrow> int \<Rightarrow> fields" where
  "evm_fields chain_id tx_hash log_index =
     [(''chain_id'', F_int chain_id), (''tx_hash'', F_str tx_hash), (''log_index'', F_int log_index)]"

definition compute_event_hash :: "(string \<Rightarrow> string) \<Rightarrow> int \<Rightarrow> string \<Rightarrow> int \<Rightarrow> string" where
  "compute_event_hash sha256 chain_id tx_hash log_index =
     compute_key sha256 ''evm'' (evm_fields chain_id tx_hash log_index)"

section \<open>The key store\<close>

record key_row =
  kr_key :: string
  kr_source :: string
  kr_metadata :: "fields option"
  kr_first_seen :: instant

record check_row =
  cr_key :: string
  cr_source :: string
  cr_result :: dedup_result
  cr_checked_at :: instant
  cr_metadata :: "fields option"

record key_store =
  ks_keys :: "key_row list"
  ks_audit :: "check_row list"
  ks_seen :: nat
  ks_duplicates :: nat
  ks_rejected :: nat
  ks_replay_window :: seconds

text \<open>The constructor: counters at zero, the tables as the database has them.\<close>

definition open_key_store :: "key_row list \<Rightarrow> check_row list \<Rightarrow> seconds \<Rightarrow> key_store" where
  "open_key_store keys audit replay_window =
     \<lparr>ks_keys = keys, ks_audit = audit, ks_seen = 0, ks_duplicates = 0, ks_rejected = 0, ks_replay_window = replay_window\<rparr>"

text \<open>
  A timestamp is a \<open>datetime\<close>, a clock reading in microseconds with its offset from UTC, none
  for a naive one, or a float of seconds since the epoch.
\<close>

datatype timestamp = Datetime "int option" instant | Epoch seconds

fun event_time :: "timestamp \<Rightarrow> seconds" where
  "event_time (Datetime (Some offset) t) = of_int (t - offset) / of_int microseconds_per_second"
| "event_time (Datetime None t) = of_int t / of_int microseconds_per_second"
| "event_time (Epoch s) = s"

definition stored_metadata :: "fields \<Rightarrow> fields option" where
  "stored_metadata metadata = (if metadata = [] then None else Some metadata)"

definition audit_check :: "instant \<Rightarrow> string \<Rightarrow> string \<Rightarrow> dedup_result \<Rightarrow> fields \<Rightarrow> key_store \<Rightarrow> key_store" where
  "audit_check now key source result metadata st =
     st\<lparr>ks_audit := ks_audit st @
       [\<lparr>cr_key = key, cr_source = source, cr_result = result, cr_checked_at = now, cr_metadata = stored_metadata metadata\<rparr>]\<rparr>"

definition replay_expired :: "instant \<Rightarrow> timestamp option \<Rightarrow> seconds \<Rightarrow> bool" where
  "replay_expired now timestamp window =
     (case timestamp of
        None \<Rightarrow> False
      | Some ts \<Rightarrow> 0 < window \<and> window < of_int now / of_int microseconds_per_second - event_time ts)"

definition is_duplicate ::
  "instant \<Rightarrow> string \<Rightarrow> timestamp option \<Rightarrow> string \<Rightarrow> fields \<Rightarrow> key_store \<Rightarrow> dedup_result \<times> key_store" where
  "is_duplicate now key timestamp source metadata st =
     (let st = st\<lparr>ks_seen := ks_seen st + 1\<rparr> in
      if replay_expired now timestamp (ks_replay_window st)
      then (Replay_rejected,
            audit_check now key source Replay_rejected metadata (st\<lparr>ks_rejected := ks_rejected st + 1\<rparr>))
      else if key \<in> kr_key ` set (ks_keys st)
      then (Duplicate, audit_check now key source Duplicate metadata (st\<lparr>ks_duplicates := ks_duplicates st + 1\<rparr>))
      else (New, st))"

text \<open>\<open>INSERT OR IGNORE\<close> into the key table.\<close>

definition insert_key :: "key_row \<Rightarrow> key_row list \<Rightarrow> key_row list" where
  "insert_key r rows = (if kr_key r \<in> kr_key ` set rows then rows else rows @ [r])"

text \<open>
  \<open>mark_seen\<close>: both key columns are \<open>NOT NULL\<close>. With a null key the first statement ignores
  the row and the second raises, and the transaction is rolled back.
\<close>

datatype dedup_error = Integrity_error

definition mark_seen ::
  "instant \<Rightarrow> string option \<Rightarrow> string \<Rightarrow> fields \<Rightarrow> key_store \<Rightarrow> dedup_error + key_store" where
  "mark_seen now key source metadata st =
     (case key of
        None \<Rightarrow> Inl Integrity_error
      | Some k \<Rightarrow>
          Inr (audit_check now k source New metadata
            (st\<lparr>ks_keys := insert_key \<lparr>kr_key = k, kr_source = source, kr_metadata = stored_metadata metadata,
                 kr_first_seen = now\<rparr> (ks_keys st)\<rparr>)))"

record dedup_stats =
  dst_seen :: nat
  dst_duplicates :: nat
  dst_rejected :: nat
  dst_rate :: real

definition store_stats :: "key_store \<Rightarrow> dedup_stats" where
  "store_stats st =
     \<lparr>dst_seen = ks_seen st, dst_duplicates = ks_duplicates st, dst_rejected = ks_rejected st,
      dst_rate = (if 0 < ks_seen st then of_nat (ks_duplicates st) / of_nat (ks_seen st) else 0)\<rparr>"

definition prune_old_entries :: "instant \<Rightarrow> int \<Rightarrow> key_store \<Rightarrow> nat \<times> key_store" where
  "prune_old_entries now older_than_days st =
     (let cutoff = now - older_than_days * 86400 * microseconds_per_second
      in (row_count (\<lambda>r. kr_first_seen r < cutoff) (ks_keys st),
          st\<lparr>ks_keys := delete_where (\<lambda>r. kr_first_seen r < cutoff) (ks_keys st),
             ks_audit := delete_where (\<lambda>r. cr_checked_at r < cutoff) (ks_audit st)\<rparr>))"

section \<open>Bridge events\<close>

record bridge_dedup =
  bd_store :: key_store
  bd_window_blocks :: int
  bd_rejected :: nat

definition bridge_metadata :: "int \<Rightarrow> string \<Rightarrow> int \<Rightarrow> int \<Rightarrow> fields" where
  "bridge_metadata chain_id tx_hash log_index block_number =
     [(''chain_id'', F_int chain_id), (''tx_hash'', F_str tx_hash), (''log_index'', F_int log_index),
      (''block_number'', F_int block_number)]"

definition bridge_is_duplicate ::
  "(string \<Rightarrow> string) \<Rightarrow> instant \<Rightarrow> int \<Rightarrow> string \<Rightarrow> int \<Rightarrow> int \<Rightarrow> int \<Rightarrow> bridge_dedup \<Rightarrow> dedup_result \<times> bridge_dedup" where
  "bridge_is_duplicate sha256 now chain_id tx_hash log_index block_number current_chain_head b =
     (if 0 < current_chain_head \<and> block_number < current_chain_head - bd_window_blocks b
      then (Replay_rejected, b\<lparr>bd_rejected := bd_rejected b + 1\<rparr>)
      else case is_duplicate now (compute_event_hash sha256 chain_id tx_hash log_index) None ''evm''
                  (bridge_metadata chain_id tx_hash log_index block_number) (bd_store b) of
             (result, st) \<Rightarrow> (result, b\<lparr>bd_store := st\<rparr>))"

definition bridge_mark_seen ::
  "(string \<Rightarrow> string) \<Rightarrow> instant \<Rightarrow> int \<Rightarrow> string \<Rightarrow> int \<Rightarrow> int \<Rightarrow> bridge_dedup \<Rightarrow> dedup_error + bridge_dedup" where
  "bridge_mark_seen sha256 now chain_id tx_hash log_index block_number b =
     map_sum id (\<lambda>st. b\<lparr>bd_store := st\<rparr>)
       (mark_seen now (Some (compute_event_hash sha256 chain_id tx_hash log_index)) ''evm''
          (bridge_metadata chain_id tx_hash log_index block_number) (bd_store b))"

definition bridge_stats :: "bridge_dedup \<Rightarrow> dedup_stats" where
  "bridge_stats b =
     (let s = store_stats (bd_store b)
      in \<lparr>dst_seen = dst_seen s, dst_duplicates = dst_duplicates s, dst_rejected = dst_rejected s + bd_rejected b,
          dst_rate = (if 0 < dst_seen s then of_nat (dst_duplicates s) / of_nat (dst_seen s) else 0)\<rparr>)"

text \<open>
  \<open>json_extract\<close> is null for a missing object or member, and a comparison with null does not
  hold; in SQLite's order every text value is above every integer.
\<close>

definition json_extract :: "string \<Rightarrow> fields option \<Rightarrow> field_value" where
  "json_extract member obj =
     (case obj of None \<Rightarrow> F_null | Some d \<Rightarrow> (case dict_get d member of None \<Rightarrow> F_null | Some v \<Rightarrow> v))"

fun sql_less :: "field_value \<Rightarrow> int \<Rightarrow> bool" where
  "sql_less (F_int i) n = (i < n)" | "sql_less (F_str s) n = False" | "sql_less F_null n = False"

fun sql_at_least :: "field_value \<Rightarrow> int \<Rightarrow> bool" where
  "sql_at_least (F_int i) n = (n \<le> i)" | "sql_at_least (F_str s) n = True" | "sql_at_least F_null n = False"

definition below_block :: "int \<Rightarrow> string \<Rightarrow> fields option \<Rightarrow> bool" where
  "below_block cutoff source metadata \<longleftrightarrow>
     source = ''evm'' \<and> sql_less (json_extract ''block_number'' metadata) cutoff"

definition bridge_prune :: "int \<Rightarrow> int \<Rightarrow> bridge_dedup \<Rightarrow> nat \<times> bridge_dedup" where
  "bridge_prune current_chain_head keep_blocks b =
     (let cutoff = current_chain_head - keep_blocks; st = bd_store b in
      if cutoff \<le> 0 then (0, b)
      else (row_count (\<lambda>r. below_block cutoff (kr_source r) (kr_metadata r)) (ks_keys st),
            b\<lparr>bd_store := st\<lparr>
               ks_keys := delete_where (\<lambda>r. below_block cutoff (kr_source r) (kr_metadata r)) (ks_keys st),
               ks_audit := delete_where (\<lambda>r. below_block cutoff (cr_source r) (cr_metadata r)) (ks_audit st)\<rparr>\<rparr>))"

definition reorged :: "int \<Rightarrow> int \<Rightarrow> string \<Rightarrow> fields option \<Rightarrow> bool" where
  "reorged chain_id from_block source metadata \<longleftrightarrow>
     source = ''evm'' \<and> json_extract ''chain_id'' metadata = F_int chain_id \<and>
     sql_at_least (json_extract ''block_number'' metadata) from_block"

definition handle_reorg :: "int \<Rightarrow> int \<Rightarrow> bridge_dedup \<Rightarrow> nat \<times> bridge_dedup" where
  "handle_reorg chain_id from_block b =
     (let st = bd_store b in
      (row_count (\<lambda>r. reorged chain_id from_block (kr_source r) (kr_metadata r)) (ks_keys st),
       b\<lparr>bd_store := st\<lparr>
          ks_keys := delete_where (\<lambda>r. reorged chain_id from_block (kr_source r) (kr_metadata r)) (ks_keys st),
          ks_audit := delete_where (\<lambda>r. reorged chain_id from_block (cr_source r) (cr_metadata r)) (ks_audit st)\<rparr>\<rparr>))"

section \<open>Callers\<close>

text \<open>The Solana adapter's \<open>_accept_trade\<close> with a store.\<close>

definition solana_fields :: "string \<Rightarrow> fields" where
  "solana_fields sig = [(''signature'', F_str sig), (''instruction_index'', F_int 0)]"

definition accept_event ::
  "instant \<Rightarrow> string \<Rightarrow> timestamp option \<Rightarrow> string \<Rightarrow> fields \<Rightarrow> key_store \<Rightarrow> bool \<times> key_store" where
  "accept_event now key timestamp source metadata st =
     (case is_duplicate now key timestamp source metadata st of
        (New, st') \<Rightarrow> (case mark_seen now (Some key) source metadata st' of Inl _ \<Rightarrow> (False, st') | Inr st'' \<Rightarrow> (True, st''))
      | (_, st') \<Rightarrow> (False, st'))"

definition accept_trade ::
  "(string \<Rightarrow> string) \<Rightarrow> instant \<Rightarrow> string \<Rightarrow> string \<Rightarrow> timestamp option \<Rightarrow> key_store \<Rightarrow> bool \<times> key_store" where
  "accept_trade sha256 now sig address close_time st =
     accept_event now (compute_key sha256 ''solana'' (solana_fields sig)) close_time ''solana''
       (solana_fields sig @ [(''wallet'', F_str address)]) st"

section \<open>Keys identify events\<close>

text \<open>A rendered value ends where its delimiter stands.\<close>

definition value_char :: "char \<Rightarrow> bool" where
  "value_char c \<longleftrightarrow> c = CHR ''-'' \<or> 48 \<le> (of_char c :: nat) \<and> (of_char c :: nat) < 58"

lemma show_int_chars: "c \<in> set (show_int i) \<Longrightarrow> value_char c"
  using digits_chars by (auto simp: show_int_def value_char_def split: if_splits)

lemma show_int_nonempty: "show_int i \<noteq> []"
  by (simp add: show_int_def digits.simps)

lemma delimited_split:
  assumes "a @ c # x = b @ d # y" "\<forall>e\<in>set a. value_char e" "\<forall>e\<in>set b. value_char e" "\<not> value_char c" "\<not> value_char d"
  shows "a = b \<and> c = d \<and> x = y"
  using assms
proof (induction a arbitrary: b)
  case Nil
  then show ?case by (cases b) auto
next
  case (Cons e a)
  then show ?case by (cases b) auto
qed

lemma value_char_delims: "\<not> value_char CHR '',''" "\<not> value_char CHR 0x7D" "\<not> value_char CHR 0x22" "\<not> value_char CHR ''n''"
  by (simp_all add: value_char_def of_char_def)

lemma json_value_split:
  assumes "json_value v @ c # x = json_value w @ d # y" "\<not> value_char c" "\<not> value_char d"
  shows "v = w \<and> c = d \<and> x = y"
proof -
  have num: "show_int i @ c # x \<noteq> e # z" if "\<not> value_char e" for i e z and c :: char and x
    using that show_int_chars [of _ i] show_int_nonempty [of i] by (cases "show_int i") auto
  have null: "json_string s @ x \<noteq> CHR ''n'' # z" for s x z by (simp add: json_string_def)
  show ?thesis
  proof (cases v; cases w)
    fix s t assume vw: "v = F_str s" "w = F_str t"
    then show ?thesis using assms(1) json_string_split [of s "c # x" t "d # y"] by simp
  next
    fix i j assume vw: "v = F_int i" "w = F_int j"
    then have "show_int i = show_int j \<and> c = d \<and> x = y"
      using assms show_int_chars by (intro delimited_split) auto
    then show ?thesis using vw show_int_inj by auto
  qed (use assms num [OF value_char_delims(3)] num [OF value_char_delims(4)]
        num [OF value_char_delims(3), symmetric] num [OF value_char_delims(4), symmetric] in
        \<open>auto simp: json_string_def\<close>)
qed

lemma json_string_not_brace:
  "json_string k @ z \<noteq> CHR 0x7D # y" "CHR 0x7D # y \<noteq> json_string k @ z"
  by (simp_all add: json_string_def)

lemma json_members_split:
  assumes "json_members ms @ CHR 0x7D # x = json_members ns @ CHR 0x7D # y"
  shows "ms = ns \<and> x = y"
  using assms
proof (induction ms arbitrary: ns rule: json_members.induct)
  case 1
  then show ?case by (cases ns rule: json_members.cases) (auto simp: json_string_not_brace)
next
  case (2 k v)
  then show ?case
    by (cases ns rule: json_members.cases)
      (auto simp: json_string_eq json_string_not_brace value_char_delims dest!: json_value_split)
next
  case (3 k v m ms)
  show ?case
  proof (cases ns rule: json_members.cases)
    case (3 k' v' m' ms')
    with "3.prems" have "k = k'" "json_value v @ CHR '','' # CHR '' '' # json_members (m # ms) @ CHR 0x7D # x =
        json_value v' @ CHR '','' # CHR '' '' # json_members (m' # ms') @ CHR 0x7D # y"
      by (auto simp: json_string_eq)
    with json_value_split [OF this(2)] "3.IH" [of "m' # ms'"] 3 show ?thesis by (simp add: value_char_delims)
  qed (use "3.prems" in \<open>auto simp: json_string_eq json_string_not_brace value_char_delims dest!: json_value_split\<close>)
qed

lemma key_payload_inj:
  "key_payload s f = key_payload s' f' \<longleftrightarrow>
     s = s' \<and> sort_key fst (map (normalise_field s) f) = sort_key fst (map (normalise_field s') f')"
proof
  assume "key_payload s f = key_payload s' f'"
  then have "json_members (sort_key fst (map (normalise_field s) f)) @ CHR 0x7D # '', '' @ json_string ''source'' @ '': '' @ json_string s @ ''}'' =
      json_members (sort_key fst (map (normalise_field s') f')) @ CHR 0x7D # '', '' @ json_string ''source'' @ '': '' @ json_string s' @ ''}''"
    by (simp add: key_payload_def)
  from json_members_split [OF this]
  show "s = s' \<and> sort_key fst (map (normalise_field s) f) = sort_key fst (map (normalise_field s') f')"
    using json_string_eq [of s "[]" s' "[]"] by (simp add: json_string_eq)
qed (auto simp: key_payload_def)

lemma fst_normalise [simp]: "fst (normalise_field s kv) = fst kv"
  by (auto simp: normalise_field_def split: prod.splits field_value.splits)

lemma keys_normalise [simp]: "map (fst \<circ> normalise_field s) f = map fst f"
  by simp

lemma sorted_by_key_eq:
  fixes f g :: "('k::linorder \<times> 'v) list"
  assumes "distinct (map fst f)" "distinct (map fst g)"
  shows "sort_key fst f = sort_key fst g \<longleftrightarrow> map_of f = map_of g"
proof
  assume eq: "sort_key fst f = sort_key fst g"
  have "set f = set g" using arg_cong [OF eq, of set] by simp
  then show "map_of f = map_of g" using map_of_inject_set [OF assms] by simp
next
  assume "map_of f = map_of g"
  then have sets: "set f = set g" using map_of_inject_set [OF assms] by simp
  have inj: "inj_on fst (set (sort_key fst f) \<union> set (sort_key fst g))"
    using assms(1) sets by (simp add: distinct_map)
  have "distinct (map fst (sort_key fst h))" if "distinct (map fst h)" for h :: "('k \<times> 'v) list"
    using that by (simp add: distinct_map)
  then show "sort_key fst f = sort_key fst g"
    using map_sorted_distinct_set_unique [OF inj] assms sets by (simp add: distinct_map)
qed

section \<open>The store under sequences of events\<close>

interpretation key_rows: unique_insert kr_key kr_key insert_key
  by unfold_locales (auto simp: insert_key_def)

record event =
  ev_now :: instant
  ev_key :: string
  ev_timestamp :: "timestamp option"
  ev_source :: string
  ev_metadata :: fields

fun accepted_events :: "event list \<Rightarrow> key_store \<Rightarrow> event list \<times> key_store" where
  "accepted_events [] st = ([], st)"
| "accepted_events (e # es) st =
     (case accept_event (ev_now e) (ev_key e) (ev_timestamp e) (ev_source e) (ev_metadata e) st of
        (ok, st') \<Rightarrow>
          (case accepted_events es st' of (acc, st'') \<Rightarrow> (if ok then e # acc else acc, st'')))"

definition stored_keys :: "key_store \<Rightarrow> string set" where
  "stored_keys st = kr_key ` set (ks_keys st)"

definition in_window :: "key_store \<Rightarrow> event \<Rightarrow> bool" where
  "in_window st e \<longleftrightarrow> \<not> replay_expired (ev_now e) (ev_timestamp e) (ks_replay_window st)"

lemma stored_insert [simp]: "kr_key ` set (insert_key r rows) = insert (kr_key r) (kr_key ` set rows)"
  by (auto simp: insert_key_def)

lemma accept_event_effect:
  assumes "accept_event (ev_now e) (ev_key e) (ev_timestamp e) (ev_source e) (ev_metadata e) st = (ok, st')"
  shows "ok \<longleftrightarrow> in_window st e \<and> ev_key e \<notin> stored_keys st"
    and "stored_keys st' = (if ok then insert (ev_key e) (stored_keys st) else stored_keys st)"
    and "ks_replay_window st' = ks_replay_window st"
    and "ks_seen st' = ks_seen st + 1"
    and "ks_duplicates st' + ks_rejected st' = ks_duplicates st + ks_rejected st + (if ok then 0 else 1)"
proof -
  consider (expired) "\<not> in_window st e" | (dup) "in_window st e" "ev_key e \<in> stored_keys st"
    | (new) "in_window st e" "ev_key e \<notin> stored_keys st" by blast
  then have "(ok \<longleftrightarrow> in_window st e \<and> ev_key e \<notin> stored_keys st) \<and>
      stored_keys st' = (if ok then insert (ev_key e) (stored_keys st) else stored_keys st) \<and>
      ks_replay_window st' = ks_replay_window st \<and> ks_seen st' = ks_seen st + 1 \<and>
      ks_duplicates st' + ks_rejected st' = ks_duplicates st + ks_rejected st + (if ok then 0 else 1)"
  proof cases
    case new
    then have "ev_key e \<notin> kr_key ` set (ks_keys st)" by (simp add: stored_keys_def)
    with assms new have "ok \<and> st' = audit_check (ev_now e) (ev_key e) (ev_source e) New (ev_metadata e)
        (st\<lparr>ks_seen := ks_seen st + 1, ks_keys := insert_key \<lparr>kr_key = ev_key e, kr_source = ev_source e,
           kr_metadata = stored_metadata (ev_metadata e), kr_first_seen = ev_now e\<rparr> (ks_keys st)\<rparr>)"
      by (auto simp: accept_event_def is_duplicate_def Let_def in_window_def mark_seen_def)
    with new show ?thesis by (simp add: audit_check_def stored_keys_def)
  qed (use assms in \<open>auto simp: accept_event_def is_duplicate_def Let_def in_window_def audit_check_def stored_keys_def\<close>)
  then show "ok \<longleftrightarrow> in_window st e \<and> ev_key e \<notin> stored_keys st"
    and "stored_keys st' = (if ok then insert (ev_key e) (stored_keys st) else stored_keys st)"
    and "ks_replay_window st' = ks_replay_window st"
    and "ks_seen st' = ks_seen st + 1"
    and "ks_duplicates st' + ks_rejected st' = ks_duplicates st + ks_rejected st + (if ok then 0 else 1)" by blast+
qed

lemma accepted_events_spec:
  assumes "accepted_events es st = (acc, st')"
  shows "length (filter (\<lambda>e. ev_key e = k) acc) =
      (if k \<notin> stored_keys st \<and> (\<exists>e\<in>set es. ev_key e = k \<and> in_window st e) then 1 else 0)"
    and "ks_seen st' = ks_seen st + length es"
    and "ks_seen st' + ks_duplicates st + ks_rejected st =
      ks_seen st + length acc + ks_duplicates st' + ks_rejected st'"
proof -
  have "length (filter (\<lambda>e. ev_key e = k) acc) =
      (if k \<notin> stored_keys st \<and> (\<exists>e\<in>set es. ev_key e = k \<and> in_window st e) then 1 else 0) \<and>
    ks_seen st' = ks_seen st + length es \<and>
    ks_seen st' + ks_duplicates st + ks_rejected st = ks_seen st + length acc + ks_duplicates st' + ks_rejected st'"
    using assms
  proof (induction es arbitrary: st acc st')
    case (Cons e es)
    obtain ok st1 where step: "accept_event (ev_now e) (ev_key e) (ev_timestamp e) (ev_source e) (ev_metadata e) st = (ok, st1)"
      by fastforce
    obtain acc1 st2 where rest: "accepted_events es st1 = (acc1, st2)" by fastforce
    note eff = accept_event_effect [OF step]
    have win: "in_window st1 = in_window st" using eff(3) by (simp add: in_window_def fun_eq_iff)
    show ?case
      using Cons.IH [OF rest] Cons.prems step rest eff(1,2,4,5) win
      by (cases ok; cases "ev_key e = k") (auto split: if_splits)
  qed simp
  then show "length (filter (\<lambda>e. ev_key e = k) acc) =
      (if k \<notin> stored_keys st \<and> (\<exists>e\<in>set es. ev_key e = k \<and> in_window st e) then 1 else 0)"
    and "ks_seen st' = ks_seen st + length es"
    and "ks_seen st' + ks_duplicates st + ks_rejected st =
      ks_seen st + length acc + ks_duplicates st' + ks_rejected st'" by blast+
qed

lemma mark_seen_row:
  assumes "k \<notin> stored_keys st" "mark_seen now (Some k) source metadata st = Inr st'"
  shows "ks_keys st' = ks_keys st @ [\<lparr>kr_key = k, kr_source = source, kr_metadata = stored_metadata metadata, kr_first_seen = now\<rparr>]"
  using assms by (auto simp: mark_seen_def audit_check_def insert_key_def stored_keys_def)

lemma stored_delete_snoc:
  "g r \<notin> g ` set rows \<Longrightarrow> g r \<in> g ` {x \<in> set (rows @ [r]). \<not> p x} \<longleftrightarrow> \<not> p r"
  by force

lemma bridge_metadata_extract [simp]:
  "json_extract ''chain_id'' (stored_metadata (bridge_metadata c t l b)) = F_int c"
  "json_extract ''block_number'' (stored_metadata (bridge_metadata c t l b)) = F_int b"
  by (simp_all add: json_extract_def stored_metadata_def bridge_metadata_def)

lemma bridge_mark_seen_row:
  assumes "compute_event_hash sha256 c t l \<notin> stored_keys (bd_store b)" "bridge_mark_seen sha256 now c t l blk b = Inr b1"
  shows "ks_keys (bd_store b1) = ks_keys (bd_store b) @
      [\<lparr>kr_key = compute_event_hash sha256 c t l, kr_source = ''evm'',
        kr_metadata = stored_metadata (bridge_metadata c t l blk), kr_first_seen = now\<rparr>]"
    and "bd_window_blocks b1 = bd_window_blocks b"
proof -
  obtain st' where m: "mark_seen now (Some (compute_event_hash sha256 c t l)) ''evm'' (bridge_metadata c t l blk) (bd_store b) = Inr st'"
    by (simp add: mark_seen_def)
  then have b1: "b1 = b\<lparr>bd_store := st'\<rparr>" using assms(2) by (simp add: bridge_mark_seen_def)
  show "ks_keys (bd_store b1) = ks_keys (bd_store b) @
      [\<lparr>kr_key = compute_event_hash sha256 c t l, kr_source = ''evm'',
        kr_metadata = stored_metadata (bridge_metadata c t l blk), kr_first_seen = now\<rparr>]"
    using mark_seen_row [OF assms(1) m] b1 by simp
  show "bd_window_blocks b1 = bd_window_blocks b" using b1 by simp
qed

section \<open>Properties\<close>

text \<open>
  C8: exactly-once emission. Over any sequence of events that are checked and, when new,
  marked, from any store, a key is accepted once if it is not stored yet and one of its
  events lies in the replay window, and never otherwise; and the counters account for every
  event: each one checked is accepted, a duplicate or rejected.
\<close>

theorem dedup_exactly_once:
  assumes "accepted_events es st = (acc, st')"
  shows "(\<forall>k. length (filter (\<lambda>e. ev_key e = k) acc) =
      (if k \<notin> stored_keys st \<and> (\<exists>e\<in>set es. ev_key e = k \<and> in_window st e) then 1 else 0)) \<and>
    length es + ks_duplicates st + ks_rejected st = length acc + ks_duplicates st' + ks_rejected st'"
proof (intro conjI allI)
  fix k show "length (filter (\<lambda>e. ev_key e = k) acc) =
      (if k \<notin> stored_keys st \<and> (\<exists>e\<in>set es. ev_key e = k \<and> in_window st e) then 1 else 0)"
    by (rule accepted_events_spec [OF assms])
  show "length es + ks_duplicates st + ks_rejected st = length acc + ks_duplicates st' + ks_rejected st'"
    using accepted_events_spec(2,3) [OF assms] by simp
qed

definition sample_event :: "string \<Rightarrow> seconds \<Rightarrow> event" where
  "sample_event k t = \<lparr>ev_now = 7200000000, ev_key = k, ev_timestamp = Some (Epoch t), ev_source = ''horizon'', ev_metadata = []\<rparr>"

theorem dedup_exactly_once_witness:
  "\<exists>acc st'. accepted_events [sample_event ''a'' 7000, sample_event ''b'' 0, sample_event ''a'' 7100] (open_key_store [] [] 3600) = (acc, st') \<and>
     length (filter (\<lambda>e. ev_key e = ''a'') acc) = 1 \<and> length (filter (\<lambda>e. ev_key e = ''b'') acc) = 0"
proof -
  let ?es = "[sample_event ''a'' 7000, sample_event ''b'' 0, sample_event ''a'' 7100]" and ?st = "open_key_store [] [] 3600"
  obtain acc st' where run: "accepted_events ?es ?st = (acc, st')" by fastforce
  have "in_window ?st (sample_event ''a'' 7000)" "\<not> in_window ?st (sample_event ''b'' 0)"
    by (simp_all add: in_window_def sample_event_def open_key_store_def replay_expired_def)
  then have "length (filter (\<lambda>e. ev_key e = ''a'') acc) = 1 \<and> length (filter (\<lambda>e. ev_key e = ''b'') acc) = 0"
    using conjunct1 [OF dedup_exactly_once [OF run]] by (auto simp: open_key_store_def sample_event_def stored_keys_def)
  with run show ?thesis by blast
qed

text \<open>
  Idempotency keys identify events. Two keys are equal exactly when the sources agree and
  the normalised identity fields are the same dictionary, whatever the order of the keyword
  arguments, or else the two payloads are a collision of the hash.
\<close>

lemma idempotency_key_identity:
  assumes "distinct (dict_keys f)" "distinct (dict_keys f')"
  shows "compute_key sha256 s f = compute_key sha256 s' f' \<longleftrightarrow>
    s = s' \<and> dict_get (map (normalise_field s) f) = dict_get (map (normalise_field s') f') \<or>
    key_payload s f \<noteq> key_payload s' f' \<and> sha256 (key_payload s f) = sha256 (key_payload s' f')"
proof -
  have "sort_key fst (map (normalise_field s) f) = sort_key fst (map (normalise_field s') f') \<longleftrightarrow>
      dict_get (map (normalise_field s) f) = dict_get (map (normalise_field s') f')"
    using assms by (intro sorted_by_key_eq) simp_all
  then show ?thesis unfolding compute_key_def by (metis key_payload_inj)
qed

lemma idempotency_key_identity_witness:
  "compute_key id ''evm'' (evm_fields 1 ''0xAB'' 2) = compute_key id ''evm'' (rev (evm_fields 1 ''0xab'' 2)) \<and>
   compute_key id ''solana'' (solana_fields ''Ab'') \<noteq> compute_key id ''solana'' (solana_fields ''aB'')"
proof
  have lower: "py_lower ''0xAB'' = ''0xab''" "py_lower ''0xab'' = ''0xab''" by code_simp+
  have "distinct (dict_keys (evm_fields 1 ''0xAB'' 2))" "distinct (dict_keys (rev (evm_fields 1 ''0xab'' 2)))"
    by (simp_all add: evm_fields_def)
  from idempotency_key_identity [OF this, of id "''evm''" "''evm''"]
  show "compute_key id ''evm'' (evm_fields 1 ''0xAB'' 2) = compute_key id ''evm'' (rev (evm_fields 1 ''0xab'' 2))"
    using lower by (auto simp: evm_fields_def normalise_field_def fun_eq_iff)
  have "distinct (dict_keys (solana_fields ''Ab''))" "distinct (dict_keys (solana_fields ''aB''))"
    by (simp_all add: solana_fields_def)
  from idempotency_key_identity [OF this, of id "''solana''" "''solana''"]
  show "compute_key id ''solana'' (solana_fields ''Ab'') \<noteq> compute_key id ''solana'' (solana_fields ''aB'')"
    by (auto simp: solana_fields_def normalise_field_def fun_eq_iff)
qed

text \<open>
  A chain reorganisation re-opens exactly the events it orphans. After an event of some
  chain and block was marked and a reorganisation is handled, the event is new again when the
  reorganisation is of its chain and starts at or before its block, and a duplicate otherwise;
  the call removes exactly the matching rows and returns their number.
\<close>

lemma reorg_reopens_orphans:
  assumes "compute_event_hash sha256 c t l \<notin> stored_keys (bd_store b)"
    and "bridge_mark_seen sha256 now c t l blk b = Inr b1"
    and "head \<le> 0 \<or> head - bd_window_blocks b \<le> blk"
    and "handle_reorg c' from_block b1 = (n, b2)"
  shows "fst (bridge_is_duplicate sha256 now' c t l blk head b2) = (if c' = c \<and> from_block \<le> blk then New else Duplicate) \<and>
    n + length (ks_keys (bd_store b2)) = length (ks_keys (bd_store b1)) \<and>
    set (ks_keys (bd_store b2)) = {r \<in> set (ks_keys (bd_store b1)). \<not> reorged c' from_block (kr_source r) (kr_metadata r)}"
proof -
  let ?k = "compute_event_hash sha256 c t l"
  let ?r = "\<lparr>kr_key = ?k, kr_source = ''evm'', kr_metadata = stored_metadata (bridge_metadata c t l blk), kr_first_seen = now\<rparr>"
  let ?p = "\<lambda>r. reorged c' from_block (kr_source r) (kr_metadata r)"
  have b1: "ks_keys (bd_store b1) = ks_keys (bd_store b) @ [?r]" "bd_window_blocks b1 = bd_window_blocks b"
    using bridge_mark_seen_row [OF assms(1,2)] by simp_all
  have b2: "ks_keys (bd_store b2) = delete_where ?p (ks_keys (bd_store b1))" "bd_window_blocks b2 = bd_window_blocks b1"
    "n = row_count ?p (ks_keys (bd_store b1))"
    using assms(4) by (auto simp: handle_reorg_def Let_def)
  have p: "?p ?r \<longleftrightarrow> c' = c \<and> from_block \<le> blk" by (auto simp: reorged_def)
  have "?k \<in> stored_keys (bd_store b2) \<longleftrightarrow> \<not> (c' = c \<and> from_block \<le> blk)"
    using stored_delete_snoc [of kr_key ?r "ks_keys (bd_store b)" ?p] assms(1) p
    unfolding stored_keys_def b2(1) set_delete_where b1(1) by (simp only: key_row.simps simp_thms)
  moreover have "\<not> (0 < head \<and> blk < head - bd_window_blocks b2)" using assms(3) b1(2) b2(2) by auto
  ultimately have "fst (bridge_is_duplicate sha256 now' c t l blk head b2) = (if c' = c \<and> from_block \<le> blk then New else Duplicate)"
    by (simp add: bridge_is_duplicate_def is_duplicate_def Let_def replay_expired_def stored_keys_def split: prod.splits) blast
  moreover have "n + length (ks_keys (bd_store b2)) = length (ks_keys (bd_store b1))"
    using length_delete_where [of ?p "ks_keys (bd_store b1)"] b2 by simp
  ultimately show ?thesis by (simp add: b2(1) set_delete_where)
qed

definition sample_bridge :: bridge_dedup where
  "sample_bridge = \<lparr>bd_store = open_key_store [] [] 3600, bd_window_blocks = 1000, bd_rejected = 0\<rparr>"

lemma reorg_reopens_orphans_witness:
  "\<exists>b1 n b2. bridge_mark_seen id 0 1 ''0xab'' 0 120 sample_bridge = Inr b1 \<and> handle_reorg 1 100 b1 = (n, b2) \<and>
     fst (bridge_is_duplicate id 1 1 ''0xab'' 0 120 130 b2) = New"
proof -
  obtain b1 where m: "bridge_mark_seen id 0 1 ''0xab'' 0 120 sample_bridge = Inr b1"
    by (auto simp: bridge_mark_seen_def mark_seen_def)
  obtain n b2 where r: "handle_reorg 1 100 b1 = (n, b2)" by fastforce
  have "fst (bridge_is_duplicate id 1 1 ''0xab'' 0 120 130 b2) = New"
    using reorg_reopens_orphans [OF _ m _ r, of 130 1] by (simp add: sample_bridge_def open_key_store_def stored_keys_def)
  with m r show ?thesis by blast
qed

text \<open>
  Checking and marking are two locked steps, and between them another worker may check.
  Two workers that check an unseen key in the window before either marks it are both told it
  is new, and both then mark it without an error, though one row results.
\<close>

lemma check_then_mark_races:
  assumes "key \<notin> stored_keys st" "\<not> replay_expired t1 ts (ks_replay_window st)" "\<not> replay_expired t2 ts (ks_replay_window st)"
  shows "\<exists>st1 st2 st3 st4. is_duplicate t1 key ts src md st = (New, st1) \<and> is_duplicate t2 key ts src md st1 = (New, st2) \<and>
    mark_seen t3 (Some key) src md st2 = Inr st3 \<and> mark_seen t4 (Some key) src md st3 = Inr st4 \<and>
    row_count (\<lambda>r. kr_key r = key) (ks_keys st4) = 1"
proof -
  have "filter (\<lambda>r. kr_key r = key) (ks_keys st) = []" using assms(1) by (auto simp: filter_empty_conv stored_keys_def)
  then show ?thesis using assms
    by (auto simp: is_duplicate_def Let_def mark_seen_def audit_check_def insert_key_def row_count_def stored_keys_def)
qed

lemma check_then_mark_races_witness:
  "\<exists>st1 st2. is_duplicate 0 ''k'' None ''horizon'' [] (open_key_store [] [] 3600) = (New, st1) \<and>
     is_duplicate 0 ''k'' None ''horizon'' [] st1 = (New, st2)"
proof -
  let ?st = "open_key_store [] [] 3600"
  have "''k'' \<notin> stored_keys ?st" "\<not> replay_expired 0 None (ks_replay_window ?st)"
    by (simp_all add: open_key_store_def replay_expired_def stored_keys_def)
  from check_then_mark_races [OF this this(2)] show ?thesis by blast
qed

end
