(* ===== verification/Streamer.thy ===== *)
theory Streamer
  imports Dedup "HOL-Library.Sublist"
begin

text \<open>
  The Horizon trade stream: cursor checkpoints (\<open>packages/core/ingestion/checkpoint.py\<close>) and the
  bounded queue and asynchronous consumer of \<open>packages/core/ingestion/horizon_streamer.py\<close>.
  The server-sent events of a connection are a list of decoded records; the outcome of parsing
  a record into a \<open>Trade\<close> (validated by Pydantic) comes with it, \<open>None\<close> for the exceptions the
  loop catches. Clock readings and the success of a file write are arguments.
\<close>

section \<open>Cursors and checkpoints\<close>

definition valid_token :: "string \<Rightarrow> bool" where
  "valid_token s \<longleftrightarrow>
     takeWhile is_digit s \<noteq> [] \<and>
     (case dropWhile is_digit s of
        [] \<Rightarrow> False
      | c # ds \<Rightarrow> c = CHR ''-'' \<and> ds \<noteq> [] \<and> list_all is_digit ds)"

definition validate_cursor :: "string \<Rightarrow> string option" where
  "validate_cursor cursor = (if cursor = ''now'' \<or> valid_token cursor then Some cursor else None)"

record flush_policy =
  fp_max_events :: int
  fp_max_seconds :: seconds

definition new_flush_policy :: "int \<Rightarrow> seconds \<Rightarrow> flush_policy option" where
  "new_flush_policy max_events max_seconds =
     (if max_events \<le> 0 then None else if max_seconds \<le> 0 then None
      else Some \<lparr>fp_max_events = max_events, fp_max_seconds = max_seconds\<rparr>)"

definition should_flush :: "flush_policy \<Rightarrow> int \<Rightarrow> seconds \<Rightarrow> seconds \<Rightarrow> bool" where
  "should_flush p events_since_flush last_flush_time now \<longleftrightarrow>
     fp_max_events p \<le> events_since_flush \<or> fp_max_seconds p \<le> now - last_flush_time"

text \<open>
  The checkpoint file: absent, unreadable or not the expected JSON, or a token with the
  ledger. A failing file system (\<open>io_ok\<close> false) leaves it as it is.
\<close>

datatype checkpoint_file = No_file | Garbage | Checkpoint string "int option"

definition load_checkpoint :: "bool \<Rightarrow> checkpoint_file \<Rightarrow> string option" where
  "load_checkpoint io_ok f =
     (if \<not> io_ok then None
      else case f of No_file \<Rightarrow> None | Garbage \<Rightarrow> None | Checkpoint token _ \<Rightarrow> validate_cursor token)"

definition save_checkpoint :: "bool \<Rightarrow> string \<Rightarrow> int option \<Rightarrow> checkpoint_file \<Rightarrow> checkpoint_file" where
  "save_checkpoint io_ok paging_token ledger_sequence f =
     (case validate_cursor paging_token of
        None \<Rightarrow> f
      | Some token \<Rightarrow> if io_ok then Checkpoint token ledger_sequence else f)"

definition delete_checkpoint :: "bool \<Rightarrow> checkpoint_file \<Rightarrow> checkpoint_file" where
  "delete_checkpoint io_ok f = (if io_ok then No_file else f)"

section \<open>The bounded queue\<close>

datatype overflow = Block | Drop_newest | Drop_oldest

record 'a bounded_queue =
  bq_items :: "'a list"
  bq_maxsize :: nat
  bq_strategy :: overflow
  bq_dropped :: nat
  bq_high_water_hits :: nat

definition new_queue :: "int \<Rightarrow> overflow \<Rightarrow> 'a bounded_queue option" where
  "new_queue maxsize strategy =
     (if maxsize \<le> 0 then None
      else Some \<lparr>bq_items = [], bq_maxsize = nat maxsize, bq_strategy = strategy, bq_dropped = 0, bq_high_water_hits = 0\<rparr>)"

definition depth :: "'a bounded_queue \<Rightarrow> nat" where
  "depth q = length (bq_items q)"

definition record_high_water :: "'a bounded_queue \<Rightarrow> 'a bounded_queue" where
  "record_high_water q =
     (if 4 / 5 \<le> real (depth q) / real (bq_maxsize q)
      then q\<lparr>bq_high_water_hits := bq_high_water_hits q + 1\<rparr> else q)"

text \<open>\<open>put\<close> is \<open>None\<close> while it waits for room.\<close>

definition put :: "'a \<Rightarrow> 'a bounded_queue \<Rightarrow> (bool \<times> 'a bounded_queue) option" where
  "put trade q =
     (if bq_strategy q = Block then
        (if bq_maxsize q \<le> depth q then None
         else Some (True, record_high_water (q\<lparr>bq_items := bq_items q @ [trade]\<rparr>)))
      else if \<not> bq_maxsize q \<le> depth q then
        Some (True, record_high_water (q\<lparr>bq_items := bq_items q @ [trade]\<rparr>))
      else if bq_strategy q = Drop_newest then
        Some (False, record_high_water (q\<lparr>bq_dropped := bq_dropped q + 1\<rparr>))
      else
        Some (True, record_high_water (q\<lparr>bq_items := tl (bq_items q) @ [trade], bq_dropped := bq_dropped q + 1\<rparr>)))"

definition get_nowait :: "'a bounded_queue \<Rightarrow> ('a \<times> 'a bounded_queue) option" where
  "get_nowait q = (case bq_items q of [] \<Rightarrow> None | t # ts \<Rightarrow> Some (t, q\<lparr>bq_items := ts\<rparr>))"

section \<open>The streamer\<close>

text \<open>The members of an event the streamer itself reads, and of the trade parsed from it.\<close>

datatype raw_value = R_none | R_str string | R_int int

record raw_record =
  rr_paging_token :: raw_value
  rr_id :: raw_value
  rr_ledger :: raw_value
  rr_ledger_sequence :: raw_value

record sse_trade =
  tr_id :: string
  tr_paging_token :: "string option"
  tr_transaction_hash :: "string option"
  tr_close_time :: timestamp

fun truthy :: "raw_value \<Rightarrow> bool" where
  "truthy R_none = False" | "truthy (R_str s) = (s \<noteq> [])" | "truthy (R_int i) = (i \<noteq> 0)"

definition py_or :: "raw_value \<Rightarrow> raw_value \<Rightarrow> raw_value" where
  "py_or a b = (if truthy a then a else b)"

fun raw_int :: "raw_value \<Rightarrow> int option" where
  "raw_int R_none = None" | "raw_int (R_str s) = py_int s" | "raw_int (R_int i) = Some i"

definition extract_paging_token_parts :: "string \<Rightarrow> int \<times> int" where
  "extract_paging_token_parts paging_token =
     (case py_split CHR ''-'' paging_token of
        [a, b] \<Rightarrow> (case (py_int a, py_int b) of (Some i, Some j) \<Rightarrow> (i, j) | _ \<Rightarrow> (0, 0))
      | _ \<Rightarrow> (0, 0))"

definition trade_token :: "sse_trade \<Rightarrow> string" where
  "trade_token t = (case tr_paging_token t of None \<Rightarrow> tr_id t | Some p \<Rightarrow> if p = [] then tr_id t else p)"

definition horizon_key :: "(string \<Rightarrow> string) \<Rightarrow> sse_trade \<Rightarrow> string" where
  "horizon_key sha256 t =
     (case extract_paging_token_parts (trade_token t) of (ledger_sequence, operation_index) \<Rightarrow>
        compute_key sha256 ''horizon''
          [(''ledger_sequence'', F_int ledger_sequence),
           (''tx_hash'', F_str (case tr_transaction_hash t of None \<Rightarrow> [] | Some h \<Rightarrow> h)),
           (''operation_index'', F_int operation_index)])"

definition horizon_metadata :: "sse_trade \<Rightarrow> fields" where
  "horizon_metadata t =
     (case extract_paging_token_parts (trade_token t) of (ledger_sequence, operation_index) \<Rightarrow>
        [(''ledger_sequence'', F_int ledger_sequence),
         (''tx_hash'', case tr_transaction_hash t of None \<Rightarrow> F_null | Some h \<Rightarrow> F_str h),
         (''operation_index'', F_int operation_index)])"

text \<open>\<open>_check_trade_dedup\<close>: the pair it returns, and the store afterwards.\<close>

definition check_trade_dedup ::
  "(string \<Rightarrow> string) \<Rightarrow> instant \<Rightarrow> key_store option \<Rightarrow> sse_trade \<Rightarrow> (bool \<times> string option) \<times> key_store option" where
  "check_trade_dedup sha256 now store t =
     (case store of
        None \<Rightarrow> ((False, None), None)
      | Some st \<Rightarrow>
          let key = horizon_key sha256 t in
          (case is_duplicate now key (Some (tr_close_time t)) ''horizon'' (horizon_metadata t) st of
             (New, st') \<Rightarrow> ((False, None), Some st')
           | (_, st') \<Rightarrow> ((True, Some key), Some st')))"

record stream_metrics =
  sm_received :: nat
  sm_queued :: nat
  sm_dropped :: nat
  sm_dropped_newest :: nat
  sm_dropped_oldest :: nat
  sm_depth_current :: nat
  sm_depth_peak :: nat
  sm_high_water_hits :: nat
  sm_throttle_seconds :: seconds

record streamer =
  hs_queue :: "sse_trade bounded_queue"
  hs_cursor :: string
  hs_high_water_ratio :: real
  hs_throttle_level :: nat
  hs_metrics :: stream_metrics
  hs_checkpoint :: checkpoint_file
  hs_policy :: flush_policy
  hs_since_flush :: nat
  hs_last_flush :: seconds
  hs_last_ledger :: "int option"
  hs_dedup :: "key_store option"

definition no_metrics :: stream_metrics where
  "no_metrics = \<lparr>sm_received = 0, sm_queued = 0, sm_dropped = 0, sm_dropped_newest = 0, sm_dropped_oldest = 0,
     sm_depth_current = 0, sm_depth_peak = 0, sm_high_water_hits = 0, sm_throttle_seconds = 0\<rparr>"

text \<open>
  The constructor, with its settings resolved: an explicit cursor, else the stored one, else
  the default; \<open>None\<close> is one of its \<open>ValueError\<close>s.
\<close>

definition new_streamer ::
  "sse_trade bounded_queue \<Rightarrow> string option \<Rightarrow> string \<Rightarrow> real \<Rightarrow> bool \<Rightarrow> checkpoint_file \<Rightarrow> flush_policy \<Rightarrow> seconds \<Rightarrow>
     key_store option \<Rightarrow> streamer option" where
  "new_streamer q cursor default_cursor high_water_ratio io_ok file policy now dedup =
     (if \<not> (0 < high_water_ratio \<and> high_water_ratio \<le> 1) then None
      else case (case cursor of
                   Some c \<Rightarrow> validate_cursor c
                 | None \<Rightarrow> (case load_checkpoint io_ok file of Some c \<Rightarrow> Some c | None \<Rightarrow> validate_cursor default_cursor)) of
             None \<Rightarrow> None
           | Some c \<Rightarrow>
               Some \<lparr>hs_queue = q, hs_cursor = c, hs_high_water_ratio = high_water_ratio, hs_throttle_level = 0,
                     hs_metrics = no_metrics, hs_checkpoint = file, hs_policy = policy, hs_since_flush = 0,
                     hs_last_flush = now, hs_last_ledger = None, hs_dedup = dedup\<rparr>)"

definition throttle_delay :: "nat \<Rightarrow> seconds" where
  "throttle_delay level = min (1 / 20 * 2 ^ level) 2"

definition maybe_throttle :: "streamer \<Rightarrow> streamer" where
  "maybe_throttle s =
     (if hs_high_water_ratio s \<le> real (depth (hs_queue s)) / real (bq_maxsize (hs_queue s))
      then let delay = throttle_delay (hs_throttle_level s); m = hs_metrics s
           in s\<lparr>hs_throttle_level := hs_throttle_level s + 1,
                hs_metrics := m\<lparr>sm_high_water_hits := sm_high_water_hits m + 1,
                                sm_throttle_seconds := sm_throttle_seconds m + delay\<rparr>\<rparr>
      else s\<lparr>hs_throttle_level := hs_throttle_level s - 1\<rparr>)"

definition enqueue :: "sse_trade \<Rightarrow> streamer \<Rightarrow> (bool \<times> streamer) option" where
  "enqueue t s0 =
     (let s = maybe_throttle s0; before_dropped = bq_dropped (hs_queue s) in
      case put t (hs_queue s) of
        None \<Rightarrow> None
      | Some (accepted, q) \<Rightarrow>
          let dropped = bq_dropped q - before_dropped;
              m = hs_metrics s;
              m1 = (if accepted then m\<lparr>sm_queued := sm_queued m + 1\<rparr> else m);
              m2 = (if dropped \<noteq> 0
                    then m1\<lparr>sm_dropped := sm_dropped m1 + dropped,
                            sm_dropped_newest := sm_dropped_newest m1 + (if bq_strategy q = Drop_newest then dropped else 0),
                            sm_dropped_oldest := sm_dropped_oldest m1 + (if bq_strategy q = Drop_oldest then dropped else 0)\<rparr>
                    else m1);
              m3 = m2\<lparr>sm_depth_current := depth q, sm_depth_peak := max (sm_depth_peak m2) (depth q)\<rparr>
          in Some (accepted, s\<lparr>hs_queue := q, hs_metrics := m3\<rparr>))"

definition metrics_snapshot :: "streamer \<Rightarrow> stream_metrics" where
  "metrics_snapshot s = (hs_metrics s)\<lparr>sm_depth_current := depth (hs_queue s)\<rparr>"

definition record_processed_event :: "seconds \<Rightarrow> bool \<Rightarrow> raw_record \<Rightarrow> streamer \<Rightarrow> streamer" where
  "record_processed_event now io_ok r s =
     (case py_or (rr_paging_token r) (rr_id r) of
        R_str event_cursor \<Rightarrow>
          (case validate_cursor event_cursor of
             None \<Rightarrow> s
           | Some c \<Rightarrow>
               let s1 = s\<lparr>hs_cursor := c, hs_last_ledger := raw_int (py_or (rr_ledger r) (rr_ledger_sequence r)),
                          hs_since_flush := hs_since_flush s + 1\<rparr>
               in if should_flush (hs_policy s1) (int (hs_since_flush s1)) (hs_last_flush s1) now
                  then s1\<lparr>hs_checkpoint := save_checkpoint io_ok (hs_cursor s1) (hs_last_ledger s1) (hs_checkpoint s1),
                          hs_since_flush := 0, hs_last_flush := now\<rparr>
                  else s1)
      | _ \<Rightarrow> s)"

definition flush_checkpoint :: "seconds \<Rightarrow> bool \<Rightarrow> streamer \<Rightarrow> streamer" where
  "flush_checkpoint now io_ok s =
     (if hs_since_flush s \<noteq> 0
      then s\<lparr>hs_checkpoint := save_checkpoint io_ok (hs_cursor s) (hs_last_ledger s) (hs_checkpoint s),
             hs_since_flush := 0, hs_last_flush := now\<rparr>
      else s)"

text \<open>
  One record through the loop of \<open>run\<close>. The step waits while the queue has no room under the
  blocking strategy, and an exception of the dedup store ends the loop.
\<close>

datatype stream_outcome = Continue streamer | Waiting | Raised dedup_error streamer

record incoming =
  in_record :: raw_record
  in_trade :: "sse_trade option"
  in_now :: instant
  in_clock :: seconds
  in_io_ok :: bool

definition count_received :: "streamer \<Rightarrow> streamer" where
  "count_received s = s\<lparr>hs_metrics := (hs_metrics s)\<lparr>sm_received := sm_received (hs_metrics s) + 1\<rparr>\<rparr>"

definition mark_accepted :: "instant \<Rightarrow> string option \<Rightarrow> sse_trade \<Rightarrow> streamer \<Rightarrow> stream_outcome" where
  "mark_accepted now key t s =
     (case hs_dedup s of
        None \<Rightarrow> Continue s
      | Some st \<Rightarrow>
          (case mark_seen now key ''horizon'' (horizon_metadata t) st of
             Inl e \<Rightarrow> Raised e s
           | Inr st' \<Rightarrow> Continue (s\<lparr>hs_dedup := Some st'\<rparr>)))"

definition process_record :: "(string \<Rightarrow> string) \<Rightarrow> incoming \<Rightarrow> streamer \<Rightarrow> stream_outcome" where
  "process_record sha256 i s0 =
     (let s1 = count_received s0 in
      case in_trade i of
        None \<Rightarrow> Continue s1
      | Some t \<Rightarrow>
          (case check_trade_dedup sha256 (in_now i) (hs_dedup s1) t of
             ((should_skip, key), dedup) \<Rightarrow>
               let s2 = record_processed_event (in_clock i) (in_io_ok i) (in_record i) (s1\<lparr>hs_dedup := dedup\<rparr>) in
               if should_skip then Continue s2
               else (case enqueue t s2 of
                       None \<Rightarrow> Waiting
                     | Some (accepted, s3) \<Rightarrow>
                         if accepted then mark_accepted (in_now i) key t s3 else Continue s3)))"

text \<open>
  A run: records arrive and the consumer takes trades in between. The loop's \<open>finally\<close> flushes
  the checkpoint when an exception ends it.
\<close>

datatype stream_input = Arrives incoming | Consumed

fun run_stream :: "(string \<Rightarrow> string) \<Rightarrow> stream_input list \<Rightarrow> streamer \<Rightarrow> stream_outcome" where
  "run_stream sha256 [] s = Continue s"
| "run_stream sha256 (Consumed # is) s =
     (case get_nowait (hs_queue s) of
        None \<Rightarrow> run_stream sha256 is s
      | Some (_, q) \<Rightarrow> run_stream sha256 is (s\<lparr>hs_queue := q\<rparr>))"
| "run_stream sha256 (Arrives i # is) s =
     (case process_record sha256 i s of
        Continue s' \<Rightarrow> run_stream sha256 is s'
      | Waiting \<Rightarrow> Waiting
      | Raised e s' \<Rightarrow> Raised e (flush_checkpoint (in_clock i) (in_io_ok i) s'))"

section \<open>Lemmas on the queue\<close>

text \<open>The life of a queue: the trades offered and the trades delivered so far.\<close>

inductive bq_history :: "'a list \<Rightarrow> 'a list \<Rightarrow> 'a bounded_queue \<Rightarrow> bool" where
  opened: "new_queue n strategy = Some q \<Longrightarrow> bq_history [] [] q"
| offered: "bq_history os ds q \<Longrightarrow> put t q = Some (ok, q') \<Longrightarrow> bq_history (os @ [t]) ds q'"
| taken: "bq_history os ds q \<Longrightarrow> get_nowait q = Some (t, q') \<Longrightarrow> bq_history os (ds @ [t]) q'"

definition queue_wf :: "'a bounded_queue \<Rightarrow> bool" where
  "queue_wf q \<longleftrightarrow> 0 < bq_maxsize q \<and> depth q \<le> bq_maxsize q"

lemma high_water_frame [simp]:
  "bq_items (record_high_water q) = bq_items q" "bq_maxsize (record_high_water q) = bq_maxsize q"
  "bq_strategy (record_high_water q) = bq_strategy q" "bq_dropped (record_high_water q) = bq_dropped q"
  "depth (record_high_water q) = depth q"
  by (simp_all add: record_high_water_def depth_def)

lemma put_cases:
  assumes "put t q = Some (ok, q')"
  obtains (room) "depth q < bq_maxsize q" "ok" "bq_items q' = bq_items q @ [t]" "bq_dropped q' = bq_dropped q"
  | (newest) "bq_maxsize q \<le> depth q" "bq_strategy q = Drop_newest" "\<not> ok" "bq_items q' = bq_items q"
      "bq_dropped q' = bq_dropped q + 1"
  | (oldest) "bq_maxsize q \<le> depth q" "bq_strategy q = Drop_oldest" "ok" "bq_items q' = tl (bq_items q) @ [t]"
      "bq_dropped q' = bq_dropped q + 1"
  using assms by (cases "bq_strategy q") (auto simp: put_def split: if_splits)

lemma put_frame: "put t q = Some (ok, q') \<Longrightarrow> bq_maxsize q' = bq_maxsize q \<and> bq_strategy q' = bq_strategy q"
  by (auto simp: put_def split: if_splits)

lemma put_wf [wf_intros]:
  assumes "queue_wf q" "put t q = Some (ok, q')"
  shows "queue_wf q'"
  using assms(2) put_frame [OF assms(2)] assms(1) by (elim put_cases) (auto simp: queue_wf_def depth_def)

lemma bq_history_inv:
  "bq_history os ds q \<Longrightarrow> queue_wf q \<and> subseq (ds @ bq_items q) os \<and>
     length os = length ds + depth q + bq_dropped q \<and> (bq_strategy q = Block \<longrightarrow> bq_dropped q = 0)"
proof (induction rule: bq_history.induct)
  case (opened n strategy q)
  then show ?case by (auto simp: new_queue_def queue_wf_def depth_def split: if_splits)
next
  case (offered os ds q t ok q')
  have "subseq (ds @ bq_items q') (os @ [t])"
    using offered.hyps(2)
  proof (cases rule: put_cases)
    case room
    then show ?thesis using offered.IH subseq_append [of "ds @ bq_items q" "[t]" os] by simp
  next
    case newest
    then show ?thesis using offered.IH subseq_rev_drop_many [of "ds @ bq_items q" os "[t]"] by simp
  next
    case oldest
    have "subseq (ds @ tl (bq_items q)) (ds @ bq_items q)"
      by (cases "bq_items q") (simp_all add: subseq_append' list_emb_Cons)
    then have "subseq (ds @ tl (bq_items q)) os" using offered.IH subseq_order.trans by blast
    then show ?thesis using oldest subseq_append [of "ds @ tl (bq_items q)" "[t]" os] by simp
  qed
  moreover have "length (os @ [t]) = length ds + depth q' + bq_dropped q'"
    using offered.hyps(2) offered.IH by (elim put_cases) (auto simp: queue_wf_def depth_def)
  moreover have "bq_strategy q' = Block \<longrightarrow> bq_dropped q' = 0"
    using offered.hyps(2) offered.IH put_frame [OF offered.hyps(2)] by (elim put_cases) auto
  moreover have "queue_wf q'" using put_wf [OF conjunct1 [OF offered.IH] offered.hyps(2)] .
  ultimately show ?case by (intro conjI)
next
  case (taken os ds q t q')
  then show ?case by (auto simp: get_nowait_def queue_wf_def depth_def split: list.splits)
qed

section \<open>Lemmas on the cursor\<close>

definition record_cursor :: "raw_record \<Rightarrow> string option" where
  "record_cursor r = (case py_or (rr_paging_token r) (rr_id r) of R_str c \<Rightarrow> validate_cursor c | _ \<Rightarrow> None)"

lemma validate_cursor_idem: "validate_cursor c = Some d \<Longrightarrow> d = c \<and> validate_cursor d = Some d"
  by (auto simp: validate_cursor_def split: if_splits)

lemma record_cursor_valid: "record_cursor r = Some c \<Longrightarrow> validate_cursor c = Some c"
  by (auto simp: record_cursor_def split: raw_value.splits dest: validate_cursor_idem)

lemma record_processed_None: "record_cursor r = None \<Longrightarrow> record_processed_event now ok r s = s"
  by (auto simp: record_cursor_def record_processed_event_def split: raw_value.splits)

lemma record_processed_Some:
  assumes "record_cursor r = Some c"
  shows "hs_cursor (record_processed_event now ok r s) = c"
    and "hs_policy (record_processed_event now ok r s) = hs_policy s"
    and "hs_since_flush (record_processed_event now ok r s) =
      (if should_flush (hs_policy s) (int (hs_since_flush s) + 1) (hs_last_flush s) now then 0 else hs_since_flush s + 1)"
    and "\<exists>l. hs_checkpoint (record_processed_event now ok r s) =
      (if should_flush (hs_policy s) (int (hs_since_flush s) + 1) (hs_last_flush s) now
       then save_checkpoint ok c l (hs_checkpoint s) else hs_checkpoint s)"
  using assms
  by (auto simp: record_cursor_def record_processed_event_def Let_def add.commute split: raw_value.splits option.splits)

text \<open>The processed cursors, cut where the checkpoint stands.\<close>

definition checkpointed :: "string list \<Rightarrow> streamer \<Rightarrow> bool" where
  "checkpointed cs s \<longleftrightarrow>
     (\<exists>flushed pending. cs = flushed @ pending \<and> flushed \<noteq> [] \<and> length pending = hs_since_flush s \<and>
        int (hs_since_flush s) < fp_max_events (hs_policy s) \<and> (\<exists>l. hs_checkpoint s = Checkpoint (last flushed) l) \<and>
        hs_cursor s = last cs \<and> (\<forall>c\<in>set cs. validate_cursor c = Some c))"

lemma checkpointed_step:
  assumes "checkpointed cs s" "0 < fp_max_events (hs_policy s)"
  shows "checkpointed (cs @ (case record_cursor r of None \<Rightarrow> [] | Some c \<Rightarrow> [c])) (record_processed_event now True r s)"
proof (cases "record_cursor r")
  case None
  then show ?thesis using assms(1) by (simp add: record_processed_None)
next
  case (Some c)
  let ?s = "record_processed_event now True r s"
  let ?flush = "should_flush (hs_policy s) (int (hs_since_flush s) + 1) (hs_last_flush s) now"
  note eff = record_processed_Some [OF Some, of now True s]
  from assms(1) obtain fl pe where c: "cs = fl @ pe" "fl \<noteq> []" "length pe = hs_since_flush s"
      "\<exists>l. hs_checkpoint s = Checkpoint (last fl) l" "\<forall>c\<in>set cs. validate_cursor c = Some c"
    unfolding checkpointed_def by blast
  have v: "validate_cursor c = Some c" by (rule record_cursor_valid [OF Some])
  show ?thesis
  proof (cases ?flush)
    case True
    then have "\<exists>l. hs_checkpoint ?s = Checkpoint c l" using eff(4) v by (auto simp: save_checkpoint_def)
    then show ?thesis unfolding checkpointed_def using Some True eff(1-3) c(5) v assms(2)
      by (intro exI [of _ "cs @ [c]"] exI [of _ "[]"]) auto
  next
    case False
    then have "int (hs_since_flush s) + 1 < fp_max_events (hs_policy s)" by (simp add: should_flush_def)
    then show ?thesis unfolding checkpointed_def using Some False eff c v
      by (intro exI [of _ fl] exI [of _ "pe @ [c]"]) auto
  qed
qed

lemma policy_frame: "hs_policy (record_processed_event now ok r s) = hs_policy s"
  by (cases "record_cursor r") (simp_all add: record_processed_None record_processed_Some)

lemma checkpointed_run:
  assumes "checkpointed cs s" "0 < fp_max_events (hs_policy s)"
  shows "checkpointed (cs @ List.map_filter (\<lambda>(now, r). record_cursor r) evs)
      (fold (\<lambda>(now, r). record_processed_event now True r) evs s)"
  using assms
proof (induction evs arbitrary: cs s)
  case (Cons e evs)
  obtain now r where e: "e = (now, r)" by (cases e)
  have "checkpointed (cs @ (case record_cursor r of None \<Rightarrow> [] | Some c \<Rightarrow> [c])) (record_processed_event now True r s)"
    by (rule checkpointed_step [OF Cons.prems])
  from Cons.IH [OF this] Cons.prems(2) show ?case
    by (cases "record_cursor r") (simp_all add: e policy_frame List.map_filter_simps)
qed (simp add: List.map_filter_simps)

section \<open>Lemmas on the loop\<close>

lemma record_processed_frame:
  "hs_metrics (record_processed_event now ok r s) = hs_metrics s"
  "hs_dedup (record_processed_event now ok r s) = hs_dedup s"
  "hs_queue (record_processed_event now ok r s) = hs_queue s"
  by (simp_all add: record_processed_event_def Let_def split: raw_value.split option.split)

lemma throttle_frame:
  "sm_queued (hs_metrics (maybe_throttle s)) = sm_queued (hs_metrics s)"
  "hs_dedup (maybe_throttle s) = hs_dedup s" "hs_queue (maybe_throttle s) = hs_queue s"
  by (simp_all add: maybe_throttle_def Let_def)

lemma enqueue_frame:
  assumes "enqueue t s = Some (ok, s')"
  shows "sm_queued (hs_metrics s') = sm_queued (hs_metrics s) + (if ok then 1 else 0) \<and> hs_dedup s' = hs_dedup s"
  using assms throttle_frame [of s] by (auto simp: enqueue_def Let_def split: option.splits prod.splits)

lemma is_duplicate_keys: "ks_keys (snd (is_duplicate now k ts src md st)) = ks_keys st"
  by (simp add: is_duplicate_def Let_def audit_check_def)

lemma check_trade_dedup_key:
  assumes "check_trade_dedup sha256 now (Some st) t = ((skip, key), dedup)"
  shows "\<exists>st'. dedup = Some st' \<and> ks_keys st' = ks_keys st \<and> (\<not> skip \<longrightarrow> key = None)"
  using assms is_duplicate_keys [of now "horizon_key sha256 t" "Some (tr_close_time t)" "''horizon''" "horizon_metadata t" st]
  by (auto simp: check_trade_dedup_def Let_def split: prod.splits dedup_result.splits)

text \<open>What one record can do to a stream with a dedup store.\<close>

definition store_kept :: "streamer \<Rightarrow> streamer \<Rightarrow> bool" where
  "store_kept s s' \<longleftrightarrow> (\<exists>st st'. hs_dedup s = Some st \<and> hs_dedup s' = Some st' \<and> ks_keys st' = ks_keys st)"

lemma process_record_dedup:
  assumes "hs_dedup s = Some st"
  shows "case process_record sha256 i s of
      Continue s' \<Rightarrow> sm_queued (hs_metrics s') = sm_queued (hs_metrics s) \<and> store_kept s s'
    | Waiting \<Rightarrow> True
    | Raised e s' \<Rightarrow> e = Integrity_error \<and> sm_queued (hs_metrics s') = sm_queued (hs_metrics s) + 1 \<and> store_kept s s'"
proof (cases "in_trade i")
  case None
  then show ?thesis using assms by (simp add: process_record_def count_received_def store_kept_def)
next
  case (Some t)
  obtain skip key dedup where chk: "check_trade_dedup sha256 (in_now i) (Some st) t = ((skip, key), dedup)"
    by (metis surj_pair)
  from check_trade_dedup_key [OF chk] obtain st' where st': "dedup = Some st'" "ks_keys st' = ks_keys st" "\<not> skip \<longrightarrow> key = None"
    by blast
  define s2 where "s2 = record_processed_event (in_clock i) (in_io_ok i) (in_record i) ((count_received s)\<lparr>hs_dedup := dedup\<rparr>)"
  have s2: "hs_dedup s2 = Some st'" "sm_queued (hs_metrics s2) = sm_queued (hs_metrics s)"
    by (simp_all add: s2_def record_processed_frame st'(1) count_received_def)
  have run: "process_record sha256 i s = (if skip then Continue s2 else case enqueue t s2 of None \<Rightarrow> Waiting
      | Some (accepted, s3) \<Rightarrow> if accepted then mark_accepted (in_now i) key t s3 else Continue s3)"
    using assms Some chk by (simp add: process_record_def Let_def s2_def count_received_def)
  show ?thesis
  proof (cases "skip \<or> enqueue t s2 = None")
    case True
    then show ?thesis using run assms s2 st'(2) by (auto simp: store_kept_def)
  next
    case False
    then obtain ok s3 where e: "enqueue t s2 = Some (ok, s3)" by auto
    then show ?thesis using run False enqueue_frame [OF e] s2 st'(2,3) assms
      by (auto simp: store_kept_def mark_accepted_def mark_seen_def)
  qed
qed

lemma flush_frame:
  "hs_metrics (flush_checkpoint now ok s) = hs_metrics s" "hs_dedup (flush_checkpoint now ok s) = hs_dedup s"
  by (simp_all add: flush_checkpoint_def)

lemma store_kept_trans: "store_kept a b \<Longrightarrow> store_kept b c \<Longrightarrow> store_kept a c"
  by (auto simp: store_kept_def)

lemma run_stream_dedup:
  assumes "hs_dedup s = Some st"
  shows "case run_stream sha256 ins s of
      Continue s' \<Rightarrow> sm_queued (hs_metrics s') = sm_queued (hs_metrics s) \<and> store_kept s s'
    | Waiting \<Rightarrow> True
    | Raised e s' \<Rightarrow> e = Integrity_error \<and> sm_queued (hs_metrics s') = sm_queued (hs_metrics s) + 1 \<and> store_kept s s'"
  using assms
proof (induction ins arbitrary: s st)
  case Nil
  then show ?case by (simp add: store_kept_def)
next
  case (Cons x ins)
  show ?case
  proof (cases x)
    case Consumed
    show ?thesis
    proof (cases "get_nowait (hs_queue s)")
      case None
      then show ?thesis using Cons.IH [OF Cons.prems] Consumed by simp
    next
      case (Some tq)
      then have k: "store_kept s (s\<lparr>hs_queue := snd tq\<rparr>)" using Cons.prems by (simp add: store_kept_def)
      show ?thesis
        using Some Consumed Cons.IH [of "s\<lparr>hs_queue := snd tq\<rparr>" st] Cons.prems store_kept_trans [OF k]
        by (auto split: stream_outcome.splits prod.splits)
    qed
  next
    case (Arrives i)
    note one = process_record_dedup [OF Cons.prems, of sha256 i]
    show ?thesis
    proof (cases "process_record sha256 i s")
      case (Continue s1)
      with one have q: "sm_queued (hs_metrics s1) = sm_queued (hs_metrics s)" and k: "store_kept s s1" by auto
      then obtain st1 where "hs_dedup s1 = Some st1" by (auto simp: store_kept_def)
      from Cons.IH [OF this] show ?thesis
        using Arrives Continue q store_kept_trans [OF k] by (auto split: stream_outcome.splits)
    qed (use one Arrives in \<open>auto simp: flush_frame store_kept_def\<close>)
  qed
qed

section \<open>Properties\<close>

text \<open>
  The bounded queue keeps its contract in every history of offers and deliveries: it never
  holds more than its capacity, what it delivered and still holds is a subsequence of what
  was offered (so the order is kept), every offered trade is delivered, held or counted as
  dropped, and the blocking strategy loses none.
\<close>

lemma bounded_queue_contract:
  assumes "bq_history os ds q"
  shows "depth q \<le> bq_maxsize q \<and> subseq (ds @ bq_items q) os \<and>
    length os = length ds + depth q + bq_dropped q \<and> (bq_strategy q = Block \<longrightarrow> ds @ bq_items q = os)"
proof -
  note inv = bq_history_inv [OF assms]
  have "ds @ bq_items q = os" if "bq_strategy q = Block"
    using inv that subseq_same_length [of "ds @ bq_items q" os] by (simp add: depth_def)
  with inv show ?thesis by (simp add: queue_wf_def)
qed

lemma bounded_queue_contract_witness:
  "\<exists>q. bq_history [1::nat, 2, 3] [] q \<and> subseq (bq_items q) [1, 2, 3] \<and> bq_dropped q = 1"
proof -
  let ?q = "\<lambda>xs d h. \<lparr>bq_items = xs, bq_maxsize = 2, bq_strategy = Drop_oldest, bq_dropped = d, bq_high_water_hits = h\<rparr>"
  have "put (1::nat) (?q [] 0 0) = Some (True, ?q [1] 0 0)" "put (2::nat) (?q [1] 0 0) = Some (True, ?q [1, 2] 0 1)"
    "put (3::nat) (?q [1, 2] 0 1) = Some (True, ?q [2, 3] 1 2)"
    by (simp_all add: put_def record_high_water_def depth_def)
  note steps = this [THEN bq_history.offered [rotated]]
  have "bq_history ([] :: nat list) [] (?q [] 0 0)" by (rule bq_history.opened [of 2 Drop_oldest]) (simp add: new_queue_def)
  from steps(3) [OF steps(2) [OF steps(1) [OF this]]] have h: "bq_history [1::nat, 2, 3] [] (?q [2, 3] 1 2)" by simp
  from bounded_queue_contract [OF h] h show ?thesis by (intro exI [of _ "?q [2, 3] 1 2"]) simp
qed


definition sample_stream :: "key_store option \<Rightarrow> streamer" where
  "sample_stream dedup =
     \<lparr>hs_queue = \<lparr>bq_items = [], bq_maxsize = 10, bq_strategy = Drop_oldest, bq_dropped = 0, bq_high_water_hits = 0\<rparr>,
      hs_cursor = ''1-0'', hs_high_water_ratio = 1, hs_throttle_level = 0, hs_metrics = no_metrics,
      hs_checkpoint = Checkpoint ''1-0'' None, hs_policy = \<lparr>fp_max_events = 2, fp_max_seconds = 10\<rparr>,
      hs_since_flush = 0, hs_last_flush = 0, hs_last_ledger = None, hs_dedup = dedup\<rparr>"

definition sample_record :: "string \<Rightarrow> raw_record" where
  "sample_record c = \<lparr>rr_paging_token = R_str c, rr_id = R_none, rr_ledger = R_none, rr_ledger_sequence = R_none\<rparr>"


text \<open>
  With the dedup store on, which is the default, the streamer stops at the first new
  trade. The check returns no key for a new trade, so marking it breaks a \<open>NOT NULL\<close>
  constraint: in every run no trade is accepted before that exception, the run ends with it
  after queueing one trade, and the key is not recorded; and a fresh trade that finds room in
  the queue raises it.
\<close>

lemma dedup_stream_stops_at_first_trade:
  assumes "hs_dedup s = Some st"
  shows "(case run_stream sha256 ins s of
      Continue s' \<Rightarrow> sm_queued (hs_metrics s') = sm_queued (hs_metrics s)
    | Waiting \<Rightarrow> True
    | Raised e s' \<Rightarrow> e = Integrity_error \<and> sm_queued (hs_metrics s') = sm_queued (hs_metrics s) + 1 \<and> store_kept s s') \<and>
    (\<forall>i t. in_trade i = Some t \<and> horizon_key sha256 t \<notin> stored_keys st \<and>
       \<not> replay_expired (in_now i) (Some (tr_close_time t)) (ks_replay_window st) \<and> depth (hs_queue s) < bq_maxsize (hs_queue s) \<longrightarrow>
       (\<exists>s'. process_record sha256 i s = Raised Integrity_error s'))"
proof (intro conjI allI impI)
  show "case run_stream sha256 ins s of
      Continue s' \<Rightarrow> sm_queued (hs_metrics s') = sm_queued (hs_metrics s)
    | Waiting \<Rightarrow> True
    | Raised e s' \<Rightarrow> e = Integrity_error \<and> sm_queued (hs_metrics s') = sm_queued (hs_metrics s) + 1 \<and> store_kept s s'"
    using run_stream_dedup [OF assms, of sha256 ins] by (auto split: stream_outcome.splits)
next
  fix i :: incoming and t assume a: "in_trade i = Some t \<and> horizon_key sha256 t \<notin> stored_keys st \<and>
    \<not> replay_expired (in_now i) (Some (tr_close_time t)) (ks_replay_window st) \<and> depth (hs_queue s) < bq_maxsize (hs_queue s)"
  then have "check_trade_dedup sha256 (in_now i) (hs_dedup s) t = ((False, None), Some (st\<lparr>ks_seen := ks_seen st + 1\<rparr>))"
    using assms by (simp add: check_trade_dedup_def is_duplicate_def Let_def stored_keys_def)
  moreover have "\<exists>q. put t (hs_queue s) = Some (True, q)" using a by (cases "bq_strategy (hs_queue s)") (simp_all add: put_def)
  ultimately show "\<exists>s'. process_record sha256 i s = Raised Integrity_error s'"
    using a by (auto simp: process_record_def Let_def count_received_def enqueue_def throttle_frame record_processed_frame
        mark_accepted_def mark_seen_def)
qed

lemma dedup_stream_stops_at_first_trade_witness:
  "\<exists>s'. process_record id
     \<lparr>in_record = sample_record ''2-0'',
      in_trade = Some \<lparr>tr_id = ''2-0'', tr_paging_token = None, tr_transaction_hash = None, tr_close_time = Epoch 0\<rparr>,
      in_now = 0, in_clock = 0, in_io_ok = True\<rparr>
     (sample_stream (Some (open_key_store [] [] 3600))) = Raised Integrity_error s'"
proof -
  let ?s = "sample_stream (Some (open_key_store [] [] 3600))"
  have "hs_dedup ?s = Some (open_key_store [] [] 3600)" by (simp add: sample_stream_def)
  from dedup_stream_stops_at_first_trade [OF this, of id] show ?thesis
    by (simp add: stored_keys_def open_key_store_def replay_expired_def sample_stream_def depth_def)
qed

end
