(* ===== verification/Replay_Buffer.thy ===== *)
theory Replay_Buffer
  imports Prelude Py_Text "HOL-Library.Char_ord" "HOL-Library.List_Lexorder" "HOL-Library.Product_Lexorder"
begin

text \<open>
  The order book replay buffer, \<open>packages/core/ingestion/replay_buffer.py\<close>. The binary heap of
  \<open>heapq\<close> is the sorted list of its entries: the source only pushes, reads the least entry and
  pops it. The dictionaries of events and arrival times keep their keys; a lookup of a missing
  key is the error value. Readings of the monotonic clock are arguments.
\<close>

section \<open>Model\<close>

type_synonym order_key = "nat \<times> int \<times> string"

definition order_key :: "string \<Rightarrow> order_key" where
  "order_key token = (case py_int token of Some i \<Rightarrow> (0, i, []) | None \<Rightarrow> (1, 0, token))"

record ob_event =
  ob_id :: string

record 'p replay_buffer =
  rb_max_size :: int
  rb_gap_timeout :: seconds
  rb_heap :: "(order_key \<times> string) list"
  rb_events :: "(string, 'p ob_event_scheme) dict"
  rb_ingested :: "(string, seconds) dict"
  rb_last_key :: "order_key option"

definition new_buffer :: "int \<Rightarrow> seconds \<Rightarrow> 'p replay_buffer" where
  "new_buffer max_size gap_timeout =
     \<lparr>rb_max_size = max_size, rb_gap_timeout = gap_timeout, rb_heap = [], rb_events = [], rb_ingested = [], rb_last_key = None\<rparr>"

definition expire_all :: "seconds \<Rightarrow> 'p replay_buffer \<Rightarrow> 'p replay_buffer" where
  "expire_all now b =
     (let past = now - rb_gap_timeout b - 1
      in b\<lparr>rb_ingested := map (\<lambda>(token, _). (token, past)) (rb_ingested b)\<rparr>)"

definition ingest :: "seconds \<Rightarrow> seconds \<Rightarrow> 'p ob_event_scheme \<Rightarrow> 'p replay_buffer \<Rightarrow> 'p replay_buffer" where
  "ingest now now' event b =
     (let token = ob_id event in
      if token \<in> set (dict_keys (rb_events b)) then b
      else let b1 = b\<lparr>rb_heap := insort (order_key token, token) (rb_heap b),
                      rb_events := dict_set token event (rb_events b),
                      rb_ingested := dict_set token now (rb_ingested b)\<rparr>
           in if rb_max_size b1 \<le> int (length (rb_events b1)) then expire_all now' b1 else b1)"

datatype buffer_error = Key_error

text \<open>Is the least entry held back: not timed out, numeric, and beyond the next expected value?\<close>

definition held_back :: "seconds \<Rightarrow> order_key \<Rightarrow> seconds \<Rightarrow> 'p replay_buffer \<Rightarrow> bool" where
  "held_back now key ingested_at b \<longleftrightarrow>
     \<not> rb_gap_timeout b \<le> now - ingested_at \<and>
     (case rb_last_key b of
        None \<Rightarrow> False
      | Some last_key \<Rightarrow> fst key = 0 \<and> fst (snd last_key) + 1 < fst (snd key))"

function drain_buffer :: "seconds \<Rightarrow> 'p replay_buffer \<Rightarrow> buffer_error + ('p ob_event_scheme list \<times> 'p replay_buffer)" where
  "drain_buffer now b =
     (case rb_heap b of
        [] \<Rightarrow> Inr ([], b)
      | (key, token) # heap \<Rightarrow>
          (case dict_get (rb_events b) token of
             None \<Rightarrow> drain_buffer now (b\<lparr>rb_heap := heap\<rparr>)
           | Some event \<Rightarrow>
               (case dict_get (rb_ingested b) token of
                  None \<Rightarrow> Inl Key_error
                | Some ingested_at \<Rightarrow>
                    if held_back now key ingested_at b then Inr ([], b)
                    else case drain_buffer now (b\<lparr>rb_heap := heap, rb_ingested := dict_del token (rb_ingested b),
                                 rb_events := dict_del token (rb_events b), rb_last_key := Some key\<rparr>) of
                           Inl e \<Rightarrow> Inl e
                         | Inr (ready, b') \<Rightarrow> Inr (event # ready, b'))))"
  by pat_completeness auto
termination by (relation "measure (\<lambda>(now, b). length (rb_heap b))") auto

declare drain_buffer.simps [simp del]

function flush_loop :: "'p replay_buffer \<Rightarrow> 'p ob_event_scheme list \<times> 'p replay_buffer" where
  "flush_loop b =
     (case rb_heap b of
        [] \<Rightarrow> ([], b)
      | (key, token) # heap \<Rightarrow>
          (case dict_get (rb_events b) token of
             None \<Rightarrow> flush_loop (b\<lparr>rb_heap := heap\<rparr>)
           | Some event \<Rightarrow>
               (case flush_loop (b\<lparr>rb_heap := heap, rb_ingested := dict_del token (rb_ingested b),
                                   rb_events := dict_del token (rb_events b), rb_last_key := Some key\<rparr>) of
                  (result, b') \<Rightarrow> (event # result, b'))))"
  by pat_completeness auto
termination by (relation "measure (\<lambda>b. length (rb_heap b))") auto

declare flush_loop.simps [simp del]

definition flush_all :: "'p replay_buffer \<Rightarrow> 'p ob_event_scheme list \<times> 'p replay_buffer" where
  "flush_all b = (case flush_loop b of (result, b') \<Rightarrow> (result, b'\<lparr>rb_ingested := []\<rparr>))"

definition buffer_size :: "'p replay_buffer \<Rightarrow> nat" where
  "buffer_size b = length (rb_events b)"

section \<open>Invariant\<close>

definition entry :: "string \<Rightarrow> order_key \<times> string" where
  "entry token = (order_key token, token)"

definition buffer_wf :: "'p replay_buffer \<Rightarrow> bool" where
  "buffer_wf b \<longleftrightarrow>
     sorted (rb_heap b) \<and> distinct (rb_heap b) \<and> set (rb_heap b) = entry ` set (dict_keys (rb_events b)) \<and>
     dict_wf (rb_events b) \<and> set (dict_keys (rb_ingested b)) = set (dict_keys (rb_events b)) \<and>
     (\<forall>(t, e)\<in>set (rb_events b). ob_id e = t)"

inductive buffer_history :: "'p replay_buffer \<Rightarrow> bool" where
  created: "buffer_history (new_buffer max_size gap_timeout)"
| ingested: "buffer_history b \<Longrightarrow> buffer_history (ingest now now' event b)"
| drained: "buffer_history b \<Longrightarrow> drain_buffer now b = Inr (ready, b') \<Longrightarrow> buffer_history b'"
| flushed: "buffer_history b \<Longrightarrow> buffer_history (snd (flush_all b))"

lemma inj_entry: "inj entry"
  by (auto simp: inj_def entry_def)

lemma entry_eq [simp]: "entry t = entry t' \<longleftrightarrow> t = t'"
  by (auto simp: entry_def)

lemma new_buffer_wf [wf_intros]: "buffer_wf (new_buffer max_size gap_timeout)"
  by (simp add: buffer_wf_def new_buffer_def)

lemma expire_all_wf [wf_intros]: "buffer_wf b \<Longrightarrow> buffer_wf (expire_all now b)"
  by (auto simp: buffer_wf_def expire_all_def Let_def split_beta image_comp o_def)

lemma set_keys_dict_set: "set (dict_keys (dict_set k v d)) = insert k (set (dict_keys d))"
  by (simp add: dict_keys_set insert_absorb)

lemma set_dict_set: "dict_wf d \<Longrightarrow> k \<notin> set (dict_keys d) \<Longrightarrow> dict_set k v d = d @ [(k, v)]"
  by (induction d) (auto simp: dict_wf_def)

lemma keys_dict_del: "set (dict_keys (dict_del k d)) = set (dict_keys d) - {k}"
  by (auto simp: dict_del_def)

lemma ingest_wf [wf_intros]:
  assumes "buffer_wf b"
  shows "buffer_wf (ingest now now' event b)"
proof (cases "ob_id event \<in> set (dict_keys (rb_events b))")
  case True
  then show ?thesis using assms by (simp add: ingest_def)
next
  case False
  let ?t = "ob_id event"
  let ?b = "b\<lparr>rb_heap := insort (order_key ?t, ?t) (rb_heap b), rb_events := dict_set ?t event (rb_events b),
              rb_ingested := dict_set ?t now (rb_ingested b)\<rparr>"
  have ev: "rb_events ?b = rb_events b @ [(?t, event)]"
    using assms False by (simp add: buffer_wf_def set_dict_set)
  have "entry ?t \<notin> set (rb_heap b)" using assms False by (auto simp: buffer_wf_def simp del: set_map)
  then have "sorted (rb_heap ?b)" "distinct (rb_heap ?b)" "set (rb_heap ?b) = entry ` set (dict_keys (rb_events ?b))"
    using assms unfolding ev by (simp_all add: buffer_wf_def sorted_insort distinct_insort set_insort_key entry_def)
  moreover have "dict_wf (rb_events ?b)" using assms by (simp add: buffer_wf_def dict_wf_set)
  moreover have "set (dict_keys (rb_ingested ?b)) = set (dict_keys (rb_events ?b))"
    using assms by (simp add: buffer_wf_def set_keys_dict_set del: set_map)
  moreover have "\<forall>(t, e)\<in>set (rb_events ?b). ob_id e = t" using assms unfolding ev by (auto simp: buffer_wf_def)
  ultimately have "buffer_wf ?b" by (simp add: buffer_wf_def)
  then have "buffer_wf ?b" "buffer_wf (expire_all now' ?b)" by (auto intro: expire_all_wf)
  then show ?thesis using False by (simp add: ingest_def Let_def)
qed

text \<open>The buffer after its least event is emitted.\<close>

definition popped :: "'p replay_buffer \<Rightarrow> 'p replay_buffer" where
  "popped b = b\<lparr>rb_heap := tl (rb_heap b), rb_ingested := dict_del (snd (hd (rb_heap b))) (rb_ingested b),
     rb_events := dict_del (snd (hd (rb_heap b))) (rb_events b), rb_last_key := Some (fst (hd (rb_heap b)))\<rparr>"

lemma least_event:
  assumes "buffer_wf b" "rb_heap b = (k, t) # heap"
  shows "\<exists>e arr. k = order_key t \<and> dict_get (rb_events b) t = Some e \<and> ob_id e = t \<and> dict_get (rb_ingested b) t = Some arr"
proof -
  have "(k, t) \<in> entry ` set (dict_keys (rb_events b))" using assms by (metis buffer_wf_def list.set_intros(1))
  then have k: "k = order_key t" "t \<in> set (dict_keys (rb_events b))" by (auto simp: entry_def)
  obtain e where e: "dict_get (rb_events b) t = Some e" using k(2) by (metis map_of_eq_None_iff not_None_eq set_map)
  have "t \<in> set (dict_keys (rb_ingested b))" using assms(1) k(2) by (simp add: buffer_wf_def)
  then obtain arr where arr: "dict_get (rb_ingested b) t = Some arr" by (metis map_of_eq_None_iff not_None_eq set_map)
  have "ob_id e = t" using assms(1) map_of_SomeD [OF e] by (auto simp: buffer_wf_def)
  then show ?thesis using k(1) e arr by blast
qed

lemma popped_wf [wf_intros]:
  assumes "buffer_wf b" "rb_heap b = (k, t) # heap"
  shows "buffer_wf (popped b)"
proof -
  have kt: "(k, t) = entry t" using least_event [OF assms] by (auto simp: entry_def)
  have "set heap = set (rb_heap b) - {entry t}" using assms kt by (auto simp: buffer_wf_def)
  also have "\<dots> = entry ` (set (dict_keys (rb_events b)) - {t})"
    using assms(1) by (auto simp: buffer_wf_def)
  finally have "set heap = entry ` set (dict_keys (dict_del t (rb_events b)))" by (simp only: keys_dict_del)
  moreover have "set (dict_keys (dict_del t (rb_ingested b))) = set (dict_keys (dict_del t (rb_events b)))"
    using assms(1) by (simp only: keys_dict_del buffer_wf_def)
  moreover have "dict_wf (dict_del t (rb_events b))" using assms(1) by (simp add: buffer_wf_def dict_wf_del)
  moreover have "\<forall>(t, e)\<in>set (dict_del t (rb_events b)). ob_id e = t"
    using assms(1) by (auto simp: buffer_wf_def dict_del_def)
  moreover have "sorted heap" "distinct heap" using assms by (simp_all add: buffer_wf_def)
  ultimately show ?thesis using assms(2) by (simp add: buffer_wf_def popped_def)
qed

lemma drain_unfold:
  assumes "buffer_wf b" "rb_heap b = (k, t) # heap" "dict_get (rb_events b) t = Some e" "dict_get (rb_ingested b) t = Some arr"
  shows "drain_buffer now b =
     (if held_back now k arr b then Inr ([], b)
      else case drain_buffer now (popped b) of Inl x \<Rightarrow> Inl x | Inr (ready, b') \<Rightarrow> Inr (e # ready, b'))"
  using assms(2-) by (subst drain_buffer.simps) (simp add: popped_def)

lemma dict_values_del:
  "dict_wf d \<Longrightarrow> dict_get d t = Some v \<Longrightarrow> mset (map snd d) = add_mset v (mset (map snd (dict_del t d)))"
proof (induction d)
  case (Cons p d)
  show ?case
  proof (cases "fst p = t")
    case True
    then have "dict_del t d = d" using Cons.prems(1) by (auto simp: dict_wf_def dict_del_def filter_id_conv image_iff)
    then show ?thesis using True Cons.prems(2) by (cases p) (simp add: dict_del_def)
  next
    case False
    then show ?thesis using Cons by (cases p) (simp add: dict_wf_def dict_del_def)
  qed
qed simp

definition held :: "seconds \<Rightarrow> 'p replay_buffer \<Rightarrow> bool" where
  "held now b \<longleftrightarrow> (\<exists>k t heap arr. rb_heap b = (k, t) # heap \<and> dict_get (rb_ingested b) t = Some arr \<and> held_back now k arr b)"

lemma drain_spec:
  assumes "buffer_wf b"
  shows "\<exists>out b' n. drain_buffer now b = Inr (out, b') \<and> buffer_wf b' \<and> n \<le> length (rb_heap b) \<and>
    map (\<lambda>e. entry (ob_id e)) out = take n (rb_heap b) \<and> rb_heap b' = drop n (rb_heap b) \<and>
    mset (map snd (rb_events b)) = mset out + mset (map snd (rb_events b')) \<and> (rb_heap b' = [] \<or> held now b')"
  using assms
proof (induction "length (rb_heap b)" arbitrary: b)
  case 0
  then show ?case by (subst drain_buffer.simps) (auto intro!: exI [of _ 0])
next
  case (Suc m)
  then obtain k t heap where h: "rb_heap b = (k, t) # heap" by (cases "rb_heap b") auto
  from least_event [OF Suc.prems h] obtain e arr where e: "k = order_key t" "dict_get (rb_events b) t = Some e" "ob_id e = t"
      "dict_get (rb_ingested b) t = Some arr" by blast
  note unf = drain_unfold [OF Suc.prems h e(2,4), of now]
  show ?case
  proof (cases "held_back now k arr b")
    case True
    then have "held now b" unfolding held_def using h e(4) by blast
    then show ?thesis using unf True Suc.prems by (intro exI [of _ "[]"] exI [of _ b] exI [of _ "0 :: nat"]) simp
  next
    case False
    have "m = length (rb_heap (popped b))" using Suc.hyps(2) h by (simp add: popped_def)
    from Suc.hyps(1) [OF this popped_wf [OF Suc.prems h]]
    obtain out b' n where r: "drain_buffer now (popped b) = Inr (out, b')" "buffer_wf b'" "n \<le> length heap"
        "map (\<lambda>e. entry (ob_id e)) out = take n heap" "rb_heap b' = drop n heap"
        "mset (map snd (dict_del t (rb_events b))) = mset out + mset (map snd (rb_events b'))" "rb_heap b' = [] \<or> held now b'"
      by (auto simp: popped_def h)
    have "mset (map snd (rb_events b)) = mset (e # out) + mset (map snd (rb_events b'))"
      using dict_values_del [OF _ e(2)] Suc.prems r(6) by (simp add: buffer_wf_def)
    then show ?thesis using unf False r h e(1,3)
      by (intro exI [of _ "e # out"] exI [of _ b'] exI [of _ "Suc n"]) (simp add: entry_def)
  qed
qed

lemma flush_unfold:
  assumes "buffer_wf b" "rb_heap b = (k, t) # heap" "dict_get (rb_events b) t = Some e"
  shows "flush_loop b = (case flush_loop (popped b) of (result, b') \<Rightarrow> (e # result, b'))"
  using assms(2-) by (subst flush_loop.simps) (simp add: popped_def)

lemma flush_spec:
  assumes "buffer_wf b" "flush_loop b = (out, b')"
  shows "buffer_wf b' \<and> rb_heap b' = [] \<and> map (\<lambda>e. entry (ob_id e)) out = rb_heap b \<and> mset out = mset (map snd (rb_events b))"
  using assms
proof (induction "length (rb_heap b)" arbitrary: b out b')
  case 0
  moreover have "flush_loop b = ([], b)" using 0 by (subst flush_loop.simps) simp
  ultimately show ?case by (simp add: buffer_wf_def)
next
  case (Suc m)
  then obtain k t heap where h: "rb_heap b = (k, t) # heap" by (cases "rb_heap b") auto
  from least_event [OF Suc.prems(1) h] obtain e where e: "k = order_key t" "dict_get (rb_events b) t = Some e" "ob_id e = t"
    by blast
  obtain rest b1 where r: "flush_loop (popped b) = (rest, b1)" by fastforce
  then have res: "out = e # rest" "b' = b1" using flush_unfold [OF Suc.prems(1) h e(2)] Suc.prems(2) by simp_all
  have "m = length (rb_heap (popped b))" using Suc.hyps(2) h by (simp add: popped_def)
  from Suc.hyps(1) [OF this popped_wf [OF Suc.prems(1) h] r]
  have "buffer_wf b1" "rb_heap b1 = []" "map (\<lambda>e. entry (ob_id e)) rest = heap"
      "mset rest = mset (map snd (dict_del t (rb_events b)))"
    by (simp_all add: popped_def h)
  then show ?case using res h e dict_values_del [OF _ e(2)] Suc.prems(1) by (simp add: entry_def buffer_wf_def)
qed

lemma buffer_history_wf: "buffer_history b \<Longrightarrow> buffer_wf b"
proof (induction rule: buffer_history.induct)
  case (drained b now ready b')
  then show ?case using drain_spec [of b now] by auto
next
  case (flushed b)
  obtain out b' where f: "flush_loop b = (out, b')" by fastforce
  from flush_spec [OF flushed.IH f] have "buffer_wf b'" "rb_heap b' = []" by auto
  then show ?case using f by (auto simp: flush_all_def buffer_wf_def)
qed (auto intro: wf_intros)

definition event_entry :: "'p ob_event_scheme \<Rightarrow> order_key \<times> string" where
  "event_entry e = entry (ob_id e)"

lemma stored_entries: "buffer_wf b \<Longrightarrow> set (rb_heap b) = event_entry ` snd ` set (rb_events b)"
proof -
  assume wf: "buffer_wf b"
  have "event_entry ` snd ` set (rb_events b) = entry ` fst ` set (rb_events b)"
    unfolding image_image using wf by (intro image_cong) (auto simp: buffer_wf_def event_entry_def)
  then show ?thesis using wf by (simp add: buffer_wf_def)
qed

lemma heap_empty_iff: "buffer_wf b \<Longrightarrow> rb_heap b = [] \<longleftrightarrow> rb_events b = []"
  using stored_entries [of b] by auto

lemma expired_not_held:
  assumes "\<forall>(t, arr)\<in>set (rb_ingested b). rb_gap_timeout b \<le> now - arr"
  shows "\<not> held now b"
  using assms by (auto simp: held_def held_back_def dest!: map_of_SomeD)

lemma ingested_dict_del: "set (dict_del t d) \<subseteq> set d"
  by (auto simp: dict_del_def)

lemma drain_frame:
  assumes "drain_buffer now b = Inr (out, b')"
  shows "rb_gap_timeout b' = rb_gap_timeout b \<and> set (rb_ingested b') \<subseteq> set (rb_ingested b)"
  using assms
proof (induction "length (rb_heap b)" arbitrary: b out)
  case 0
  then show ?case by (subst (asm) drain_buffer.simps) simp
next
  case (Suc m)
  then obtain k t heap where h: "rb_heap b = (k, t) # heap" by (cases "rb_heap b") auto
  let ?skip = "b\<lparr>rb_heap := heap\<rparr>"
  let ?pop = "b\<lparr>rb_heap := heap, rb_ingested := dict_del t (rb_ingested b), rb_events := dict_del t (rb_events b), rb_last_key := Some k\<rparr>"
  consider "drain_buffer now ?skip = Inr (out, b')" | "b' = b" | r where "drain_buffer now ?pop = Inr (r, b')"
    using Suc.prems h by (subst (asm) drain_buffer.simps) (auto split: option.splits if_splits sum.splits)
  then show ?case
  proof cases
    case 1
    then show ?thesis using Suc.hyps(1) [of ?skip out] Suc.hyps(2) h by simp
  next
    case 3
    then have "rb_gap_timeout b' = rb_gap_timeout ?pop \<and> set (rb_ingested b') \<subseteq> set (rb_ingested ?pop)"
      using Suc.hyps(2) h by (intro Suc.hyps(1)) simp_all
    then show ?thesis using ingested_dict_del [of t "rb_ingested b"] by auto
  qed simp
qed

section \<open>Properties\<close>

text \<open>
  From every reachable buffer a drain succeeds and releases events in strictly increasing
  key order (numeric tokens by value, before all others); every buffered event is either
  released or kept, each released one orders before each kept one, and it stops only when
  nothing is left or the least event is held back by a gap that has not timed out.
\<close>

lemma drain_releases_in_order:
  assumes "buffer_history b"
  shows "\<exists>out b'. drain_buffer now b = Inr (out, b') \<and> sorted_wrt (<) (map event_entry out) \<and>
    mset (map snd (rb_events b)) = mset out + mset (map snd (rb_events b')) \<and>
    (\<forall>e\<in>set out. \<forall>e'\<in>snd ` set (rb_events b'). event_entry e < event_entry e') \<and> (rb_events b' = [] \<or> held now b')"
proof -
  have wf: "buffer_wf b" by (rule buffer_history_wf [OF assms])
  from drain_spec [OF this, of now] obtain out b' n where d: "drain_buffer now b = Inr (out, b')" "buffer_wf b'"
      "map event_entry out = take n (rb_heap b)" "rb_heap b' = drop n (rb_heap b)"
      "mset (map snd (rb_events b)) = mset out + mset (map snd (rb_events b'))" "rb_heap b' = [] \<or> held now b'"
    unfolding event_entry_def by blast
  have "sorted_wrt (<) (rb_heap b)" using wf strict_sorted_iff by (auto simp: buffer_wf_def)
  then have "sorted_wrt (<) (take n (rb_heap b) @ drop n (rb_heap b))" by simp
  then have s: "sorted_wrt (<) (map event_entry out)"
      "\<forall>x\<in>set (map event_entry out). \<forall>y\<in>set (rb_heap b'). x < y"
    unfolding sorted_wrt_append d(3,4) by blast+
  from s(2) have "\<forall>e\<in>set out. \<forall>e'\<in>snd ` set (rb_events b'). event_entry e < event_entry e'"
    unfolding stored_entries [OF d(2)] by simp
  with s(1) d(1,5,6) heap_empty_iff [OF d(2)] show ?thesis by blast
qed

definition ob :: "string \<Rightarrow> ob_event" where
  "ob t = \<lparr>ob_id = t\<rparr>"

lemma drain_releases_in_order_witness:
  "\<exists>out b'. drain_buffer 3 (ingest 1 1 (ob ''9'') (ingest 0 0 (ob ''10'') (new_buffer 100 30))) = Inr (out, b') \<and>
     sorted_wrt (<) (map event_entry out)"
proof -
  have "buffer_history (ingest 1 1 (ob ''9'') (ingest 0 0 (ob ''10'') (new_buffer 100 30)))"
    by (intro buffer_history.intros)
  from drain_releases_in_order [OF this, of 3] show ?thesis by blast
qed

text \<open>
  Reaching the size limit releases the buffer. When a new event brings the buffer to its
  maximum size, the next drain returns every buffered event, whatever gaps there are, and
  leaves the buffer empty.
\<close>

lemma full_buffer_is_released:
  assumes "buffer_history b" "ob_id e \<notin> set (dict_keys (rb_events b))" "rb_max_size b \<le> int (buffer_size b) + 1" "t' \<le> now"
  shows "\<exists>out b'. drain_buffer now (ingest t t' e b) = Inr (out, b') \<and> buffer_size b' = 0 \<and>
    mset out = add_mset e (mset (map snd (rb_events b)))"
proof -
  let ?t = "ob_id e"
  let ?b = "b\<lparr>rb_heap := insort (order_key ?t, ?t) (rb_heap b), rb_events := dict_set ?t e (rb_events b),
              rb_ingested := dict_set ?t t (rb_ingested b)\<rparr>"
  let ?i = "ingest t t' e b"
  have wf: "buffer_wf b" by (rule buffer_history_wf [OF assms(1)])
  have ev: "dict_set ?t e (rb_events b) = rb_events b @ [(?t, e)]"
    using wf assms(2) by (simp add: buffer_wf_def set_dict_set)
  then have i: "?i = expire_all t' ?b" using assms(2,3) by (simp add: ingest_def Let_def buffer_size_def)
  from drain_spec [OF ingest_wf [OF wf], of now t t' e] obtain out b' where d: "drain_buffer now ?i = Inr (out, b')" "buffer_wf b'"
      "mset (map snd (rb_events ?i)) = mset out + mset (map snd (rb_events b'))" "rb_heap b' = [] \<or> held now b'" by blast
  have "\<forall>(x, arr)\<in>set (rb_ingested ?i). rb_gap_timeout ?i \<le> now - arr"
    using assms(4) unfolding i by (auto simp: expire_all_def Let_def)
  then have "\<forall>(x, arr)\<in>set (rb_ingested b'). rb_gap_timeout b' \<le> now - arr" using drain_frame [OF d(1)] by auto
  then have "rb_events b' = []" using expired_not_held d(4) heap_empty_iff [OF d(2)] by blast
  moreover have "mset (map snd (rb_events ?i)) = add_mset e (mset (map snd (rb_events b)))"
    unfolding i by (simp add: expire_all_def Let_def ev)
  ultimately show ?thesis using d(1,3) by (auto simp: buffer_size_def)
qed

text \<open>
  The gap timeout of an event counts only once the event is the least one. In a reachable
  buffer with a gap timeout of 30 seconds, an event buffered for 31 seconds is not released,
  because a smaller event that arrived later is still held back by its own gap.
\<close>

definition after_five :: "unit replay_buffer" where
  "after_five = (new_buffer 100 30)\<lparr>rb_last_key := Some (0, 5, [])\<rparr>"

definition two_gaps :: "unit replay_buffer" where
  "two_gaps = ingest 25 25 (ob ''8'') (ingest 0 0 (ob ''10'') after_five)"

lemma sample_keys: "order_key ''5'' = (0, 5, [])" "order_key ''8'' = (0, 8, [])" "order_key ''10'' = (0, 10, [])"
  by code_simp+

lemma two_gaps_history: "buffer_history two_gaps"
proof -
  let ?b = "ingest 0 0 (ob ''5'') (new_buffer 100 30)"
  have b: "?b = (new_buffer 100 30)\<lparr>rb_heap := [((0, 5, []), ''5'')], rb_events := [(''5'', ob ''5'')], rb_ingested := [(''5'', 0)]\<rparr>"
    by (simp add: ingest_def Let_def new_buffer_def ob_def sample_keys)
  have "drain_buffer 0 ?b = Inr ([ob ''5''], after_five)"
    unfolding b after_five_def
    by (subst drain_buffer.simps, subst drain_buffer.simps) (simp add: new_buffer_def held_back_def dict_del_def)
  then have "buffer_history after_five"
    by (rule buffer_history.drained [rotated]) (intro buffer_history.intros)
  then show ?thesis unfolding two_gaps_def by (intro buffer_history.ingested)
qed

lemma expired_event_waits_behind_gap:
  "buffer_history two_gaps \<and> drain_buffer 31 two_gaps = Inr ([], two_gaps) \<and>
   (\<exists>t arr. dict_get (rb_ingested two_gaps) t = Some arr \<and> rb_gap_timeout two_gaps \<le> 31 - arr)"
proof -
  have heap: "rb_heap two_gaps = [((0, 8, []), ''8''), ((0, 10, []), ''10'')]"
      "rb_ingested two_gaps = [(''10'', 0), (''8'', 25)]" "rb_events two_gaps = [(''10'', ob ''10''), (''8'', ob ''8'')]"
      "rb_last_key two_gaps = Some (0, 5, [])" "rb_gap_timeout two_gaps = 30"
    by (simp_all add: two_gaps_def after_five_def ingest_def Let_def new_buffer_def ob_def sample_keys)
  then have "drain_buffer 31 two_gaps = Inr ([], two_gaps)"
    by (subst drain_buffer.simps) (simp add: held_back_def)
  with heap two_gaps_history show ?thesis by (auto intro!: exI [of _ "''10''"])
qed

end
