(* ===== verification/Governance.thy ===== *)
theory Governance
  imports Prelude Py_Text
begin

text \<open>
  The governance engine, \<open>packages/core/detection/governance.py\<close>: proposals, votes, tally, closing
  and execution, the settings reloader with its \<open>.env\<close> rewriting, and the legacy functions.
  The three tables, the runtime configuration, the live settings and the text of \<open>.env\<close> are one
  record. A payload maps keys to the text \<open>str\<close> gives its values; errors are values, and the
  \<open>execution_error\<close> column holds the error rather than its message. A method that commits once
  is one step; \<open>close_proposal\<close> reads, tallies and writes on separate connections and is also
  given as those parts.
\<close>

section \<open>State\<close>

datatype decision = For | Against | Abstain

datatype proposal_status = Active | Passed | Rejected | Executed | Failed

datatype gov_error =
  Invalid_proposal_type | Not_modifiable string | Not_committee_member string | Proposal_not_found |
  Proposal_not_active | Voting_expired | Already_voted | Invalid_decision | Not_executable |
  Cannot_parse string | Missing_member string | Unknown_action string | Invalid_id

type_synonym payload = "(string, string) dict"

record proposal =
  pr_id :: int
  pr_type :: string
  pr_payload :: payload
  pr_proposer :: string
  pr_status :: proposal_status
  pr_submitted_at :: instant
  pr_voting_ends_at :: instant
  pr_executed_at :: "instant option"
  pr_error :: "gov_error option"

record vote =
  vt_proposal :: int
  vt_voter :: string
  vt_decision :: decision
  vt_cast_at :: instant

datatype setting = Int_setting int | Float_setting string

record governance =
  gv_committee :: "(string, instant \<times> bool) dict"
  gv_proposals :: "proposal list"
  gv_votes :: "vote list"
  gv_runtime_config :: "(string, string \<times> instant) dict"
  gv_settings :: "(string, setting) dict"
  gv_env :: "string option"

section \<open>Settings\<close>

definition allowed_settings :: "string list" where
  "allowed_settings =
     [''RISK_SCORE_THRESHOLD'', ''SOROBAN_CIRCUIT_BREAKER_THRESHOLD'', ''FEEDBACK_DECAY_LAMBDA'', ''CROSS_CHAIN_MIN_CONFIDENCE'']"

text \<open>
  \<open>float(s)\<close> succeeds on an optional sign, digits with single underscores and an optional
  fraction and exponent, or on the names of infinity and not-a-number.
\<close>

fun digit_run :: "bool \<Rightarrow> string \<Rightarrow> (string \<times> bool) option" where
  "digit_run p [] = Some ([], p)"
| "digit_run p (c # cs) =
     (if is_digit c then digit_run True cs
      else if c = CHR ''_'' then
        (if p \<and> cs \<noteq> [] \<and> is_digit (hd cs) then digit_run False cs else None)
      else Some (c # cs, p))"

definition drop_sign :: "string \<Rightarrow> string" where
  "drop_sign s = (case s of [] \<Rightarrow> [] | c # cs \<Rightarrow> if c = CHR ''-'' \<or> c = CHR ''+'' then cs else s)"

definition exponent_ok :: "string \<Rightarrow> bool" where
  "exponent_ok s =
     (case s of
        [] \<Rightarrow> True
      | c # cs \<Rightarrow> lower_char c = CHR ''e'' \<and> digit_run False (drop_sign cs) = Some ([], True))"

definition py_float_ok :: "string \<Rightarrow> bool" where
  "py_float_ok text =
     (let s = drop_sign (py_strip text) in
      if py_lower s \<in> {''inf'', ''infinity'', ''nan''} then True
      else case digit_run False s of
             None \<Rightarrow> False
           | Some (rest, whole) \<Rightarrow>
               (case rest of
                  [] \<Rightarrow> whole
                | c # cs \<Rightarrow>
                    if c = CHR ''.'' then
                      (case digit_run False cs of None \<Rightarrow> False | Some (e, fraction) \<Rightarrow> (whole \<or> fraction) \<and> exponent_ok e)
                    else whole \<and> exponent_ok rest))"

definition parse_setting :: "string \<Rightarrow> string \<Rightarrow> setting option" where
  "parse_setting key new_value =
     (if key = ''RISK_SCORE_THRESHOLD'' \<or> key = ''SOROBAN_CIRCUIT_BREAKER_THRESHOLD''
      then map_option Int_setting (py_int new_value)
      else if py_float_ok new_value then Some (Float_setting new_value) else None)"

definition live_attribute :: "string \<Rightarrow> string" where
  "live_attribute key =
     (if key = ''RISK_SCORE_THRESHOLD'' then ''_default_risk_score_threshold''
      else if key = ''SOROBAN_CIRCUIT_BREAKER_THRESHOLD'' then ''soroban_circuit_breaker_threshold''
      else if key = ''FEEDBACK_DECAY_LAMBDA'' then ''feedback_decay_lambda''
      else if key = ''CROSS_CHAIN_MIN_CONFIDENCE'' then ''cross_chain_min_confidence''
      else py_lower key)"

text \<open>\<open>readlines\<close>: each line with its newline, the last one possibly without.\<close>

fun readlines :: "string \<Rightarrow> string list" where
  "readlines [] = []"
| "readlines (c # cs) =
     (if c = CHR 0x0A then [c] # readlines cs
      else case readlines cs of [] \<Rightarrow> [[c]] | l # ls \<Rightarrow> (c # l) # ls)"

definition starts_with :: "string \<Rightarrow> string \<Rightarrow> bool" where
  "starts_with s prefix \<longleftrightarrow> take (length prefix) s = prefix"

definition sets_key :: "string \<Rightarrow> string \<Rightarrow> bool" where
  "sets_key key line \<longleftrightarrow> starts_with line (key @ ''='') \<or> starts_with line (''#'' @ key @ ''='')"

definition assignment :: "string \<Rightarrow> string \<Rightarrow> string" where
  "assignment key new_value = key @ ''='' @ new_value @ [CHR 0x0A]"

fun update_lines :: "string \<Rightarrow> string \<Rightarrow> string list \<Rightarrow> string list" where
  "update_lines key new_value [] = [assignment key new_value]"
| "update_lines key new_value (line # lines) =
     (if sets_key key line then assignment key new_value # lines else line # update_lines key new_value lines)"

definition apply_setting :: "string \<Rightarrow> string \<Rightarrow> governance \<Rightarrow> gov_error + governance" where
  "apply_setting key new_value g =
     (if key \<notin> set allowed_settings then Inl (Not_modifiable key)
      else case parse_setting key new_value of
             None \<Rightarrow> Inl (Cannot_parse new_value)
           | Some parsed \<Rightarrow>
               let env_lines = (case gv_env g of None \<Rightarrow> [] | Some text \<Rightarrow> readlines text)
               in Inr (g\<lparr>gv_settings := dict_set (live_attribute key) parsed (gv_settings g),
                         gv_env := Some (concat (update_lines key new_value env_lines))\<rparr>))"

section \<open>Proposals and votes\<close>

definition committee_size :: "governance \<Rightarrow> nat" where
  "committee_size g = row_count (\<lambda>(m, t, active). active) (gv_committee g)"

definition is_committee_member :: "string \<Rightarrow> governance \<Rightarrow> bool" where
  "is_committee_member member g = (case dict_get (gv_committee g) member of Some (t, active) \<Rightarrow> active | None \<Rightarrow> False)"

definition next_proposal_id :: "governance \<Rightarrow> int" where
  "next_proposal_id g = 1 + foldr max (map pr_id (gv_proposals g)) 0"

definition voting_period_hours :: int where "voting_period_hours = 72"

definition submit_proposal ::
  "int \<Rightarrow> instant \<Rightarrow> string \<Rightarrow> string \<Rightarrow> payload \<Rightarrow> governance \<Rightarrow> gov_error + proposal \<times> governance" where
  "submit_proposal hours now proposer proposal_type payload g =
     (if proposal_type \<notin> {''config_change'', ''committee_update''} then Inl Invalid_proposal_type
      else if proposal_type = ''config_change'' \<and>
              (case dict_get payload ''key'' of None \<Rightarrow> [] | Some k \<Rightarrow> k) \<notin> set allowed_settings
      then Inl (Not_modifiable (case dict_get payload ''key'' of None \<Rightarrow> [] | Some k \<Rightarrow> k))
      else if \<not> is_committee_member proposer g then Inl (Not_committee_member proposer)
      else let p = \<lparr>pr_id = next_proposal_id g, pr_type = proposal_type, pr_payload = payload, pr_proposer = proposer,
                    pr_status = Active, pr_submitted_at = now,
                    pr_voting_ends_at = now + hours * 3600 * microseconds_per_second,
                    pr_executed_at = None, pr_error = None\<rparr>
           in Inr (p, g\<lparr>gv_proposals := gv_proposals g @ [p]\<rparr>))"

definition find_proposal :: "int \<Rightarrow> governance \<Rightarrow> proposal option" where
  "find_proposal pid g = find (\<lambda>p. pr_id p = pid) (gv_proposals g)"

definition decision_of :: "string \<Rightarrow> decision option" where
  "decision_of s =
     (if s = ''for'' then Some For else if s = ''against'' then Some Against
      else if s = ''abstain'' then Some Abstain else None)"

definition has_voted :: "int \<Rightarrow> string \<Rightarrow> governance \<Rightarrow> bool" where
  "has_voted pid voter g \<longleftrightarrow> (\<exists>v\<in>set (gv_votes g). vt_proposal v = pid \<and> vt_voter v = voter)"

definition gov_cast_vote :: "instant \<Rightarrow> int \<Rightarrow> string \<Rightarrow> string \<Rightarrow> governance \<Rightarrow> gov_error + vote \<times> governance" where
  "gov_cast_vote now pid voter choice g =
     (case decision_of choice of
        None \<Rightarrow> Inl Invalid_decision
      | Some d \<Rightarrow>
          if \<not> is_committee_member voter g then Inl (Not_committee_member voter)
          else (case find_proposal pid g of
                  None \<Rightarrow> Inl Proposal_not_found
                | Some p \<Rightarrow>
                    if pr_status p \<noteq> Active then Inl Proposal_not_active
                    else if pr_voting_ends_at p < now then Inl Voting_expired
                    else if has_voted pid voter g then Inl Already_voted
                    else let v = \<lparr>vt_proposal = pid, vt_voter = voter, vt_decision = d, vt_cast_at = now\<rparr>
                         in Inr (v, g\<lparr>gv_votes := gv_votes g @ [v]\<rparr>)))"

record tally =
  tl_for :: nat
  tl_against :: nat
  tl_abstain :: nat
  tl_committee_size :: nat
  tl_quorum_required :: int
  tl_quorum_met :: bool
  tl_outcome :: proposal_status

definition vote_count :: "int \<Rightarrow> decision \<Rightarrow> governance \<Rightarrow> nat" where
  "vote_count pid d g = row_count (\<lambda>v. vt_proposal v = pid \<and> vt_decision v = d) (gv_votes g)"

definition tally_proposal :: "int \<Rightarrow> governance \<Rightarrow> gov_error + tally" where
  "tally_proposal pid g =
     (case find_proposal pid g of
        None \<Rightarrow> Inl Proposal_not_found
      | Some _ \<Rightarrow>
          let size = committee_size g;
              quorum_required = \<lfloor>real size * (1 / 2)\<rfloor> + 1;
              quorum_met = quorum_required \<le> int (vote_count pid For g)
          in Inr \<lparr>tl_for = vote_count pid For g, tl_against = vote_count pid Against g,
                  tl_abstain = vote_count pid Abstain g, tl_committee_size = size,
                  tl_quorum_required = quorum_required, tl_quorum_met = quorum_met,
                  tl_outcome = (if quorum_met then Passed else Rejected)\<rparr>)"

section \<open>Closing\<close>

text \<open>The read on the first connection: already closed proposals are returned as they are.\<close>

definition close_read :: "int \<Rightarrow> governance \<Rightarrow> gov_error + proposal \<times> bool" where
  "close_read pid g =
     (case find_proposal pid g of
        None \<Rightarrow> Inl Proposal_not_found
      | Some p \<Rightarrow> Inr (p, pr_status p \<noteq> Active))"

definition set_proposal :: "int \<Rightarrow> (proposal \<Rightarrow> proposal) \<Rightarrow> governance \<Rightarrow> governance" where
  "set_proposal pid f g = g\<lparr>gv_proposals := update_where (\<lambda>p. pr_id p = pid) f (gv_proposals g)\<rparr>"

definition close_write :: "int \<Rightarrow> proposal_status \<Rightarrow> governance \<Rightarrow> governance" where
  "close_write pid outcome g = set_proposal pid (\<lambda>p. p\<lparr>pr_status := outcome\<rparr>) g"

definition close_proposal :: "int \<Rightarrow> governance \<Rightarrow> gov_error + proposal option \<times> governance" where
  "close_proposal pid g =
     (case close_read pid g of
        Inl e \<Rightarrow> Inl e
      | Inr (p, already) \<Rightarrow>
          if already then Inr (Some p, g)
          else (case tally_proposal pid g of
                  Inl e \<Rightarrow> Inl e
                | Inr t \<Rightarrow> let g' = close_write pid (tl_outcome t) g in Inr (find_proposal pid g', g')))"

fun close_each :: "int list \<Rightarrow> governance \<Rightarrow> proposal list \<times> governance" where
  "close_each [] g = ([], g)"
| "close_each (pid # pids) g =
     (case close_proposal pid g of
        Inl _ \<Rightarrow> close_each pids g
      | Inr (p, g') \<Rightarrow>
          (case close_each pids g' of (ps, g'') \<Rightarrow> (case p of None \<Rightarrow> ps | Some p' \<Rightarrow> p' # ps, g'')))"

definition close_expired :: "instant \<Rightarrow> governance \<Rightarrow> proposal list \<times> governance" where
  "close_expired now g =
     close_each (map pr_id (filter (\<lambda>p. pr_status p = Active \<and> pr_voting_ends_at p < now) (gv_proposals g))) g"

section \<open>Execution\<close>

definition activate_member :: "instant \<Rightarrow> string \<Rightarrow> governance \<Rightarrow> governance" where
  "activate_member now member g =
     (let c1 = (if member \<in> set (dict_keys (gv_committee g)) then gv_committee g
                else dict_set member (now, True) (gv_committee g))
      in g\<lparr>gv_committee := update_where (\<lambda>(m, t, a). m = member) (\<lambda>(m, t, a). (m, t, True)) c1\<rparr>)"

definition deactivate_member :: "string \<Rightarrow> governance \<Rightarrow> governance" where
  "deactivate_member member g =
     g\<lparr>gv_committee := update_where (\<lambda>(m, t, a). m = member) (\<lambda>(m, t, a). (m, t, False)) (gv_committee g)\<rparr>"

definition require_member :: "string \<Rightarrow> payload \<Rightarrow> gov_error + string" where
  "require_member k payload = (case dict_get payload k of None \<Rightarrow> Inl (Missing_member k) | Some v \<Rightarrow> Inr v)"

definition carry_out :: "instant \<Rightarrow> string \<Rightarrow> payload \<Rightarrow> governance \<Rightarrow> gov_error + governance" where
  "carry_out now proposal_type payload g =
     (if proposal_type = ''config_change'' then
        (case require_member ''key'' payload of
           Inl e \<Rightarrow> Inl e
         | Inr key \<Rightarrow>
             (case require_member ''new_value'' payload of
                Inl e \<Rightarrow> Inl e
              | Inr new_value \<Rightarrow>
                  (case apply_setting key new_value g of
                     Inl e \<Rightarrow> Inl e
                   | Inr g' \<Rightarrow> Inr (g'\<lparr>gv_runtime_config := dict_set (py_lower key) (new_value, now) (gv_runtime_config g')\<rparr>))))
      else if proposal_type = ''committee_update'' then
        (case require_member ''action'' payload of
           Inl e \<Rightarrow> Inl e
         | Inr action \<Rightarrow>
             (case require_member ''member'' payload of
                Inl e \<Rightarrow> Inl e
              | Inr member \<Rightarrow>
                  if action = ''add'' then Inr (activate_member now member g)
                  else if action = ''remove'' then Inr (deactivate_member member g)
                  else Inl (Unknown_action action)))
      else Inl Invalid_proposal_type)"

definition execute_proposal :: "instant \<Rightarrow> int \<Rightarrow> governance \<Rightarrow> gov_error + proposal option \<times> governance" where
  "execute_proposal now pid g =
     (case find_proposal pid g of
        None \<Rightarrow> Inl Proposal_not_found
      | Some p \<Rightarrow>
          if pr_status p \<noteq> Passed then Inl Not_executable
          else let g' = (case carry_out now (pr_type p) (pr_payload p) g of
                           Inr g1 \<Rightarrow> set_proposal pid (\<lambda>p. p\<lparr>pr_status := Executed, pr_executed_at := Some now\<rparr>) g1
                         | Inl e \<Rightarrow> set_proposal pid (\<lambda>p. p\<lparr>pr_status := Failed, pr_executed_at := Some now, pr_error := Some e\<rparr>) g)
               in Inr (find_proposal pid g', g'))"

section \<open>Legacy functions\<close>

definition enrol_member :: "instant \<Rightarrow> string \<Rightarrow> governance \<Rightarrow> governance" where
  "enrol_member now member g =
     (if member \<in> set (dict_keys (gv_committee g)) then g
      else g\<lparr>gv_committee := dict_set member (now, True) (gv_committee g)\<rparr>)"

record legacy_view =
  lv_id :: string
  lv_type :: string
  lv_value :: string
  lv_proposer :: string
  lv_votes_for :: "string list"
  lv_votes_against :: "string list"
  lv_status :: "proposal_status"
  lv_created_at :: instant
  lv_expires_at :: instant

definition proposed_value :: "payload \<Rightarrow> string" where
  "proposed_value payload =
     (case dict_get payload ''new_value'' of
        Some v \<Rightarrow> v | None \<Rightarrow> (case dict_get payload ''member'' of Some m \<Rightarrow> m | None \<Rightarrow> []))"

definition voters :: "int \<Rightarrow> decision \<Rightarrow> governance \<Rightarrow> string list" where
  "voters pid d g = map vt_voter (filter (\<lambda>v. vt_proposal v = pid \<and> vt_decision v = d) (gv_votes g))"

definition legacy_of :: "governance \<Rightarrow> bool \<Rightarrow> proposal \<Rightarrow> legacy_view" where
  "legacy_of g with_votes p =
     \<lparr>lv_id = show_int (pr_id p), lv_type = pr_type p, lv_value = proposed_value (pr_payload p), lv_proposer = pr_proposer p,
      lv_votes_for = (if with_votes then voters (pr_id p) For g else []),
      lv_votes_against = (if with_votes then voters (pr_id p) Against g else []),
      lv_status = pr_status p, lv_created_at = pr_submitted_at p, lv_expires_at = pr_voting_ends_at p\<rparr>"

text \<open>The legacy name of the \<open>active\<close> status is \<open>open\<close>; it is rendered by the caller.\<close>

definition create_proposal ::
  "instant \<Rightarrow> string \<Rightarrow> string \<Rightarrow> string \<Rightarrow> int \<Rightarrow> governance \<Rightarrow> governance \<times> (gov_error + legacy_view)" where
  "create_proposal now proposal_type value key_hash days_valid g =
     (let request = (if proposal_type = ''change_threshold''
                     then Some (''config_change'', [(''key'', ''RISK_SCORE_THRESHOLD''), (''new_value'', value)])
                     else if proposal_type = ''add_committee_member''
                     then Some (''committee_update'', [(''action'', ''add''), (''member'', value)])
                     else if proposal_type = ''remove_committee_member''
                     then Some (''committee_update'', [(''action'', ''remove''), (''member'', value)])
                     else None)
      in case request of
           None \<Rightarrow> (g, Inl Invalid_proposal_type)
         | Some (pt, payload) \<Rightarrow>
             let g1 = enrol_member now key_hash g
             in case submit_proposal (days_valid * 24) now key_hash pt payload g1 of
                  Inl e \<Rightarrow> (g1, Inl e)
                | Inr (p, g2) \<Rightarrow> (g2, Inr ((legacy_of g2 False p)\<lparr>lv_type := proposal_type, lv_value := value\<rparr>)))"

definition list_open_proposals :: "governance \<Rightarrow> legacy_view list" where
  "list_open_proposals g = map (legacy_of g False) (filter (\<lambda>p. pr_status p = Active) (gv_proposals g))"

definition cast_proposal_vote ::
  "instant \<Rightarrow> string \<Rightarrow> string \<Rightarrow> string \<Rightarrow> governance \<Rightarrow> governance \<times> (gov_error + legacy_view option)" where
  "cast_proposal_vote now proposal_id key_hash choice g =
     (if choice \<notin> {''for'', ''against''} then (g, Inl Invalid_decision)
      else case py_int proposal_id of
             None \<Rightarrow> (g, Inl Invalid_id)
           | Some pid \<Rightarrow>
               let g1 = enrol_member now key_hash g
               in case gov_cast_vote now pid key_hash choice g1 of
                    Inl e \<Rightarrow> (g1, Inl e)
                  | Inr (v, g2) \<Rightarrow> (g2, Inr (map_option (legacy_of g2 True) (find_proposal pid g2))))"

section \<open>Accepted values hold no assignment\<close>

lemma unspaced_kept: "c \<in> set s \<Longrightarrow> \<not> py_space c \<Longrightarrow> c \<in> set (py_strip s)"
proof -
  have d: "c \<in> set t \<Longrightarrow> \<not> py_space c \<Longrightarrow> c \<in> set (dropWhile py_space t)" for t
    by (induction t) auto
  assume "c \<in> set s" "\<not> py_space c"
  then show ?thesis using d [of s] d [of "rev (dropWhile py_space s)"] by (simp add: py_strip_def)
qed

lemma equals_kept: "CHR ''='' \<in> set s \<Longrightarrow> CHR ''='' \<in> set (py_strip s)"
  by (erule unspaced_kept) (simp add: py_space_def of_char_def)

lemma equals_not_digit [simp]: "\<not> is_digit CHR ''=''"
  by (simp add: is_digit_def of_char_def)

lemma read_int_no_equals: "read_int p n s = Some m \<Longrightarrow> CHR ''='' \<notin> set s"
  by (induction s arbitrary: p n) (auto simp: is_digit_def of_char_def split: if_splits)

lemma py_int_no_equals: "py_int s = Some i \<Longrightarrow> CHR ''='' \<notin> set s"
  using equals_kept [of s] read_int_no_equals
  by (auto simp: py_int_def split: list.splits if_splits)

lemma digit_run_no_equals:
  "digit_run p s = Some (rest, w) \<Longrightarrow> CHR ''='' \<in> set s \<Longrightarrow> CHR ''='' \<in> set rest"
  by (induction s arbitrary: p) (auto simp: is_digit_def of_char_def split: if_splits)

lemma drop_sign_equals: "CHR ''='' \<in> set s \<Longrightarrow> CHR ''='' \<in> set (drop_sign s)"
  by (cases s) (auto simp: drop_sign_def)

lemma lower_equals: "CHR ''='' \<in> set s \<Longrightarrow> CHR ''='' \<in> set (py_lower s)"
proof -
  have "lower_char CHR ''='' = CHR ''=''" by code_simp
  then show "CHR ''='' \<in> set s \<Longrightarrow> CHR ''='' \<in> set (py_lower s)" by (force simp: py_lower_def)
qed

lemma exponent_no_equals: "exponent_ok s \<Longrightarrow> CHR ''='' \<notin> set s"
proof -
  have "lower_char CHR ''='' = CHR ''=''" by code_simp
  then show "exponent_ok s \<Longrightarrow> CHR ''='' \<notin> set s"
    using digit_run_no_equals [of False "drop_sign (tl s)" "[]" True] drop_sign_equals [of "tl s"]
    by (cases s) (auto simp: exponent_ok_def)
qed

lemma py_float_no_equals:
  assumes "py_float_ok s"
  shows "CHR ''='' \<notin> set s"
proof
  assume "CHR ''='' \<in> set s"
  then have eq: "CHR ''='' \<in> set (drop_sign (py_strip s))" by (intro drop_sign_equals equals_kept)
  let ?t = "drop_sign (py_strip s)"
  show False
  proof (cases "py_lower ?t \<in> {''inf'', ''infinity'', ''nan''}")
    case True
    then show False using lower_equals [OF eq] by auto
  next
    case False
    then obtain rest whole where d: "digit_run False ?t = Some (rest, whole)"
      using assms by (auto simp: py_float_ok_def Let_def split: option.splits)
    note in_rest = digit_run_no_equals [OF d eq]
    then obtain c cs where rest: "rest = c # cs" by (cases rest) auto
    show False
    proof (cases "c = CHR ''.''")
      case True
      then obtain e fraction where e: "digit_run False cs = Some (e, fraction)" "exponent_ok e"
        using assms False d rest by (auto simp: py_float_ok_def Let_def split: option.splits)
      then show False using digit_run_no_equals [OF e(1)] exponent_no_equals in_rest rest True by auto
    next
      case c: False
      then have "exponent_ok rest" using assms False d rest by (simp add: py_float_ok_def Let_def)
      then show False using exponent_no_equals in_rest by blast
    qed
  qed
qed

lemma parse_no_equals: "parse_setting key v = Some x \<Longrightarrow> CHR ''='' \<notin> set v"
  using py_int_no_equals py_float_no_equals by (auto simp: parse_setting_def split: if_splits)

section \<open>Lines\<close>

definition complete :: "string \<Rightarrow> bool" where
  "complete l \<longleftrightarrow> (\<exists>u. l = u @ [CHR 0x0A] \<and> CHR 0x0A \<notin> set u)"

lemma readlines_complete: "CHR 0x0A \<notin> set u \<Longrightarrow> readlines (u @ CHR 0x0A # t) = (u @ [CHR 0x0A]) # readlines t"
  by (induction u) auto

lemma readlines_concat: "list_all complete ls \<Longrightarrow> readlines (concat ls @ t) = ls @ readlines t"
proof (induction ls)
  case (Cons l ls)
  then obtain u where "l = u @ [CHR 0x0A]" "CHR 0x0A \<notin> set u" by (auto simp: complete_def)
  then show ?case using Cons by (simp add: readlines_complete)
qed simp

lemma concat_readlines: "concat (readlines t) = t"
  by (induction t) (auto split: list.splits)

lemma readlines_all_complete: "t = [] \<or> last t = CHR 0x0A \<Longrightarrow> list_all complete (readlines t)"
proof (induction t)
  case (Cons c t)
  show ?case
  proof (cases "c = CHR 0x0A")
    case True
    then show ?thesis using Cons by (cases t) (auto simp: complete_def)
  next
    case False
    with Cons.prems have "t \<noteq> []" "last t = CHR 0x0A" by (auto split: if_splits)
    with Cons.IH have c: "list_all complete (readlines t)" by simp
    obtain l ls where r: "readlines t = l # ls" using \<open>t \<noteq> []\<close> concat_readlines [of t] by (cases "readlines t") auto
    with c obtain u where u: "l = u @ [CHR 0x0A]" "CHR 0x0A \<notin> set u" by (auto simp: complete_def)
    then have "complete (c # l)" using False unfolding complete_def by (intro exI [of _ "c # u"]) simp
    then show ?thesis using False r c by simp
  qed
qed simp

lemma update_lines_split:
  "\<exists>pre old post. ls = pre @ old @ post \<and> update_lines key v ls = pre @ assignment key v # post \<and>
     (\<forall>l\<in>set old. sets_key key l)"
proof (induction ls)
  case Nil
  then show ?case by simp
next
  case (Cons l ls)
  show ?case
  proof (cases "sets_key key l")
    case True
    then show ?thesis by (intro exI [of _ "[]"] exI [of _ "[l]"] exI [of _ ls]) simp
  next
    case False
    from Cons.IH obtain pre old post where "ls = pre @ old @ post" "update_lines key v ls = pre @ assignment key v # post"
        "\<forall>l\<in>set old. sets_key key l" by blast
    then show ?thesis using False by (intro exI [of _ "l # pre"] exI [of _ old] exI [of _ post]) simp
  qed
qed

text \<open>A line that assigns to the setting \<open>k\<close>.\<close>

definition assigns :: "string \<Rightarrow> string \<Rightarrow> bool" where
  "assigns k line \<longleftrightarrow> starts_with line (k @ ''='')"

lemma assigns_iff: "assigns k line \<longleftrightarrow> (\<exists>rest. line = k @ CHR ''='' # rest)"
  by (auto simp: assigns_def starts_with_def) (metis append.assoc append_Cons append_Nil append_take_drop_id)

lemma same_key:
  assumes "k @ CHR ''='' # a = k' @ CHR ''='' # b" "CHR ''='' \<notin> set k" "CHR ''='' \<notin> set k'"
  shows "k = k'"
  using assms
proof (induction k arbitrary: k')
  case Nil
  then show ?case by (cases k') auto
next
  case (Cons c k)
  then show ?case by (cases k') auto
qed

lemma sets_key_iff: "sets_key key line \<longleftrightarrow> assigns key line \<or> assigns (CHR ''#'' # key) line"
  by (simp add: sets_key_def assigns_def)

lemma readlines_chars: "l \<in> set (readlines t) \<Longrightarrow> set l \<subseteq> set t"
  using concat_readlines [of t] by (metis UN_upper set_concat)

lemma readlines_assignment:
  assumes "CHR ''='' \<notin> set v" "CHR 0x0A \<notin> set key"
  shows "\<exists>first rest. readlines (assignment key v) = (key @ CHR ''='' # first) # rest \<and> (\<forall>l\<in>set rest. CHR ''='' \<notin> set l)"
proof -
  obtain first rest where v: "readlines (v @ [CHR 0x0A]) = first # rest"
    by (cases "readlines (v @ [CHR 0x0A])") (use concat_readlines [of "v @ [CHR 0x0A]"] in auto)
  have "readlines (u @ v @ [CHR 0x0A]) = (u @ first) # rest" if "CHR 0x0A \<notin> set u" for u
    using that by (induction u) (auto simp: v)
  from this [of "key @ ''=''"] have "readlines (assignment key v) = (key @ CHR ''='' # first) # rest"
    using assms(2) by (simp add: assignment_def)
  moreover have "\<forall>l\<in>set rest. CHR ''='' \<notin> set l"
  proof
    fix l assume "l \<in> set rest"
    then have "set l \<subseteq> set (v @ [CHR 0x0A])" by (intro readlines_chars) (simp add: v)
    then show "CHR ''='' \<notin> set l" using assms(1) by auto
  qed
  ultimately show ?thesis by blast
qed

lemma other_lines_kept:
  assumes "list_all complete ls" "CHR ''='' \<notin> set v" "CHR ''='' \<notin> set key" "CHR 0x0A \<notin> set key"
    and "CHR ''='' \<notin> set k" "k \<noteq> key" "k \<noteq> CHR ''#'' # key"
  shows "filter (assigns k) (readlines (concat (update_lines key v ls))) = filter (assigns k) ls"
proof -
  obtain pre old post where sp: "ls = pre @ old @ post" "update_lines key v ls = pre @ assignment key v # post"
      "\<forall>l\<in>set old. sets_key key l" using update_lines_split [of ls key v] by blast
  obtain first rest where a: "readlines (assignment key v) = (key @ CHR ''='' # first) # rest" "\<forall>l\<in>set rest. CHR ''='' \<notin> set l"
    using readlines_assignment [OF assms(2,4)] by blast
  have "\<not> assigns k l" if "sets_key key l" for l
    using that assms(3,5-7) same_key [of k _ key] same_key [of k _ "CHR ''#'' # key"] by (auto simp: sets_key_iff assigns_iff)
  then have old: "filter (assigns k) old = []" using sp(3) by (auto simp: filter_empty_conv)
  have "\<not> assigns k (key @ CHR ''='' # first)" using same_key [of key first k] assms(3,5,6) by (auto simp: assigns_iff)
  moreover have "filter (assigns k) rest = []" using a(2) by (auto simp: filter_empty_conv assigns_iff)
  ultimately have new: "filter (assigns k) (readlines (assignment key v)) = []" by (simp add: a(1))
  have "list_all complete pre" "list_all complete post" using assms(1) sp(1) by auto
  moreover have "assignment key v = (key @ ''='' @ v) @ [CHR 0x0A]" by (simp add: assignment_def)
  then have "list_all complete (readlines (assignment key v))" by (intro readlines_all_complete) simp
  ultimately have "readlines (concat (update_lines key v ls)) = pre @ readlines (assignment key v) @ post"
    using readlines_concat [of "pre @ readlines (assignment key v) @ post" "[]"] by (simp add: sp(2) concat_readlines)
  then show ?thesis using new old by (simp add: sp(1))
qed

section \<open>Histories\<close>

text \<open>
  The steps that change the tables. Closing every expired proposal and the legacy functions
  are sequences of them.
\<close>

inductive gov_step :: "governance \<Rightarrow> governance \<Rightarrow> bool" where
  submits: "submit_proposal hours now proposer pt payload g = Inr (p, g') \<Longrightarrow> gov_step g g'"
| votes: "gov_cast_vote now pid voter choice g = Inr (v, g') \<Longrightarrow> gov_step g g'"
| closes: "close_proposal pid g = Inr (p, g') \<Longrightarrow> gov_step g g'"
| executes: "execute_proposal now pid g = Inr (p, g') \<Longrightarrow> gov_step g g'"
| enrols: "gov_step g (enrol_member now member g)"

inductive gov_history :: "governance \<Rightarrow> bool" where
  start: "gv_proposals g = [] \<Longrightarrow> gv_votes g = [] \<Longrightarrow> gov_history g"
| step: "gov_history g \<Longrightarrow> gov_step g g' \<Longrightarrow> gov_history g'"

definition gov_wf :: "governance \<Rightarrow> bool" where
  "gov_wf g \<longleftrightarrow> distinct (map pr_id (gv_proposals g)) \<and> distinct (map (\<lambda>v. (vt_proposal v, vt_voter v)) (gv_votes g)) \<and>
     (\<forall>v\<in>set (gv_votes g). vt_proposal v \<in> pr_id ` set (gv_proposals g))"

text \<open>The life cycle of a proposal, and the columns that never change.\<close>

definition moves_to :: "proposal_status \<Rightarrow> proposal_status \<Rightarrow> bool" where
  "moves_to a b \<longleftrightarrow> a = b \<or> a = Active \<and> b \<in> {Passed, Rejected} \<or> a = Passed \<and> b \<in> {Executed, Failed}"

definition same_terms :: "proposal \<Rightarrow> proposal \<Rightarrow> bool" where
  "same_terms p p' \<longleftrightarrow> pr_id p' = pr_id p \<and> pr_type p' = pr_type p \<and> pr_payload p' = pr_payload p \<and>
     pr_proposer p' = pr_proposer p \<and> pr_submitted_at p' = pr_submitted_at p \<and> pr_voting_ends_at p' = pr_voting_ends_at p"

definition advances :: "proposal list \<Rightarrow> proposal list \<Rightarrow> bool" where
  "advances ps ps' \<longleftrightarrow> (\<forall>p\<in>set ps. \<exists>p'\<in>set ps'. same_terms p p' \<and> moves_to (pr_status p) (pr_status p'))"

lemma advances_refl [simp]: "advances ps (ps @ new)"
  by (auto simp: advances_def same_terms_def moves_to_def)

lemma advances_same [simp]: "advances ps ps"
  using advances_refl [of ps "[]"] by simp

lemma find_proposal_Some: "find_proposal pid g = Some p \<Longrightarrow> p \<in> set (gv_proposals g) \<and> pr_id p = pid"
  by (auto simp: find_proposal_def find_Some_iff)

lemma find_proposal_wf: "gov_wf g \<Longrightarrow> p \<in> set (gv_proposals g) \<Longrightarrow> find_proposal (pr_id p) g = Some p"
proof -
  assume wf: "gov_wf g" and p: "p \<in> set (gv_proposals g)"
  then obtain q where q: "find_proposal (pr_id p) g = Some q"
    by (cases "find_proposal (pr_id p) g") (auto simp: find_proposal_def find_None_iff)
  have "inj_on pr_id (set (gv_proposals g))" using wf by (simp add: gov_wf_def distinct_map)
  then show ?thesis using find_proposal_Some [OF q] p q by (auto dest: inj_onD)
qed

lemma find_set_proposal:
  assumes "find_proposal pid g = Some x" "\<And>p. pr_id (f p) = pr_id p"
  shows "find_proposal pid (set_proposal pid f g) = Some (f x)"
proof -
  have "find (\<lambda>p. pr_id p = pid) ps = Some x \<Longrightarrow>
      find (\<lambda>p. pr_id p = pid) (update_where (\<lambda>p. pr_id p = pid) f ps) = Some (f x)" for ps
    using assms(2) by (induction ps) (auto simp: update_where_Cons split: if_splits)
  then show ?thesis using assms(1) by (simp add: find_proposal_def set_proposal_def)
qed

lemma advances_update:
  assumes "gov_wf g" "find_proposal pid g = Some p" "same_terms p (f p)" "moves_to (pr_status p) (pr_status (f p))"
  shows "advances (gv_proposals g) (gv_proposals (set_proposal pid f g))"
  unfolding advances_def
proof
  fix q assume q: "q \<in> set (gv_proposals g)"
  let ?q = "if pr_id q = pid then f q else q"
  have "?q \<in> set (gv_proposals (set_proposal pid f g))" using q by (auto simp: set_proposal_def set_update_where)
  moreover have "same_terms q ?q \<and> moves_to (pr_status q) (pr_status ?q)"
    using find_proposal_wf [OF assms(1) q] assms(2-4) by (auto simp: same_terms_def moves_to_def)
  ultimately show "\<exists>p'\<in>set (gv_proposals (set_proposal pid f g)). same_terms q p' \<and> moves_to (pr_status q) (pr_status p')" by blast
qed

lemma set_proposal_frame [simp]:
  "gv_votes (set_proposal pid f g) = gv_votes g" "gv_committee (set_proposal pid f g) = gv_committee g"
  by (simp_all add: set_proposal_def)

lemma set_proposal_wf [wf_intros]:
  assumes "gov_wf g" "\<And>p. pr_id (f p) = pr_id p"
  shows "gov_wf (set_proposal pid f g)"
proof -
  have ids: "map pr_id (gv_proposals (set_proposal pid f g)) = map pr_id (gv_proposals g)"
    using assms(2) by (simp add: set_proposal_def map_update_where_frame)
  then have "pr_id ` set (gv_proposals (set_proposal pid f g)) = pr_id ` set (gv_proposals g)"
    by (metis set_map)
  then show ?thesis using assms(1) ids by (simp add: gov_wf_def)
qed

lemma apply_setting_frame:
  "apply_setting key v g = Inr g' \<Longrightarrow> gv_proposals g' = gv_proposals g \<and> gv_votes g' = gv_votes g"
  by (auto simp: apply_setting_def Let_def split: if_splits option.splits)

lemma carry_out_frame:
  "carry_out now pt payload g = Inr g' \<Longrightarrow> gv_proposals g' = gv_proposals g \<and> gv_votes g' = gv_votes g"
  using apply_setting_frame
  by (fastforce simp: carry_out_def activate_member_def deactivate_member_def Let_def split: if_splits sum.splits)

lemma wf_transfer: "gv_proposals g' = gv_proposals g \<Longrightarrow> gv_votes g' = gv_votes g \<Longrightarrow> gov_wf g' \<longleftrightarrow> gov_wf g"
  by (simp add: gov_wf_def)

lemma close_effect:
  assumes "close_proposal pid g = Inr (p, g')"
  obtains (already) q where "find_proposal pid g = Some q" "pr_status q \<noteq> Active" "g' = g" "p = Some q"
  | (now) q t where "find_proposal pid g = Some q" "pr_status q = Active" "tally_proposal pid g = Inr t"
      "g' = close_write pid (tl_outcome t) g" "p = find_proposal pid g'"
  using assms
  by (auto simp: close_proposal_def close_read_def Let_def split: sum.splits prod.splits option.splits if_splits)

lemma outcome_closed: "tally_proposal pid g = Inr t \<Longrightarrow> tl_outcome t = (if tl_quorum_met t then Passed else Rejected)"
  by (auto simp: tally_proposal_def Let_def split: option.splits)

lemma execute_effect:
  assumes "execute_proposal now pid g = Inr (p, g')"
  obtains (ok) q g1 where "find_proposal pid g = Some q" "pr_status q = Passed" "carry_out now (pr_type q) (pr_payload q) g = Inr g1"
      "g' = set_proposal pid (\<lambda>p. p\<lparr>pr_status := Executed, pr_executed_at := Some now\<rparr>) g1"
  | (failed) q e where "find_proposal pid g = Some q" "pr_status q = Passed"
      "g' = set_proposal pid (\<lambda>p. p\<lparr>pr_status := Failed, pr_executed_at := Some now, pr_error := Some e\<rparr>) g"
  using assms by (auto simp: execute_proposal_def Let_def split: option.splits if_splits sum.splits)

lemma fresh_proposal_id: "next_proposal_id g \<notin> pr_id ` set (gv_proposals g)"
proof -
  have "p \<in> set ps \<Longrightarrow> pr_id p \<le> foldr max (map pr_id ps) 0" for p ps by (induction ps) auto
  then show ?thesis by (fastforce simp: next_proposal_id_def)
qed

lemma gov_step_inv:
  assumes "gov_step g g'" "gov_wf g"
  shows "gov_wf g' \<and> advances (gv_proposals g) (gv_proposals g')"
  using assms
proof (cases rule: gov_step.cases)
  case (submits hours now proposer pt payload p)
  then have "gv_proposals g' = gv_proposals g @ [p]" "gv_votes g' = gv_votes g" "pr_id p = next_proposal_id g"
    by (auto simp: submit_proposal_def Let_def split: if_splits)
  then show ?thesis using assms(2) fresh_proposal_id [of g] by (auto simp: gov_wf_def)
next
  case (votes now pid voter choice v)
  then have v: "gv_votes g' = gv_votes g @ [v]" "gv_proposals g' = gv_proposals g" "vt_proposal v = pid" "vt_voter v = voter"
      "\<not> has_voted pid voter g" "\<exists>p. find_proposal pid g = Some p"
    by (auto simp: gov_cast_vote_def Let_def split: option.splits if_splits)
  have "pid \<in> pr_id ` set (gv_proposals g)" using v(6) find_proposal_Some by blast
  then show ?thesis using v assms(2) by (auto simp: gov_wf_def has_voted_def)
next
  case (closes pid p)
  from this(1) show ?thesis
  proof (cases rule: close_effect)
    case already
    then show ?thesis using assms(2) by simp
  next
    case (now q t)
    then show ?thesis
      using assms(2) outcome_closed [OF now(3)] unfolding close_write_def
      by (auto intro!: set_proposal_wf advances_update simp: same_terms_def moves_to_def)
  qed
next
  case (executes now pid p)
  from this(1) show ?thesis
  proof (cases rule: execute_effect)
    case (ok q g1)
    note fr = carry_out_frame [OF ok(3)]
    have "gov_wf g1" "find_proposal pid g1 = Some q" using fr assms(2) ok(1) by (simp_all add: wf_transfer [of g1 g] find_proposal_def)
    then show ?thesis using ok(2) fr advances_update [of g1 pid q "\<lambda>p. p\<lparr>pr_status := Executed, pr_executed_at := Some now\<rparr>"]
      unfolding ok(4) by (auto intro!: set_proposal_wf simp: same_terms_def moves_to_def)
  next
    case (failed q e)
    then show ?thesis using assms(2)
      by (auto intro!: set_proposal_wf advances_update simp: same_terms_def moves_to_def)
  qed
next
  case (enrols now member)
  then show ?thesis using assms(2) wf_transfer [of g' g] by (simp add: enrol_member_def split: if_splits)
qed

lemma gov_history_wf: "gov_history g \<Longrightarrow> gov_wf g"
proof (induction rule: gov_history.induct)
  case (start g)
  then show ?case by (simp add: gov_wf_def)
next
  case (step g g')
  then show ?case using gov_step_inv by blast
qed

lemma close_each_steps: "gov_step\<^sup>*\<^sup>* g (snd (close_each pids g))"
proof (induction pids arbitrary: g)
  case (Cons pid pids)
  show ?case
  proof (cases "close_proposal pid g")
    case (Inl e)
    then show ?thesis using Cons.IH by simp
  next
    case (Inr pg)
    obtain p g' where pg: "pg = (p, g')" by (cases pg)
    have "gov_step g g'" using Inr pg by (auto intro: gov_step.closes)
    then show ?thesis using Inr pg Cons.IH [of g'] by (auto split: prod.splits intro: converse_rtranclp_into_rtranclp)
  qed
qed simp

lemma enrol_first: "gov_step\<^sup>*\<^sup>* (enrol_member now m g) g' \<Longrightarrow> gov_step\<^sup>*\<^sup>* g g'"
  by (rule converse_rtranclp_into_rtranclp) (rule gov_step.enrols)

lemma enrol_steps: "gov_step\<^sup>*\<^sup>* g (enrol_member now m g)"
  using enrol_first [of now m g "enrol_member now m g"] by simp

lemma enrol_then: "gov_step (enrol_member now m g) g' \<Longrightarrow> gov_step\<^sup>*\<^sup>* g g'"
  by (rule enrol_first) (rule r_into_rtranclp)

lemma create_proposal_steps:
  assumes "create_proposal now pt value key_hash days g = (g', r)"
  shows "gov_step\<^sup>*\<^sup>* g g'"
proof -
  let ?e = "enrol_member now key_hash g"
  consider "g' = g" | "g' = ?e" | hours pt' payload p where "submit_proposal hours now key_hash pt' payload ?e = Inr (p, g')"
    using assms by (simp add: create_proposal_def Let_def split: option.splits sum.splits prod.splits)
  then show ?thesis
  proof cases
    case 3
    then show ?thesis using enrol_then gov_step.submits by blast
  qed (simp_all add: enrol_steps)
qed

lemma legacy_vote_steps:
  assumes "cast_proposal_vote now pid_text key_hash choice g = (g', r)"
  shows "gov_step\<^sup>*\<^sup>* g g'"
proof -
  let ?e = "enrol_member now key_hash g"
  consider "g' = g" | "g' = ?e" | pid v where "gov_cast_vote now pid key_hash choice ?e = Inr (v, g')"
    using assms by (simp add: cast_proposal_vote_def Let_def split: if_splits option.splits sum.splits prod.splits)
  then show ?thesis
  proof cases
    case 3
    then show ?thesis using enrol_then gov_step.votes by blast
  qed (simp_all add: enrol_steps)
qed

lemma history_steps: "gov_step\<^sup>*\<^sup>* g g' \<Longrightarrow> gov_history g \<Longrightarrow> gov_history g'"
  by (induction rule: rtranclp_induct) (auto intro: gov_history.step)

lemma vote_count_voters: "gov_wf g \<Longrightarrow> vote_count pid d g = card (set (voters pid d g))"
proof -
  assume wf: "gov_wf g"
  have "distinct (map (\<lambda>v. (vt_proposal v, vt_voter v)) (filter (\<lambda>v. vt_proposal v = pid \<and> vt_decision v = d) (gv_votes g)))"
    using wf by (auto simp: gov_wf_def intro: distinct_map_filter)
  then have "distinct (voters pid d g)" by (auto simp: voters_def distinct_map inj_on_def)
  then have "length (voters pid d g) = card (set (voters pid d g))" by (simp add: distinct_card)
  then show ?thesis by (simp add: voters_def vote_count_def row_count_def)
qed

lemma quorum_is_majority: "\<lfloor>real n * (1 / 2)\<rfloor> + 1 \<le> int f \<longleftrightarrow> n < 2 * f"
proof -
  have "\<lfloor>real n * (1 / 2)\<rfloor> + 1 \<le> int f \<longleftrightarrow> \<lfloor>real n * (1 / 2)\<rfloor> < int f" by linarith
  also have "\<dots> \<longleftrightarrow> real n * (1 / 2) < real f" by (simp add: floor_less_iff)
  also have "\<dots> \<longleftrightarrow> n < 2 * f" by linarith
  finally show ?thesis .
qed

section \<open>Properties\<close>

text \<open>
  In every history a member votes at most once on a proposal and only on one that exists,
  ids are unique, and every step (closing all expired proposals and the legacy functions are
  sequences of steps) keeps each proposal's terms and moves its status only along the life
  cycle: active to passed or rejected, passed to executed or failed.
\<close>

lemma governance_life_cycle:
  assumes "gov_history g" "gov_step g g'"
  shows "distinct (map pr_id (gv_proposals g')) \<and> distinct (map (\<lambda>v. (vt_proposal v, vt_voter v)) (gv_votes g')) \<and>
    (\<forall>v\<in>set (gv_votes g'). vt_proposal v \<in> pr_id ` set (gv_proposals g')) \<and>
    (\<forall>p\<in>set (gv_proposals g). \<exists>p'\<in>set (gv_proposals g'). same_terms p p' \<and> moves_to (pr_status p) (pr_status p'))"
  using gov_step_inv [OF assms(2) gov_history_wf [OF assms(1)]] by (simp add: gov_wf_def advances_def)

definition sample_gov :: governance where
  "sample_gov = \<lparr>gv_committee = [(''ann'', 0, True), (''bob'', 0, True), (''eve'', 0, True)], gv_proposals = [], gv_votes = [],
     gv_runtime_config = [], gv_settings = [], gv_env = Some ''SERVICE_SECRET_KEY=abc''\<rparr>"

definition threshold_payload :: payload where
  "threshold_payload = [(''key'', ''RISK_SCORE_THRESHOLD''), (''new_value'', ''80'')]"

definition open_gov :: governance where
  "open_gov = sample_gov\<lparr>gv_proposals := [\<lparr>pr_id = 1, pr_type = ''config_change'', pr_payload = threshold_payload, pr_proposer = ''ann'',
     pr_status = Active, pr_submitted_at = 0, pr_voting_ends_at = 72 * 3600 * 1000000, pr_executed_at = None, pr_error = None\<rparr>]\<rparr>"

lemma sample_submit: "\<exists>p. submit_proposal 72 0 ''ann'' ''config_change'' threshold_payload sample_gov = Inr (p, open_gov)"
  by (simp add: submit_proposal_def sample_gov_def threshold_payload_def open_gov_def allowed_settings_def is_committee_member_def
      next_proposal_id_def Let_def)

lemma open_gov_history: "gov_history open_gov"
proof -
  have "gov_history sample_gov" by (rule gov_history.start) (simp_all add: sample_gov_def)
  with sample_submit show ?thesis using gov_history.step gov_step.submits by blast
qed

lemma governance_life_cycle_witness:
  "distinct (map pr_id (gv_proposals (enrol_member 5 ''zoe'' open_gov)))"
  using governance_life_cycle [OF open_gov_history gov_step.enrols] by blast

text \<open>
  C21: closing an active proposal passes it exactly when the distinct members who voted for it
  are more than half of the active committee at that moment, and rejects it otherwise;
  closing it again changes nothing.
\<close>

theorem close_passes_by_majority:
  assumes "gov_history g" "find_proposal pid g = Some p" "pr_status p = Active" "close_proposal pid g = Inr (q, g')"
  shows "(\<exists>p'. q = Some p' \<and> find_proposal pid g' = Some p' \<and>
      pr_status p' = (if committee_size g < 2 * card (set (voters pid For g)) then Passed else Rejected)) \<and>
    close_proposal pid g' = Inr (q, g')"
proof -
  have wf: "gov_wf g" by (rule gov_history_wf [OF assms(1)])
  from assms(4) obtain t where t: "tally_proposal pid g = Inr t" "g' = close_write pid (tl_outcome t) g" "q = find_proposal pid g'"
    by (cases rule: close_effect) (use assms(2,3) in auto)
  have out: "tl_outcome t = (if committee_size g < 2 * card (set (voters pid For g)) then Passed else Rejected)"
    using t(1) assms(2) quorum_is_majority vote_count_voters [OF wf] by (auto simp: tally_proposal_def Let_def)
  have find: "find_proposal pid g' = Some (p\<lparr>pr_status := tl_outcome t\<rparr>)"
    unfolding t(2) close_write_def by (rule find_set_proposal [OF assms(2)]) simp
  then have "pr_status (p\<lparr>pr_status := tl_outcome t\<rparr>) \<noteq> Active" using out by simp
  then have "close_proposal pid g' = Inr (q, g')" using find t(3) by (simp add: close_proposal_def close_read_def)
  then show ?thesis using find out t(3) by simp
qed

theorem close_passes_by_majority_witness:
  "\<exists>q g'. close_proposal 1 open_gov = Inr (Some q, g') \<and> pr_status q = Rejected"
proof -
  have f: "find_proposal 1 open_gov = Some (hd (gv_proposals open_gov))" "pr_status (hd (gv_proposals open_gov)) = Active"
    by (simp_all add: find_proposal_def open_gov_def)
  obtain q g' where c: "close_proposal 1 open_gov = Inr (q, g')"
    using f by (simp add: close_proposal_def close_read_def tally_proposal_def Let_def)
  from close_passes_by_majority [OF open_gov_history f c] c show ?thesis
    by (auto simp: voters_def open_gov_def sample_gov_def)
qed

text \<open>
  Closing is not guarded against a proposal that moved on meanwhile. When one process has
  read a proposal as active and tallied it as passed, and another closes and executes it, the
  first one's write sets the executed proposal back to passed, and it can be executed again.
\<close>

lemma stale_close_allows_second_execution:
  assumes "gov_wf g" "close_read pid g = Inr (p, False)" "tally_proposal pid g = Inr t" "tl_outcome t = Passed"
    and "close_proposal pid g = Inr (q1, g1)" "execute_proposal now pid g1 = Inr (q2, g2)"
  shows "\<exists>q3 q4 g4. find_proposal pid (close_write pid (tl_outcome t) g2) = Some q3 \<and> pr_status q3 = Passed \<and>
    pr_executed_at q3 = Some now \<and> execute_proposal now' pid (close_write pid (tl_outcome t) g2) = Inr (q4, g4)"
proof -
  let ?g3 = "close_write pid (tl_outcome t) g2"
  from assms(6) obtain x where x: "find_proposal pid g2 = Some x" "pr_executed_at x = Some now"
  proof (cases rule: execute_effect)
    case (ok q h)
    then have "find_proposal pid h = Some q" using carry_out_frame by (simp add: find_proposal_def)
    then have "find_proposal pid g2 = Some (q\<lparr>pr_status := Executed, pr_executed_at := Some now\<rparr>)"
      unfolding ok(4) by (rule find_set_proposal) simp
    then show ?thesis by (rule that) simp
  next
    case (failed q e)
    have "find_proposal pid g2 = Some (q\<lparr>pr_status := Failed, pr_executed_at := Some now, pr_error := Some e\<rparr>)"
      unfolding failed(3) by (rule find_set_proposal [OF failed(1)]) simp
    then show ?thesis by (rule that) simp
  qed
  have "find_proposal pid ?g3 = Some (x\<lparr>pr_status := tl_outcome t\<rparr>)"
    unfolding close_write_def by (rule find_set_proposal [OF x(1)]) simp
  then have f: "find_proposal pid ?g3 = Some (x\<lparr>pr_status := Passed\<rparr>)" by (simp add: assms(4))
  then have "\<exists>q4 g4. execute_proposal now' pid ?g3 = Inr (q4, g4)" by (simp add: execute_proposal_def Let_def)
  then show ?thesis using f x(2) by auto
qed

definition passed_votes :: governance where
  "passed_votes = open_gov\<lparr>gv_votes := [\<lparr>vt_proposal = 1, vt_voter = ''ann'', vt_decision = For, vt_cast_at = 1\<rparr>,
     \<lparr>vt_proposal = 1, vt_voter = ''bob'', vt_decision = For, vt_cast_at = 2\<rparr>]\<rparr>"

lemma stale_close_allows_second_execution_witness:
  "\<exists>q1 g1 q2 g2 q3. close_proposal 1 passed_votes = Inr (q1, g1) \<and> execute_proposal 50 1 g1 = Inr (q2, g2) \<and>
     find_proposal 1 (close_write 1 Passed g2) = Some q3 \<and> pr_status q3 = Passed \<and> pr_executed_at q3 = Some 50"
proof -
  have wf: "gov_wf passed_votes" by (simp add: gov_wf_def passed_votes_def open_gov_def)
  have r: "close_read 1 passed_votes = Inr (hd (gv_proposals passed_votes), False)"
    by (simp add: close_read_def find_proposal_def passed_votes_def open_gov_def)
  obtain t where t: "tally_proposal 1 passed_votes = Inr t" "tl_outcome t = Passed"
    by (simp add: tally_proposal_def find_proposal_def passed_votes_def open_gov_def sample_gov_def committee_size_def
        vote_count_def row_count_def Let_def)
  obtain q1 where c: "close_proposal 1 passed_votes = Inr (q1, close_write 1 Passed passed_votes)"
    using r t by (simp add: close_proposal_def Let_def)
  have f: "find_proposal 1 (close_write 1 Passed passed_votes) = Some ((hd (gv_proposals open_gov))\<lparr>pr_status := Passed\<rparr>)"
    by (simp add: find_proposal_def close_write_def set_proposal_def passed_votes_def open_gov_def update_where_def)
  obtain q2 g2 where e: "execute_proposal 50 1 (close_write 1 Passed passed_votes) = Inr (q2, g2)"
    using f by (simp add: execute_proposal_def Let_def)
  from stale_close_allows_second_execution [OF wf r t c e] c e t(2) show ?thesis by auto
qed

text \<open>
  A governance change writes no other setting. When \<open>.env\<close> is empty or ends with a newline,
  applying an allowed key with a value that parses leaves the lines that assign any other
  name exactly as they were: an accepted value cannot smuggle in an assignment. A key outside
  the allowed settings, which secrets are, is refused.
\<close>

lemma governance_keeps_other_settings:
  assumes "apply_setting key v g = Inr g'" "text = (case gv_env g of None \<Rightarrow> [] | Some t \<Rightarrow> t)"
    and "text = [] \<or> last text = CHR 0x0A" "CHR ''='' \<notin> set k" "k \<noteq> key" "k \<noteq> CHR ''#'' # key"
  shows "key \<in> set allowed_settings \<and>
    (\<exists>text'. gv_env g' = Some text' \<and> filter (assigns k) (readlines text') = filter (assigns k) (readlines text))"
proof -
  from assms(1) obtain x where x: "key \<in> set allowed_settings" "parse_setting key v = Some x"
      "gv_env g' = Some (concat (update_lines key v (readlines text)))"
    using assms(2) by (auto simp: apply_setting_def Let_def split: if_splits option.splits)
  then have "CHR ''='' \<notin> set key" "CHR 0x0A \<notin> set key" by (auto simp: allowed_settings_def)
  from other_lines_kept [OF readlines_all_complete [OF assms(3)] parse_no_equals [OF x(2)] this assms(4-6)] x
  show ?thesis by blast
qed

lemma governance_keeps_other_settings_witness:
  "\<exists>text'. gv_env (sample_gov\<lparr>gv_env := None, gv_settings := [(''_default_risk_score_threshold'', Int_setting 80)],
       gv_env := Some (''RISK_SCORE_THRESHOLD=80'' @ [CHR 0x0A])\<rparr>) = Some text' \<and> filter (assigns ''SERVICE_SECRET_KEY'') (readlines text') = []"
proof -
  have "py_int ''80'' = Some 80" by code_simp
  then have "apply_setting ''RISK_SCORE_THRESHOLD'' ''80'' (sample_gov\<lparr>gv_env := None\<rparr>) =
      Inr (sample_gov\<lparr>gv_env := None, gv_settings := [(''_default_risk_score_threshold'', Int_setting 80)],
       gv_env := Some (''RISK_SCORE_THRESHOLD=80'' @ [CHR 0x0A])\<rparr>)"
    by (simp add: apply_setting_def allowed_settings_def parse_setting_def live_attribute_def assignment_def sample_gov_def)
  from governance_keeps_other_settings [OF this refl, of "''SERVICE_SECRET_KEY''"] show ?thesis by (simp add: sample_gov_def)
qed

text \<open>
  Without a final newline the new assignment is glued to the last line of \<open>.env\<close>, whatever
  setting that is, a secret for instance, and takes effect as neither.
\<close>

lemma env_without_newline_is_corrupted:
  assumes "key \<in> set allowed_settings" "parse_setting key v = Some x" "gv_env g = Some text"
    and "\<forall>l\<in>set (readlines text). \<not> sets_key key l"
  shows "\<exists>g'. apply_setting key v g = Inr g' \<and> gv_env g' = Some (text @ key @ ''='' @ v @ [CHR 0x0A])"
proof -
  have "update_lines key v ls = ls @ [assignment key v]" if "\<forall>l\<in>set ls. \<not> sets_key key l" for ls
    using that by (induction ls) auto
  then show ?thesis using assms by (simp add: apply_setting_def Let_def concat_readlines assignment_def)
qed

lemma env_without_newline_is_corrupted_witness:
  "\<exists>g'. apply_setting ''RISK_SCORE_THRESHOLD'' ''80'' sample_gov = Inr g' \<and>
     gv_env g' = Some (''SERVICE_SECRET_KEY=abc'' @ ''RISK_SCORE_THRESHOLD'' @ ''='' @ ''80'' @ [CHR 0x0A])"
proof (rule env_without_newline_is_corrupted)
  have "py_int ''80'' = Some 80" by code_simp
  then show "parse_setting ''RISK_SCORE_THRESHOLD'' ''80'' = Some (Int_setting 80)" by (simp add: parse_setting_def)
qed (simp_all add: allowed_settings_def sample_gov_def sets_key_def starts_with_def)

end
