(* ===== verification/Disputes.thy ===== *)
theory Disputes
  imports Chain_Queue
begin

text \<open>
  Score disputes, \<open>packages/core/detection/dispute_store.py\<close>: evidence links, submission, committee
  votes, resolution, and the hand-over of an approved dispute to the submission queue and back.
  The tables it reads and writes are one record, the queue among them. \<open>cast_vote\<close> commits up
  to three times; each commit is a definition of its own, and \<open>cast_vote_commits\<close> lists the
  databases a crash can leave behind. The URL parser, which yields scheme and host, and the
  random identifier are parameters; the clock is read once per call.
\<close>

section \<open>State\<close>

datatype dispute_status = Dispute_pending | Dispute_approved | Dispute_rejected | Dispute_resolved

datatype dispute_error =
  Not_https | Private_address | No_submission | Rate_limited | Invalid_vote | Invalid_key_hash |
  Dispute_not_found | Already_resolved | Voter_already_voted

record committee_vote =
  cv_voter :: string
  cv_approve :: bool
  cv_voted_at :: instant

record dispute =
  di_row :: int
  di_id :: string
  di_wallet :: string
  di_pair :: string
  di_score :: int
  di_tx_hash :: string
  di_evidence :: "string option"
  di_submitted_at :: instant
  di_status :: dispute_status
  di_votes :: "committee_vote list"
  di_resolved_at :: "instant option"
  di_resolution :: "string option"

record chain_submission =
  cs_wallet :: string
  cs_pair :: string
  cs_tx_hash :: "string option"
  cs_submitted_at :: instant

record score_row =
  sc_wallet :: string
  sc_pair :: string
  sc_score :: int
  sc_timestamp :: instant

datatype override_status = Override_pending | Override_submitted

record score_override =
  so_id :: int
  so_wallet :: string
  so_pair :: string
  so_dispute :: string
  so_tx_hash :: "string option"
  so_status :: override_status
  so_recorded_at :: instant

record dispute_db =
  db_submissions :: "chain_submission list"
  db_scores :: "score_row list"
  db_disputes :: "dispute list"
  db_overrides :: "score_override list"
  db_queue :: queue

section \<open>Evidence links\<close>

definition host_starts :: "string \<Rightarrow> string \<Rightarrow> bool" where
  "host_starts prefix host \<longleftrightarrow> take (length prefix) host = prefix"

text \<open>
  The check of the second octet stands inside the \<open>try\<close> whose \<open>except ValueError\<close> is meant for
  the conversion, so the error it raises is caught as well.
\<close>

definition second_octet_check :: "string \<Rightarrow> dispute_error + unit" where
  "second_octet_check host =
     (let parts = py_split CHR ''.'' host in
      if 2 \<le> length parts then
        (case (case py_int (parts ! 1) of
                 None \<Rightarrow> Inl Private_address
               | Some second \<Rightarrow> if 16 \<le> second \<and> second \<le> 31 then Inl Private_address else Inr ()) of
           Inl value_error \<Rightarrow> Inr ()
         | Inr u \<Rightarrow> Inr u)
      else Inr ())"

definition validate_evidence_url :: "(string \<Rightarrow> string \<times> string option) \<Rightarrow> string \<Rightarrow> dispute_error + unit" where
  "validate_evidence_url urlparse evidence_url =
     (case urlparse evidence_url of
        (scheme, hostname) \<Rightarrow>
          if py_lower scheme \<noteq> ''https'' then Inl Not_https
          else let host = (case hostname of None \<Rightarrow> [] | Some h \<Rightarrow> h) in
               if host_starts ''10.'' host \<or> host_starts ''127.'' host \<or> host_starts ''192.168.'' host then Inl Private_address
               else if host_starts ''172.'' host then second_octet_check host
               else Inr ())"

section \<open>Submitting a dispute\<close>

text \<open>\<open>ORDER BY t DESC LIMIT 1\<close>\<close>

fun latest :: "('r \<Rightarrow> instant) \<Rightarrow> 'r list \<Rightarrow> 'r option" where
  "latest t [] = None"
| "latest t (r # rows) = (case latest t rows of None \<Rightarrow> Some r | Some b \<Rightarrow> if t r < t b then Some b else Some r)"

definition next_row :: "int list \<Rightarrow> int" where
  "next_row ids = 1 + foldr max ids 0"

abbreviation seven_days :: int where
  "seven_days \<equiv> 7 * 86400 * microseconds_per_second"

definition submit_dispute ::
  "(string \<Rightarrow> string \<times> string option) \<Rightarrow> instant \<Rightarrow> string \<Rightarrow> string \<Rightarrow> string \<Rightarrow> string option \<Rightarrow> dispute_db \<Rightarrow>
     dispute_error + dispute \<times> dispute_db" where
  "submit_dispute urlparse now uuid wallet asset_pair evidence_url db =
     (case (case evidence_url of None \<Rightarrow> Inr () | Some u \<Rightarrow> validate_evidence_url urlparse u) of
        Inl e \<Rightarrow> Inl e
      | Inr _ \<Rightarrow>
          (case latest cs_submitted_at (filter (\<lambda>r. cs_wallet r = wallet \<and> cs_pair r = asset_pair) (db_submissions db)) of
             None \<Rightarrow> Inl No_submission
           | Some row \<Rightarrow>
               (case cs_tx_hash row of
                  None \<Rightarrow> Inl No_submission
                | Some tx_hash \<Rightarrow>
                    if (case latest di_submitted_at (filter (\<lambda>d. di_wallet d = wallet \<and> di_pair d = asset_pair) (db_disputes db)) of
                          None \<Rightarrow> False
                        | Some d \<Rightarrow> now - di_submitted_at d < seven_days)
                    then Inl Rate_limited
                    else let disputed_score =
                               (case latest sc_timestamp (filter (\<lambda>r. sc_wallet r = wallet \<and> sc_pair r = asset_pair) (db_scores db)) of
                                  None \<Rightarrow> 0 | Some s \<Rightarrow> sc_score s);
                             d = \<lparr>di_row = next_row (map di_row (db_disputes db)), di_id = uuid, di_wallet = wallet,
                                  di_pair = asset_pair, di_score = disputed_score, di_tx_hash = tx_hash,
                                  di_evidence = evidence_url, di_submitted_at = now, di_status = Dispute_pending,
                                  di_votes = [], di_resolved_at = None, di_resolution = None\<rparr>
                         in Inr (d, db\<lparr>db_disputes := db_disputes db @ [d]\<rparr>))))"

section \<open>Voting\<close>

definition load_dispute :: "string \<Rightarrow> dispute_db \<Rightarrow> dispute option" where
  "load_dispute dispute_id db = find (\<lambda>d. di_id d = dispute_id) (db_disputes db)"

definition set_dispute :: "int \<Rightarrow> (dispute \<Rightarrow> dispute) \<Rightarrow> dispute_db \<Rightarrow> dispute_db" where
  "set_dispute row f db = db\<lparr>db_disputes := update_where (\<lambda>d. di_row d = row) f (db_disputes db)\<rparr>"

text \<open>First commit: the vote is stored.\<close>

definition record_vote ::
  "instant \<Rightarrow> string \<Rightarrow> string \<Rightarrow> string \<Rightarrow> dispute_db \<Rightarrow> dispute_error + dispute \<times> committee_vote list \<times> dispute_db" where
  "record_vote now dispute_id voter_key_hash vote db =
     (if vote \<noteq> ''approve'' \<and> vote \<noteq> ''reject'' then Inl Invalid_vote
      else if length voter_key_hash \<noteq> 64 then Inl Invalid_key_hash
      else case load_dispute dispute_id db of
             None \<Rightarrow> Inl Dispute_not_found
           | Some d \<Rightarrow>
               if di_status d \<noteq> Dispute_pending then Inl Already_resolved
               else if voter_key_hash \<in> cv_voter ` set (di_votes d) then Inl Voter_already_voted
               else let votes = di_votes d @ [\<lparr>cv_voter = voter_key_hash, cv_approve = (vote = ''approve''), cv_voted_at = now\<rparr>]
                    in Inr (d, votes, set_dispute (di_row d) (\<lambda>d. d\<lparr>di_votes := votes\<rparr>) db))"

datatype verdict = Approve_dispute | Reject_dispute | Undecided

definition committee_verdict :: "nat \<Rightarrow> committee_vote list \<Rightarrow> verdict" where
  "committee_verdict quorum votes =
     (if quorum \<le> length votes then
        let approves = row_count cv_approve votes;
            rejects = row_count (\<lambda>v. \<not> cv_approve v) votes;
            total = approves + rejects
        in if 2 * total \<le> approves * 3 then Approve_dispute
           else if 2 * total \<le> rejects * 3 then Reject_dispute
           else Undecided
      else Undecided)"

text \<open>Second commit: \<open>_write_dispute_row\<close>.\<close>

definition write_dispute_row ::
  "int \<Rightarrow> dispute_status \<Rightarrow> committee_vote list \<Rightarrow> instant option \<Rightarrow> string option \<Rightarrow> dispute_db \<Rightarrow> dispute_db" where
  "write_dispute_row row status votes resolved_at resolution db =
     set_dispute row (\<lambda>d. d\<lparr>di_status := status, di_votes := votes, di_resolved_at := resolved_at, di_resolution := resolution\<rparr>) db"

text \<open>Third commit: the override, the obligation to publish it and the removal of the score.\<close>

definition default_max_attempts :: nat where "default_max_attempts = 10"

definition override_request :: "instant \<Rightarrow> dispute \<Rightarrow> int \<Rightarrow> enqueue_request" where
  "override_request now d override_id =
     \<lparr>rq_dispute_id = di_id d, rq_override_id = override_id, rq_wallet = di_wallet d, rq_asset_pair = di_pair d,
      rq_max_attempts = default_max_attempts, rq_now = now\<rparr>"

definition record_override :: "instant \<Rightarrow> dispute \<Rightarrow> dispute_db \<Rightarrow> dispute_db" where
  "record_override now d db =
     (let override_id = next_row (map so_id (db_overrides db))
      in db\<lparr>db_overrides := db_overrides db @
              [\<lparr>so_id = override_id, so_wallet = di_wallet d, so_pair = di_pair d, so_dispute = di_id d,
                so_tx_hash = None, so_status = Override_pending, so_recorded_at = now\<rparr>],
            db_queue := enqueue_override_submission (override_request now d override_id) (db_queue db),
            db_scores := delete_where (\<lambda>r. sc_wallet r = di_wallet d \<and> sc_pair r = di_pair d) (db_scores db)\<rparr>)"

text \<open>The durable databases of a call, in the order of its commits.\<close>

definition cast_vote_commits ::
  "nat \<Rightarrow> instant \<Rightarrow> string \<Rightarrow> string \<Rightarrow> string \<Rightarrow> dispute_db \<Rightarrow> dispute_error + dispute_db list" where
  "cast_vote_commits quorum now dispute_id voter_key_hash vote db =
     (case record_vote now dispute_id voter_key_hash vote db of
        Inl e \<Rightarrow> Inl e
      | Inr (d, votes, db1) \<Rightarrow>
          (case committee_verdict quorum votes of
             Undecided \<Rightarrow> Inr [db1]
           | Approve_dispute \<Rightarrow>
               let db2 = write_dispute_row (di_row d) Dispute_approved votes (Some now) (Some ''score_removed'') db1
               in Inr [db1, db2, record_override now d db2]
           | Reject_dispute \<Rightarrow>
               Inr [db1, write_dispute_row (di_row d) Dispute_rejected votes (Some now) (Some ''upheld'') db1]))"

definition dispute_cast_vote ::
  "nat \<Rightarrow> instant \<Rightarrow> string \<Rightarrow> string \<Rightarrow> string \<Rightarrow> dispute_db \<Rightarrow> dispute_error + dispute option \<times> dispute_db" where
  "dispute_cast_vote quorum now dispute_id voter_key_hash vote db =
     (case cast_vote_commits quorum now dispute_id voter_key_hash vote db of
        Inl e \<Rightarrow> Inl e
      | Inr dbs \<Rightarrow> Inr (load_dispute dispute_id (last dbs), last dbs))"

section \<open>Queries and the way back from the queue\<close>

definition get_dispute :: "string \<Rightarrow> dispute_db \<Rightarrow> dispute option" where
  "get_dispute dispute_id db = load_dispute dispute_id db"

definition get_resolved_disputes :: "instant \<Rightarrow> dispute_db \<Rightarrow> dispute list" where
  "get_resolved_disputes since db =
     sort_key (\<lambda>d. the (di_resolved_at d))
       (filter (\<lambda>d. case di_resolved_at d of None \<Rightarrow> False | Some t \<Rightarrow> since \<le> t) (db_disputes db))"

definition update_override_status :: "int \<Rightarrow> override_status \<Rightarrow> string option \<Rightarrow> dispute_db \<Rightarrow> dispute_db" where
  "update_override_status override_id status tx_hash db =
     db\<lparr>db_overrides := update_where (\<lambda>o'. so_id o' = override_id)
       (case tx_hash of
          Some h \<Rightarrow> if h \<noteq> [] then (\<lambda>o'. o'\<lparr>so_tx_hash := Some h, so_status := status\<rparr>) else (\<lambda>o'. o'\<lparr>so_status := status\<rparr>)
        | None \<Rightarrow> (\<lambda>o'. o'\<lparr>so_status := status\<rparr>)) (db_overrides db)\<rparr>"

definition apply_submission_result :: "submission \<Rightarrow> string option \<Rightarrow> dispute_db \<Rightarrow> dispute_db" where
  "apply_submission_result job tx_hash db = update_override_status (sub_override_id job) Override_submitted tx_hash db"

text \<open>\<open>process_once\<close> of the queue with \<open>on_submitted=apply_submission_result\<close>.\<close>

definition publish_next :: "instant \<Rightarrow> instant \<Rightarrow> publisher \<Rightarrow> dispute_db \<Rightarrow> dispute_db" where
  "publish_next now now' submit_score db =
     (case process_once now now' submit_score (db_queue db) of
        (q, None) \<Rightarrow> db\<lparr>db_queue := q\<rparr>
      | (q, Some (job, res)) \<Rightarrow>
          (case publish submit_score job of
             Tx_Hash h \<Rightarrow>
               if res = Submitted then apply_submission_result job (Some h) (db\<lparr>db_queue := q\<rparr>) else db\<lparr>db_queue := q\<rparr>
           | _ \<Rightarrow> db\<lparr>db_queue := q\<rparr>))"

section \<open>Disputes and votes\<close>

text \<open>The status a dispute has after its votes, for a committee quorum of three.\<close>

definition status_after :: "committee_vote list \<Rightarrow> dispute_status" where
  "status_after votes =
     (if length votes < 3 then Dispute_pending
      else if 2 \<le> row_count cv_approve votes then Dispute_approved else Dispute_rejected)"

definition dispute_ok :: "dispute \<Rightarrow> bool" where
  "dispute_ok d \<longleftrightarrow> length (di_votes d) \<le> 3 \<and> distinct (map cv_voter (di_votes d)) \<and> di_status d = status_after (di_votes d) \<and>
     (di_resolved_at d = None \<longleftrightarrow> di_status d = Dispute_pending)"

definition disputes_wf :: "dispute list \<Rightarrow> bool" where
  "disputes_wf ds \<longleftrightarrow> distinct (map di_row ds) \<and> distinct (map di_id ds) \<and> (\<forall>d\<in>set ds. dispute_ok d)"

lemma verdict_three:
  assumes "length votes \<le> 3"
  shows "committee_verdict 3 votes =
    (case status_after votes of Dispute_approved \<Rightarrow> Approve_dispute | Dispute_rejected \<Rightarrow> Reject_dispute | _ \<Rightarrow> Undecided)"
proof -
  have "row_count cv_approve votes + row_count (\<lambda>v. \<not> cv_approve v) votes = length votes"
    unfolding row_count_def by (rule sum_length_filter_compl)
  then show ?thesis using assms by (auto simp: committee_verdict_def status_after_def Let_def)
qed

lemma fresh_row: "next_row ids \<notin> set ids"
proof -
  have "x \<in> set ids \<Longrightarrow> x \<le> foldr max ids 0" for x by (induction ids) auto
  then show ?thesis by (fastforce simp: next_row_def)
qed

lemma load_dispute_Some: "load_dispute i db = Some d \<Longrightarrow> d \<in> set (db_disputes db) \<and> di_id d = i"
  by (auto simp: load_dispute_def find_Some_iff)

lemma disputes_update_wf:
  assumes "disputes_wf ds" "d \<in> set ds" "dispute_ok (f d)" "\<And>x. di_row (f x) = di_row x \<and> di_id (f x) = di_id x"
  shows "disputes_wf (update_where (\<lambda>x. di_row x = di_row d) f ds)"
proof -
  have one: "x = d" if "x \<in> set ds" "di_row x = di_row d" for x
    using assms(1,2) that by (auto simp: disputes_wf_def distinct_map inj_on_def)
  then have "\<forall>x\<in>set (update_where (\<lambda>x. di_row x = di_row d) f ds). dispute_ok x"
    using assms(1,3) by (auto simp: set_update_where disputes_wf_def)
  then show ?thesis using assms(1,4) by (simp add: disputes_wf_def map_update_where_frame)
qed

lemma update_where_compose:
  assumes "\<And>x. di_row (f x) = di_row x"
  shows "update_where (\<lambda>x. di_row x = r) g (update_where (\<lambda>x. di_row x = r) f ds) = update_where (\<lambda>x. di_row x = r) (\<lambda>x. g (f x)) ds"
  using assms by (simp add: update_where_def)

text \<open>What a complete call does to the dispute it votes on.\<close>

definition resolved_as :: "instant \<Rightarrow> committee_vote list \<Rightarrow> dispute \<Rightarrow> dispute" where
  "resolved_as now votes d =
     (case status_after votes of
        Dispute_approved \<Rightarrow> d\<lparr>di_status := Dispute_approved, di_votes := votes, di_resolved_at := Some now, di_resolution := Some ''score_removed''\<rparr>
      | Dispute_rejected \<Rightarrow> d\<lparr>di_status := Dispute_rejected, di_votes := votes, di_resolved_at := Some now, di_resolution := Some ''upheld''\<rparr>
      | _ \<Rightarrow> d\<lparr>di_votes := votes\<rparr>)"

lemma resolved_as_frame [simp]:
  "di_row (resolved_as now votes d) = di_row d" "di_id (resolved_as now votes d) = di_id d"
  "di_votes (resolved_as now votes d) = votes"
  by (simp_all add: resolved_as_def split: dispute_status.split)

lemma status_after_cases: "status_after votes \<noteq> Dispute_resolved"
  by (simp add: status_after_def)

lemma cast_vote_effect:
  assumes "disputes_wf (db_disputes db)" "cast_vote_commits 3 now i voter vote db = Inr dbs"
  shows "\<exists>d votes db1. load_dispute i db = Some d \<and> dispute_ok (resolved_as now votes d) \<and> di_status d = Dispute_pending \<and>
    db_disputes (last dbs) = update_where (\<lambda>x. di_row x = di_row d) (resolved_as now votes) (db_disputes db) \<and>
    db_overrides db1 = db_overrides db \<and> db_queue db1 = db_queue db \<and>
    (if status_after votes = Dispute_approved then last dbs = record_override now d db1
     else db_overrides (last dbs) = db_overrides db \<and> db_queue (last dbs) = db_queue db)"
proof -
  from assms(2) obtain d votes db1 where r: "record_vote now i voter vote db = Inr (d, votes, db1)"
    by (auto simp: cast_vote_commits_def split: sum.splits)
  then have d: "load_dispute i db = Some d" "di_status d = Dispute_pending" "voter \<notin> cv_voter ` set (di_votes d)"
      "\<exists>a. votes = di_votes d @ [\<lparr>cv_voter = voter, cv_approve = a, cv_voted_at = now\<rparr>]"
      "db1 = set_dispute (di_row d) (\<lambda>d. d\<lparr>di_votes := votes\<rparr>) db"
    by (auto simp: record_vote_def Let_def split: if_splits option.splits)
  have ok: "dispute_ok d" using assms(1) load_dispute_Some [OF d(1)] by (simp add: disputes_wf_def)
  then have few: "length (di_votes d) < 3" using d(2) by (auto simp: dispute_ok_def status_after_def split: if_splits)
  then have len: "length votes \<le> 3" using d(4) by auto
  have okd: "dispute_ok (resolved_as now votes d)"
    using ok few d(2-4) len status_after_cases [of votes]
    by (auto simp: dispute_ok_def resolved_as_def split: dispute_status.splits)
  note verdict = verdict_three [OF len]
  have dis: "db_disputes db1 = update_where (\<lambda>x. di_row x = di_row d) (\<lambda>d. d\<lparr>di_votes := votes\<rparr>) (db_disputes db)"
    using d(5) by (simp add: set_dispute_def)
  have same: "db_overrides db1 = db_overrides db" "db_queue db1 = db_queue db" using d(5) by (simp_all add: set_dispute_def)
  show ?thesis
  proof (cases "status_after votes")
    case Dispute_pending
    then have "dbs = [db1]" using assms(2) r verdict by (simp add: cast_vote_commits_def)
    then show ?thesis using d okd dis same Dispute_pending by (intro exI [of _ d] exI [of _ votes] exI [of _ db1]) (simp add: resolved_as_def [abs_def])
  next
    case Dispute_approved
    let ?db2 = "write_dispute_row (di_row d) Dispute_approved votes (Some now) (Some ''score_removed'') db1"
    have l: "last dbs = record_override now d ?db2"
      using assms(2) r verdict Dispute_approved by (auto simp: cast_vote_commits_def Let_def)
    have "db_disputes (last dbs) = update_where (\<lambda>x. di_row x = di_row d) (resolved_as now votes) (db_disputes db)"
      unfolding l using Dispute_approved
      by (simp add: record_override_def Let_def write_dispute_row_def set_dispute_def dis update_where_compose resolved_as_def [abs_def])
    moreover have "db_overrides ?db2 = db_overrides db" "db_queue ?db2 = db_queue db"
      using same by (simp_all add: write_dispute_row_def set_dispute_def)
    ultimately show ?thesis using d okd l Dispute_approved by (intro exI [of _ d] exI [of _ votes] exI [of _ ?db2]) simp
  next
    case Dispute_rejected
    let ?db2 = "write_dispute_row (di_row d) Dispute_rejected votes (Some now) (Some ''upheld'') db1"
    have l: "last dbs = ?db2" using assms(2) r verdict Dispute_rejected by (auto simp: cast_vote_commits_def)
    have "db_disputes (last dbs) = update_where (\<lambda>x. di_row x = di_row d) (resolved_as now votes) (db_disputes db)"
      unfolding l using Dispute_rejected by (simp add: write_dispute_row_def set_dispute_def dis update_where_compose resolved_as_def [abs_def])
    moreover have "db_overrides ?db2 = db_overrides db" "db_queue ?db2 = db_queue db"
      using same by (simp_all add: write_dispute_row_def set_dispute_def)
    ultimately show ?thesis using d okd l same Dispute_rejected by (intro exI [of _ d] exI [of _ votes] exI [of _ db1]) simp
  next
    case Dispute_resolved
    then show ?thesis using status_after_cases by blast
  qed
qed

section \<open>Overrides and the queue\<close>

text \<open>
  The override table and the queue in step: row by row the same override and dispute, and
  submitted together.
\<close>

definition queue_view :: "submission \<Rightarrow> int \<times> string \<times> bool" where
  "queue_view r = (sub_override_id r, sub_dispute_id r, sub_status_of r = Submitted)"

definition override_view :: "score_override \<Rightarrow> int \<times> string \<times> bool" where
  "override_view ov = (so_id ov, so_dispute ov, so_status ov = Override_submitted)"

definition mirrored :: "queue \<Rightarrow> score_override list \<Rightarrow> bool" where
  "mirrored q ovs \<longleftrightarrow> queue_wf q \<and> distinct (map so_id ovs) \<and> map queue_view q = map override_view ovs \<and>
     (\<forall>r\<in>set q. sub_key r = override_idempotency_key (sub_dispute_id r) (sub_override_id r))"

lemma mirrored_ids: "mirrored q ovs \<Longrightarrow> map sub_override_id q = map so_id ovs"
proof -
  assume "mirrored q ovs"
  then have "map fst (map queue_view q) = map fst (map override_view ovs)" by (simp add: mirrored_def)
  then show ?thesis by (simp add: queue_view_def override_view_def o_def)
qed

lemma queue_frame:
  "sub_override_id (settled now job oc r) = sub_override_id r" "sub_dispute_id (settled now job oc r) = sub_dispute_id r"
  "sub_override_id (leased now r) = sub_override_id r" "sub_dispute_id (leased now r) = sub_dispute_id r"
  by (simp_all add: settled_def retried_def closed_row_def leased_def split: publish_outcome.splits)

lemma mirrored_record:
  assumes "mirrored (db_queue db) (db_overrides db)"
  shows "mirrored (db_queue (record_override now d db)) (db_overrides (record_override now d db))"
    and "di_id d \<in> so_dispute ` set (db_overrides (record_override now d db))"
proof -
  let ?i = "next_row (map so_id (db_overrides db))" and ?q = "db_queue db"
  let ?rq = "override_request now d ?i"
  have fresh: "?i \<notin> so_id ` set (db_overrides db)" using fresh_row [of "map so_id (db_overrides db)"] by simp
  then have "?i \<notin> sub_override_id ` set ?q" using mirrored_ids [OF assms] by (metis set_map)
  then have new: "request_key ?rq \<notin> sub_key ` set ?q"
    using assms override_key_injective by (auto simp: mirrored_def request_key_def override_request_def)
  have "queue_wf (enqueue_override_submission ?rq ?q)" using assms by (auto simp: mirrored_def intro: enqueue_wf)
  then show "mirrored (db_queue (record_override now d db)) (db_overrides (record_override now d db))"
    using assms new fresh
    by (auto simp: mirrored_def record_override_def Let_def enqueue_override_submission_def override_request_def
        queue_view_def override_view_def request_key_def)
  show "di_id d \<in> so_dispute ` set (db_overrides (record_override now d db))"
    by (simp add: record_override_def Let_def)
qed

lemma mirrored_update:
  assumes "mirrored q ovs" "job \<in> set q" "\<And>r. sub_id (f r) = sub_id r \<and> sub_key (f r) = sub_key r"
    and "\<And>r. sub_override_id (f r) = sub_override_id r \<and> sub_dispute_id (f r) = sub_dispute_id r"
    and "\<And>ov. override_view (g ov) = (so_id ov, so_dispute ov, sub_status_of (f job) = Submitted)"
  shows "mirrored (update_where (\<lambda>r. sub_id r = sub_id job) f q) (update_where (\<lambda>ov. so_id ov = sub_override_id job) g ovs)"
proof -
  let ?mark = "\<lambda>(i, d, b). if i = sub_override_id job then (i, d, sub_status_of (f job) = Submitted) else (i, d, b)"
  have wf: "queue_wf q" and dist: "distinct (map sub_override_id q)"
    using assms(1) mirrored_ids [OF assms(1)] by (simp_all add: mirrored_def)
  have "map queue_view (update_where (\<lambda>r. sub_id r = sub_id job) f q) = map (?mark \<circ> queue_view) q"
  proof (simp add: update_where_def, intro ballI impI conjI)
    fix r assume r: "r \<in> set q"
    have "sub_id r = sub_id job \<longleftrightarrow> r = job" using same_id_same_row [OF wf r assms(2)] by auto
    moreover have "sub_override_id r = sub_override_id job \<longleftrightarrow> r = job"
      using dist r assms(2) by (auto simp: distinct_map inj_on_def)
    ultimately show "sub_id r = sub_id job \<Longrightarrow> queue_view (f r) = ?mark (queue_view r)"
      and "sub_id r \<noteq> sub_id job \<Longrightarrow> queue_view r = ?mark (queue_view r)"
      using assms(4) by (auto simp: queue_view_def)
  qed
  also have "\<dots> = map ?mark (map override_view ovs)" using assms(1) by (simp add: mirrored_def flip: map_map)
  also have "\<dots> = map override_view (update_where (\<lambda>ov. so_id ov = sub_override_id job) g ovs)"
    using assms(5) by (simp add: update_where_def override_view_def)
  finally have views: "map queue_view (update_where (\<lambda>r. sub_id r = sub_id job) f q) =
      map override_view (update_where (\<lambda>ov. so_id ov = sub_override_id job) g ovs)" .
  have "so_id (g ov) = so_id ov" for ov using assms(5) [of ov] by (simp add: override_view_def)
  then have "distinct (map so_id (update_where (\<lambda>ov. so_id ov = sub_override_id job) g ovs))"
    using assms(1) by (simp add: mirrored_def map_update_where_frame)
  moreover have "queue_wf (update_where (\<lambda>r. sub_id r = sub_id job) f q)" using update_wf [OF wf] assms(3) by simp
  moreover have "\<forall>r\<in>set (update_where (\<lambda>r. sub_id r = sub_id job) f q).
      sub_key r = override_idempotency_key (sub_dispute_id r) (sub_override_id r)"
    using assms(1,3,4) by (auto simp: mirrored_def set_update_where)
  ultimately show ?thesis using views by (simp add: mirrored_def)
qed

lemma process_once_result:
  assumes "process_once now now' submit q = (q', Some (job, res))"
  shows "res = Submitted \<longleftrightarrow> (\<exists>h. publish submit job = Tx_Hash h \<and> h \<noteq> [])"
  using assms
  by (auto simp: process_once_def settle_def mark_retry_def Let_def split: option.splits prod.splits publish_outcome.splits if_splits)

lemma publish_next_mirrored:
  assumes "mirrored (db_queue db) (db_overrides db)"
  shows "mirrored (db_queue (publish_next now now' submit db)) (db_overrides (publish_next now now' submit db))"
proof -
  have wf: "queue_wf (db_queue db)" using assms by (simp add: mirrored_def)
  from process_once_spec [OF wf, of now now' submit] show ?thesis
  proof (elim disjE bexE exE conjE)
    assume "process_once now now' submit (db_queue db) = (db_queue db, None)"
    then show ?thesis using assms by (simp add: publish_next_def)
  next
    fix job res assume job: "job \<in> set (db_queue db)" "due now job"
    let ?f = "\<lambda>r. settled now' job (publish submit job) (leased now r)"
    assume run: "process_once now now' submit (db_queue db) =
      (update_where (\<lambda>r. sub_id r = sub_id job) ?f (db_queue db), Some (job, res))"
    note res = process_once_result [OF run]
    show ?thesis
    proof (cases "res = Submitted")
      case True
      then obtain h where h: "publish submit job = Tx_Hash h" "h \<noteq> []" using res by blast
      let ?g = "\<lambda>ov. ov\<lparr>so_tx_hash := Some h, so_status := Override_submitted\<rparr>"
      have "mirrored (update_where (\<lambda>r. sub_id r = sub_id job) ?f (db_queue db))
          (update_where (\<lambda>ov. so_id ov = sub_override_id job) ?g (db_overrides db))"
        by (rule mirrored_update [OF assms job(1)])
          (simp_all add: queue_frame override_view_def settled_def h closed_row_def leased_def)
      then show ?thesis using run True h by (simp add: publish_next_def apply_submission_result_def update_override_status_def)
    next
      case False
      have st: "sub_status_of (?f job) \<noteq> Submitted"
        using False res by (auto simp: settled_def retried_def split: publish_outcome.splits)
      have "ov = ov\<lparr>so_status := Override_pending\<rparr>" if "ov \<in> set (db_overrides db)" "so_id ov = sub_override_id job" for ov
      proof -
        have "override_view ov \<in> set (map queue_view (db_queue db))" using assms that(1) by (simp add: mirrored_def)
        then obtain r where r: "r \<in> set (db_queue db)" "queue_view r = override_view ov" by auto
        have "distinct (map sub_override_id (db_queue db))" using assms mirrored_ids [OF assms] by (simp add: mirrored_def)
        then have "r = job" using r that(2) job(1) by (auto simp: queue_view_def override_view_def distinct_map inj_on_def)
        then have "so_status ov \<noteq> Override_submitted" using r(2) job(2) by (auto simp: due_def queue_view_def override_view_def)
        then show ?thesis by (cases "so_status ov") auto
      qed
      then have same: "update_where (\<lambda>ov. so_id ov = sub_override_id job) (\<lambda>ov. ov\<lparr>so_status := Override_pending\<rparr>) (db_overrides db) = db_overrides db"
        unfolding update_where_def by (intro map_idI) auto
      have "mirrored (update_where (\<lambda>r. sub_id r = sub_id job) ?f (db_queue db))
          (update_where (\<lambda>ov. so_id ov = sub_override_id job) (\<lambda>ov. ov\<lparr>so_status := Override_pending\<rparr>) (db_overrides db))"
        by (rule mirrored_update [OF assms job(1)]) (use st in \<open>simp_all add: queue_frame override_view_def\<close>)
      moreover have "publish_next now now' submit db = db\<lparr>db_queue := update_where (\<lambda>r. sub_id r = sub_id job) ?f (db_queue db)\<rparr>"
        using run False by (simp add: publish_next_def split: publish_outcome.split)
      ultimately show ?thesis using same by simp
    qed
  qed
qed

section \<open>Histories\<close>

text \<open>
  Calls that run to their end: disputes are submitted under fresh identifiers, votes cast,
  submissions worked off; scores and on-chain submissions change in any way.
\<close>

inductive dispute_history :: "dispute_db \<Rightarrow> bool" where
  start: "dispute_history \<lparr>db_submissions = c, db_scores = s, db_disputes = [], db_overrides = [], db_queue = []\<rparr>"
| submits: "dispute_history db \<Longrightarrow> uuid \<notin> di_id ` set (db_disputes db) \<Longrightarrow>
    submit_dispute urlparse now uuid wallet pair evidence db = Inr (d, db') \<Longrightarrow> dispute_history db'"
| votes: "dispute_history db \<Longrightarrow> dispute_cast_vote 3 now i voter vote db = Inr (d, db') \<Longrightarrow> dispute_history db'"
| publishes: "dispute_history db \<Longrightarrow> dispute_history (publish_next now now' submit db)"
| others: "dispute_history db \<Longrightarrow> dispute_history (db\<lparr>db_submissions := c, db_scores := s\<rparr>)"

definition dispute_inv :: "dispute_db \<Rightarrow> bool" where
  "dispute_inv db \<longleftrightarrow> disputes_wf (db_disputes db) \<and> mirrored (db_queue db) (db_overrides db) \<and>
     (\<forall>d\<in>set (db_disputes db). di_status d = Dispute_approved \<longrightarrow> di_id d \<in> so_dispute ` set (db_overrides db))"

lemma submit_dispute_effect:
  assumes "submit_dispute urlparse now uuid wallet pair evidence db = Inr (d, db')"
  shows "db_disputes db' = db_disputes db @ [d] \<and> db_overrides db' = db_overrides db \<and> db_queue db' = db_queue db \<and>
    di_id d = uuid \<and> di_row d = next_row (map di_row (db_disputes db)) \<and> dispute_ok d \<and> di_status d = Dispute_pending"
  using assms
  by (auto simp: submit_dispute_def Let_def dispute_ok_def status_after_def split: sum.splits option.splits if_splits)

lemma publish_next_frame: "db_disputes (publish_next now now' submit db) = db_disputes db"
  by (simp add: publish_next_def apply_submission_result_def update_override_status_def split: prod.splits option.splits publish_outcome.splits)

lemma publish_next_overrides:
  "map so_dispute (db_overrides (publish_next now now' submit db)) = map so_dispute (db_overrides db)"
  by (auto simp: publish_next_def apply_submission_result_def update_override_status_def map_update_where_frame
      split: prod.splits option.splits publish_outcome.splits)

lemma dispute_history_inv: "dispute_history db \<Longrightarrow> dispute_inv db"
proof (induction rule: dispute_history.induct)
  case (start c s)
  then show ?case by (simp add: dispute_inv_def disputes_wf_def mirrored_def queue_wf_def)
next
  case (submits db uuid urlparse now wallet pair evidence d db')
  note eff = submit_dispute_effect [OF submits.hyps(3)]
  have "next_row (map di_row (db_disputes db)) \<notin> di_row ` set (db_disputes db)" using fresh_row by (metis set_map)
  then show ?case using eff submits.IH submits.hyps(2) by (auto simp: dispute_inv_def disputes_wf_def)
next
  case (votes db now i voter vote d db')
  from votes.hyps(2) obtain dbs where dbs: "cast_vote_commits 3 now i voter vote db = Inr dbs" "db' = last dbs"
    by (auto simp: dispute_cast_vote_def split: sum.splits)
  have wf: "disputes_wf (db_disputes db)" using votes.IH by (simp add: dispute_inv_def)
  from cast_vote_effect [OF wf dbs(1)] obtain e vs db1 where e: "load_dispute i db = Some e" "dispute_ok (resolved_as now vs e)"
      "db_disputes db' = update_where (\<lambda>x. di_row x = di_row e) (resolved_as now vs) (db_disputes db)"
      "db_overrides db1 = db_overrides db" "db_queue db1 = db_queue db"
      "if status_after vs = Dispute_approved then db' = record_override now e db1
       else db_overrides db' = db_overrides db \<and> db_queue db' = db_queue db"
    unfolding dbs(2) by blast
  have mem: "e \<in> set (db_disputes db)" using load_dispute_Some [OF e(1)] by simp
  have "disputes_wf (db_disputes db')" unfolding e(3) by (rule disputes_update_wf [where f = "resolved_as now vs", OF wf mem e(2)]) simp
  moreover have "mirrored (db_queue db1) (db_overrides db1)" using votes.IH e(4,5) by (simp add: dispute_inv_def)
  note rec = mirrored_record [OF this, where now = now and d = e]
  have "mirrored (db_queue db') (db_overrides db')"
    using rec(1) votes.IH e(6) by (auto simp: dispute_inv_def split: if_splits)
  moreover have "di_id x \<in> so_dispute ` set (db_overrides db')" if x: "x \<in> set (db_disputes db')" "di_status x = Dispute_approved" for x
  proof -
    have keep: "so_dispute ` set (db_overrides db) \<subseteq> so_dispute ` set (db_overrides db')"
      using e(4,6) by (auto simp: record_override_def Let_def split: if_splits)
    from x(1) obtain y where y: "y \<in> set (db_disputes db)" "x = (if di_row y = di_row e then resolved_as now vs y else y)"
      unfolding e(3) by (auto simp: set_update_where)
    show ?thesis
    proof (cases "di_row y = di_row e")
      case True
      then have "y = e" using wf y(1) mem by (auto simp: disputes_wf_def distinct_map inj_on_def)
      moreover have "status_after vs = Dispute_approved"
        using x(2) y(2) True e(2) \<open>y = e\<close> by (simp add: dispute_ok_def)
      ultimately show ?thesis using e(6) rec(2) y(2) by simp
    next
      case False
      then show ?thesis using votes.IH x(2) y keep by (auto simp: dispute_inv_def)
    qed
  qed
  ultimately show ?case by (simp add: dispute_inv_def)
next
  case (publishes db now now' submit)
  then show ?case
    using publish_next_mirrored [of db now now' submit] publish_next_frame [of now now' submit db]
      arg_cong [OF publish_next_overrides [of now now' submit db], of set] by (simp add: dispute_inv_def)
next
  case (others db c s)
  then show ?case by (simp add: dispute_inv_def)
qed

section \<open>Properties\<close>

text \<open>
  C7: no approved dispute is forgotten. In every history of calls that run to their end, an
  approved dispute has an override row, the queue holds the obligation to publish it under
  the key of that dispute and override, and the override is marked submitted exactly when
  the queue row is.
\<close>

theorem approved_disputes_are_published:
  assumes "dispute_history db" "d \<in> set (db_disputes db)" "di_status d = Dispute_approved"
  shows "\<exists>ov\<in>set (db_overrides db). \<exists>r\<in>set (db_queue db). so_dispute ov = di_id d \<and>
    sub_key r = override_idempotency_key (di_id d) (so_id ov) \<and>
    (so_status ov = Override_submitted \<longleftrightarrow> sub_status_of r = Submitted)"
proof -
  have inv: "dispute_inv db" by (rule dispute_history_inv [OF assms(1)])
  then obtain ov where ov: "ov \<in> set (db_overrides db)" "so_dispute ov = di_id d"
    using assms(2,3) by (auto simp: dispute_inv_def)
  have "override_view ov \<in> set (map queue_view (db_queue db))" using inv ov(1) by (simp add: dispute_inv_def mirrored_def)
  then obtain r where r: "r \<in> set (db_queue db)" "queue_view r = override_view ov" by auto
  have "sub_key r = override_idempotency_key (sub_dispute_id r) (sub_override_id r)"
    using inv r(1) by (simp add: dispute_inv_def mirrored_def)
  then show ?thesis using ov r by (intro bexI [of _ ov] bexI [of _ r]) (auto simp: queue_view_def override_view_def)
qed

text \<open>
  Each committee member votes at most once on a dispute, and with the quorum of three the
  dispute is pending until its third vote and then approved exactly if two of the three
  approve; a resolved dispute takes no further vote.
\<close>

lemma dispute_voting:
  assumes "dispute_history db" "d \<in> set (db_disputes db)"
  shows "distinct (map cv_voter (di_votes d)) \<and> length (di_votes d) \<le> 3 \<and>
    di_status d = (if length (di_votes d) < 3 then Dispute_pending
      else if 2 \<le> row_count cv_approve (di_votes d) then Dispute_approved else Dispute_rejected) \<and>
    (di_status d \<noteq> Dispute_pending \<longrightarrow> (\<exists>e. \<forall>now voter vote. length voter = 64 \<and> vote \<in> {''approve'', ''reject''} \<longrightarrow>
       dispute_cast_vote 3 now (di_id d) voter vote db = Inl e))"
proof -
  have wf: "disputes_wf (db_disputes db)" using dispute_history_inv [OF assms(1)] by (simp add: dispute_inv_def)
  then have ok: "dispute_ok d" using assms(2) by (simp add: disputes_wf_def)
  obtain d' where d': "load_dispute (di_id d) db = Some d'"
    using assms(2) by (cases "load_dispute (di_id d) db") (auto simp: load_dispute_def find_None_iff)
  then have "d' = d" using load_dispute_Some [OF d'] assms(2) wf by (auto simp: disputes_wf_def distinct_map inj_on_def)
  then have "dispute_cast_vote 3 now (di_id d) voter vote db = Inl Already_resolved"
    if "di_status d \<noteq> Dispute_pending" "length voter = 64" "vote \<in> {''approve'', ''reject''}" for now voter vote
    using that d' by (auto simp: dispute_cast_vote_def cast_vote_commits_def record_vote_def)
  then show ?thesis using ok by (auto simp: dispute_ok_def status_after_def)
qed

definition key_hash :: "char \<Rightarrow> string" where
  "key_hash c = replicate 64 c"

definition sample_dispute :: dispute where
  "sample_dispute = \<lparr>di_row = 1, di_id = ''u1'', di_wallet = ''GA'', di_pair = ''XLM/USDC'', di_score = 90, di_tx_hash = ''tx'',
     di_evidence = None, di_submitted_at = 0, di_status = Dispute_pending, di_votes = [], di_resolved_at = None, di_resolution = None\<rparr>"

definition sample_db :: dispute_db where
  "sample_db = \<lparr>db_submissions = [\<lparr>cs_wallet = ''GA'', cs_pair = ''XLM/USDC'', cs_tx_hash = Some ''tx'', cs_submitted_at = 0\<rparr>],
     db_scores = [\<lparr>sc_wallet = ''GA'', sc_pair = ''XLM/USDC'', sc_score = 90, sc_timestamp = 0\<rparr>],
     db_disputes = [sample_dispute], db_overrides = [], db_queue = []\<rparr>"

lemma sample_db_history: "dispute_history sample_db"
proof (rule dispute_history.submits)
  let ?db = "sample_db\<lparr>db_disputes := []\<rparr>"
  show "dispute_history ?db" unfolding sample_db_def dispute_db.update_convs by (rule dispute_history.start)
  show "''u1'' \<notin> di_id ` set (db_disputes ?db)" by simp
  show "submit_dispute (\<lambda>_. (''https'', None)) 0 ''u1'' ''GA'' ''XLM/USDC'' None ?db = Inr (sample_dispute, sample_db)"
    by (simp add: submit_dispute_def Let_def sample_db_def sample_dispute_def next_row_def)
qed

lemma vote_continues: "dispute_cast_vote 3 now i voter vote db = Inr (d, db') \<Longrightarrow> dispute_history db \<Longrightarrow> dispute_history db'"
  by (rule dispute_history.votes)

definition two_votes :: "committee_vote list" where
  "two_votes = [\<lparr>cv_voter = key_hash CHR ''a'', cv_approve = True, cv_voted_at = 1\<rparr>,
     \<lparr>cv_voter = key_hash CHR ''b'', cv_approve = False, cv_voted_at = 2\<rparr>]"

definition voted_db :: dispute_db where
  "voted_db = sample_db\<lparr>db_disputes := [sample_dispute\<lparr>di_votes := two_votes\<rparr>]\<rparr>"

lemma key_hash_props [simp]: "length (key_hash c) = 64" "key_hash c = key_hash c' \<longleftrightarrow> c = c'"
  by (simp_all add: key_hash_def)

lemma voted_db_history: "dispute_history voted_db"
proof -
  let ?one = "sample_db\<lparr>db_disputes := [sample_dispute\<lparr>di_votes := [hd two_votes]\<rparr>]\<rparr>"
  have "\<exists>d. dispute_cast_vote 3 1 ''u1'' (key_hash CHR ''a'') ''approve'' sample_db = Inr (d, ?one)"
    by (simp add: dispute_cast_vote_def cast_vote_commits_def record_vote_def load_dispute_def sample_db_def sample_dispute_def
        set_dispute_def update_where_def committee_verdict_def two_votes_def Let_def)
  then have "dispute_history ?one" using vote_continues sample_db_history by blast
  moreover have "\<exists>d. dispute_cast_vote 3 2 ''u1'' (key_hash CHR ''b'') ''reject'' ?one = Inr (d, voted_db)"
    by (simp add: dispute_cast_vote_def cast_vote_commits_def record_vote_def load_dispute_def sample_db_def sample_dispute_def
        set_dispute_def update_where_def committee_verdict_def two_votes_def voted_db_def Let_def)
  ultimately show ?thesis using vote_continues by blast
qed

lemma third_vote:
  "\<exists>db1 db2 db3. cast_vote_commits 3 3 ''u1'' (key_hash CHR ''c'') ''approve'' voted_db = Inr [db1, db2, db3] \<and>
     (\<exists>d\<in>set (db_disputes db3). di_status d = Dispute_approved \<and> di_id d = ''u1'')"
  by (simp add: cast_vote_commits_def record_vote_def load_dispute_def voted_db_def sample_db_def sample_dispute_def
      set_dispute_def update_where_def committee_verdict_def two_votes_def row_count_def write_dispute_row_def
      record_override_def Let_def)

theorem approved_disputes_are_published_witness:
  "\<exists>db. dispute_history db \<and> (\<exists>ov\<in>set (db_overrides db). so_dispute ov = ''u1'')"
proof -
  from third_vote obtain db1 db2 db3 d where v: "cast_vote_commits 3 3 ''u1'' (key_hash CHR ''c'') ''approve'' voted_db = Inr [db1, db2, db3]"
      "d \<in> set (db_disputes db3)" "di_status d = Dispute_approved" "di_id d = ''u1''" by blast
  have "dispute_history db3"
    using dispute_history.votes [OF voted_db_history, of 3 "''u1''" "key_hash CHR ''c''" "''approve''"] v(1)
    by (simp add: dispute_cast_vote_def)
  with approved_disputes_are_published [OF this v(2,3)] v(4) show ?thesis by auto
qed

lemma dispute_voting_witness:
  "\<exists>d\<in>set (db_disputes voted_db). distinct (map cv_voter (di_votes d)) \<and> length (di_votes d) = 2 \<and> di_status d = Dispute_pending"
proof -
  have "sample_dispute\<lparr>di_votes := two_votes\<rparr> \<in> set (db_disputes voted_db)" by (simp add: voted_db_def)
  with dispute_voting [OF voted_db_history this] show ?thesis
    by (intro bexI [of _ "sample_dispute\<lparr>di_votes := two_votes\<rparr>"]) (simp_all add: two_votes_def)
qed

text \<open>
  A crash inside \<open>cast_vote\<close> loses an approved override. The dispute is committed as approved
  before the override, the obligation and the removal of the score are committed together; a
  process that dies in between leaves a database in which the dispute is approved and takes
  no vote any more, while no override and no obligation was recorded and the score is still
  there.
\<close>

lemma crash_loses_approved_override:
  assumes "disputes_wf (db_disputes db)" "cast_vote_commits 3 now i voter vote db = Inr [db1, db2, db3]"
  shows "(\<exists>d. load_dispute i db2 = Some d \<and> di_status d = Dispute_approved) \<and>
    db_overrides db2 = db_overrides db \<and> db_queue db2 = db_queue db \<and> db_scores db2 = db_scores db \<and>
    (\<forall>now' voter' vote' r. dispute_cast_vote 3 now' i voter' vote' db2 \<noteq> Inr r)"
proof -
  from assms(2) obtain d votes where r: "record_vote now i voter vote db = Inr (d, votes, db1)"
      "db2 = write_dispute_row (di_row d) Dispute_approved votes (Some now) (Some ''score_removed'') db1"
    by (auto simp: cast_vote_commits_def Let_def split: sum.splits verdict.splits)
  then have d: "load_dispute i db = Some d" "db1 = set_dispute (di_row d) (\<lambda>d. d\<lparr>di_votes := votes\<rparr>) db"
    by (auto simp: record_vote_def Let_def split: if_splits option.splits)
  let ?f = "\<lambda>x. x\<lparr>di_status := Dispute_approved, di_votes := votes, di_resolved_at := Some now, di_resolution := Some ''score_removed''\<rparr>"
  have ds: "db_disputes db2 = update_where (\<lambda>x. di_row x = di_row d) ?f (db_disputes db)"
    unfolding r(2) d(2) by (simp add: write_dispute_row_def set_dispute_def update_where_compose)
  have "find (\<lambda>x. di_id x = i) ds = Some d \<Longrightarrow>
      find (\<lambda>x. di_id x = i) (update_where (\<lambda>x. di_row x = di_row d) ?f ds) = Some (?f d)" for ds
    by (induction ds) (auto simp: update_where_Cons split: if_splits)
  then have l: "load_dispute i db2 = Some (?f d)" using d(1) ds by (simp add: load_dispute_def)
  then have "\<forall>now' voter' vote' r. dispute_cast_vote 3 now' i voter' vote' db2 \<noteq> Inr r"
    by (simp add: dispute_cast_vote_def cast_vote_commits_def record_vote_def)
  moreover have "db_overrides db2 = db_overrides db \<and> db_queue db2 = db_queue db \<and> db_scores db2 = db_scores db"
    unfolding r(2) d(2) by (simp add: write_dispute_row_def set_dispute_def)
  ultimately show ?thesis using l by simp
qed

lemma crash_loses_approved_override_witness:
  "\<exists>db1 db2 db3. cast_vote_commits 3 3 ''u1'' (key_hash CHR ''c'') ''approve'' voted_db = Inr [db1, db2, db3] \<and>
     db_queue db2 = [] \<and> (\<exists>d. load_dispute ''u1'' db2 = Some d \<and> di_status d = Dispute_approved)"
proof -
  from third_vote obtain db1 db2 db3 where v: "cast_vote_commits 3 3 ''u1'' (key_hash CHR ''c'') ''approve'' voted_db = Inr [db1, db2, db3]"
    by blast
  have "disputes_wf (db_disputes voted_db)" using dispute_history_inv [OF voted_db_history] by (simp add: dispute_inv_def)
  from crash_loses_approved_override [OF this v] v show ?thesis by (auto simp: voted_db_def sample_db_def)
qed

text \<open>
  The check of evidence links lets private addresses through. Hosts that start with 10., 127.
  or 192.168. are refused, but every https link whose host starts with 172. is accepted, the
  private range 172.16 to 172.31 included, whatever follows.
\<close>

lemma private_evidence_accepted:
  "(\<forall>url h rest. urlparse url = (''https'', Some h) \<and> (h = ''10.'' @ rest \<or> h = ''127.'' @ rest \<or> h = ''192.168.'' @ rest) \<longrightarrow>
      validate_evidence_url urlparse url = Inl Private_address) \<and>
   (\<forall>url rest. urlparse url = (''https'', Some (''172.'' @ rest)) \<longrightarrow> validate_evidence_url urlparse url = Inr ())"
proof -
  have https: "py_lower ''https'' = ''https''" by code_simp
  have "second_octet_check h = Inr ()" for h
    by (simp add: second_octet_check_def Let_def split: option.split)
  then show ?thesis by (auto simp: validate_evidence_url_def https host_starts_def Let_def)
qed

lemma private_evidence_accepted_witness:
  "validate_evidence_url (\<lambda>_. (''https'', Some ''172.16.0.1'')) ''https://172.16.0.1/report'' = Inr ()"
  using private_evidence_accepted [of "\<lambda>_. (''https'', Some ''172.16.0.1'')"] by simp

end
