(* ===== verification/Alerts.thy ===== *)
theory Alerts
  imports Prelude "HOL-Library.Char_ord" "HOL-Library.List_Lexorder"
begin

text \<open>
  From scores to alerts: the blend of signals into a score (\<open>packages/core/detection/risk_score.py\<close>),
  the suppression rules (\<open>packages/core/detection/suppressions.py\<close>) and the alert state machine
  (\<open>AlertDeduplicator\<close> of \<open>packages/core/detection/alert_engine.py\<close>).

  An observation runs in one transaction and is one step. Expiry times of suppression rules are
  texts that an operator enters; the code compares them with the current time as texts, so that
  time is given as its text. Pydantic's validation of a score is the error case of
  \<open>combine\<close>; logging, table creation and the cache of stores are left out.
\<close>

section \<open>Scores\<close>

record risk_score =
  rs_wallet :: string
  rs_asset_pair :: string
  rs_score :: int
  rs_benford_flag :: bool
  rs_ml_flag :: bool
  rs_confidence :: int
  rs_disputed :: bool
  rs_timestamp :: instant
  rs_latency_ms :: "real option"
  rs_score_lower :: "real option"
  rs_score_upper :: "real option"
  rs_prediction_set :: "int list option"
  rs_coverage_guarantee :: "real option"

definition in_bounds :: "real \<Rightarrow> real \<Rightarrow> real option \<Rightarrow> bool" where
  "in_bounds lo hi v = (case v of None \<Rightarrow> True | Some x \<Rightarrow> lo \<le> x \<and> x \<le> hi)"

definition score_valid :: "risk_score \<Rightarrow> bool" where
  "score_valid s \<longleftrightarrow>
     0 \<le> rs_score s \<and> rs_score s \<le> 100 \<and> 0 \<le> rs_confidence s \<and> rs_confidence s \<le> 100 \<and>
     in_bounds 0 100 (rs_score_lower s) \<and> in_bounds 0 100 (rs_score_upper s) \<and> in_bounds 0 1 (rs_coverage_guarantee s)"

record score_signals =
  sg_benford_mad :: real
  sg_benford_mad_threshold :: real
  sg_ml_probability :: real
  sg_ml_confidence :: real
  sg_score_lower :: "real option"
  sg_score_upper :: "real option"
  sg_prediction_set :: "int list option"
  sg_coverage_guarantee :: "real option"
  sg_sandwich_signal :: real
  sg_sandwich_weight :: real
  sg_pdc_score :: real
  sg_pdc_discount_weight :: real
  sg_benford_copula_pval :: real
  sg_benford_copula_weight :: real

definition blend :: "real \<Rightarrow> real \<Rightarrow> real \<Rightarrow> real" where
  "blend weight base component = (1 - weight) * base + weight * component"

definition base_component :: "score_signals \<Rightarrow> real" where
  "base_component g =
     (let benford_component = (if sg_benford_mad_threshold g \<noteq> 0
            then min (sg_benford_mad g / sg_benford_mad_threshold g) 1 * 100 else 0);
          ml_component = sg_ml_probability g * 100
      in 3 / 10 * benford_component + 7 / 10 * ml_component)"

definition combined_score :: "score_signals \<Rightarrow> int" where
  "combined_score g =
     (let sandwich_weight = clamp 0 1 (sg_sandwich_weight g);
          sandwich_component = clamp 0 1 (sg_sandwich_signal g) * 100;
          score1 = py_round (blend sandwich_weight (base_component g) sandwich_component);
          copula_weight = clamp 0 1 (sg_benford_copula_weight g);
          copula_component = clamp 0 1 (1 - sg_benford_copula_pval g) * 100;
          score2 = py_round (blend copula_weight (of_int score1) copula_component);
          causal_adjustment = max 0 (sg_pdc_score g) * sg_pdc_discount_weight g;
          score3 = py_round (max 0 (of_int score2 - causal_adjustment))
      in clamp 0 100 score3)"

definition combine :: "instant \<Rightarrow> string \<Rightarrow> string \<Rightarrow> score_signals \<Rightarrow> risk_score option" where
  "combine now wallet asset_pair g =
     (let s = \<lparr>rs_wallet = wallet, rs_asset_pair = asset_pair, rs_score = combined_score g,
               rs_benford_flag = (sg_benford_mad_threshold g < sg_benford_mad g),
               rs_ml_flag = (1 / 2 \<le> sg_ml_probability g),
               rs_confidence = py_round (sg_ml_confidence g * 100), rs_disputed = False, rs_timestamp = now,
               rs_latency_ms = None,
               rs_score_lower = sg_score_lower g, rs_score_upper = sg_score_upper g,
               rs_prediction_set = sg_prediction_set g, rs_coverage_guarantee = sg_coverage_guarantee g\<rparr>
      in if score_valid s then Some s else None)"

definition temporal_risk_adjustment :: "int \<Rightarrow> real option \<Rightarrow> int \<Rightarrow> real \<Rightarrow> int" where
  "temporal_risk_adjustment snapshot_score temporal_score history_days temporal_weight =
     (case temporal_score of
        None \<Rightarrow> snapshot_score
      | Some t \<Rightarrow>
          if history_days < 7 then snapshot_score
          else clamp 0 100 (py_round ((1 - temporal_weight) * of_int snapshot_score + temporal_weight * (t * 100))))"

section \<open>Suppression rules\<close>

record suppression =
  sr_id :: nat
  sr_wallet :: string
  sr_reason :: string
  sr_created_at :: string
  sr_expires_at :: "string option"

record suppressions =
  st_rows :: "suppression list"
  st_last_id :: nat

definition add_suppression :: "string \<Rightarrow> string \<Rightarrow> string \<Rightarrow> string option \<Rightarrow> suppressions \<Rightarrow> suppression \<times> suppressions" where
  "add_suppression created_at wallet reason expires_at st =
     (let rule = \<lparr>sr_id = st_last_id st + 1, sr_wallet = wallet, sr_reason = reason,
                  sr_created_at = created_at, sr_expires_at = expires_at\<rparr>
      in (rule, st\<lparr>st_rows := st_rows st @ [rule], st_last_id := st_last_id st + 1\<rparr>))"

definition rule_active :: "string \<Rightarrow> suppression \<Rightarrow> bool" where
  "rule_active now rule = (case sr_expires_at rule of None \<Rightarrow> True | Some e \<Rightarrow> now < e)"

definition list_active :: "string \<Rightarrow> suppressions \<Rightarrow> suppression list" where
  "list_active now st = filter (rule_active now) (st_rows st)"

definition delete_suppression :: "nat \<Rightarrow> suppressions \<Rightarrow> bool \<times> suppressions" where
  "delete_suppression rule_id st =
     (0 < row_count (\<lambda>r. sr_id r = rule_id) (st_rows st),
      st\<lparr>st_rows := delete_where (\<lambda>r. sr_id r = rule_id) (st_rows st)\<rparr>)"

definition is_suppressed :: "string \<Rightarrow> string \<Rightarrow> suppressions \<Rightarrow> suppression option" where
  "is_suppressed now wallet st = List.find (\<lambda>r. sr_wallet r = wallet \<and> rule_active now r) (st_rows st)"

definition filter_suppressed_alerts :: "string \<Rightarrow> suppressions \<Rightarrow> (string option \<times> 'a) list \<Rightarrow> (string option \<times> 'a) list" where
  "filter_suppressed_alerts now st alerts =
     filter (\<lambda>a. is_suppressed now (case fst a of None \<Rightarrow> [] | Some w \<Rightarrow> w) st = None) alerts"

section \<open>The alert state machine\<close>

datatype alert_kind = Alert_Opened | Alert_Escalated | Alert_Resolved

record alert_state =
  al_active :: bool
  al_last_score :: real
  al_streak :: nat
  al_opened_at :: "instant option"
  al_updated_at :: instant

record alert_event =
  ev_wallet :: string
  ev_kind :: alert_kind
  ev_score :: real
  ev_previous_score :: "real option"
  ev_emitted_at :: instant

record alert_db =
  db_states :: "(string, alert_state) dict"
  db_events :: "alert_event list"
  db_rules :: suppressions

definition escalation_delta :: real where
  "escalation_delta = 10"

definition resolution_consecutive :: nat where
  "resolution_consecutive = 3"

definition emit_event ::
  "instant \<Rightarrow> string \<Rightarrow> alert_kind \<Rightarrow> real \<Rightarrow> real option \<Rightarrow> alert_event" where
  "emit_event emitted wallet kind score previous =
     \<lparr>ev_wallet = wallet, ev_kind = kind, ev_score = score, ev_previous_score = previous, ev_emitted_at = emitted\<rparr>"

definition initial_alert_state :: "instant \<Rightarrow> alert_state" where
  "initial_alert_state now =
     \<lparr>al_active = False, al_last_score = 0, al_streak = 0, al_opened_at = None, al_updated_at = now\<rparr>"

text \<open>One observation: the new row of the wallet and the event emitted, if any.\<close>

definition observe :: "int \<Rightarrow> instant \<Rightarrow> real \<Rightarrow> alert_state \<Rightarrow> alert_state \<times> (alert_kind \<times> real option) option" where
  "observe threshold now score row =
     (let above = (of_int threshold \<le> score);
          written = row\<lparr>al_last_score := score, al_updated_at := now\<rparr>
      in if \<not> al_active row then
           (if above
            then (written\<lparr>al_active := True, al_streak := 0, al_opened_at := Some now\<rparr>, Some (Alert_Opened, None))
            else (written\<lparr>al_streak := 0\<rparr>, None))
         else
           (if above
            then (written\<lparr>al_streak := 0\<rparr>,
                  if al_last_score row + escalation_delta < score then Some (Alert_Escalated, Some (al_last_score row)) else None)
            else (if resolution_consecutive \<le> al_streak row + 1
                  then (written\<lparr>al_active := False, al_streak := 0, al_opened_at := None\<rparr>,
                        Some (Alert_Resolved, Some (al_last_score row)))
                  else (written\<lparr>al_streak := al_streak row + 1\<rparr>, None))))"

definition process :: "int \<Rightarrow> string \<Rightarrow> instant \<Rightarrow> instant \<Rightarrow> string \<Rightarrow> real \<Rightarrow> alert_db \<Rightarrow> alert_event list \<times> alert_db" where
  "process threshold now_text now emitted wallet score db =
     (case is_suppressed now_text wallet (db_rules db) of
        Some rule \<Rightarrow> ([], db)
      | None \<Rightarrow>
          (let row = (case dict_get (db_states db) wallet of None \<Rightarrow> initial_alert_state now | Some r \<Rightarrow> r);
               (row', emission) = observe threshold now score row;
               events = (case emission of None \<Rightarrow> [] | Some (kind, previous) \<Rightarrow> [emit_event emitted wallet kind score previous])
           in (events, db\<lparr>db_states := dict_set wallet row' (db_states db), db_events := db_events db @ events\<rparr>)))"

definition get_alert_state :: "string \<Rightarrow> alert_db \<Rightarrow> alert_state option" where
  "get_alert_state wallet db = dict_get (db_states db) wallet"

definition get_alert_events :: "string \<Rightarrow> nat \<Rightarrow> alert_db \<Rightarrow> alert_event list" where
  "get_alert_events wallet limit db =
     take limit (sort_key (\<lambda>e. - ev_emitted_at e) (filter (\<lambda>e. ev_wallet e = wallet) (db_events db)))"

section \<open>Histories\<close>

datatype alert_step =
    Observation string instant instant string real
  | Rule_Added string string string "string option"
  | Rule_Deleted nat

text \<open>A step on the database, together with the observations that were not suppressed.\<close>

definition take_alert_step :: "int \<Rightarrow> alert_step \<Rightarrow> alert_db \<times> (string \<times> real) list \<Rightarrow> alert_db \<times> (string \<times> real) list" where
  "take_alert_step threshold step st =
     (let (db, seen) = st in
      case step of
        Observation now_text now emitted wallet score \<Rightarrow>
          (snd (process threshold now_text now emitted wallet score db),
           if is_suppressed now_text wallet (db_rules db) = None then seen @ [(wallet, score)] else seen)
      | Rule_Added created wallet reason expires \<Rightarrow>
          (db\<lparr>db_rules := snd (add_suppression created wallet reason expires (db_rules db))\<rparr>, seen)
      | Rule_Deleted rule_id \<Rightarrow> (db\<lparr>db_rules := snd (delete_suppression rule_id (db_rules db))\<rparr>, seen))"

definition empty_alert_db :: alert_db where
  "empty_alert_db = \<lparr>db_states = [], db_events = [], db_rules = \<lparr>st_rows = [], st_last_id = 0\<rparr>\<rparr>"

definition alert_run :: "int \<Rightarrow> alert_step list \<Rightarrow> alert_db \<times> (string \<times> real) list" where
  "alert_run threshold steps = fold (take_alert_step threshold) steps (empty_alert_db, [])"

definition scores_of :: "string \<Rightarrow> (string \<times> real) list \<Rightarrow> real list" where
  "scores_of wallet seen = map snd (filter (\<lambda>x. fst x = wallet) seen)"

definition kinds_of :: "string \<Rightarrow> alert_event list \<Rightarrow> alert_kind list" where
  "kinds_of wallet events = map ev_kind (filter (\<lambda>e. ev_wallet e = wallet) events)"

text \<open>
  The words an alert may write: opened, then any number of escalations, then resolved, and again.
  The result tells whether the last alert is still open.
\<close>

fun alert_word :: "bool \<Rightarrow> alert_kind list \<Rightarrow> bool option" where
  "alert_word on [] = Some on"
| "alert_word on (Alert_Opened # ks) = (if on then None else alert_word True ks)"
| "alert_word on (Alert_Escalated # ks) = (if on then alert_word True ks else None)"
| "alert_word on (Alert_Resolved # ks) = (if on then alert_word False ks else None)"

definition recent_high :: "int \<Rightarrow> real list \<Rightarrow> bool" where
  "recent_high threshold h = list_ex (\<lambda>x. of_int threshold \<le> x) (take 3 (rev h))"

definition low_run :: "int \<Rightarrow> real list \<Rightarrow> nat" where
  "low_run threshold h = length (takeWhile (\<lambda>x. x < of_int threshold) (rev h))"

definition row_inv :: "int \<Rightarrow> real list \<Rightarrow> alert_kind list \<Rightarrow> alert_state option \<Rightarrow> bool" where
  "row_inv threshold h ks row =
     (case row of
        None \<Rightarrow> h = [] \<and> ks = []
      | Some r \<Rightarrow>
          h \<noteq> [] \<and> al_last_score r = last h \<and> al_active r = recent_high threshold h \<and>
          al_streak r = (if al_active r then low_run threshold h else 0) \<and>
          (al_opened_at r \<noteq> None \<longleftrightarrow> al_active r) \<and> alert_word False ks = Some (al_active r))"

definition alert_inv :: "int \<Rightarrow> alert_db \<times> (string \<times> real) list \<Rightarrow> bool" where
  "alert_inv threshold st \<longleftrightarrow>
     (\<forall>w. row_inv threshold (scores_of w (snd st)) (kinds_of w (db_events (fst st))) (dict_get (db_states (fst st)) w))"

lemma recent_high_iff: "recent_high threshold h \<longleftrightarrow> low_run threshold h < min 3 (length h)"
proof -
  have "list_ex P (take n xs) \<longleftrightarrow> length (takeWhile (\<lambda>x. \<not> P x) xs) < min n (length xs)"
    for P :: "real \<Rightarrow> bool" and n xs
    by (induction xs arbitrary: n) (auto simp: take_Cons split: nat.splits)
  from this [of "\<lambda>x. of_int threshold \<le> x" 3 "rev h"] show ?thesis
    by (simp add: recent_high_def low_run_def not_le)
qed

lemma low_run_snoc:
  "low_run threshold (h @ [x]) = (if x < of_int threshold then Suc (low_run threshold h) else 0)"
  by (simp add: low_run_def)

lemma low_run_Nil [simp]: "low_run threshold [] = 0"
  by (simp add: low_run_def)

lemma low_run_le: "low_run threshold h \<le> length h"
  unfolding low_run_def by (metis length_rev length_takeWhile_le)

lemma alert_word_append:
  "alert_word on (ks @ ks') = (case alert_word on ks of None \<Rightarrow> None | Some on' \<Rightarrow> alert_word on' ks')"
  by (induction on ks rule: alert_word.induct) auto

text \<open>One observation keeps the row in step with the scores seen and with the events written.\<close>

lemma observe_row:
  assumes inv: "row_inv threshold h ks row"
    and obs: "observe threshold now score (case row of None \<Rightarrow> initial_alert_state now | Some r \<Rightarrow> r) = (row', emission)"
  shows "row_inv threshold (h @ [score]) (ks @ (case emission of None \<Rightarrow> [] | Some e \<Rightarrow> [fst e])) (Some row')"
proof -
  define r where "r = (case row of None \<Rightarrow> initial_alert_state now | Some r \<Rightarrow> r)"
  have r: "al_active r = recent_high threshold h" "al_streak r = (if al_active r then low_run threshold h else 0)"
    "al_opened_at r \<noteq> None \<longleftrightarrow> al_active r" "alert_word False ks = Some (al_active r)"
    using inv by (auto simp: r_def row_inv_def initial_alert_state_def recent_high_def split: option.splits)
  show ?thesis
  proof (cases "al_active r")
    case False
    then show ?thesis using obs r low_run_le [of threshold h] unfolding r_def [symmetric]
      by (auto simp: observe_def Let_def row_inv_def recent_high_iff low_run_snoc alert_word_append split: if_splits)
  next
    case True
    then have "low_run threshold h < 3" using r(1) by (simp add: recent_high_iff)
    then show ?thesis using obs r True low_run_le [of threshold h] unfolding r_def [symmetric]
      by (auto simp: observe_def Let_def row_inv_def recent_high_iff low_run_snoc alert_word_append
          resolution_consecutive_def split: if_splits)
  qed
qed

lemma alert_step_inv:
  assumes "alert_inv threshold st"
  shows "alert_inv threshold (take_alert_step threshold step st)"
proof -
  obtain db seen where st: "st = (db, seen)" by (cases st)
  show ?thesis
  proof (cases step)
    case (Observation now_text now emitted wallet score)
    show ?thesis
    proof (cases "is_suppressed now_text wallet (db_rules db)")
      case None
      let ?row = "dict_get (db_states db) wallet"
      obtain row' emission where obs: "observe threshold now score
          (case ?row of None \<Rightarrow> initial_alert_state now | Some r \<Rightarrow> r) = (row', emission)" by fastforce
      have "row_inv threshold (scores_of wallet seen) (kinds_of wallet (db_events db)) ?row"
        using assms by (simp add: alert_inv_def st)
      note new = observe_row [OF this obs]
      let ?new = "case emission of None \<Rightarrow> [] | Some (kind, previous) \<Rightarrow> [emit_event emitted wallet kind score previous]"
      have step': "take_alert_step threshold step st =
          (db\<lparr>db_states := dict_set wallet row' (db_states db), db_events := db_events db @ ?new\<rparr>, seen @ [(wallet, score)])"
        using None obs by (simp add: take_alert_step_def st Observation process_def Let_def)
      have "kinds_of wallet ?new = (case emission of None \<Rightarrow> [] | Some e \<Rightarrow> [fst e])"
        "\<And>w. w \<noteq> wallet \<Longrightarrow> kinds_of w ?new = []"
        by (auto simp: kinds_of_def emit_event_def split: option.splits)
      then show ?thesis using assms [unfolded st] new unfolding step' alert_inv_def
        by (auto simp: dict_simps scores_of_def kinds_of_def)
    next
      case (Some rule)
      then show ?thesis using assms by (simp add: take_alert_step_def st Observation process_def)
    qed
  qed (use assms in \<open>simp_all add: take_alert_step_def st alert_inv_def\<close>)
qed

interpretation alert_history: invariant_run "\<lambda>_. True" "take_alert_step threshold" "alert_inv threshold" for threshold
  by unfold_locales (rule alert_step_inv)

lemma alert_run_inv: "alert_inv threshold (alert_run threshold steps)"
  unfolding alert_run_def
  by (rule alert_history.inv_run)
     (simp_all add: alert_inv_def empty_alert_db_def row_inv_def scores_of_def kinds_of_def)

section \<open>Scores stay in range and grow with the evidence\<close>

lemma clamp_mono: "x \<le> y \<Longrightarrow> clamp lo hi x \<le> clamp lo hi y"
  unfolding clamp_def by (intro max.mono min.mono) simp_all

lemma blend_mono:
  assumes "0 \<le> w" "w \<le> 1" "x \<le> y" "a \<le> b"
  shows "blend w x a \<le> blend w y b"
  using assms unfolding blend_def by (intro add_mono mult_left_mono) auto

lemma clamp01: "0 \<le> clamp 0 1 (x::real)" "clamp 0 1 (x::real) \<le> 1"
  using clamp_bounds [of 0 1 x] by simp_all

text \<open>The evidence of \<open>g'\<close> is at least that of \<open>g\<close>, all else equal.\<close>

definition more_evidence :: "score_signals \<Rightarrow> score_signals \<Rightarrow> bool" where
  "more_evidence g g' \<longleftrightarrow>
     base_component g \<le> base_component g' \<and> sg_sandwich_signal g \<le> sg_sandwich_signal g' \<and>
     sg_benford_copula_pval g' \<le> sg_benford_copula_pval g \<and>
     sg_sandwich_weight g' = sg_sandwich_weight g \<and> sg_benford_copula_weight g' = sg_benford_copula_weight g \<and>
     sg_pdc_score g' = sg_pdc_score g \<and> sg_pdc_discount_weight g' = sg_pdc_discount_weight g"

lemma combined_score_mono:
  assumes "more_evidence g g'"
  shows "combined_score g \<le> combined_score g'"
proof -
  let ?score1 = "\<lambda>g. py_round (blend (clamp 0 1 (sg_sandwich_weight g)) (base_component g) (clamp 0 1 (sg_sandwich_signal g) * 100))"
  let ?score2 = "\<lambda>g. py_round (blend (clamp 0 1 (sg_benford_copula_weight g)) (of_int (?score1 g))
      (clamp 0 1 (1 - sg_benford_copula_pval g) * 100))"
  have "?score1 g \<le> ?score1 g'"
    using assms clamp01 by (intro py_round_mono) (auto simp: more_evidence_def intro!: blend_mono clamp_mono mult_right_mono)
  then have "?score2 g \<le> ?score2 g'"
    using assms clamp01 by (intro py_round_mono) (auto simp: more_evidence_def intro!: blend_mono clamp_mono mult_right_mono)
  then have "py_round (max 0 (of_int (?score2 g) - max 0 (sg_pdc_score g) * sg_pdc_discount_weight g)) \<le>
      py_round (max 0 (of_int (?score2 g') - max 0 (sg_pdc_score g') * sg_pdc_discount_weight g'))"
    using assms by (intro py_round_mono max.mono diff_mono) (auto simp: more_evidence_def)
  then show ?thesis unfolding combined_score_def Let_def by (rule clamp_mono)
qed

lemma base_component_mono:
  assumes "sg_ml_probability g \<le> sg_ml_probability g'" "sg_benford_mad g \<le> sg_benford_mad g'"
    and "sg_benford_mad_threshold g' = sg_benford_mad_threshold g" "0 \<le> sg_benford_mad_threshold g"
  shows "base_component g \<le> base_component g'"
proof -
  have "min (sg_benford_mad g / sg_benford_mad_threshold g) 1 \<le> min (sg_benford_mad g' / sg_benford_mad_threshold g) 1"
    using assms by (intro min.mono divide_right_mono) auto
  then show ?thesis using assms unfolding base_component_def Let_def by (auto intro!: add_mono)
qed

lemma temporal_adjustment_bounds:
  assumes "0 \<le> snapshot" "snapshot \<le> 100"
  shows "0 \<le> temporal_risk_adjustment snapshot temporal days weight \<and>
    temporal_risk_adjustment snapshot temporal days weight \<le> 100"
  using assms clamp_bounds [of 0 "100::int"] by (simp add: temporal_risk_adjustment_def split: option.splits)

section \<open>Properties\<close>

text \<open>
  A score is always well formed. For all signals, even out of their ranges, \<open>combine\<close> raises a
  validation error only for a confidence that rounds outside 0 to 100 or an uncertainty field
  outside its bounds, never for the score; a returned score lies in 0 to 100, and
  raising the machine learning probability, the Benford deviation or the sandwich signal, all else
  equal, never lowers it.
\<close>

lemma combine_score_valid:
  "(combine now wallet pair g = None \<longleftrightarrow>
      \<not> (0 \<le> py_round (sg_ml_confidence g * 100) \<and> py_round (sg_ml_confidence g * 100) \<le> 100 \<and>
         in_bounds 0 100 (sg_score_lower g) \<and> in_bounds 0 100 (sg_score_upper g) \<and> in_bounds 0 1 (sg_coverage_guarantee g))) \<and>
   (\<forall>s. combine now wallet pair g = Some s \<longrightarrow>
      score_valid s \<and> rs_wallet s = wallet \<and> rs_asset_pair s = pair \<and> rs_score s = combined_score g) \<and>
   (\<forall>p m y. sg_ml_probability g \<le> p \<and> sg_benford_mad g \<le> m \<and> sg_sandwich_signal g \<le> y \<and>
      0 \<le> sg_benford_mad_threshold g \<longrightarrow>
      combined_score g \<le> combined_score (g\<lparr>sg_ml_probability := p, sg_benford_mad := m, sg_sandwich_signal := y\<rparr>))"
proof (intro conjI allI impI)
  have "0 \<le> combined_score g \<and> combined_score g \<le> 100"
    unfolding combined_score_def Let_def by (rule clamp_bounds) simp
  then show "combine now wallet pair g = None \<longleftrightarrow>
      \<not> (0 \<le> py_round (sg_ml_confidence g * 100) \<and> py_round (sg_ml_confidence g * 100) \<le> 100 \<and>
         in_bounds 0 100 (sg_score_lower g) \<and> in_bounds 0 100 (sg_score_upper g) \<and> in_bounds 0 1 (sg_coverage_guarantee g))"
    by (simp add: combine_def Let_def score_valid_def)
next
  fix s assume "combine now wallet pair g = Some s"
  then show "score_valid s" "rs_wallet s = wallet" "rs_asset_pair s = pair" "rs_score s = combined_score g"
    by (auto simp: combine_def Let_def split: if_splits)
next
  fix p m y
  assume "sg_ml_probability g \<le> p \<and> sg_benford_mad g \<le> m \<and> sg_sandwich_signal g \<le> y \<and> 0 \<le> sg_benford_mad_threshold g"
  then show "combined_score g \<le> combined_score (g\<lparr>sg_ml_probability := p, sg_benford_mad := m, sg_sandwich_signal := y\<rparr>)"
    by (intro combined_score_mono) (auto simp: more_evidence_def intro!: base_component_mono)
qed

definition sample_signals :: score_signals where
  "sample_signals = \<lparr>sg_benford_mad = 1 / 100, sg_benford_mad_threshold = 2 / 100, sg_ml_probability = 8 / 10,
     sg_ml_confidence = 9 / 10, sg_score_lower = None, sg_score_upper = Some 90, sg_prediction_set = None,
     sg_coverage_guarantee = None, sg_sandwich_signal = 0, sg_sandwich_weight = 0, sg_pdc_score = 0,
     sg_pdc_discount_weight = 0, sg_benford_copula_pval = 1, sg_benford_copula_weight = 0\<rparr>"

lemma sample_combined:
  "combined_score sample_signals = 71"
  "combined_score (sample_signals\<lparr>sg_ml_probability := 1, sg_benford_mad := 1 / 100, sg_sandwich_signal := 0\<rparr>) = 85"
  by code_simp+

lemma combine_score_valid_witness:
  "combined_score sample_signals = 71 \<and>
   combined_score sample_signals \<le>
     combined_score (sample_signals\<lparr>sg_ml_probability := 1, sg_benford_mad := 1 / 100, sg_sandwich_signal := 0\<rparr>)"
  using combine_score_valid [of 0 "''G''" "''XLM/USD''" sample_signals] sample_combined
  by (simp add: sample_signals_def)

text \<open>
  C20: an alert is active exactly if one of the last three observations reached the threshold. Over
  any history of observations of any wallets and of rules added and deleted, the row of a
  wallet says so of the observations that were not suppressed; its streak counts the low
  observations since, and it knows when it was opened exactly while it is active.
\<close>

theorem alert_active_iff_recent_high:
  assumes "alert_run threshold steps = (db, seen)"
  shows "case get_alert_state w db of
      None \<Rightarrow> scores_of w seen = []
    | Some row \<Rightarrow>
        al_active row = list_ex (\<lambda>x. of_int threshold \<le> x) (take 3 (rev (scores_of w seen))) \<and>
        al_last_score row = last (scores_of w seen) \<and>
        (al_active row \<longrightarrow> al_streak row = length (takeWhile (\<lambda>x. x < of_int threshold) (rev (scores_of w seen)))) \<and>
        (al_opened_at row \<noteq> None \<longleftrightarrow> al_active row)"
proof -
  have "row_inv threshold (scores_of w seen) (kinds_of w (db_events db)) (get_alert_state w db)"
    using alert_run_inv [of threshold steps] assms by (simp add: alert_inv_def get_alert_state_def)
  then show ?thesis
    by (auto simp: row_inv_def recent_high_def low_run_def split: option.splits)
qed

definition sample_alerts :: "alert_step list" where
  "sample_alerts = [Observation ''t'' 1 1 ''A'' 90, Observation ''t'' 2 2 ''A'' 50, Rule_Added ''t'' ''B'' ''anchor'' None,
     Observation ''t'' 3 3 ''B'' 95, Observation ''t'' 4 4 ''A'' 85, Observation ''t'' 5 5 ''A'' 10, Observation ''t'' 6 6 ''A'' 20]"

lemma sample_alerts_seen:
  "snd (alert_run 70 sample_alerts) = [(''A'', 90), (''A'', 50), (''A'', 85), (''A'', 10), (''A'', 20)]"
  by code_simp

theorem alert_active_iff_recent_high_witness:
  "case get_alert_state ''A'' (fst (alert_run 70 sample_alerts)) of None \<Rightarrow> False | Some row \<Rightarrow> al_active row \<and> al_streak row = 2"
proof -
  obtain db seen where run: "alert_run 70 sample_alerts = (db, seen)" by fastforce
  then have seen: "scores_of ''A'' seen = [90, 50, 85, 10, 20]"
    using sample_alerts_seen by (simp add: scores_of_def)
  show ?thesis using alert_active_iff_recent_high [OF run, of "''A''"] run seen by (auto split: option.splits)
qed

text \<open>
  The events of a wallet are well bracketed. In every history they read: opened, any number of
  escalations, resolved, and so on, never two openings without a resolution between
  them; the last word tells whether the alert is active. A wallet that is
  suppressed emits nothing, and its row stays as it was.
\<close>

lemma alert_events_bracketed:
  "(\<forall>w. alert_word False (kinds_of w (db_events (fst (alert_run threshold steps)))) =
      Some (case get_alert_state w (fst (alert_run threshold steps)) of None \<Rightarrow> False | Some row \<Rightarrow> al_active row)) \<and>
   (\<forall>now_text now emitted w score db rule. is_suppressed now_text w (db_rules db) = Some rule \<longrightarrow>
      process threshold now_text now emitted w score db = ([], db))"
proof -
  have inv: "row_inv threshold (scores_of w (snd (alert_run threshold steps)))
      (kinds_of w (db_events (fst (alert_run threshold steps)))) (get_alert_state w (fst (alert_run threshold steps)))" for w
    using alert_run_inv [of threshold steps] by (simp add: alert_inv_def get_alert_state_def)
  have "alert_word False (kinds_of w (db_events (fst (alert_run threshold steps)))) =
      Some (case get_alert_state w (fst (alert_run threshold steps)) of None \<Rightarrow> False | Some row \<Rightarrow> al_active row)" for w
    using inv [of w]
    by (cases "get_alert_state w (fst (alert_run threshold steps))") (simp_all add: row_inv_def)
  moreover have "process threshold now_text now emitted w score db = ([], db)"
    if "is_suppressed now_text w (db_rules db) = Some rule" for now_text now emitted w score db rule
    using that by (simp add: process_def)
  ultimately show ?thesis by blast
qed

lemma sample_alerts_active:
  "(case get_alert_state ''A'' (fst (alert_run 70 sample_alerts)) of None \<Rightarrow> False | Some row \<Rightarrow> al_active row) = True"
  by code_simp

lemma alert_events_bracketed_witness:
  "alert_word False (kinds_of ''A'' (db_events (fst (alert_run 70 sample_alerts)))) = Some True \<and>
   process 70 ''t'' 7 7 ''B'' 95 (fst (alert_run 70 sample_alerts)) = ([], fst (alert_run 70 sample_alerts))"
proof -
  have "is_suppressed ''t'' ''B'' (db_rules (fst (alert_run 70 sample_alerts))) =
      Some \<lparr>sr_id = 1, sr_wallet = ''B'', sr_reason = ''anchor'', sr_created_at = ''t'', sr_expires_at = None\<rparr>"
    by code_simp
  then show ?thesis using alert_events_bracketed [of 70 sample_alerts] sample_alerts_active by auto
qed

end
