(* ===== verification/Webhooks.thy ===== *)
theory Webhooks
  imports Alerts Py_Text
begin

text \<open>
  Webhook alerts: the subscriber registry (\<open>packages/core/detection/webhook_registry.py\<close>), the delivery
  queue (\<open>webhook_queue.py\<close>), one pass of the delivery worker (\<open>webhook_worker.py\<close>) and the
  enqueueing of \<open>_enqueue_webhook_alerts\<close> in \<open>packages/core/run_pipeline.py\<close>.

  Parameters stand for the libraries: \<open>seal\<close> and \<open>unseal\<close> for AES-GCM with its base64 coding (\<open>None\<close>
  where it raises), \<open>hmac\<close> for the hexadecimal HMAC-SHA256 and \<open>resolve\<close> for the first address
  \<open>getaddrinfo\<close> gives. A parsed URL is its scheme and host name, a payload its JSON text, which
  the worker reads and writes back unchanged, and the outcome of a POST is an argument. The
  deliveries of a pass run concurrently on different rows; the model runs them in the order
  of the batch. Rows with the same next attempt are ordered by their id. Metrics, tracing, logging and the polling interval are left out.
\<close>

section \<open>Subscribers\<close>

record subscriber =
  su_subscriber_id :: string
  su_url :: string
  su_secret :: string
  su_min_score :: int
  su_wallet_filter :: "string list option"
  su_asset_pair_filter :: "string list option"
  su_active :: bool
  su_created_at :: instant

definition masked_secret :: "subscriber \<Rightarrow> string" where
  "masked_secret sub =
     (let s = su_secret sub; visible = (if length s \<le> 8 then min 2 (length s) else 4) in take visible s @ ''****'')"

record subscriber_row =
  wr_subscriber_id :: string
  wr_url :: string
  wr_secret_encrypted :: string
  wr_min_score :: int
  wr_wallet_filter :: "string option"
  wr_asset_pair_filter :: "string option"
  wr_active :: bool
  wr_created_at :: instant

record webhook_env =
  we_key :: "string option"
  we_key_previous :: "string option"

type_synonym seal_lib = "string \<Rightarrow> string \<Rightarrow> string \<Rightarrow> string option"
type_synonym unseal_lib = "string \<Rightarrow> string \<Rightarrow> string option"

datatype webhook_error =
    Key_Not_Set | Seal_Failed | Undecryptable | Bad_Scheme | No_Hostname | Localhost_Refused | Private_Refused | Unresolved

definition get_encryption_key :: "webhook_env \<Rightarrow> webhook_error + string" where
  "get_encryption_key env =
     (case we_key env of None \<Rightarrow> Inl Key_Not_Set | Some k \<Rightarrow> if k = [] then Inl Key_Not_Set else Inr k)"

definition encrypt_secret :: "seal_lib \<Rightarrow> webhook_env \<Rightarrow> string \<Rightarrow> string \<Rightarrow> webhook_error + string" where
  "encrypt_secret seal env nonce plaintext =
     (case get_encryption_key env of
        Inl e \<Rightarrow> Inl e
      | Inr k \<Rightarrow> (case seal k nonce plaintext of None \<Rightarrow> Inl Seal_Failed | Some c \<Rightarrow> Inr c))"

definition try_key :: "unseal_lib \<Rightarrow> string \<Rightarrow> string option \<Rightarrow> string option" where
  "try_key unseal encrypted key = (case key of None \<Rightarrow> None | Some k \<Rightarrow> if k = [] then None else unseal k encrypted)"

definition decrypt_secret :: "unseal_lib \<Rightarrow> webhook_env \<Rightarrow> string \<Rightarrow> string option" where
  "decrypt_secret unseal env encrypted =
     (case try_key unseal encrypted (we_key env) of
        Some s \<Rightarrow> Some s
      | None \<Rightarrow> try_key unseal encrypted (we_key_previous env))"

text \<open>The three patterns of addresses the registration refuses.\<close>

definition loopback_v4 :: "string \<Rightarrow> bool" where
  "loopback_v4 addr =
     (case py_split CHR ''.'' addr of
        [a, b, c, d] \<Rightarrow> a = ''127'' \<and> list_all (\<lambda>p. p \<noteq> [] \<and> list_all is_digit p) [b, c, d]
      | _ \<Rightarrow> False)"

definition private_v4 :: "string \<Rightarrow> bool" where
  "private_v4 addr \<longleftrightarrow>
     take 3 addr = ''10.'' \<or> take 8 addr = ''192.168.'' \<or>
     (take 4 addr = ''172.'' \<and> 7 \<le> length addr \<and> addr ! 6 = CHR ''.'' \<and>
        (addr ! 4 = CHR ''1'' \<and> addr ! 5 \<in> {CHR ''6'', CHR ''7'', CHR ''8'', CHR ''9''} \<or>
         addr ! 4 = CHR ''2'' \<and> is_digit (addr ! 5) \<or>
         addr ! 4 = CHR ''3'' \<and> addr ! 5 \<in> {CHR ''0'', CHR ''1''}))"

definition private_v6 :: "string \<Rightarrow> bool" where
  "private_v6 addr \<longleftrightarrow> take 2 (py_lower addr) \<in> {''fc'', ''fd''}"

definition validate_webhook_url :: "(string \<Rightarrow> string option) \<Rightarrow> string \<Rightarrow> string option \<Rightarrow> webhook_error option" where
  "validate_webhook_url resolve scheme hostname =
     (if scheme \<noteq> ''https'' then Some Bad_Scheme
      else case hostname of
        None \<Rightarrow> Some No_Hostname
      | Some h \<Rightarrow>
          if h = [] then Some No_Hostname
          else if h \<in> {''localhost'', ''127.0.0.1'', ''::1''} then Some Localhost_Refused
          else (case resolve h of
                  None \<Rightarrow> Some Unresolved
                | Some addr \<Rightarrow>
                    if addr = ''::1'' then Some Localhost_Refused
                    else if CHR ''.'' \<in> set addr then
                      (if loopback_v4 addr then Some Localhost_Refused
                       else if private_v4 addr then Some Private_Refused else None)
                    else if private_v6 addr then Some Private_Refused else None))"

definition split_filter :: "string option \<Rightarrow> string list option" where
  "split_filter f = (case f of None \<Rightarrow> None | Some s \<Rightarrow> if s = [] then None else Some (py_split CHR '','' s))"

definition row_to_subscriber :: "unseal_lib \<Rightarrow> webhook_env \<Rightarrow> subscriber_row \<Rightarrow> subscriber option" where
  "row_to_subscriber unseal env row =
     (case decrypt_secret unseal env (wr_secret_encrypted row) of
        None \<Rightarrow> None
      | Some secret \<Rightarrow> Some
          \<lparr>su_subscriber_id = wr_subscriber_id row, su_url = wr_url row, su_secret = secret,
           su_min_score = wr_min_score row, su_wallet_filter = split_filter (wr_wallet_filter row),
           su_asset_pair_filter = split_filter (wr_asset_pair_filter row), su_active = wr_active row,
           su_created_at = wr_created_at row\<rparr>)"

text \<open>\<open>subscriber_id\<close> and \<open>nonce\<close> are the fresh UUID and the random nonce of the call.\<close>

definition register_subscriber ::
  "(string \<Rightarrow> string option) \<Rightarrow> seal_lib \<Rightarrow> webhook_env \<Rightarrow> string \<Rightarrow> string \<Rightarrow> instant \<Rightarrow> string \<Rightarrow> string \<Rightarrow> string option
    \<Rightarrow> string \<Rightarrow> int \<Rightarrow> string option \<Rightarrow> string option \<Rightarrow> subscriber_row list \<Rightarrow> webhook_error + string \<times> subscriber_row list" where
  "register_subscriber resolve seal env subscriber_id nonce now url scheme hostname secret min_score wallet_filter asset_pair_filter rows =
     (case validate_webhook_url resolve scheme hostname of
        Some e \<Rightarrow> Inl e
      | None \<Rightarrow>
          (case encrypt_secret seal env nonce secret of
             Inl e \<Rightarrow> Inl e
           | Inr c \<Rightarrow> Inr (subscriber_id, rows @ [\<lparr>wr_subscriber_id = subscriber_id, wr_url = url,
               wr_secret_encrypted = c, wr_min_score = min_score, wr_wallet_filter = wallet_filter,
               wr_asset_pair_filter = asset_pair_filter, wr_active = True, wr_created_at = now\<rparr>])))"

text \<open>\<open>Inl\<close> is the exception of an undecryptable secret.\<close>

definition get_subscriber :: "unseal_lib \<Rightarrow> webhook_env \<Rightarrow> string \<Rightarrow> subscriber_row list \<Rightarrow> webhook_error + subscriber option" where
  "get_subscriber unseal env subscriber_id rows =
     (case List.find (\<lambda>r. wr_subscriber_id r = subscriber_id) rows of
        None \<Rightarrow> Inr None
      | Some row \<Rightarrow> (case row_to_subscriber unseal env row of None \<Rightarrow> Inl Undecryptable | Some s \<Rightarrow> Inr (Some s)))"

fun all_subscribers :: "unseal_lib \<Rightarrow> webhook_env \<Rightarrow> subscriber_row list \<Rightarrow> webhook_error + subscriber list" where
  "all_subscribers unseal env [] = Inr []"
| "all_subscribers unseal env (row # rows) =
     (case row_to_subscriber unseal env row of
        None \<Rightarrow> Inl Undecryptable
      | Some s \<Rightarrow> (case all_subscribers unseal env rows of Inl e \<Rightarrow> Inl e | Inr ss \<Rightarrow> Inr (s # ss)))"

definition list_subscribers :: "unseal_lib \<Rightarrow> webhook_env \<Rightarrow> bool \<Rightarrow> subscriber_row list \<Rightarrow> webhook_error + subscriber list" where
  "list_subscribers unseal env active_only rows =
     all_subscribers unseal env (sort_key wr_created_at (if active_only then filter wr_active rows else rows))"

definition deactivate_subscriber :: "string \<Rightarrow> subscriber_row list \<Rightarrow> bool \<times> subscriber_row list" where
  "deactivate_subscriber subscriber_id rows =
     (let p = (\<lambda>r. wr_subscriber_id r = subscriber_id \<and> wr_active r)
      in (0 < row_count p rows, update_where p (\<lambda>r. r\<lparr>wr_active := False\<rparr>) rows))"

definition passes :: "string list option \<Rightarrow> string \<Rightarrow> bool" where
  "passes f x = (case f of None \<Rightarrow> True | Some xs \<Rightarrow> xs = [] \<or> x \<in> set xs)"

definition get_matching_subscribers ::
  "unseal_lib \<Rightarrow> webhook_env \<Rightarrow> risk_score \<Rightarrow> subscriber_row list \<Rightarrow> webhook_error + subscriber list" where
  "get_matching_subscribers unseal env score rows =
     (case list_subscribers unseal env True rows of
        Inl e \<Rightarrow> Inl e
      | Inr subs \<Rightarrow> Inr (filter (\<lambda>sub. su_min_score sub \<le> rs_score score \<and>
          passes (su_wallet_filter sub) (rs_wallet score) \<and> passes (su_asset_pair_filter sub) (rs_asset_pair score)) subs))"

section \<open>The delivery queue\<close>

datatype delivery_status = Delivery_Pending | Delivered | Delivery_Dead

record delivery =
  dl_id :: nat
  dl_subscriber_id :: string
  dl_payload_json :: string
  dl_attempt_count :: int
  dl_next_attempt_at :: instant
  dl_last_error :: "string option"
  dl_status :: delivery_status
  dl_created_at :: instant
  dl_delivered_at :: "instant option"

record delivery_table =
  dt_rows :: "delivery list"
  dt_last_id :: nat

definition max_attempts :: int where "max_attempts = 8"
definition base_delay :: int where "base_delay = 5"
definition max_delay :: int where "max_delay = 3600"

definition enqueue_delivery :: "instant \<Rightarrow> string \<Rightarrow> string \<Rightarrow> delivery_table \<Rightarrow> delivery_table" where
  "enqueue_delivery now subscriber_id payload_json t =
     t\<lparr>dt_rows := dt_rows t @ [\<lparr>dl_id = dt_last_id t + 1, dl_subscriber_id = subscriber_id,
          dl_payload_json = payload_json, dl_attempt_count = 0, dl_next_attempt_at = now, dl_last_error = None,
          dl_status = Delivery_Pending, dl_created_at = now, dl_delivered_at = None\<rparr>],
       dt_last_id := dt_last_id t + 1\<rparr>"

definition delivery_due :: "instant \<Rightarrow> delivery \<Rightarrow> bool" where
  "delivery_due now d \<longleftrightarrow> dl_status d = Delivery_Pending \<and> dl_next_attempt_at d \<le> now"

definition get_due_deliveries :: "instant \<Rightarrow> nat \<Rightarrow> delivery_table \<Rightarrow> delivery list" where
  "get_due_deliveries now limit t = take limit (sort_key dl_next_attempt_at (filter (delivery_due now) (dt_rows t)))"

definition mark_delivered :: "instant \<Rightarrow> nat \<Rightarrow> int \<Rightarrow> delivery_table \<Rightarrow> delivery_table" where
  "mark_delivered now delivery_id response_status t =
     t\<lparr>dt_rows := update_where (\<lambda>d. dl_id d = delivery_id)
        (\<lambda>d. d\<lparr>dl_status := Delivered, dl_delivered_at := Some now, dl_last_error := Some (''HTTP '' @ show_int response_status)\<rparr>)
        (dt_rows t)\<rparr>"

definition delivery_delay :: "int \<Rightarrow> int" where
  "delivery_delay attempt = min (2 ^ nat attempt * base_delay) max_delay"

definition mark_failed :: "instant \<Rightarrow> int \<Rightarrow> nat \<Rightarrow> string \<Rightarrow> delivery_table \<Rightarrow> delivery_table" where
  "mark_failed now limit delivery_id error t =
     (case List.find (\<lambda>d. dl_id d = delivery_id) (dt_rows t) of
        None \<Rightarrow> t
      | Some row \<Rightarrow>
          (let attempt = dl_attempt_count row + 1 in
           t\<lparr>dt_rows := update_where (\<lambda>d. dl_id d = delivery_id)
             (\<lambda>d. if limit \<le> attempt
                  then d\<lparr>dl_attempt_count := attempt, dl_status := Delivery_Dead, dl_last_error := Some error\<rparr>
                  else d\<lparr>dl_attempt_count := attempt,
                         dl_next_attempt_at := now + delivery_delay attempt * microseconds_per_second,
                         dl_last_error := Some error, dl_status := Delivery_Pending\<rparr>)
             (dt_rows t)\<rparr>))"

definition get_dead_letters :: "delivery_table \<Rightarrow> delivery list" where
  "get_dead_letters t = sort_key dl_created_at (filter (\<lambda>d. dl_status d = Delivery_Dead) (dt_rows t))"

section \<open>The worker\<close>

datatype post_outcome = Post_Ok int | Post_Status int | Post_Unreachable string | Post_Raised string

definition build_webhook_payload :: "string \<Rightarrow> string \<Rightarrow> string" where
  "build_webhook_payload score_data timestamp =
     ''{'' @ json_string ''event'' @ '': '' @ json_string ''risk_score_alert'' @ '', '' @
     json_string ''data'' @ '': '' @ score_data @ '', '' @ json_string ''timestamp'' @ '': '' @ json_string timestamp @ ''}''"

definition build_hmac_signature :: "(string \<Rightarrow> string \<Rightarrow> string) \<Rightarrow> string \<Rightarrow> string \<Rightarrow> string" where
  "build_hmac_signature hmac body secret = ''sha256='' @ hmac secret body"

record http_post =
  po_url :: string
  po_body :: string
  po_signature :: string

text \<open>\<open>_deliver\<close>: the request it sends, the outcome recorded, and whether it succeeded.\<close>

definition deliver ::
  "(string \<Rightarrow> string \<Rightarrow> string) \<Rightarrow> instant \<Rightarrow> string \<Rightarrow> post_outcome \<Rightarrow> delivery \<Rightarrow> subscriber \<Rightarrow> delivery_table
    \<Rightarrow> bool \<times> http_post \<times> delivery_table" where
  "deliver hmac now timestamp outcome d sub t =
     (let body = build_webhook_payload (dl_payload_json d) timestamp;
          post = \<lparr>po_url = su_url sub, po_body = body, po_signature = build_hmac_signature hmac body (su_secret sub)\<rparr>
      in case outcome of
           Post_Ok status \<Rightarrow> (True, post, mark_delivered now (dl_id d) status t)
         | Post_Status status \<Rightarrow> (False, post, mark_failed now max_attempts (dl_id d) (''HTTP '' @ show_int status) t)
         | Post_Unreachable nm \<Rightarrow> (False, post, mark_failed now max_attempts (dl_id d) nm t)
         | Post_Raised msg \<Rightarrow> (False, post, mark_failed now max_attempts (dl_id d) (take 200 msg) t))"

text \<open>A delivery of the batch: skipped unless its subscriber can be read and is active.\<close>

definition deliver_one ::
  "unseal_lib \<Rightarrow> webhook_env \<Rightarrow> (string \<Rightarrow> string \<Rightarrow> string) \<Rightarrow> subscriber_row list \<Rightarrow> instant \<Rightarrow> string
    \<Rightarrow> (nat \<Rightarrow> post_outcome) \<Rightarrow> delivery \<Rightarrow> http_post list \<times> delivery_table \<Rightarrow> http_post list \<times> delivery_table" where
  "deliver_one unseal env hmac subs now timestamp outcomes d st =
     (case get_subscriber unseal env (dl_subscriber_id d) subs of
        Inr (Some sub) \<Rightarrow>
          (if su_active sub
           then let (ok, post, t) = deliver hmac now timestamp (outcomes (dl_id d)) d sub (snd st) in (fst st @ [post], t)
           else st)
      | _ \<Rightarrow> st)"

definition worker_pass ::
  "unseal_lib \<Rightarrow> webhook_env \<Rightarrow> (string \<Rightarrow> string \<Rightarrow> string) \<Rightarrow> subscriber_row list \<Rightarrow> instant \<Rightarrow> string
    \<Rightarrow> (nat \<Rightarrow> post_outcome) \<Rightarrow> delivery_table \<Rightarrow> http_post list \<times> delivery_table" where
  "worker_pass unseal env hmac subs now timestamp outcomes t =
     fold (deliver_one unseal env hmac subs now timestamp outcomes) (get_due_deliveries now 50 t) ([], t)"

text \<open>The pipeline's call: all scores in one \<open>try\<close>, so the first exception ends it.\<close>

fun enqueue_webhook_alerts ::
  "unseal_lib \<Rightarrow> webhook_env \<Rightarrow> subscriber_row list \<Rightarrow> instant \<Rightarrow> (risk_score \<Rightarrow> string) \<Rightarrow> risk_score list \<Rightarrow> delivery_table \<Rightarrow> delivery_table" where
  "enqueue_webhook_alerts unseal env subs now dump [] t = t"
| "enqueue_webhook_alerts unseal env subs now dump (score # scores) t =
     (case get_matching_subscribers unseal env score subs of
        Inl e \<Rightarrow> t
      | Inr matching \<Rightarrow> enqueue_webhook_alerts unseal env subs now dump scores
          (fold (\<lambda>sub. enqueue_delivery now (su_subscriber_id sub) (dump score)) matching t))"

section \<open>The table of deliveries\<close>

definition delivery_wf :: "delivery \<Rightarrow> bool" where
  "delivery_wf d \<longleftrightarrow>
     0 \<le> dl_attempt_count d \<and> dl_attempt_count d \<le> max_attempts \<and>
     (dl_status d = Delivery_Pending \<longrightarrow> dl_attempt_count d < max_attempts) \<and>
     (dl_status d = Delivery_Dead \<longrightarrow> dl_attempt_count d = max_attempts) \<and>
     (dl_status d = Delivered \<longleftrightarrow> dl_delivered_at d \<noteq> None)"

definition deliveries_wf :: "delivery_table \<Rightarrow> bool" where
  "deliveries_wf t \<longleftrightarrow>
     list_all delivery_wf (dt_rows t) \<and> distinct (map dl_id (dt_rows t)) \<and>
     (\<forall>d\<in>set (dt_rows t). dl_id d \<le> dt_last_id t)"

definition settled :: "delivery \<Rightarrow> bool" where
  "settled d \<longleftrightarrow> dl_status d \<noteq> Delivery_Pending"

text \<open>What an outcome makes of a row.\<close>

definition after_failure :: "instant \<Rightarrow> string \<Rightarrow> delivery \<Rightarrow> delivery" where
  "after_failure now error d =
     (let attempt = dl_attempt_count d + 1
      in if max_attempts \<le> attempt
         then d\<lparr>dl_attempt_count := attempt, dl_status := Delivery_Dead, dl_last_error := Some error\<rparr>
         else d\<lparr>dl_attempt_count := attempt,
                dl_next_attempt_at := now + delivery_delay attempt * microseconds_per_second,
                dl_last_error := Some error, dl_status := Delivery_Pending\<rparr>)"

definition after_outcome :: "instant \<Rightarrow> post_outcome \<Rightarrow> delivery \<Rightarrow> delivery" where
  "after_outcome now outcome d =
     (case outcome of
        Post_Ok status \<Rightarrow> d\<lparr>dl_status := Delivered, dl_delivered_at := Some now,
                            dl_last_error := Some (''HTTP '' @ show_int status)\<rparr>
      | Post_Status status \<Rightarrow> after_failure now (''HTTP '' @ show_int status) d
      | Post_Unreachable nm \<Rightarrow> after_failure now nm d
      | Post_Raised msg \<Rightarrow> after_failure now (take 200 msg) d)"

lemma find_by_id:
  assumes "distinct (map dl_id rows)" "d \<in> set rows"
  shows "List.find (\<lambda>x. dl_id x = dl_id d) rows = Some d"
  using assms by (induction rows) (auto simp: image_iff)

lemma update_one:
  assumes "deliveries_wf t" "d \<in> set (dt_rows t)"
  shows "update_where (\<lambda>x. dl_id x = dl_id d) f (dt_rows t) = update_where (\<lambda>x. dl_id x = dl_id d) (\<lambda>_. f d) (dt_rows t)"
proof -
  have "x = d" if "x \<in> set (dt_rows t)" "dl_id x = dl_id d" for x
    using assms that by (auto simp: deliveries_wf_def distinct_map inj_on_def)
  then show ?thesis unfolding update_where_def by (intro map_cong) auto
qed

lemma mark_failed_row:
  assumes "deliveries_wf t" "d \<in> set (dt_rows t)"
  shows "mark_failed now max_attempts (dl_id d) error t =
    t\<lparr>dt_rows := update_where (\<lambda>x. dl_id x = dl_id d) (\<lambda>_. after_failure now error d) (dt_rows t)\<rparr>"
proof -
  have "List.find (\<lambda>x. dl_id x = dl_id d) (dt_rows t) = Some d"
    using assms by (intro find_by_id) (simp_all add: deliveries_wf_def)
  then show ?thesis unfolding mark_failed_def after_failure_def Let_def
    by (simp only: option.case) (subst update_one [OF assms], rule refl)
qed

lemma mark_delivered_row:
  assumes "deliveries_wf t" "d \<in> set (dt_rows t)"
  shows "mark_delivered now (dl_id d) status t =
    t\<lparr>dt_rows := update_where (\<lambda>x. dl_id x = dl_id d) (\<lambda>_. after_outcome now (Post_Ok status) d) (dt_rows t)\<rparr>"
  unfolding mark_delivered_def after_outcome_def post_outcome.case
  by (subst update_one [OF assms]) (rule refl)

lemma deliver_row:
  assumes "deliveries_wf t" "d \<in> set (dt_rows t)"
  shows "snd (snd (deliver hmac now timestamp outcome d sub t)) =
    t\<lparr>dt_rows := update_where (\<lambda>x. dl_id x = dl_id d) (\<lambda>_. after_outcome now outcome d) (dt_rows t)\<rparr>"
  using mark_failed_row [OF assms] mark_delivered_row [OF assms]
  by (cases outcome) (simp_all add: deliver_def Let_def after_outcome_def)

lemma after_outcome_id [simp]: "dl_id (after_outcome now outcome d) = dl_id d"
  by (simp add: after_outcome_def after_failure_def Let_def split: post_outcome.splits)

lemma after_outcome_wf:
  assumes "delivery_wf d" "dl_status d = Delivery_Pending"
  shows "delivery_wf (after_outcome now outcome d)"
  using assms by (cases outcome) (auto simp: after_outcome_def after_failure_def delivery_wf_def Let_def)

lemma update_row_wf:
  assumes "deliveries_wf t" "d \<in> set (dt_rows t)" "dl_status d = Delivery_Pending"
  shows "deliveries_wf (t\<lparr>dt_rows := update_where (\<lambda>x. dl_id x = dl_id d) (\<lambda>_. after_outcome now outcome d) (dt_rows t)\<rparr>)"
proof -
  have "map dl_id (update_where (\<lambda>x. dl_id x = dl_id d) (\<lambda>_. after_outcome now outcome d) (dt_rows t)) = map dl_id (dt_rows t)"
    by (simp add: update_where_def)
  moreover have "delivery_wf (after_outcome now outcome d)"
    using assms by (intro after_outcome_wf) (auto simp: deliveries_wf_def list_all_iff)
  ultimately show ?thesis using assms
    by (auto simp: deliveries_wf_def list_all_iff set_update_where)
qed

definition readable :: "unseal_lib \<Rightarrow> webhook_env \<Rightarrow> subscriber_row list \<Rightarrow> delivery \<Rightarrow> subscriber option" where
  "readable unseal env subs d =
     (case get_subscriber unseal env (dl_subscriber_id d) subs of
        Inr (Some sub) \<Rightarrow> if su_active sub then Some sub else None
      | _ \<Rightarrow> None)"

text \<open>A delivery touches its own row and no other.\<close>

lemma deliver_one_row:
  assumes "deliveries_wf t" "d \<in> set (dt_rows t)"
  shows "deliver_one unseal env hmac subs now timestamp outcomes d (posts, t) =
    (case readable unseal env subs d of
       None \<Rightarrow> (posts, t)
     | Some sub \<Rightarrow>
         (posts @ [fst (snd (deliver hmac now timestamp (outcomes (dl_id d)) d sub t))],
          t\<lparr>dt_rows := update_where (\<lambda>x. dl_id x = dl_id d) (\<lambda>_. after_outcome now (outcomes (dl_id d)) d) (dt_rows t)\<rparr>))"
  using deliver_row [OF assms, of hmac now timestamp "outcomes (dl_id d)"]
  by (auto simp: deliver_one_def readable_def Let_def case_prod_beta split: sum.splits option.splits)

text \<open>A pass over a batch of different pending rows maps the outcome over them.\<close>

definition batch_effect ::
  "unseal_lib \<Rightarrow> webhook_env \<Rightarrow> subscriber_row list \<Rightarrow> instant \<Rightarrow> (nat \<Rightarrow> post_outcome) \<Rightarrow> delivery list \<Rightarrow> delivery \<Rightarrow> delivery" where
  "batch_effect unseal env subs now outcomes ds x =
     (if x \<in> set ds \<and> readable unseal env subs x \<noteq> None then after_outcome now (outcomes (dl_id x)) x else x)"

lemma batch_rows:
  assumes "deliveries_wf t" "set ds \<subseteq> {d \<in> set (dt_rows t). dl_status d = Delivery_Pending}" "distinct (map dl_id ds)"
  shows "let t' = snd (fold (deliver_one unseal env hmac subs now timestamp outcomes) ds (posts, t))
    in deliveries_wf t' \<and> dt_last_id t' = dt_last_id t \<and>
       dt_rows t' = map (batch_effect unseal env subs now outcomes ds) (dt_rows t)"
  using assms
proof (induction ds arbitrary: posts t)
  case Nil
  then show ?case by (simp add: batch_effect_def)
next
  case (Cons d ds)
  have d: "d \<in> set (dt_rows t)" "dl_status d = Delivery_Pending" using Cons.prems(2) by auto
  have inj: "x = y" if "x \<in> set (dt_rows t)" "y \<in> set (dt_rows t)" "dl_id x = dl_id y" for x y
    using Cons.prems(1) that by (auto simp: deliveries_wf_def distinct_map inj_on_def)
  note one = deliver_one_row [OF Cons.prems(1) d(1), of unseal env hmac subs now timestamp outcomes posts]
  show ?case
  proof (cases "readable unseal env subs d")
    case None
    have eq: "map (batch_effect unseal env subs now outcomes (d # ds)) (dt_rows t) =
        map (batch_effect unseal env subs now outcomes ds) (dt_rows t)"
      using None by (auto simp: batch_effect_def)
    show ?thesis unfolding eq using Cons.IH [of t posts] Cons.prems one None by simp
  next
    case (Some sub)
    let ?t = "t\<lparr>dt_rows := update_where (\<lambda>x. dl_id x = dl_id d) (\<lambda>_. after_outcome now (outcomes (dl_id d)) d) (dt_rows t)\<rparr>"
    have wf: "deliveries_wf ?t" by (rule update_row_wf [OF Cons.prems(1) d])
    have other: "x \<in> set (dt_rows ?t)" if "x \<in> set (dt_rows t)" "dl_id x \<noteq> dl_id d" for x
      using that by (auto simp: set_update_where image_iff)
    have sub: "set ds \<subseteq> {d \<in> set (dt_rows ?t). dl_status d = Delivery_Pending}"
      using Cons.prems(2,3) other by (force simp: image_iff)
    have eq: "map (batch_effect unseal env subs now outcomes (d # ds)) (dt_rows t) =
        map (batch_effect unseal env subs now outcomes ds) (dt_rows ?t)"
    proof -
      have "batch_effect unseal env subs now outcomes ds (if dl_id x = dl_id d then after_outcome now (outcomes (dl_id d)) d else x) =
          batch_effect unseal env subs now outcomes (d # ds) x" if x: "x \<in> set (dt_rows t)" for x
      proof (cases "dl_id x = dl_id d")
        case True
        then have "x = d" using inj x d(1) by blast
        moreover have "after_outcome now (outcomes (dl_id d)) d \<notin> set ds"
          using Cons.prems(3) by (metis after_outcome_id distinct.simps(2) image_eqI list.map(2) list.set_map)
        ultimately show ?thesis using Some by (simp add: batch_effect_def)
      next
        case False
        then show ?thesis by (auto simp: batch_effect_def)
      qed
      then show ?thesis by (simp add: update_where_def)
    qed
    show ?thesis unfolding eq using Cons.IH [OF wf sub, of "posts @ [fst (snd (deliver hmac now timestamp (outcomes (dl_id d)) d sub t))]"]
        Cons.prems(3) one Some by simp
  qed
qed

definition post_for :: "(string \<Rightarrow> string \<Rightarrow> string) \<Rightarrow> string \<Rightarrow> delivery \<Rightarrow> subscriber \<Rightarrow> http_post" where
  "post_for hmac timestamp d sub =
     (let body = build_webhook_payload (dl_payload_json d) timestamp
      in \<lparr>po_url = su_url sub, po_body = body, po_signature = ''sha256='' @ hmac (su_secret sub) body\<rparr>)"

lemma deliver_one_post:
  "fst (deliver_one unseal env hmac subs now timestamp outcomes d st) =
     fst st @ (case readable unseal env subs d of None \<Rightarrow> [] | Some sub \<Rightarrow> [post_for hmac timestamp d sub])"
proof -
  have "fst (snd (deliver hmac now timestamp outcome d sub t)) = post_for hmac timestamp d sub" for outcome sub t
    by (simp add: deliver_def post_for_def build_hmac_signature_def Let_def split: post_outcome.splits)
  then show ?thesis
    by (simp add: deliver_one_def readable_def Let_def case_prod_beta split: sum.splits option.splits)
qed

lemma batch_posts:
  "fst (fold (deliver_one unseal env hmac subs now timestamp outcomes) ds st) =
     fst st @ List.map_filter (\<lambda>d. map_option (post_for hmac timestamp d) (readable unseal env subs d)) ds"
  by (induction ds arbitrary: st) (simp_all add: deliver_one_post List.map_filter_simps split: option.splits)

lemma due_batch:
  assumes "deliveries_wf t"
  shows "set (get_due_deliveries now n t) \<subseteq> {d \<in> set (dt_rows t). dl_status d = Delivery_Pending}"
    and "distinct (map dl_id (get_due_deliveries now n t))"
proof -
  show "set (get_due_deliveries now n t) \<subseteq> {d \<in> set (dt_rows t). dl_status d = Delivery_Pending}"
    by (auto simp: get_due_deliveries_def delivery_due_def dest!: in_set_takeD)
  have "distinct (map dl_id (filter (delivery_due now) (dt_rows t)))"
    using assms by (simp add: deliveries_wf_def distinct_map_filter)
  moreover have "mset (map dl_id (sort_key dl_next_attempt_at (filter (delivery_due now) (dt_rows t)))) =
      mset (map dl_id (filter (delivery_due now) (dt_rows t)))"
    by (simp only: mset_map mset_sort)
  ultimately have "distinct (map dl_id (sort_key dl_next_attempt_at (filter (delivery_due now) (dt_rows t))))"
    using mset_eq_imp_distinct_iff by metis
  then show "distinct (map dl_id (get_due_deliveries now n t))"
    unfolding get_due_deliveries_def take_map by (simp add: take_map [symmetric])
qed

lemma worker_pass_rows:
  assumes "deliveries_wf t" "worker_pass unseal env hmac subs now timestamp outcomes t = (posts, t')"
  shows "deliveries_wf t'" "dt_last_id t' = dt_last_id t"
    "dt_rows t' = map (batch_effect unseal env subs now outcomes (get_due_deliveries now 50 t)) (dt_rows t)"
    "posts = List.map_filter (\<lambda>d. map_option (post_for hmac timestamp d) (readable unseal env subs d)) (get_due_deliveries now 50 t)"
  using batch_rows [OF assms(1) due_batch [OF assms(1), of now 50], of unseal env hmac subs now timestamp outcomes "[]"]
    batch_posts [of unseal env hmac subs now timestamp outcomes "get_due_deliveries now 50 t" "([], t)"] assms(2)
  by (simp_all add: worker_pass_def Let_def)

section \<open>Histories of the queue\<close>

datatype webhook_step =
    Alert_Enqueued instant string string
  | Pass_Run "subscriber_row list" instant string "nat \<Rightarrow> post_outcome"

record webhook_libs =
  wl_unseal :: unseal_lib
  wl_env :: webhook_env
  wl_hmac :: "string \<Rightarrow> string \<Rightarrow> string"

definition take_webhook_step :: "webhook_libs \<Rightarrow> webhook_step \<Rightarrow> http_post list \<times> delivery_table \<Rightarrow> http_post list \<times> delivery_table" where
  "take_webhook_step libs step st =
     (case step of
        Alert_Enqueued now subscriber_id payload \<Rightarrow> (fst st, enqueue_delivery now subscriber_id payload (snd st))
      | Pass_Run subs now timestamp outcomes \<Rightarrow>
          (let (posts, t) = worker_pass (wl_unseal libs) (wl_env libs) (wl_hmac libs) subs now timestamp outcomes (snd st)
           in (fst st @ posts, t)))"

definition webhook_run :: "webhook_libs \<Rightarrow> webhook_step list \<Rightarrow> delivery_table" where
  "webhook_run libs steps = snd (fold (take_webhook_step libs) steps ([], \<lparr>dt_rows = [], dt_last_id = 0\<rparr>))"

lemma enqueue_delivery_wf: "deliveries_wf t \<Longrightarrow> deliveries_wf (enqueue_delivery now subscriber_id payload t)"
  by (fastforce simp: deliveries_wf_def enqueue_delivery_def delivery_wf_def max_attempts_def)

lemma webhook_step_wf:
  assumes "deliveries_wf (snd st)"
  shows "deliveries_wf (snd (take_webhook_step libs step st))"
proof (cases step)
  case (Alert_Enqueued now subscriber_id payload)
  then show ?thesis using assms by (simp add: take_webhook_step_def enqueue_delivery_wf)
next
  case (Pass_Run subs now timestamp outcomes)
  then show ?thesis
    using worker_pass_rows(1) [OF assms, of "wl_unseal libs" "wl_env libs" "wl_hmac libs" subs now timestamp outcomes]
    by (simp add: take_webhook_step_def Let_def case_prod_beta prod_eq_iff)
qed

lemma step_keeps_settled:
  assumes "deliveries_wf (snd st)" "d \<in> set (dt_rows (snd st))" "settled d"
  shows "d \<in> set (dt_rows (snd (take_webhook_step libs step st)))"
proof (cases step)
  case (Alert_Enqueued now subscriber_id payload)
  then show ?thesis using assms by (simp add: take_webhook_step_def enqueue_delivery_def)
next
  case (Pass_Run subs now timestamp outcomes)
  obtain posts t' where pass: "worker_pass (wl_unseal libs) (wl_env libs) (wl_hmac libs) subs now timestamp outcomes (snd st) = (posts, t')"
    by fastforce
  have "d \<notin> set (get_due_deliveries now 50 (snd st))"
    using due_batch(1) [OF assms(1), of now 50] assms(3) by (auto simp: settled_def)
  then have "d \<in> set (dt_rows t')"
    unfolding worker_pass_rows(3) [OF assms(1) pass] set_map
    using assms(2) by (intro image_eqI [of _ _ d]) (simp_all add: batch_effect_def)
  then show ?thesis by (simp add: take_webhook_step_def Pass_Run pass)
qed

interpretation webhook_history: settling_run "\<lambda>_. True" "take_webhook_step libs" "\<lambda>st. deliveries_wf (snd st)"
    "\<lambda>st. set (dt_rows (snd st))" settled for libs
  by unfold_locales (rule webhook_step_wf step_keeps_settled; assumption)+

lemma webhook_run_wf: "deliveries_wf (webhook_run libs steps)"
  unfolding webhook_run_def by (rule webhook_history.inv_run) (simp_all add: deliveries_wf_def)

section \<open>A full batch that cannot be delivered\<close>

lemma sort_key_split:
  "sort_key k xs = sort_key k (filter (\<lambda>x. k x \<le> c) xs) @ sort_key k (filter (\<lambda>x. \<not> k x \<le> c) xs)"
proof (rule properties_for_sort_key)
  have "mset (filter (\<lambda>x. k x \<le> c) xs) + mset (filter (\<lambda>x. \<not> k x \<le> c) xs) = mset xs"
    by (simp add: multiset_partition [symmetric])
  then show "mset (sort_key k (filter (\<lambda>x. k x \<le> c) xs) @ sort_key k (filter (\<lambda>x. \<not> k x \<le> c) xs)) = mset xs"
    by (simp only: mset_append mset_sort)
next
  fix y assume "y \<in> set (sort_key k (filter (\<lambda>x. k x \<le> c) xs) @ sort_key k (filter (\<lambda>x. \<not> k x \<le> c) xs))"
  have stable: "filter (\<lambda>x. k y = k x) (sort_key k zs) = filter (\<lambda>x. k y = k x) zs" for zs
    using sort_key_stable [of k "k y" zs] by (simp add: eq_commute)
  have low: "filter (\<lambda>x. k y = k x) (filter (\<lambda>x. k x \<le> c) xs) = (if k y \<le> c then filter (\<lambda>x. k y = k x) xs else [])"
    by (induction xs) auto
  have high: "filter (\<lambda>x. k y = k x) (filter (\<lambda>x. \<not> k x \<le> c) xs) = (if k y \<le> c then [] else filter (\<lambda>x. k y = k x) xs)"
    by (induction xs) auto
  show "filter (\<lambda>x. k y = k x) (sort_key k (filter (\<lambda>x. k x \<le> c) xs) @ sort_key k (filter (\<lambda>x. \<not> k x \<le> c) xs)) =
      filter (\<lambda>x. k y = k x) xs"
    unfolding filter_append stable low high by simp
next
  show "sorted (map k (sort_key k (filter (\<lambda>x. k x \<le> c) xs) @ sort_key k (filter (\<lambda>x. \<not> k x \<le> c) xs)))"
    by (auto simp: sorted_append)
qed

text \<open>Rows that become due later do not overtake a full batch.\<close>

lemma due_batch_stays:
  assumes full: "length (get_due_deliveries now n t) = n" and "now \<le> now'"
    and rows: "dt_rows t' = dt_rows t @ new" "\<forall>d\<in>set new. now < dl_next_attempt_at d"
  shows "get_due_deliveries now' n t' = get_due_deliveries now n t"
proof -
  let ?k = "dl_next_attempt_at"
  have "filter (\<lambda>x. ?k x \<le> now) (filter (delivery_due now') new) = []"
    using rows(2) by (auto simp: filter_empty_conv)
  moreover have "filter (\<lambda>x. ?k x \<le> now) (filter (delivery_due now') (dt_rows t)) = filter (delivery_due now) (dt_rows t)"
    unfolding filter_filter using assms(2) by (intro filter_cong) (auto simp: delivery_due_def)
  ultimately have "filter (\<lambda>x. ?k x \<le> now) (filter (delivery_due now') (dt_rows t')) = filter (delivery_due now) (dt_rows t)"
    by (simp add: rows(1))
  then have "sort_key ?k (filter (delivery_due now') (dt_rows t')) =
      sort_key ?k (filter (delivery_due now) (dt_rows t)) @
      sort_key ?k (filter (\<lambda>x. \<not> ?k x \<le> now) (filter (delivery_due now') (dt_rows t')))"
    using sort_key_split [of ?k "filter (delivery_due now') (dt_rows t')" now] by simp
  moreover have "n \<le> length (sort_key ?k (filter (delivery_due now) (dt_rows t)))"
    using full unfolding get_due_deliveries_def length_take by linarith
  ultimately show ?thesis by (simp add: get_due_deliveries_def)
qed

definition step_time :: "webhook_step \<Rightarrow> instant" where
  "step_time step = (case step of Alert_Enqueued now _ _ \<Rightarrow> now | Pass_Run _ now _ _ \<Rightarrow> now)"

definition step_subs :: "webhook_step \<Rightarrow> subscriber_row list option" where
  "step_subs step = (case step of Alert_Enqueued _ _ _ \<Rightarrow> None | Pass_Run subs _ _ _ \<Rightarrow> Some subs)"

lemma blocked_queue:
  assumes full: "length (get_due_deliveries now 50 t) = 50"
    and dead: "\<forall>d\<in>set (get_due_deliveries now 50 t). readable (wl_unseal libs) (wl_env libs) subs d = None"
    and later: "\<forall>step\<in>set steps. now < step_time step \<and> step_subs step \<in> {None, Some subs}"
    and new: "\<forall>d\<in>set new. now < dl_next_attempt_at d"
  shows "\<exists>new'. fst (fold (take_webhook_step libs) steps (posts, t\<lparr>dt_rows := dt_rows t @ new, dt_last_id := n\<rparr>)) = posts \<and>
    dt_rows (snd (fold (take_webhook_step libs) steps (posts, t\<lparr>dt_rows := dt_rows t @ new, dt_last_id := n\<rparr>))) = dt_rows t @ new'"
  using later new
proof (induction steps arbitrary: new n)
  case (Cons step steps)
  let ?t = "t\<lparr>dt_rows := dt_rows t @ new, dt_last_id := n\<rparr>"
  obtain new' n' where step: "take_webhook_step libs step (posts, ?t) = (posts, t\<lparr>dt_rows := dt_rows t @ new', dt_last_id := n'\<rparr>)"
    and new': "\<forall>d\<in>set new'. now < dl_next_attempt_at d"
  proof (cases step)
    case (Alert_Enqueued tm sid payload)
    have "now < tm" using Cons.prems(1) Alert_Enqueued by (simp add: step_time_def)
    then show thesis using Cons.prems(2) Alert_Enqueued
      by (intro that [of "n + 1" "new @ [\<lparr>dl_id = n + 1, dl_subscriber_id = sid, dl_payload_json = payload, dl_attempt_count = 0,
            dl_next_attempt_at = tm, dl_last_error = None, dl_status = Delivery_Pending, dl_created_at = tm, dl_delivered_at = None\<rparr>]"])
         (auto simp: take_webhook_step_def enqueue_delivery_def)
  next
    case (Pass_Run subs' tm timestamp outcomes)
    have "now \<le> tm" "subs' = subs" using Cons.prems(1) Pass_Run by (simp_all add: step_time_def step_subs_def)
    then have batch: "get_due_deliveries tm 50 ?t = get_due_deliveries now 50 t"
      using Cons.prems(2) by (intro due_batch_stays [OF full]) simp_all
    have skip: "fold (deliver_one (wl_unseal libs) (wl_env libs) (wl_hmac libs) subs tm timestamp outcomes) ds st = st"
      if "\<forall>d\<in>set ds. readable (wl_unseal libs) (wl_env libs) subs d = None" for ds st
      using that by (induction ds) (auto simp: deliver_one_def readable_def split: sum.splits option.splits if_splits)
    have "worker_pass (wl_unseal libs) (wl_env libs) (wl_hmac libs) subs tm timestamp outcomes ?t = ([], ?t)"
      unfolding worker_pass_def batch by (rule skip [OF dead])
    then show thesis using Cons.prems(2) Pass_Run \<open>subs' = subs\<close> by (intro that [of n new]) (simp_all add: take_webhook_step_def)
  qed
  show ?case using Cons.IH [of new' n'] Cons.prems(1) new' step by simp
qed auto

section \<open>Properties\<close>

text \<open>
  Every delivery settles once. In every history of alerts enqueued and worker passes (whatever the
  endpoints answer and the subscribers are) ids are unique, a pending delivery has used fewer than
  eight attempts, a dead one exactly eight, exactly the delivered ones have a delivery
  time, and no continuation of the history changes a delivery that is delivered or dead.
\<close>

lemma webhook_deliveries_settle:
  assumes "t = webhook_run libs steps"
  shows "distinct (map dl_id (dt_rows t)) \<and>
    (\<forall>d\<in>set (dt_rows t).
       0 \<le> dl_attempt_count d \<and>
       (case dl_status d of Delivery_Pending \<Rightarrow> dl_attempt_count d < 8 \<and> dl_delivered_at d = None
        | Delivered \<Rightarrow> dl_attempt_count d \<le> 8 \<and> dl_delivered_at d \<noteq> None
        | Delivery_Dead \<Rightarrow> dl_attempt_count d = 8 \<and> dl_delivered_at d = None) \<and>
       (dl_status d \<noteq> Delivery_Pending \<longrightarrow> d \<in> set (dt_rows (snd (fold (take_webhook_step libs) further (posts, t))))))"
proof -
  have wf: "deliveries_wf t" unfolding assms by (rule webhook_run_wf)
  have "0 \<le> dl_attempt_count d \<and>
       (case dl_status d of Delivery_Pending \<Rightarrow> dl_attempt_count d < 8 \<and> dl_delivered_at d = None
        | Delivered \<Rightarrow> dl_attempt_count d \<le> 8 \<and> dl_delivered_at d \<noteq> None
        | Delivery_Dead \<Rightarrow> dl_attempt_count d = 8 \<and> dl_delivered_at d = None)"
    if "d \<in> set (dt_rows t)" for d
    using wf that by (cases "dl_status d") (auto simp: deliveries_wf_def list_all_iff delivery_wf_def max_attempts_def)
  moreover have "d \<in> set (dt_rows (snd (fold (take_webhook_step libs) further (posts, t))))"
    if "d \<in> set (dt_rows t)" "dl_status d \<noteq> Delivery_Pending" for d
    using webhook_history.final_run [of further "(posts, t)" d libs] wf that by (simp add: settled_def)
  ultimately show ?thesis using wf by (simp add: deliveries_wf_def)
qed

definition sample_libs :: webhook_libs where
  "sample_libs = \<lparr>wl_unseal = (\<lambda>k c. Some c), wl_env = \<lparr>we_key = Some ''k'', we_key_previous = None\<rparr>, wl_hmac = (\<lambda>k m. k @ m)\<rparr>"

definition sample_sub :: "string \<Rightarrow> bool \<Rightarrow> subscriber_row" where
  "sample_sub sid active = \<lparr>wr_subscriber_id = sid, wr_url = ''https://e.org/h'', wr_secret_encrypted = ''s'',
     wr_min_score = 70, wr_wallet_filter = None, wr_asset_pair_filter = None, wr_active = active, wr_created_at = 0\<rparr>"

definition sample_webhooks :: "webhook_step list" where
  "sample_webhooks = [Alert_Enqueued 0 ''a'' ''{}'', Alert_Enqueued 1 ''a'' ''{}'',
     Pass_Run [sample_sub ''a'' True] 2 ''t'' (\<lambda>i. if i = 1 then Post_Ok 200 else Post_Status 500)]"

lemma sample_webhook_rows:
  "map (\<lambda>d. (dl_id d, dl_status d, dl_attempt_count d, dl_next_attempt_at d)) (dt_rows (webhook_run sample_libs sample_webhooks)) =
     [(1, Delivered, 0, 0), (2, Delivery_Pending, 1, 10000002)]"
  by code_simp

lemma webhook_deliveries_settle_witness:
  "distinct (map dl_id (dt_rows (webhook_run sample_libs sample_webhooks))) \<and>
   map dl_status (dt_rows (webhook_run sample_libs sample_webhooks)) = [Delivered, Delivery_Pending]"
proof -
  have "map (\<lambda>x. fst (snd x)) (map (\<lambda>d. (dl_id d, dl_status d, dl_attempt_count d, dl_next_attempt_at d))
      (dt_rows (webhook_run sample_libs sample_webhooks))) = [Delivered, Delivery_Pending]"
    unfolding sample_webhook_rows by simp
  then show ?thesis using webhook_deliveries_settle [OF refl, of sample_libs sample_webhooks] by (simp add: comp_def)
qed



text \<open>
  Deliveries of deactivated subscribers can block all others for ever. Such rows are skipped
  without a change, so they stay due and first in the order; once the 50 first due rows
  are of this kind, no later pass (with the same subscribers) sends any request, whatever
  other alerts are due or enqueued.
\<close>

lemma inactive_subscribers_block_queue:
  assumes "length (get_due_deliveries now 50 t) = 50"
    and "\<forall>d\<in>set (get_due_deliveries now 50 t). readable (wl_unseal libs) (wl_env libs) subs d = None"
    and "\<forall>step\<in>set steps. now < step_time step \<and> step_subs step \<in> {None, Some subs}"
  shows "fst (fold (take_webhook_step libs) steps ([], t)) = []"
  using blocked_queue [OF assms, of "[]" "[]" "dt_last_id t"] by simp

definition stuck_table :: delivery_table where
  "stuck_table = fold (\<lambda>i. enqueue_delivery 0 (if i < 50 then ''gone'' else ''a'') ''{}'') [0..<51] \<lparr>dt_rows = [], dt_last_id = 0\<rparr>"

lemma stuck_batch:
  "length (get_due_deliveries 1 50 stuck_table) = 50"
  "list_all (\<lambda>d. readable (wl_unseal sample_libs) (wl_env sample_libs) [sample_sub ''gone'' False, sample_sub ''a'' True] d = None)
     (get_due_deliveries 1 50 stuck_table)"
  by code_simp+

lemma inactive_subscribers_block_queue_witness:
  "fst (fold (take_webhook_step sample_libs)
     [Pass_Run [sample_sub ''gone'' False, sample_sub ''a'' True] 2 ''t'' (\<lambda>_. Post_Ok 200),
      Alert_Enqueued 3 ''a'' ''{}'',
      Pass_Run [sample_sub ''gone'' False, sample_sub ''a'' True] 4 ''t'' (\<lambda>_. Post_Ok 200)] ([], stuck_table)) = []"
  by (rule inactive_subscribers_block_queue [OF stuck_batch(1), where subs = "[sample_sub ''gone'' False, sample_sub ''a'' True]"])
     (use stuck_batch(2) in \<open>simp_all add: list_all_iff step_time_def step_subs_def\<close>)

section \<open>Registration\<close>

text \<open>
  A registered secret can be read again, also after the key was rotated once: with the old key kept
  as the previous one, the row decrypts to the same secret.
\<close>

lemma secret_survives_rotation:
  assumes "\<And>k n p c. seal k n p = Some c \<Longrightarrow> unseal k c = Some p"
    and "\<And>k k' n p c. seal k n p = Some c \<Longrightarrow> k' \<noteq> k \<Longrightarrow> unseal k' c = None"
    and "encrypt_secret seal env nonce secret = Inr c" "we_key_previous env' = we_key env"
  shows "decrypt_secret unseal env c = Some secret \<and> decrypt_secret unseal env' c = Some secret"
proof -
  obtain k where k: "we_key env = Some k" "k \<noteq> []" "seal k nonce secret = Some c"
    using assms(3) by (auto simp: encrypt_secret_def get_encryption_key_def split: option.splits if_splits sum.splits)
  have "unseal x c = (if x = k then Some secret else None)" for x
    using assms(1) [OF k(3)] assms(2) [OF k(3)] by simp
  then show ?thesis using k assms(4) by (auto simp: decrypt_secret_def try_key_def split: option.splits)
qed

text \<open>
  One active subscriber whose secret no key opens silences every alert: listing the subscribers
  raises, and the pipeline gives up before it enqueues anything.
\<close>

lemma all_subscribers_fails:
  "row \<in> set rows \<Longrightarrow> row_to_subscriber unseal env row = None \<Longrightarrow> all_subscribers unseal env rows = Inl Undecryptable"
  by (induction rows) (auto split: option.splits)

lemma undecryptable_secret_silences_alerts:
  assumes "row \<in> set subs" "wr_active row" "decrypt_secret unseal env (wr_secret_encrypted row) = None"
  shows "enqueue_webhook_alerts unseal env subs now dump scores t = t"
proof -
  have "list_subscribers unseal env True subs = Inl Undecryptable"
    unfolding list_subscribers_def using assms
    by (intro all_subscribers_fails [of row]) (simp_all add: row_to_subscriber_def)
  then show ?thesis by (cases scores) (simp_all add: get_matching_subscribers_def)
qed

text \<open>
  The check of the endpoint reads dotted addresses as IPv4 only, so an IPv4-mapped IPv6 address of
  the loopback interface passes, as do the wildcard and the link-local metadata address.
\<close>

lemma mapped_loopback_accepted:
  assumes "h \<notin> {[], ''localhost'', ''127.0.0.1'', ''::1''}"
  shows "validate_webhook_url (\<lambda>_. Some ''::ffff:127.0.0.1'') ''https'' (Some h) = None"
    and "validate_webhook_url (\<lambda>_. Some ''0.0.0.0'') ''https'' (Some h) = None"
    and "validate_webhook_url (\<lambda>_. Some ''169.254.169.254'') ''https'' (Some h) = None"
    and "validate_webhook_url (\<lambda>_. Some ''127.0.0.2'') ''https'' (Some h) = Some Localhost_Refused"
    and "validate_webhook_url (\<lambda>_. Some ''172.20.1.1'') ''https'' (Some h) = Some Private_Refused"
  using assms by (simp_all add: validate_webhook_url_def loopback_v4_def private_v4_def is_digit_def)

end
