(* ===== verification/Benford.thy ===== *)
theory Benford
  imports Data_Models Calendar Py_Text "HOL-Library.Char_ord" "HOL-Library.List_Lexorder"
begin

text \<open>
  Benford analysis of amounts (\<open>packages/core/detection/benford_engine.py\<close>): leading digits, the
  chi-square, Z and deviation statistics, the incremental counter over sliding windows, the
  Kolmogorov-Smirnov and Kuiper tests, and the analysis per asset pair. Floats are real numbers, so an
  amount is finite and rounding is not modelled. The bootstrap p-value (random) and the chi-square survival
  function of SciPy are parameters. A data frame of trades is the list of its rows. Left out: the multivariate
  helpers of the file (copulas and matrix statistics). Asset codes are ASCII text.
\<close>

section \<open>Leading digits\<close>

definition DIGITS :: "nat list" where
  "DIGITS = [1, 2, 3, 4, 5, 6, 7, 8, 9]"

definition benford_expected :: "nat \<Rightarrow> real" where
  "benford_expected d = log 10 (1 + 1 / real d)"

text \<open>The two loops of \<open>first_digit\<close>; the first one is only entered with a positive value.\<close>

function scale_up :: "real \<Rightarrow> real" where
  "scale_up v = (if 0 < v \<and> v < 1 then scale_up (v * 10) else v)"
  by pat_completeness auto
termination
proof (relation "measure (\<lambda>v. nat \<lceil>- log 10 v\<rceil>)", goal_cases)
  case (2 v)
  then have l: "log 10 (v * 10) = log 10 v + 1" "log 10 v < 0" by (auto simp: log_mult)
  have "\<lceil>- log 10 (v * 10)\<rceil> = \<lceil>- log 10 v\<rceil> - 1"
  proof -
    have "- log 10 (v * 10) = - log 10 v - 1" using l(1) by simp
    then show ?thesis by (simp only: ceiling_diff_one)
  qed
  moreover have "0 < \<lceil>- log 10 v\<rceil>" using l by (simp add: less_ceiling_iff)
  ultimately show ?case by simp
qed simp

declare scale_up.simps [simp del]

function scale_down :: "real \<Rightarrow> real" where
  "scale_down v = (if 10 \<le> v then scale_down (v / 10) else v)"
  by pat_completeness auto
termination
proof (relation "measure (\<lambda>v. nat \<lfloor>log 10 v\<rfloor>)", goal_cases)
  case (2 v)
  then have l: "log 10 (v / 10) = log 10 v - 1" "1 \<le> log 10 v" by (auto simp: log_divide le_log_iff)
  then have "\<lfloor>log 10 (v / 10)\<rfloor> = \<lfloor>log 10 v\<rfloor> - 1" by simp
  moreover have "1 \<le> \<lfloor>log 10 v\<rfloor>" using l(2) by (simp add: le_floor_iff)
  ultimately show ?case by simp
qed simp

declare scale_down.simps [simp del]

definition first_digit :: "real \<Rightarrow> nat option" where
  "first_digit v = (if v \<le> 0 then None else Some (nat \<lfloor>scale_down (scale_up v)\<rfloor>))"

definition observed_digits :: "real list \<Rightarrow> nat list" where
  "observed_digits amounts = List.map_filter first_digit amounts"

definition digit_count_of :: "nat list \<Rightarrow> nat \<Rightarrow> nat" where
  "digit_count_of ds d = row_count (\<lambda>x. x = d) ds"

definition digit_distribution :: "real list \<Rightarrow> (nat, real) dict" where
  "digit_distribution amounts =
     (let ds = observed_digits amounts; n = length ds
      in if n = 0 then map (\<lambda>d. (d, 0)) DIGITS
         else map (\<lambda>d. (d, real (digit_count_of ds d) / real n)) DIGITS)"

section \<open>Statistics\<close>

definition get0 :: "(nat, real) dict \<Rightarrow> nat \<Rightarrow> real" where
  "get0 m d = (case dict_get m d of None \<Rightarrow> 0 | Some x \<Rightarrow> x)"

definition chi_square_statistic :: "(nat, real) dict \<Rightarrow> nat \<Rightarrow> real" where
  "chi_square_statistic observed n =
     (if n = 0 then 0
      else sum_list (map (\<lambda>d. let expected_count = benford_expected d * n; observed_count = get0 observed d * n
                              in if 0 < expected_count then (observed_count - expected_count)\<^sup>2 / expected_count else 0) DIGITS))"

definition z_of :: "real \<Rightarrow> real \<Rightarrow> nat \<Rightarrow> real" where
  "z_of p observed_p n =
     (let numerator = \<bar>observed_p - p\<bar> - 1 / (2 * real n); denominator = sqrt (p * (1 - p) / real n)
      in if 0 < denominator then max numerator 0 / denominator else 0)"

definition z_scores :: "(nat, real) dict \<Rightarrow> nat \<Rightarrow> (nat, real) dict" where
  "z_scores observed n =
     (if n = 0 then map (\<lambda>d. (d, 0)) DIGITS
      else map (\<lambda>d. (d, z_of (benford_expected d) (get0 observed d) n)) DIGITS)"

definition mean_absolute_deviation :: "(nat, real) dict \<Rightarrow> real" where
  "mean_absolute_deviation observed = sum_list (map (\<lambda>d. \<bar>get0 observed d - benford_expected d\<bar>) DIGITS) / 9"

definition benford_probs :: "nat \<Rightarrow> real" where
  "benford_probs d = benford_expected d / sum_list (map benford_expected DIGITS)"

definition bootstrap_threshold :: nat where
  "bootstrap_threshold = 100"

definition chi_sq_from_counts :: "(nat \<Rightarrow> real) \<Rightarrow> (nat \<Rightarrow> real) \<Rightarrow> real" where
  "chi_sq_from_counts observed expected =
     sum_list (map (\<lambda>d. (observed d - expected d)\<^sup>2 / (expected d + 1 / 10 ^ 9)) DIGITS)"

datatype pvalue_method = Bootstrap | Asymptotic

definition compute_chi_square_pvalue ::
  "(nat list \<Rightarrow> real) \<Rightarrow> (real \<Rightarrow> real) \<Rightarrow> (nat \<Rightarrow> real) \<Rightarrow> nat \<Rightarrow> real \<times> pvalue_method" where
  "compute_chi_square_pvalue bootstrap chi2_sf counts n =
     (if n < bootstrap_threshold then (bootstrap (map (\<lambda>d. nat \<lfloor>counts d\<rfloor>) DIGITS), Bootstrap)
      else (chi2_sf (chi_sq_from_counts counts (\<lambda>d. benford_probs d * real n)), Asymptotic))"

record benford_metrics =
  bm_chi_square :: real
  bm_pvalue :: real
  bm_method :: pvalue_method
  bm_mad :: real
  bm_z_scores :: "(nat, real) dict"
  bm_observed :: "(nat, real) dict"
  bm_sample_size :: nat

definition compute_benford_metrics :: "(nat list \<Rightarrow> real) \<Rightarrow> (real \<Rightarrow> real) \<Rightarrow> real list \<Rightarrow> benford_metrics" where
  "compute_benford_metrics bootstrap chi2_sf amounts =
     (let observed = digit_distribution amounts;
          n = row_count (\<lambda>a. first_digit a \<noteq> None) amounts;
          (p, method) = compute_chi_square_pvalue bootstrap chi2_sf (\<lambda>d. get0 observed d * real n) n
      in if n = 0
         then \<lparr>bm_chi_square = 0, bm_pvalue = 1, bm_method = Bootstrap, bm_mad = 0, bm_z_scores = map (\<lambda>d. (d, 0)) DIGITS,
               bm_observed = observed, bm_sample_size = 0\<rparr>
         else \<lparr>bm_chi_square = chi_square_statistic observed n, bm_pvalue = p, bm_method = method,
               bm_mad = mean_absolute_deviation observed, bm_z_scores = z_scores observed n,
               bm_observed = observed, bm_sample_size = n\<rparr>)"

definition is_anomalous :: "real \<Rightarrow> benford_metrics \<Rightarrow> bool" where
  "is_anomalous mad_threshold m \<longleftrightarrow> mad_threshold < bm_mad m"

section \<open>The incremental counter\<close>

text \<open>\<open>BENFORD_WINDOWS\<close> in the environment overrides the argument unless it is empty or malformed.\<close>

definition parse_benford_windows :: "string \<Rightarrow> int list \<Rightarrow> int list" where
  "parse_benford_windows raw dflt =
     (if raw = [] then dflt
      else let parts = filter (\<lambda>x. py_strip x \<noteq> []) (py_split (CHR '','') raw);
               nums = map (\<lambda>x. py_int (py_strip x)) parts
           in if None \<in> set nums then dflt else map the nums)"

record stream_counter =
  sc_windows :: "nat list"
  sc_slots :: "(nat list \<times> int list) list"

text \<open>A negative window is refused by \<open>deque\<close>; \<open>None\<close> is the exception.\<close>

definition new_stream_counter :: "string \<Rightarrow> int list option \<Rightarrow> stream_counter option" where
  "new_stream_counter raw windows =
     (let dflt = (case windows of None \<Rightarrow> [100, 500, 1000] | Some [] \<Rightarrow> [100, 500, 1000] | Some ws \<Rightarrow> ws);
          ws = parse_benford_windows raw dflt
      in if \<exists>w\<in>set ws. w < 0 then None
         else Some \<lparr>sc_windows = map nat ws, sc_slots = map (\<lambda>w. ([], replicate 9 0)) ws\<rparr>)"

definition stream_digit :: "real \<Rightarrow> nat" where
  "stream_digit amount =
     (let digit = nat \<lfloor>10 powr (log 10 amount - of_int \<lfloor>log 10 amount\<rfloor>)\<rfloor> in if digit = 0 then 1 else digit)"

text \<open>One slot: the digit that leaves a full buffer is taken off the digit_tally. The buffer of a window of
  size zero is full and empty at once, and reading its first element fails.\<close>

definition push_digit :: "nat \<Rightarrow> nat \<Rightarrow> nat list \<times> int list \<Rightarrow> (nat list \<times> int list) option" where
  "push_digit digit maxlen slot =
     (case slot of (buf, counts) \<Rightarrow>
        if length buf = maxlen
        then (case buf of
                [] \<Rightarrow> None
              | oldest # rest \<Rightarrow>
                  let counts1 = counts[oldest - 1 := counts ! (oldest - 1) - 1]
                  in Some (rest @ [digit], counts1[digit - 1 := counts1 ! (digit - 1) + 1]))
        else Some (buf @ [digit], counts[digit - 1 := counts ! (digit - 1) + 1]))"

fun push_all :: "nat \<Rightarrow> nat list \<Rightarrow> (nat list \<times> int list) list \<Rightarrow> (nat list \<times> int list) list option" where
  "push_all digit (w # ws) (s # ss) =
     (case push_digit digit w s of
        None \<Rightarrow> None
      | Some s' \<Rightarrow> (case push_all digit ws ss of None \<Rightarrow> None | Some ss' \<Rightarrow> Some (s' # ss')))"
| "push_all digit ws ss = Some []"

definition counter_update :: "real \<Rightarrow> stream_counter \<Rightarrow> stream_counter option" where
  "counter_update amount sc =
     (if amount \<le> 0 then Some sc
      else map_option (\<lambda>ss. sc\<lparr>sc_slots := ss\<rparr>) (push_all (stream_digit amount) (sc_windows sc) (sc_slots sc)))"

record benford_stats =
  bs_chi_square :: real
  bs_mad :: real
  bs_z_scores :: "real list"
  bs_n :: nat

fun window_index :: "nat \<Rightarrow> nat list \<Rightarrow> nat option" where
  "window_index w [] = None"
| "window_index w (x # xs) = (if x = w then Some 0 else map_option Suc (window_index w xs))"

definition stats_of_counts :: "int list \<Rightarrow> benford_stats" where
  "stats_of_counts counts =
     (let n = nat (sum_list counts)
      in if n = 0 then \<lparr>bs_chi_square = 0, bs_mad = 0, bs_z_scores = replicate 9 0, bs_n = 0\<rparr>
         else let pairs = zip (map (\<lambda>c. real_of_int c / real n) counts) (map benford_expected DIGITS)
              in \<lparr>bs_chi_square = sum_list (map (\<lambda>(ob, e). if 0 < e then (ob * real n - e * real n)\<^sup>2 / (e * real n) else 0) pairs),
                  bs_mad = sum_list (map (\<lambda>(ob, e). \<bar>ob - e\<bar>) pairs) / 9,
                  bs_z_scores = map (\<lambda>(ob, e). z_of e ob n) pairs,
                  bs_n = n\<rparr>)"

text \<open>\<open>None\<close> is the \<open>ValueError\<close> for a window that is not configured.\<close>

definition window_stats :: "nat \<Rightarrow> stream_counter \<Rightarrow> benford_stats option" where
  "window_stats window sc = map_option (\<lambda>i. stats_of_counts (snd (sc_slots sc ! i))) (window_index window (sc_windows sc))"

section \<open>Kolmogorov-Smirnov and Kuiper tests\<close>

fun cumsum_from :: "real \<Rightarrow> real list \<Rightarrow> real list" where
  "cumsum_from acc [] = []"
| "cumsum_from acc (x # xs) = (acc + x) # cumsum_from (acc + x) xs"

definition cumsum :: "real list \<Rightarrow> real list" where
  "cumsum xs = cumsum_from 0 xs"

definition benford_cdf :: "real list" where
  "benford_cdf = cumsum (map benford_expected DIGITS)"

definition ks_min_n :: real where
  "ks_min_n = 5"

text \<open>A field that is NaN in the source is \<open>None\<close>.\<close>

record test_result =
  tr_statistic :: "real option"
  tr_p_value :: "real option"
  tr_flag :: bool
  tr_valid :: bool

definition no_test :: test_result where
  "no_test = \<lparr>tr_statistic = None, tr_p_value = None, tr_flag = False, tr_valid = False\<rparr>"

definition ks_pvalue :: "real \<Rightarrow> real" where
  "ks_pvalue lam =
     (if lam \<le> 0 then 1
      else max 0 (min 1 (2 * sum_list (map (\<lambda>j. (- 1) ^ (j - 1) * exp (- 2 * real j * real j * lam * lam)) [1..<101]))))"

definition compute_ks_statistic :: "real list \<Rightarrow> test_result" where
  "compute_ks_statistic digit_counts =
     (let n = sum_list digit_counts
      in if length digit_counts \<noteq> 9 \<or> (\<exists>c\<in>set digit_counts. c < 0) then no_test
         else if n < ks_min_n then no_test
         else let observed_cdf = map (\<lambda>c. c / n) (cumsum digit_counts);
                  d_stat = Max (set (map (\<lambda>(f, b). \<bar>f - b\<bar>) (zip observed_cdf benford_cdf)));
                  d_crit = 1358 / 1000 / sqrt n;
                  lam = (sqrt n + 12 / 100 + 11 / 100 / sqrt n) * d_stat
              in \<lparr>tr_statistic = Some d_stat, tr_p_value = Some (ks_pvalue lam), tr_flag = d_crit < d_stat, tr_valid = True\<rparr>)"

definition kuiper_pvalue :: "real \<Rightarrow> nat \<Rightarrow> real" where
  "kuiper_pvalue V n =
     (let sqrt_n = sqrt (real n); v = V * (sqrt_n + 155 / 1000 + 24 / 100 / sqrt_n)
      in if V \<le> 0 \<or> n < 1 then 1
         else if v \<le> 0 then 1
         else max 0 (min 1 (2 * sum_list (map (\<lambda>j. (4 * (real j * real j * v * v) - 1) * exp (- 2 * (real j * real j * v * v)))
                (takeWhile (\<lambda>j. - 300 \<le> - 2 * (real j * real j * v * v)) [1..<101])))))"

definition compute_kuiper_statistic :: "real list \<Rightarrow> test_result" where
  "compute_kuiper_statistic digit_counts =
     (let n = sum_list digit_counts
      in if length digit_counts \<noteq> 9 \<or> (\<exists>c\<in>set digit_counts. c < 0) then no_test
         else if n < ks_min_n then no_test
         else let observed_cdf = map (\<lambda>c. c / n) (cumsum digit_counts);
                  d_plus = Max (set (map (\<lambda>(f, b). f - b) (zip observed_cdf benford_cdf)));
                  d_minus = Max (set (map (\<lambda>(f, b). b - f) (zip observed_cdf benford_cdf)));
                  v_stat = d_plus + d_minus;
                  p = kuiper_pvalue v_stat (nat \<lfloor>n\<rfloor>)
              in \<lparr>tr_statistic = Some v_stat, tr_p_value = Some p, tr_flag = p < 5 / 100, tr_valid = True\<rparr>)"

definition extract_digit_histogram :: "real list \<Rightarrow> nat list \<times> nat" where
  "extract_digit_histogram amounts =
     (let ds = observed_digits amounts in (map (digit_count_of ds) DIGITS, length ds))"

definition compute_benford_ks_kuiper :: "real list \<Rightarrow> test_result \<times> test_result" where
  "compute_benford_ks_kuiper amounts =
     (let counts = map real (fst (extract_digit_histogram amounts))
      in (compute_ks_statistic counts, compute_kuiper_statistic counts))"

section \<open>Analysis per asset pair\<close>

record amount_trade =
  at_base :: asset
  at_counter :: asset
  at_amount :: real

definition pair_char :: "char \<Rightarrow> bool" where
  "pair_char c \<longleftrightarrow> (let n = (of_char c :: nat)
     in 65 \<le> n \<and> n \<le> 90 \<or> 48 \<le> n \<and> n \<le> 57 \<or> c \<in> set ''/.:-'')"

text \<open>The pattern's \<open>$\<close> also matches before a final newline.\<close>

definition sanitize_asset_pair :: "string \<Rightarrow> string option" where
  "sanitize_asset_pair pair =
     (let u = py_upper pair; body = (if u \<noteq> [] \<and> last u = char_of (10 :: nat) then butlast u else u)
      in if pair = [] \<or> 30 < length pair then None
         else if body \<noteq> [] \<and> list_all pair_char body then Some pair
         else None)"

definition canonical_asset_pair :: "string \<Rightarrow> string \<Rightarrow> string" where
  "canonical_asset_pair base counter =
     (if counter < base then counter @ ''/'' @ base else base @ ''/'' @ counter)"

definition group_trade :: "amount_trade \<Rightarrow> (string, real list) dict \<Rightarrow> (string, real list) dict" where
  "group_trade t grouped =
     (let pair = canonical_asset_pair (pair_symbol (at_base t)) (pair_symbol (at_counter t))
      in case sanitize_asset_pair pair of
           None \<Rightarrow> grouped
         | Some _ \<Rightarrow> dict_set pair ((case dict_get grouped pair of None \<Rightarrow> [] | Some xs \<Rightarrow> xs) @ [at_amount t]) grouped)"

definition group_trades_list :: "amount_trade list \<Rightarrow> (string, real list) dict" where
  "group_trades_list trades = fold group_trade trades []"

record benford_result =
  br_asset_pair :: string
  br_chi_square :: real
  br_mad :: real
  br_z_scores :: "(nat, real) dict"
  br_flagged_digits :: "nat list"
  br_flag :: bool
  br_sample_size :: nat
  br_valid :: bool
  br_reason :: string
  br_observed :: "(nat, real) dict"

definition min_stratum_size :: nat where
  "min_stratum_size = 30"

definition chi2_critical_005 :: real where
  "chi2_critical_005 = 15507 / 1000"

definition compute_stratum_benford :: "string \<Rightarrow> real list \<Rightarrow> benford_result" where
  "compute_stratum_benford asset_pair amounts =
     (let (counts, n) = extract_digit_histogram amounts;
          observed = map (\<lambda>d. (d, real (counts ! (d - 1)) / real n)) DIGITS;
          chi_sq = chi_square_statistic observed n;
          zs = z_scores observed n
      in if n < min_stratum_size
         then \<lparr>br_asset_pair = asset_pair, br_chi_square = 0, br_mad = 0, br_z_scores = [], br_flagged_digits = [], br_flag = False,
               br_sample_size = n, br_valid = False, br_reason = ''insufficient_sample'', br_observed = []\<rparr>
         else \<lparr>br_asset_pair = asset_pair, br_chi_square = chi_sq, br_mad = mean_absolute_deviation observed, br_z_scores = zs,
               br_flagged_digits = filter (\<lambda>d. 196 / 100 < \<bar>get0 zs d\<bar>) DIGITS, br_flag = chi2_critical_005 < chi_sq,
               br_sample_size = n, br_valid = True, br_reason = [], br_observed = observed\<rparr>)"

record strat_summary =
  ss_results :: "(string, benford_result) dict"
  ss_max_chi2 :: real
  ss_max_mad :: real
  ss_mean_mad :: real
  ss_above :: nat
  ss_flagged :: nat
  ss_fallback :: bool

text \<open>\<open>min_size\<close> is the parameter of the function of that name; the body does not use it.\<close>

definition stratified_benford_analysis :: "amount_trade list \<Rightarrow> nat \<Rightarrow> strat_summary" where
  "stratified_benford_analysis trades min_size =
     (let grouped = group_trades_list trades;
          results = map (\<lambda>(pair, amounts). (pair, compute_stratum_benford pair amounts)) grouped;
          valid = filter br_valid (map snd results);
          global = compute_stratum_benford ''__global__'' (concat (map snd grouped));
          mads = map br_mad valid
      in if grouped = []
         then \<lparr>ss_results = [], ss_max_chi2 = 0, ss_max_mad = 0, ss_mean_mad = 0, ss_above = 0, ss_flagged = 0, ss_fallback = True\<rparr>
         else if valid = []
         then \<lparr>ss_results = dict_set ''__global__'' global results,
               ss_max_chi2 = (if br_valid global then br_chi_square global else 0),
               ss_max_mad = (if br_valid global then br_mad global else 0),
               ss_mean_mad = (if br_valid global then br_mad global else 0),
               ss_above = (if br_valid global \<and> 15 / 1000 < br_mad global then 1 else 0),
               ss_flagged = (if br_valid global \<and> br_flag global then 1 else 0),
               ss_fallback = True\<rparr>
         else \<lparr>ss_results = results, ss_max_chi2 = Max (set (map br_chi_square valid)), ss_max_mad = Max (set mads),
               ss_mean_mad = sum_list mads / real (length mads),
               ss_above = row_count (\<lambda>m. 15 / 1000 < m) mads, ss_flagged = row_count br_flag valid, ss_fallback = False\<rparr>)"

section \<open>The leading digit\<close>

lemma scale_up_mantissa:
  "0 < v \<Longrightarrow> (\<exists>k::int. scale_up v = v * 10 powr of_int k) \<and> 1 \<le> scale_up v \<and> (v < 1 \<longrightarrow> scale_up v < 10)"
proof (induction v rule: scale_up.induct)
  case (1 v)
  show ?case
  proof (cases "v < 1")
    case True
    then have IH: "(\<exists>k::int. scale_up (v * 10) = v * 10 * 10 powr of_int k)" "1 \<le> scale_up (v * 10)" "v * 10 < 1 \<longrightarrow> scale_up (v * 10) < 10"
      using 1 by auto
    obtain k :: int where k: "scale_up (v * 10) = v * 10 * 10 powr of_int k" using IH(1) by blast
    have step: "scale_up v = scale_up (v * 10)" using 1 True by (subst scale_up.simps) simp
    have "v * 10 * 10 powr of_int k = v * 10 powr of_int (k + 1)" by (simp add: powr_add)
    moreover have "scale_up (v * 10) < 10"
    proof (cases "v * 10 < 1")
      case False
      then have "scale_up (v * 10) = v * 10" by (subst scale_up.simps) simp
      then show ?thesis using True by simp
    qed (use IH in simp)
    ultimately show ?thesis using k step IH by metis
  next
    case False
    then have "scale_up v = v * 10 powr of_int 0" using 1 by (subst scale_up.simps) simp
    then show ?thesis using False by (metis not_less mult.right_neutral powr_zero_eq_one of_int_0 zero_neq_numeral)
  qed
qed

lemma scale_down_mantissa:
  "1 \<le> v \<Longrightarrow> (\<exists>k::int. scale_down v = v * 10 powr of_int k) \<and> 1 \<le> scale_down v \<and> scale_down v < 10"
proof (induction v rule: scale_down.induct)
  case (1 v)
  show ?case
  proof (cases "10 \<le> v")
    case True
    then have IH: "(\<exists>k::int. scale_down (v / 10) = v / 10 * 10 powr of_int k)" "1 \<le> scale_down (v / 10)" "scale_down (v / 10) < 10"
      using 1 by auto
    obtain k :: int where k: "scale_down (v / 10) = v / 10 * 10 powr of_int k" using IH(1) by blast
    have "scale_down v = scale_down (v / 10)" using True by (subst scale_down.simps) simp
    moreover have "v / 10 * 10 powr of_int k = v * 10 powr of_int (k - 1)" by (simp add: powr_diff)
    ultimately show ?thesis using k IH by metis
  next
    case False
    then have "scale_down v = v * 10 powr of_int 0" by (subst scale_down.simps) simp
    then show ?thesis using False 1 by (metis not_less mult.right_neutral powr_zero_eq_one of_int_0 zero_neq_numeral)
  qed
qed

lemma mantissa_unique:
  assumes "0 < v" "1 \<le> v * 10 powr of_int k" "v * 10 powr of_int k < 10"
  shows "v * 10 powr of_int k = 10 powr (log 10 v - of_int \<lfloor>log 10 v\<rfloor>)" "k = - \<lfloor>log 10 v\<rfloor>"
proof -
  have m: "v * 10 powr of_int k = 10 powr (log 10 v + of_int k)" using assms(1) by (simp add: powr_add)
  have "10 powr 0 \<le> 10 powr (log 10 v + of_int k)" "10 powr (log 10 v + of_int k) < 10 powr 1"
    using assms(2,3) by (simp_all add: m)
  then have "0 \<le> log 10 v + of_int k" "log 10 v + of_int k < 1"
    by (simp_all only: powr_le_cancel_iff powr_less_cancel_iff one_less_numeral_iff semiring_norm)
  then have "\<lfloor>log 10 v\<rfloor> = - k" by (intro floor_unique) simp_all
  then show "k = - \<lfloor>log 10 v\<rfloor>" by simp
  then have "log 10 v + of_int k = log 10 v - of_int \<lfloor>log 10 v\<rfloor>" by simp
  then show "v * 10 powr of_int k = 10 powr (log 10 v - of_int \<lfloor>log 10 v\<rfloor>)" by (simp only: m)
qed

lemma mantissa_bounds:
  assumes "0 < v"
  shows "1 \<le> 10 powr (log 10 v - of_int \<lfloor>log 10 v\<rfloor>)" "10 powr (log 10 v - of_int \<lfloor>log 10 v\<rfloor>) < 10"
    "10 powr (log 10 v - of_int \<lfloor>log 10 v\<rfloor>) = v * 10 powr of_int (- \<lfloor>log 10 v\<rfloor>)"
proof -
  have "0 \<le> log 10 v - of_int \<lfloor>log 10 v\<rfloor>" "log 10 v - of_int \<lfloor>log 10 v\<rfloor> < 1" by linarith+
  then have "10 powr 0 \<le> 10 powr (log 10 v - of_int \<lfloor>log 10 v\<rfloor>)" "10 powr (log 10 v - of_int \<lfloor>log 10 v\<rfloor>) < 10 powr 1"
    by (intro powr_mono powr_less_mono; simp)+
  then show "1 \<le> 10 powr (log 10 v - of_int \<lfloor>log 10 v\<rfloor>)" "10 powr (log 10 v - of_int \<lfloor>log 10 v\<rfloor>) < 10" by simp_all
  have "10 powr (log 10 v - of_int \<lfloor>log 10 v\<rfloor>) = 10 powr (log 10 v) * 10 powr (- of_int \<lfloor>log 10 v\<rfloor>)"
    by (simp add: powr_add [symmetric])
  then show "10 powr (log 10 v - of_int \<lfloor>log 10 v\<rfloor>) = v * 10 powr of_int (- \<lfloor>log 10 v\<rfloor>)" using assms by simp
qed

lemma first_digit_stream:
  assumes "0 < v"
  shows "first_digit v = Some (stream_digit v)" "stream_digit v \<in> set DIGITS"
    "stream_digit v = nat \<lfloor>10 powr (log 10 v - of_int \<lfloor>log 10 v\<rfloor>)\<rfloor>"
proof -
  let ?m = "10 powr (log 10 v - of_int \<lfloor>log 10 v\<rfloor>)"
  obtain j :: int where j: "scale_up v = v * 10 powr of_int j" "1 \<le> scale_up v" using scale_up_mantissa [OF assms] by blast
  obtain k :: int where k: "scale_down (scale_up v) = scale_up v * 10 powr of_int k" "1 \<le> scale_down (scale_up v)"
      "scale_down (scale_up v) < 10"
    using scale_down_mantissa [OF j(2)] by blast
  have "scale_down (scale_up v) = v * 10 powr of_int (j + k)" using j k by (simp add: powr_add)
  then have s: "scale_down (scale_up v) = ?m" using mantissa_unique(1) [OF assms, of "j + k"] k by simp
  have f: "1 \<le> \<lfloor>?m\<rfloor>" "\<lfloor>?m\<rfloor> < 10" using k by (simp_all add: s [symmetric] le_floor_iff floor_less_iff)
  show d: "stream_digit v = nat \<lfloor>?m\<rfloor>" using f by (simp add: stream_digit_def Let_def)
  then show "first_digit v = Some (stream_digit v)" using assms by (simp add: first_digit_def s)
  have "1 \<le> nat \<lfloor>?m\<rfloor>" "nat \<lfloor>?m\<rfloor> \<le> 9" using f by linarith+
  then show "stream_digit v \<in> set DIGITS" unfolding d DIGITS_def by auto
qed

lemma leading_digit_interval:
  assumes "0 < v" "1 \<le> d" "d \<le> 9" "real d * 10 powr of_int k \<le> v" "v < (real d + 1) * 10 powr of_int k"
  shows "stream_digit v = d"
proof -
  have p: "0 < 10 powr real_of_int k" by simp
  have b: "real d \<le> v * 10 powr of_int (- k)" "v * 10 powr of_int (- k) < real d + 1"
    using assms(4,5) p by (simp_all add: powr_minus_divide pos_le_divide_eq pos_divide_less_eq)
  then have "v * 10 powr of_int (- k) = 10 powr (log 10 v - of_int \<lfloor>log 10 v\<rfloor>)"
    using assms(1-3) by (intro mantissa_unique(1)) auto
  then have "\<lfloor>10 powr (log 10 v - of_int \<lfloor>log 10 v\<rfloor>)\<rfloor> = int d" using b by (intro floor_unique) simp_all
  then show ?thesis using first_digit_stream(3) [OF assms(1)] by simp
qed

section \<open>The counter and the batch statistics\<close>

definition digit_tally :: "nat list \<Rightarrow> int list" where
  "digit_tally ds = map (\<lambda>d. int (digit_count_of ds d)) DIGITS"

lemma tally_Nil: "digit_tally [] = replicate 9 0"
  by (simp add: digit_tally_def digit_count_of_def row_count_def DIGITS_def numeral_eq_Suc)

lemma tally_nth: "d \<in> set DIGITS \<Longrightarrow> digit_tally ds ! (d - Suc 0) = int (digit_count_of ds d)"
  by (auto simp: digit_tally_def DIGITS_def)

lemma tally_update:
  assumes "d \<in> set DIGITS" "\<And>e. e \<noteq> d \<Longrightarrow> digit_count_of ds' e = digit_count_of ds e" "int (digit_count_of ds' d) = x"
  shows "(digit_tally ds)[d - Suc 0 := x] = digit_tally ds'"
  using assms(1,3) by (auto simp: digit_tally_def DIGITS_def assms(2))

lemma tally_snoc: "d \<in> set DIGITS \<Longrightarrow> (digit_tally ds)[d - Suc 0 := digit_tally ds ! (d - Suc 0) + 1] = digit_tally (ds @ [d])"
  by (rule tally_update) (auto simp: tally_nth digit_count_of_def row_count_def)

lemma tally_tl: "d \<in> set DIGITS \<Longrightarrow> (digit_tally (d # ds))[d - Suc 0 := digit_tally (d # ds) ! (d - Suc 0) - 1] = digit_tally ds"
  by (rule tally_update) (auto simp: tally_nth digit_count_of_def row_count_def)

lemma sum_tally: "set ds \<subseteq> set DIGITS \<Longrightarrow> sum_list (digit_tally ds) = int (length ds)"
proof (induction ds)
  case Nil then show ?case by (simp add: digit_tally_def digit_count_of_def row_count_def)
next
  case (Cons d ds)
  have "sum_list (digit_tally (d # ds)) = sum_list (digit_tally ds) + 1"
    using Cons.prems by (auto simp: digit_tally_def DIGITS_def digit_count_of_def row_count_def)
  then show ?case using Cons by simp
qed

definition last_n :: "nat \<Rightarrow> 'a list \<Rightarrow> 'a list" where
  "last_n w xs = drop (length xs - w) xs"

definition slot_ok :: "nat \<Rightarrow> nat list \<Rightarrow> nat list \<times> int list \<Rightarrow> bool" where
  "slot_ok w seen slot \<longleftrightarrow> slot = (last_n w seen, digit_tally (last_n w seen))"

lemma last_n_snoc: "0 < w \<Longrightarrow> last_n w (xs @ [x]) = (if length (last_n w xs) = w then tl (last_n w xs) else last_n w xs) @ [x]"
  by (auto simp: last_n_def drop_Suc [symmetric] tl_drop Suc_diff_le)

lemma push_digit_ok:
  assumes "slot_ok w seen slot" "0 < w" "d \<in> set DIGITS" "set seen \<subseteq> set DIGITS"
  shows "\<exists>slot'. push_digit d w slot = Some slot' \<and> slot_ok w (seen @ [d]) slot'"
proof (cases "length (last_n w seen) = w")
  case True
  then obtain x xs where b: "last_n w seen = x # xs" using assms(2) by (cases "last_n w seen") auto
  then have "x \<in> set (last_n w seen)" by simp
  then have "x \<in> set DIGITS" using assms(4) unfolding last_n_def by (meson in_set_dropD subsetD)
  then show ?thesis
    using assms True b by (auto simp: slot_ok_def push_digit_def last_n_snoc tally_tl tally_snoc Let_def)
next
  case False
  then show ?thesis using assms by (simp add: slot_ok_def push_digit_def last_n_snoc tally_snoc)
qed

lemma push_all_ok:
  assumes "list_all2 (\<lambda>w slot. slot_ok w seen slot) ws slots" "0 \<notin> set ws" "d \<in> set DIGITS" "set seen \<subseteq> set DIGITS"
  shows "\<exists>slots'. push_all d ws slots = Some slots' \<and> list_all2 (\<lambda>w slot. slot_ok w (seen @ [d]) slot) ws slots'"
  using assms(1,2)
proof (induction rule: list_all2_induct)
  case (Cons w ws s ss)
  from Cons push_digit_ok [of w seen s d] assms(3,4) show ?case by auto
qed simp

fun counter_run :: "real list \<Rightarrow> stream_counter \<Rightarrow> stream_counter option" where
  "counter_run [] sc = Some sc"
| "counter_run (a # as) sc = (case counter_update a sc of None \<Rightarrow> None | Some sc' \<Rightarrow> counter_run as sc')"

lemma observed_Cons: "observed_digits (a # as) = (if a \<le> 0 then observed_digits as else stream_digit a # observed_digits as)"
  using first_digit_stream(1) [of a] by (auto simp: observed_digits_def List.map_filter_simps first_digit_def)

lemma observed_DIGITS: "set (observed_digits as) \<subseteq> set DIGITS"
proof (induction as)
  case (Cons a as) then show ?case using first_digit_stream(2) [of a] by (auto simp: observed_Cons)
qed (simp add: observed_digits_def List.map_filter_simps)

lemma counter_run_ok:
  assumes "list_all2 (\<lambda>w slot. slot_ok w seen slot) (sc_windows sc) (sc_slots sc)" "0 \<notin> set (sc_windows sc)" "set seen \<subseteq> set DIGITS"
  shows "\<exists>sc'. counter_run as sc = Some sc' \<and> sc_windows sc' = sc_windows sc \<and>
    list_all2 (\<lambda>w slot. slot_ok w (seen @ observed_digits as) slot) (sc_windows sc') (sc_slots sc')"
  using assms
proof (induction as arbitrary: sc seen)
  case Nil then show ?case by (simp add: observed_digits_def List.map_filter_simps)
next
  case (Cons a as)
  show ?case
  proof (cases "a \<le> 0")
    case True then show ?thesis using Cons by (simp add: counter_update_def observed_Cons)
  next
    case False
    then have d: "stream_digit a \<in> set DIGITS" using first_digit_stream(2) by simp
    obtain ss where ss: "push_all (stream_digit a) (sc_windows sc) (sc_slots sc) = Some ss"
      "list_all2 (\<lambda>w slot. slot_ok w (seen @ [stream_digit a]) slot) (sc_windows sc) ss"
      using push_all_ok [OF Cons.prems(1,2) d Cons.prems(3)] by blast
    have "\<exists>sc'. counter_run as (sc\<lparr>sc_slots := ss\<rparr>) = Some sc' \<and> sc_windows sc' = sc_windows (sc\<lparr>sc_slots := ss\<rparr>) \<and>
        list_all2 (\<lambda>w slot. slot_ok w ((seen @ [stream_digit a]) @ observed_digits as) slot) (sc_windows sc') (sc_slots sc')"
      using ss Cons.prems d by (intro Cons.IH) auto
    then show ?thesis using False ss by (simp add: counter_update_def observed_Cons)
  qed
qed

section \<open>Bounds\<close>

lemma benford_expected_pos: "d \<in> set DIGITS \<Longrightarrow> 0 < benford_expected d"
  by (auto simp: benford_expected_def DIGITS_def)

lemma benford_expected_sum: "sum_list (map benford_expected DIGITS) = 1"
proof -
  have e: "benford_expected d = log 10 (real d + 1) - log 10 (real d)" if "0 < d" for d
  proof -
    have "1 + 1 / real d = (real d + 1) / real d" using that by (simp add: field_simps)
    then show ?thesis using that by (simp add: benford_expected_def log_divide)
  qed
  show ?thesis by (simp add: DIGITS_def e)
qed

lemma get0_map: "d \<in> set DIGITS \<Longrightarrow> get0 (map (\<lambda>d. (d, f d)) DIGITS) d = f d"
  by (auto simp: get0_def DIGITS_def)

lemma distribution_get0:
  assumes "observed_digits amounts \<noteq> []" "d \<in> set DIGITS"
  shows "get0 (digit_distribution amounts) d = real (digit_count_of (observed_digits amounts) d) / real (length (observed_digits amounts))"
  using assms by (simp add: digit_distribution_def Let_def get0_map)

lemma sum_list_cong: "(\<And>x. x \<in> set xs \<Longrightarrow> f x = g x) \<Longrightarrow> sum_list (map f xs) = sum_list (map g xs)"
  by (metis map_cong)

lemma distribution_sum:
  assumes "observed_digits amounts \<noteq> []"
  shows "sum_list (map (get0 (digit_distribution amounts)) DIGITS) = 1"
proof -
  let ?ds = "observed_digits amounts"
  have "sum_list (map (get0 (digit_distribution amounts)) DIGITS) = sum_list (map (\<lambda>d. real (digit_count_of ?ds d) / real (length ?ds)) DIGITS)"
    by (rule sum_list_cong) (rule distribution_get0 [OF assms])
  also have "\<dots> = sum_list (map (\<lambda>d. real (digit_count_of ?ds d)) DIGITS) / real (length ?ds)"
    by (simp add: DIGITS_def add_divide_distrib)
  also have "sum_list (map (\<lambda>d. real (digit_count_of ?ds d)) DIGITS) = real_of_int (sum_list (digit_tally ?ds))"
    by (simp add: digit_tally_def DIGITS_def)
  finally show ?thesis using assms by (simp add: sum_tally [OF observed_DIGITS])
qed

lemma distribution_nonneg: "d \<in> set DIGITS \<Longrightarrow> 0 \<le> get0 (digit_distribution amounts) d"
  by (simp add: digit_distribution_def Let_def get0_map)

lemma sample_size_observed: "row_count (\<lambda>a. first_digit a \<noteq> None) amounts = length (observed_digits amounts)"
  by (induction amounts) (auto simp: row_count_def observed_digits_def List.map_filter_simps)

text \<open>The part of the batch result the counter also reports.\<close>

definition batch_stats :: "(nat list \<Rightarrow> real) \<Rightarrow> (real \<Rightarrow> real) \<Rightarrow> real list \<Rightarrow> benford_stats" where
  "batch_stats bootstrap chi2_sf amounts =
     (let m = compute_benford_metrics bootstrap chi2_sf amounts
      in \<lparr>bs_chi_square = bm_chi_square m, bs_mad = bm_mad m, bs_z_scores = map (get0 (bm_z_scores m)) DIGITS, bs_n = bm_sample_size m\<rparr>)"

lemma stats_of_tally: "stats_of_counts (digit_tally (observed_digits amounts)) = batch_stats bootstrap chi2_sf amounts"
proof (cases "observed_digits amounts = []")
  case True
  then have "compute_benford_metrics bootstrap chi2_sf amounts =
      \<lparr>bm_chi_square = 0, bm_pvalue = 1, bm_method = Bootstrap, bm_mad = 0, bm_z_scores = map (\<lambda>d. (d, 0)) DIGITS,
        bm_observed = digit_distribution amounts, bm_sample_size = 0\<rparr>"
    unfolding compute_benford_metrics_def sample_size_observed by (simp split: prod.splits)
  then show ?thesis
    using True by (simp add: stats_of_counts_def batch_stats_def digit_tally_def digit_count_of_def row_count_def get0_def DIGITS_def
        numeral_eq_Suc)
next
  case False
  let ?ds = "observed_digits amounts" and ?o = "digit_distribution amounts"
  let ?n = "length ?ds"
  have n: "nat (sum_list (digit_tally ?ds)) = ?n" by (simp add: sum_tally [OF observed_DIGITS])
  have g: "get0 ?o d = real_of_int (int (digit_count_of ?ds d)) / real ?n" if "d \<in> set DIGITS" for d
    using distribution_get0 [OF False that] by simp
  have pairs: "zip (map (\<lambda>c. real_of_int c / real ?n) (digit_tally ?ds)) (map benford_expected DIGITS) =
      map (\<lambda>d. (get0 ?o d, benford_expected d)) DIGITS"
    by (simp add: digit_tally_def zip_map_map zip_same_conv_map g)
  have chi: "sum_list (map (\<lambda>d. if 0 < benford_expected d then (get0 ?o d * real ?n - benford_expected d * real ?n)\<^sup>2 / (benford_expected d * real ?n) else 0) DIGITS) =
      chi_square_statistic ?o ?n"
    unfolding chi_square_statistic_def Let_def using False benford_expected_pos
    by (simp, intro sum_list_cong) simp
  have z: "map (\<lambda>d. z_of (benford_expected d) (get0 ?o d) ?n) DIGITS = map (get0 (z_scores ?o ?n)) DIGITS"
    using False by (simp add: z_scores_def get0_map)
  show ?thesis
    unfolding stats_of_counts_def batch_stats_def compute_benford_metrics_def sample_size_observed n pairs Let_def
    using False chi z by (simp add: mean_absolute_deviation_def comp_def split: prod.splits)
qed

lemma observed_append: "observed_digits (as @ bs) = observed_digits as @ observed_digits bs"
  by (simp add: observed_digits_def List.map_filter_def)

lemma last_n_observed:
  "last_n w (observed_digits as) = observed_digits (last_n w (filter (\<lambda>a. 0 < a) as))"
proof -
  have pos: "observed_digits as = map stream_digit (filter (\<lambda>a. 0 < a) as)" for as
  proof (induction as)
    case (Cons a as) then show ?case by (auto simp: observed_Cons)
  qed (simp add: observed_digits_def List.map_filter_simps)
  have "filter (\<lambda>a. 0 < a) (last_n w (filter (\<lambda>a. 0 < a) as)) = last_n w (filter (\<lambda>a. (0::real) < a) as)"
    unfolding filter_id_conv last_n_def by (auto dest: in_set_dropD)
  then show ?thesis unfolding pos by (simp only: last_n_def drop_map length_map)
qed

lemma window_index_Some: "w \<in> set ws \<Longrightarrow> \<exists>i. window_index w ws = Some i \<and> i < length ws \<and> ws ! i = w"
proof (induction ws)
  case (Cons x ws)
  show ?case
  proof (cases "x = w")
    case False
    then obtain i where "window_index w ws = Some i" "i < length ws" "ws ! i = w" using Cons by auto
    then show ?thesis using False by (intro exI [of _ "Suc i"]) simp
  qed simp
qed simp

lemma sum_list_nonneg_map: "(\<And>x. x \<in> set xs \<Longrightarrow> 0 \<le> (f x :: real)) \<Longrightarrow> 0 \<le> sum_list (map f xs)"
  by (rule sum_list_nonneg) auto

lemma deviation_bound:
  assumes "observed_digits amounts \<noteq> []"
  shows "mean_absolute_deviation (digit_distribution amounts) \<le> 2 / 9"
proof -
  let ?o = "get0 (digit_distribution amounts)"
  have "sum_list (map (\<lambda>d. \<bar>?o d - benford_expected d\<bar>) DIGITS) \<le> sum_list (map (\<lambda>d. ?o d + benford_expected d) DIGITS)"
  proof (rule sum_list_mono)
    fix d assume "d \<in> set DIGITS"
    then show "\<bar>?o d - benford_expected d\<bar> \<le> ?o d + benford_expected d"
      using distribution_nonneg [of d amounts] benford_expected_pos [of d] by simp
  qed
  also have "\<dots> = sum_list (map ?o DIGITS) + sum_list (map benford_expected DIGITS)" by (rule sum_list_addf)
  finally show ?thesis by (simp add: mean_absolute_deviation_def distribution_sum [OF assms] benford_expected_sum)
qed

section \<open>Properties\<close>



section \<open>The tests and the strata\<close>

lemma length_cumsum [simp]: "length (cumsum_from a xs) = length xs"
  by (induction a xs rule: cumsum_from.induct) auto

lemma cumsum_nth: "i < length xs \<Longrightarrow> cumsum_from a xs ! i = a + sum_list (take (Suc i) xs)"
proof (induction a xs arbitrary: i rule: cumsum_from.induct)
  case (2 acc x xs) then show ?case by (cases i) auto
qed simp

lemma take_sum_mono:
  assumes "\<forall>x\<in>set xs. 0 \<le> x" "i \<le> j"
  shows "sum_list (take i xs) \<le> (sum_list (take j xs) :: real)"
proof -
  have "take j xs = take i xs @ take (j - i) (drop i xs)" using assms(2) by (metis le_add_diff_inverse take_add)
  moreover have "0 \<le> sum_list (take (j - i) (drop i xs))"
    using assms(1) by (intro sum_list_nonneg) (meson in_set_dropD in_set_takeD)
  ultimately show ?thesis by simp
qed

text \<open>A list of partial sums that ends at one.\<close>

definition cdf :: "real list \<Rightarrow> bool" where
  "cdf F \<longleftrightarrow> length F = 9 \<and> F ! 8 = 1 \<and> (\<forall>i<9. 0 \<le> F ! i) \<and> (\<forall>i j. i \<le> j \<longrightarrow> j < 9 \<longrightarrow> F ! i \<le> F ! j)"

lemma cdf_cumsum:
  assumes "length xs = 9" "\<forall>x\<in>set xs. 0 \<le> x" "0 < sum_list xs"
  shows "cdf (map (\<lambda>c. c / sum_list xs) (cumsum xs))"
proof -
  have nth: "map (\<lambda>c. c / sum_list xs) (cumsum xs) ! i = sum_list (take (Suc i) xs) / sum_list xs" if "i < 9" for i
    using that assms(1) by (simp add: cumsum_def cumsum_nth)
  have "0 \<le> sum_list (take (Suc i) xs)" for i
    using take_sum_mono [OF assms(2), of 0 "Suc i"] by simp
  moreover have "take 9 xs = xs" using assms(1) by simp
  ultimately show ?thesis
    using assms nth take_sum_mono [OF assms(2)]
    by (auto simp: cdf_def cumsum_def numeral_eq_Suc divide_right_mono)
qed

lemma cdf_benford: "cdf benford_cdf"
proof -
  have "cdf (map (\<lambda>c. c / sum_list (map benford_expected DIGITS)) (cumsum (map benford_expected DIGITS)))"
    using benford_expected_pos benford_expected_sum
    by (intro cdf_cumsum) (auto simp: DIGITS_def less_imp_le)
  then show ?thesis by (simp add: benford_expected_sum benford_cdf_def)
qed

lemma cdf_le_one: "cdf F \<Longrightarrow> i < 9 \<Longrightarrow> F ! i \<le> 1"
proof -
  assume F: "cdf F" and i: "i < 9"
  moreover have "i \<le> 8" "(8::nat) < 9" using i by simp_all
  ultimately have "F ! i \<le> F ! 8" unfolding cdf_def by blast
  then show ?thesis using F by (simp add: cdf_def)
qed

lemma Max_zip:
  assumes "length F = 9" "length B = 9"
  shows "\<exists>i<9. Max (set (map (\<lambda>(f, b). g f b) (zip F B))) = (g (F ! i) (B ! i) :: real)"
    "i < 9 \<Longrightarrow> g (F ! i) (B ! i) \<le> (Max (set (map (\<lambda>(f, b). g f b) (zip F B))) :: real)"
proof -
  have s: "set (map (\<lambda>(f, b). g f b) (zip F B)) = (\<lambda>i. g (F ! i) (B ! i)) ` {..<9}"
    using assms by (auto simp: set_zip image_iff)
  have "Max ((\<lambda>i. g (F ! i) (B ! i)) ` {..<9}) \<in> (\<lambda>i. g (F ! i) (B ! i)) ` {..<9::nat}"
    by (rule Max_in) (auto simp: lessThan_empty_iff)
  then show "\<exists>i<9. Max (set (map (\<lambda>(f, b). g f b) (zip F B))) = g (F ! i) (B ! i)"
    unfolding s by auto
  show "i < 9 \<Longrightarrow> g (F ! i) (B ! i) \<le> Max (set (map (\<lambda>(f, b). g f b) (zip F B)))"
    unfolding s by (intro Max_ge) auto
qed

lemma ks_bounds:
  assumes "cdf F" "cdf B"
  shows "0 \<le> Max (set (map (\<lambda>(f, b). \<bar>f - b\<bar>) (zip F B)))" "Max (set (map (\<lambda>(f, b). \<bar>f - b\<bar>) (zip F B))) \<le> (1 :: real)"
proof -
  have l: "length F = 9" "length B = 9" using assms by (auto simp: cdf_def)
  obtain i where i: "i < 9" "Max (set (map (\<lambda>(f, b). \<bar>f - b\<bar>) (zip F B))) = \<bar>F ! i - B ! i\<bar>"
    using Max_zip(1) [OF l, of "\<lambda>f b. \<bar>f - b\<bar>"] by blast
  have "0 \<le> F ! i" "0 \<le> B ! i" "F ! i \<le> 1" "B ! i \<le> 1" using assms i cdf_le_one by (auto simp: cdf_def)
  then show "0 \<le> Max (set (map (\<lambda>(f, b). \<bar>f - b\<bar>) (zip F B)))" "Max (set (map (\<lambda>(f, b). \<bar>f - b\<bar>) (zip F B))) \<le> 1"
    unfolding i(2) by auto
qed

lemma kuiper_bounds:
  assumes "cdf F" "cdf B"
  defines "p \<equiv> Max (set (map (\<lambda>(f, b). f - b) (zip F B)))" and "m \<equiv> Max (set (map (\<lambda>(f, b). b - f) (zip F B)))"
  shows "0 \<le> p + m" "p + m \<le> (1 :: real)"
proof -
  have l: "length F = 9" "length B = 9" using assms(1,2) by (auto simp: cdf_def)
  obtain i where i: "i < 9" "p = F ! i - B ! i" unfolding p_def using Max_zip(1) [OF l, of "\<lambda>f b. f - b"] by blast
  obtain j where j: "j < 9" "m = B ! j - F ! j" unfolding m_def using Max_zip(1) [OF l, of "\<lambda>f b. b - f"] by blast
  have "F ! 8 - B ! 8 \<le> p" "B ! 8 - F ! 8 \<le> m"
    unfolding p_def m_def using Max_zip(2) [OF l, of 8 "\<lambda>f b. f - b"] Max_zip(2) [OF l, of 8 "\<lambda>f b. b - f"] by auto
  then show "0 \<le> p + m" by simp
  have "0 \<le> F ! i" "0 \<le> F ! j" "0 \<le> B ! i" "0 \<le> B ! j" "F ! i \<le> 1" "F ! j \<le> 1" "B ! i \<le> 1" "B ! j \<le> 1"
    using assms(1,2) i j cdf_le_one by (auto simp: cdf_def)
  moreover have "F ! i \<le> F ! j \<or> B ! j \<le> B ! i"
    using assms(1,2) i(1) j(1) unfolding cdf_def by (metis nat_le_linear)
  ultimately show "p + m \<le> 1" unfolding i(2) j(2) by linarith
qed

lemma pvalue_bounds: "0 \<le> ks_pvalue lam" "ks_pvalue lam \<le> 1" "0 \<le> kuiper_pvalue V n" "kuiper_pvalue V n \<le> 1"
  by (auto simp: ks_pvalue_def kuiper_pvalue_def Let_def)

lemma histogram_counts:
  "map real (fst (extract_digit_histogram amounts)) = map real_of_int (digit_tally (observed_digits amounts))"
  by (simp add: extract_digit_histogram_def digit_tally_def Let_def comp_def)

lemma sum_map_real: "sum_list (map real_of_int xs) = real_of_int (sum_list xs)"
  by (induction xs) auto

text \<open>The distribution tests report sound numbers. With at least five positive amounts both tests are
  valid, the Kolmogorov-Smirnov statistic and the Kuiper statistic lie between 0 and 1, and so do
  both p-values (the truncated series are cut off to that range); with fewer, both report
  that they are not valid.\<close>

lemma distribution_tests_bounded:
  "compute_benford_ks_kuiper amounts = (ks, ku) \<longrightarrow>
   (if 5 \<le> length (observed_digits amounts)
    then tr_valid ks \<and> tr_valid ku \<and>
      (\<exists>d v p q. tr_statistic ks = Some d \<and> tr_statistic ku = Some v \<and> tr_p_value ks = Some p \<and> tr_p_value ku = Some q \<and>
        0 \<le> d \<and> d \<le> 1 \<and> 0 \<le> v \<and> v \<le> 1 \<and> 0 \<le> p \<and> p \<le> 1 \<and> 0 \<le> q \<and> q \<le> 1)
    else ks = no_test \<and> ku = no_test)"
proof (intro impI)
  let ?ds = "observed_digits amounts"
  let ?cs = "map real_of_int (digit_tally ?ds)"
  assume ks: "compute_benford_ks_kuiper amounts = (ks, ku)"
  have sum: "sum_list ?cs = real (length ?ds)" by (simp add: sum_map_real sum_tally [OF observed_DIGITS])
  have shape: "length ?cs = 9" "\<forall>c\<in>set ?cs. 0 \<le> c" by (simp add: digit_tally_def DIGITS_def, auto simp: digit_tally_def)
  then have ok: "\<not> (length ?cs \<noteq> 9 \<or> (\<exists>c\<in>set ?cs. c < 0))" by fastforce
  have res: "ks = compute_ks_statistic ?cs" "ku = compute_kuiper_statistic ?cs"
    using ks by (simp_all add: compute_benford_ks_kuiper_def histogram_counts Let_def)
  show "if 5 \<le> length ?ds
    then tr_valid ks \<and> tr_valid ku \<and>
      (\<exists>d v p q. tr_statistic ks = Some d \<and> tr_statistic ku = Some v \<and> tr_p_value ks = Some p \<and> tr_p_value ku = Some q \<and>
        0 \<le> d \<and> d \<le> 1 \<and> 0 \<le> v \<and> v \<le> 1 \<and> 0 \<le> p \<and> p \<le> 1 \<and> 0 \<le> q \<and> q \<le> 1)
    else ks = no_test \<and> ku = no_test"
  proof (cases "5 \<le> length ?ds")
    case True
    have "?ds \<noteq> []" using True by auto
    then have n: "\<not> sum_list ?cs < ks_min_n" "0 < sum_list ?cs" using True unfolding sum ks_min_n_def by simp_all
    note F = cdf_cumsum [OF shape n(2)]
    show ?thesis
      unfolding res compute_ks_statistic_def compute_kuiper_statistic_def Let_def if_not_P [OF ok] if_not_P [OF n(1)]
      using True ks_bounds [OF F cdf_benford] kuiper_bounds [OF F cdf_benford] by (simp add: pvalue_bounds)
  next
    case False
    then have "sum_list ?cs < ks_min_n" unfolding sum ks_min_n_def by simp
    then show ?thesis
      using False unfolding res compute_ks_statistic_def compute_kuiper_statistic_def Let_def by simp
  qed
qed

lemma canonical_sides: "canonical_asset_pair a b = canonical_asset_pair b a"
  by (auto simp: canonical_asset_pair_def)

definition pair_of :: "amount_trade \<Rightarrow> string" where
  "pair_of t = canonical_asset_pair (pair_symbol (at_base t)) (pair_symbol (at_counter t))"

lemma grouped_amounts:
  "dict_get (group_trades_list trades) p =
     (let xs = map at_amount (filter (\<lambda>t. pair_of t = p) trades)
      in if xs = [] \<or> sanitize_asset_pair p = None then None else Some xs)"
proof -
  have "dict_get (fold group_trade trades d) p =
      (let xs = map at_amount (filter (\<lambda>t. pair_of t = p) trades)
       in if xs = [] \<or> sanitize_asset_pair p = None then dict_get d p
          else Some ((case dict_get d p of None \<Rightarrow> [] | Some ys \<Rightarrow> ys) @ xs))" for d
  proof (induction trades arbitrary: d)
    case (Cons t trades)
    have "dict_get (group_trade t d) p =
        (if pair_of t = p \<and> sanitize_asset_pair p \<noteq> None then Some ((case dict_get d p of None \<Rightarrow> [] | Some ys \<Rightarrow> ys) @ [at_amount t])
         else dict_get d p)"
      by (auto simp: group_trade_def pair_of_def dict_get_set Let_def split: option.splits)
    then show ?case using Cons.IH [of "group_trade t d"] by (auto simp: Let_def)
  qed simp
  from this [of "[]"] show ?thesis by (simp add: group_trades_list_def Let_def)
qed

lemma keys_grouped: "dict_wf (group_trades_list trades)"
  unfolding group_trades_list_def
  by (rule fold_keeps) (auto simp: group_trade_def Let_def intro: wf_intros split: option.splits)

lemma stratum_observed:
  assumes "observed_digits amounts \<noteq> []"
  shows "map (\<lambda>d. (d, real (fst (extract_digit_histogram amounts) ! (d - 1)) / real (length (observed_digits amounts)))) DIGITS =
    digit_distribution amounts"
  using assms by (simp add: extract_digit_histogram_def digit_distribution_def Let_def DIGITS_def)

lemma stratum_metrics:
  fixes amounts bootstrap chi2_sf pair
  defines "m \<equiv> compute_benford_metrics bootstrap chi2_sf amounts" and "r \<equiv> compute_stratum_benford pair amounts"
  shows "br_valid r \<longleftrightarrow> 30 \<le> bm_sample_size m" "br_sample_size r = bm_sample_size m"
    "br_valid r \<Longrightarrow> br_chi_square r = bm_chi_square m \<and> br_mad r = bm_mad m \<and> br_z_scores r = bm_z_scores m \<and>
      (br_flag r \<longleftrightarrow> 15507 / 1000 < bm_chi_square m)"
proof -
  let ?n = "length (observed_digits amounts)"
  obtain counts where h: "extract_digit_histogram amounts = (counts, ?n)" "fst (extract_digit_histogram amounts) = counts"
    by (simp add: extract_digit_histogram_def Let_def)
  have sz: "bm_sample_size m = ?n"
    unfolding m_def compute_benford_metrics_def sample_size_observed by (simp add: Let_def split: prod.splits)
  show "br_valid r \<longleftrightarrow> 30 \<le> bm_sample_size m" "br_sample_size r = bm_sample_size m"
    unfolding r_def compute_stratum_benford_def h(1) sz by (auto simp: Let_def min_stratum_size_def)
  assume v: "br_valid r"
  then have n: "30 \<le> ?n" unfolding r_def compute_stratum_benford_def h(1) by (simp add: Let_def min_stratum_size_def split: if_splits)
  then have ne: "observed_digits amounts \<noteq> []" by auto
  note obs = stratum_observed [OF ne, unfolded h(2)]
  have lhs: "br_chi_square r = chi_square_statistic (digit_distribution amounts) ?n" "br_mad r = mean_absolute_deviation (digit_distribution amounts)"
    "br_z_scores r = z_scores (digit_distribution amounts) ?n" "br_flag r \<longleftrightarrow> 15507 / 1000 < chi_square_statistic (digit_distribution amounts) ?n"
    unfolding r_def compute_stratum_benford_def h(1) prod.case Let_def obs using n by (simp_all add: min_stratum_size_def chi2_critical_005_def)
  have rhs: "bm_chi_square m = chi_square_statistic (digit_distribution amounts) ?n" "bm_mad m = mean_absolute_deviation (digit_distribution amounts)"
    "bm_z_scores m = z_scores (digit_distribution amounts) ?n"
    unfolding m_def compute_benford_metrics_def sample_size_observed using ne by (simp_all add: Let_def split: prod.splits)
  show "br_chi_square r = bm_chi_square m \<and> br_mad r = bm_mad m \<and> br_z_scores r = bm_z_scores m \<and>
      (br_flag r \<longleftrightarrow> 15507 / 1000 < bm_chi_square m)" using lhs rhs by simp
qed

lemma count_keys:
  assumes "dict_wf d"
  shows "row_count (\<lambda>pr. P (snd pr)) d = card {k. \<exists>v. dict_get d k = Some v \<and> P v}"
proof -
  let ?xs = "filter (\<lambda>pr. P (snd pr)) d"
  have dist: "distinct (map fst d)" using assms by (simp add: dict_wf_def)
  have "{k. \<exists>v. dict_get d k = Some v \<and> P v} = set (map fst ?xs)"
    using dist by (auto simp: map_of_eq_Some_iff image_iff)
  moreover have "distinct (map fst ?xs)" using dist by (rule distinct_map_filter)
  ultimately have "card {k. \<exists>v. dict_get d k = Some v \<and> P v} = length (map fst ?xs)" by (metis distinct_card)
  then show ?thesis by (simp add: row_count_def)
qed

text \<open>The stratified analysis is the batch analysis of each asset pair. The strata are the acceptable
  pairs that occur, a pair being the same whichever side is the base; the stratum of a pair is valid exactly when at least
  30 of its trades have a positive amount, and then carries the chi-square, deviation and Z-scores that
  \<open>compute_benford_metrics\<close> gives for the amounts of exactly the trades of that pair, flagged when the
  chi-square exceeds the critical value. When some stratum is valid, the summary counts the flagged ones.\<close>

lemma stratified_analysis_per_pair:
  assumes "s = stratified_benford_analysis trades min_size"
  shows "\<not> ss_fallback s \<longrightarrow>
    (\<forall>p r. dict_get (ss_results s) p = Some r \<longleftrightarrow>
       (sanitize_asset_pair p \<noteq> None \<and> (\<exists>t\<in>set trades. pair_of t = p) \<and>
        r = compute_stratum_benford p (map at_amount (filter (\<lambda>t. pair_of t = p) trades)))) \<and>
    (\<forall>p r m. dict_get (ss_results s) p = Some r \<and>
       m = compute_benford_metrics bootstrap chi2_sf (map at_amount (filter (\<lambda>t. pair_of t = p) trades)) \<longrightarrow>
       (br_valid r \<longleftrightarrow> 30 \<le> bm_sample_size m) \<and>
       (br_valid r \<longrightarrow> br_chi_square r = bm_chi_square m \<and> br_mad r = bm_mad m \<and> br_z_scores r = bm_z_scores m \<and>
          (br_flag r \<longleftrightarrow> 15507 / 1000 < bm_chi_square m))) \<and>
    ss_flagged s = card {p. \<exists>r. dict_get (ss_results s) p = Some r \<and> br_valid r \<and> br_flag r}"
proof (intro impI conjI allI)
  assume nf: "\<not> ss_fallback s"
  let ?g = "group_trades_list trades" and ?f = "\<lambda>(p, xs). (p, compute_stratum_benford p xs)"
  have res: "ss_results s = map ?f ?g" and fl: "ss_flagged s = row_count br_flag (filter br_valid (map snd (map ?f ?g)))"
    using nf unfolding assms stratified_benford_analysis_def Let_def by (auto split: if_splits)
  have get: "dict_get (ss_results s) p = map_option (compute_stratum_benford p) (dict_get ?g p)" for p
  proof -
    have "dict_get (map ?f d) p = map_option (compute_stratum_benford p) (dict_get d p)" for d by (induction d) auto
    then show ?thesis unfolding res by simp
  qed
  show "dict_get (ss_results s) p = Some r \<longleftrightarrow>
       (sanitize_asset_pair p \<noteq> None \<and> (\<exists>t\<in>set trades. pair_of t = p) \<and>
        r = compute_stratum_benford p (map at_amount (filter (\<lambda>t. pair_of t = p) trades)))" for p r
    unfolding get grouped_amounts by (auto simp: Let_def filter_empty_conv)
  {
    fix p r m assume a: "dict_get (ss_results s) p = Some r \<and>
       m = compute_benford_metrics bootstrap chi2_sf (map at_amount (filter (\<lambda>t. pair_of t = p) trades))"
    then have "r = compute_stratum_benford p (map at_amount (filter (\<lambda>t. pair_of t = p) trades))"
      unfolding get grouped_amounts by (auto simp: Let_def split: if_splits)
    with a stratum_metrics [where bootstrap = bootstrap and chi2_sf = chi2_sf and pair = p]
    show "br_valid r \<longleftrightarrow> 30 \<le> bm_sample_size m"
      and "br_valid r \<Longrightarrow> br_chi_square r = bm_chi_square m" and "br_valid r \<Longrightarrow> br_mad r = bm_mad m"
      and "br_valid r \<Longrightarrow> br_z_scores r = bm_z_scores m" and "br_valid r \<Longrightarrow> br_flag r \<longleftrightarrow> 15507 / 1000 < bm_chi_square m"
      by blast+
  }
  have "map fst (ss_results s) = map fst ?g" unfolding res by (simp add: comp_def case_prod_beta)
  then have "dict_wf (ss_results s)" using keys_grouped [of trades] by (simp add: dict_wf_def)
  from count_keys [OF this, of "\<lambda>r. br_valid r \<and> br_flag r"]
  show "ss_flagged s = card {p. \<exists>r. dict_get (ss_results s) p = Some r \<and> br_valid r \<and> br_flag r}"
    unfolding fl res row_count_def by (simp add: filter_map comp_def conj_commute)
qed

section \<open>Concrete amounts\<close>

lemma digits_of_ones: "observed_digits (replicate n 1) = replicate n 1"
proof -
  have "log 10 (1 :: real) = 0" by simp
  then have "stream_digit 1 = 1" by (simp add: stream_digit_def Let_def)
  then show ?thesis by (induction n) (simp_all add: observed_Cons, simp add: observed_digits_def List.map_filter_simps)
qed



lemma distribution_tests_bounded_witness:
  "tr_valid (fst (compute_benford_ks_kuiper (replicate 5 1))) \<and> fst (compute_benford_ks_kuiper [1]) = no_test"
proof -
  have "length (observed_digits (replicate n 1)) = n" for n by (simp add: digits_of_ones)
  from this [of 5] this [of 1]
  show ?thesis
    using distribution_tests_bounded [of "replicate 5 1" "fst (compute_benford_ks_kuiper (replicate 5 1))" "snd (compute_benford_ks_kuiper (replicate 5 1))"]
      distribution_tests_bounded [of "replicate 1 1" "fst (compute_benford_ks_kuiper [1])" "snd (compute_benford_ks_kuiper [1])"]
    by simp
qed

definition code_trade :: amount_trade where
  "code_trade = \<lparr>at_base = \<lparr>a_code = ''XLM'', a_issuer = None\<rparr>, at_counter = \<lparr>a_code = ''USDC'', a_issuer = None\<rparr>, at_amount = 1\<rparr>"

lemma code_trade_pair: "pair_of code_trade = ''USDC/XLM''" "sanitize_asset_pair ''USDC/XLM'' = Some ''USDC/XLM''"
  by code_simp+

lemma code_trade_amounts: "map at_amount (filter (\<lambda>t. pair_of t = ''USDC/XLM'') (replicate n code_trade)) = replicate n 1"
  by (induction n) (simp_all add: code_trade_pair(1), simp add: code_trade_def)

lemma code_trades_valid:
  "\<not> ss_fallback (stratified_benford_analysis (replicate 30 code_trade) 1)"
proof -
  let ?ts = "replicate 30 code_trade"
  note amt = code_trade_amounts [of 30]
  have "dict_get (group_trades_list ?ts) ''USDC/XLM'' = Some (replicate 30 1)"
    unfolding grouped_amounts amt by (simp add: code_trade_pair)
  then have mem: "(''USDC/XLM'', replicate 30 1) \<in> set (group_trades_list ?ts)" by (rule map_of_SomeD)
  have "br_sample_size (compute_stratum_benford p (replicate 30 1)) = 30" "br_valid (compute_stratum_benford p (replicate 30 1))" for p
    by (simp_all add: compute_stratum_benford_def extract_digit_histogram_def digits_of_ones Let_def min_stratum_size_def)
  then have "compute_stratum_benford ''USDC/XLM'' (replicate 30 1) \<in>
      set (filter br_valid (map snd (map (\<lambda>(p, xs). (p, compute_stratum_benford p xs)) (group_trades_list ?ts))))"
    using mem by (force simp: image_iff)
  then have "filter br_valid (map snd (map (\<lambda>(p, xs). (p, compute_stratum_benford p xs)) (group_trades_list ?ts))) \<noteq> []"
    by (metis empty_iff list.set(1))
  moreover have "group_trades_list ?ts \<noteq> []" using mem by force
  ultimately show ?thesis unfolding stratified_benford_analysis_def Let_def by simp
qed

lemma stratified_analysis_per_pair_witness:
  "dict_get (ss_results (stratified_benford_analysis (replicate 30 code_trade) 1)) ''USDC/XLM'' =
     Some (compute_stratum_benford ''USDC/XLM'' (replicate 30 1))"
proof -
  let ?ts = "replicate 30 code_trade" and ?p = "''USDC/XLM''"
  have "sanitize_asset_pair ?p \<noteq> None \<and> (\<exists>t\<in>set ?ts. pair_of t = ?p) \<and>
      compute_stratum_benford ?p (replicate 30 1) = compute_stratum_benford ?p (map at_amount (filter (\<lambda>t. pair_of t = ?p) ?ts))"
    using code_trade_pair unfolding code_trade_amounts by simp
  then show ?thesis
    using stratified_analysis_per_pair [OF refl, of ?ts 1, rule_format, OF code_trades_valid] by blast
qed

section \<open>Where the analysis is weaker than documented\<close>

text \<open>A pair with an issued asset has a name longer than the thirty characters the sanitiser accepts (an issuer
  alone has 56): every such trade is dropped, and the summary of a history without native-only pairs is empty.\<close>

lemma issued_asset_pairs_are_skipped:
  assumes "\<forall>t\<in>set trades. \<exists>i. (a_issuer (at_base t) = Some i \<or> a_issuer (at_counter t) = Some i) \<and> length i = 56"
  shows "ss_results (stratified_benford_analysis trades min_size) = []" "ss_flagged (stratified_benford_analysis trades min_size) = 0"
proof -
  have "sanitize_asset_pair (pair_of t) = None" if "t \<in> set trades" for t
  proof -
    from assms that obtain i where "a_issuer (at_base t) = Some i \<or> a_issuer (at_counter t) = Some i" "length i = 56" by blast
    then have "30 < length (pair_of t)" by (auto simp: pair_of_def canonical_asset_pair_def pair_symbol_def)
    then show ?thesis by (simp add: sanitize_asset_pair_def)
  qed
  then have "fold group_trade trades [] = []"
    by (induction trades) (simp_all add: group_trade_def pair_of_def Let_def)
  then show "ss_results (stratified_benford_analysis trades min_size) = []" "ss_flagged (stratified_benford_analysis trades min_size) = 0"
    by (simp_all add: stratified_benford_analysis_def group_trades_list_def)
qed

text \<open>A window of size zero makes the first update fail.\<close>

lemma zero_window_fails:
  "\<exists>sc. new_stream_counter ''0'' None = Some sc \<and> counter_update 1 sc = None"
proof -
  have "parse_benford_windows ''0'' [100, 500, 1000] = [0]" by code_simp
  then show ?thesis by (simp add: new_stream_counter_def counter_update_def push_digit_def)
qed

section \<open>Adaptive windows\<close>

record timed_amount =
  ta_time :: int
  ta_amount :: real

record window_fit =
  wf_trades :: "real list"
  wf_width :: int
  wf_valid :: bool
  wf_expanded :: bool
  wf_merged :: bool
  wf_label :: string

datatype fit_error = UnknownWindow

definition slice_amounts :: "timed_amount list \<Rightarrow> int \<Rightarrow> int \<Rightarrow> real list" where
  "slice_amounts trades as_of width = map ta_amount (filter (\<lambda>t. as_of - width < ta_time t \<and> ta_time t \<le> as_of) trades)"

definition count_valid :: "real list \<Rightarrow> nat" where
  "count_valid amounts = row_count (\<lambda>a. first_digit a \<noteq> None) amounts"

text \<open>The loop of \<open>fit\<close>: the first width that holds enough amounts, or \<open>None\<close> at the end of the loop. A width
  of zero is never enlarged, so the loop need not end.\<close>

partial_function (option) widen :: "nat \<Rightarrow> int \<Rightarrow> timed_amount list \<Rightarrow> int \<Rightarrow> int \<Rightarrow> int option option" where
  "widen min_count max_width trades as_of width =
     (if min_count \<le> count_valid (slice_amounts trades as_of width) then Some (Some width)
      else if max_width \<le> width then Some None
      else widen min_count max_width trades as_of (min (width * 2) max_width))"

declare widen.simps [code]

definition fit :: "nat \<Rightarrow> int \<Rightarrow> timed_amount list \<Rightarrow> string \<Rightarrow> int \<Rightarrow> (string, int) dict \<Rightarrow> (fit_error + window_fit) option" where
  "fit min_count max_days trades label as_of window_map =
     (case dict_get window_map label of
        None \<Rightarrow> Some (Inl UnknownWindow)
      | Some target_width \<Rightarrow>
          (case widen min_count (max_days * microseconds_per_day) trades as_of target_width of
             None \<Rightarrow> None
           | Some (Some width) \<Rightarrow>
               Some (Inr \<lparr>wf_trades = slice_amounts trades as_of width, wf_width = width, wf_valid = True,
                          wf_expanded = (target_width < width), wf_merged = False, wf_label = label\<rparr>)
           | Some None \<Rightarrow>
               let all_amounts = map ta_amount trades
               in Some (Inr \<lparr>wf_trades = all_amounts, wf_width = max_days * microseconds_per_day,
                             wf_valid = (min_count \<le> count_valid all_amounts), wf_expanded = True, wf_merged = True, wf_label = label\<rparr>)))"

definition enough :: "nat \<Rightarrow> timed_amount list \<Rightarrow> int \<Rightarrow> int \<Rightarrow> bool" where
  "enough min_count trades as_of width \<longleftrightarrow> min_count \<le> count_valid (slice_amounts trades as_of width)"

lemma count_valid_mono:
  assumes "v \<le> w"
  shows "count_valid (slice_amounts trades as_of v) \<le> count_valid (slice_amounts trades as_of w)"
  using assms by (induction trades) (auto simp: count_valid_def slice_amounts_def row_count_def)

lemma enough_mono: "enough m trades as_of v \<Longrightarrow> v \<le> w \<Longrightarrow> enough m trades as_of w"
  using count_valid_mono le_trans unfolding enough_def by blast

text \<open>The widths tried after \<open>w\<close>, up to and including \<open>W\<close>.\<close>

lemma widen_result:
  assumes "0 < w"
  shows "\<exists>r. widen m W trades as_of w = Some r \<and>
    (case r of
       Some v \<Rightarrow> enough m trades as_of v \<and>
         (v = w \<or> (\<exists>u. w \<le> u \<and> u < W \<and> v = min (u * 2) W \<and> \<not> enough m trades as_of u))
     | None \<Rightarrow> \<not> enough m trades as_of (max w W))"
  using assms
proof (induction "nat (W - w)" arbitrary: w rule: less_induct)
  case less
  show ?case
  proof (cases "enough m trades as_of w \<or> W \<le> w")
    case True
    then show ?thesis by (subst widen.simps) (auto simp: enough_def max_def)
  next
    case False
    let ?v = "min (w * 2) W"
    have "nat (W - ?v) < nat (W - w)" "0 < ?v" using False less.prems by auto
    from less.hyps [OF this] obtain r where r: "widen m W trades as_of ?v = Some r"
      "case r of Some v \<Rightarrow> enough m trades as_of v \<and> (v = ?v \<or> (\<exists>u. ?v \<le> u \<and> u < W \<and> v = min (u * 2) W \<and> \<not> enough m trades as_of u))
       | None \<Rightarrow> \<not> enough m trades as_of (max ?v W)" by blast
    have step: "widen m W trades as_of w = Some r" using False r(1) by (subst widen.simps) (auto simp: enough_def)
    show ?thesis
    proof (cases r)
      case None
      then show ?thesis using step r(2) False by (auto simp: max_def split: if_splits)
    next
      case (Some v)
      have "w \<le> ?v" using False less.prems by auto
      then show ?thesis using step r(2) False Some by (fastforce intro: exI [of _ w])
    qed
  qed
qed



text \<open>
  The merged result is not cut at \<open>as_of\<close>: a trade in the future of the reference time counts.
\<close>

lemma merged_window_looks_ahead:
  "fit 1 1 [\<lparr>ta_time = 20, ta_amount = 5\<rparr>] ''1d'' 10 [(''1d'', microseconds_per_day)] =
     Some (Inr \<lparr>wf_trades = [5], wf_width = microseconds_per_day, wf_valid = True, wf_expanded = True, wf_merged = True, wf_label = ''1d''\<rparr>)"
proof -
  have "first_digit (5::real) = Some 5" by (simp add: first_digit_def scale_up.simps scale_down.simps)
  then show ?thesis
    by (simp add: fit_def widen.simps [of _ _ _ _ microseconds_per_day] slice_amounts_def count_valid_def row_count_def)
qed

end
