(* ===== verification/Streaming_Features.thy ===== *)
theory Streaming_Features
  imports Benford
begin

text \<open>
  The incremental feature engine (\<open>packages/core/detection/streaming_features.py\<close>): per wallet and
  window a queue of the recent trades with running totals, updated in constant time, from which the
  feature vector is assembled. Times are microseconds since the epoch, not before it; amounts are
  real numbers. The latency the engine measures is an argument.
\<close>

section \<open>A rolling window\<close>

record leg =
  lg_ts :: int
  lg_amount :: real
  lg_cp :: string
  lg_hour :: int
  lg_gave :: string
  lg_got :: string
  lg_self_match :: bool
  lg_digit :: "nat option"
  lg_minute :: int
  lg_hour_bucket :: int

record window_state =
  ws_window_sec :: int
  ws_trades :: "leg list"
  ws_amount_sum :: real
  ws_trade_count :: int
  ws_cp_volume :: "(string, real) dict"
  ws_histogram :: "int list"
  ws_digit_count :: int
  ws_self_match_count :: int
  ws_off_hours_count :: int
  ws_minute_buckets :: "(int, int) dict"
  ws_hourly_volume :: "(int, real) dict"
  ws_recent_legs :: "(string \<times> string) list"

definition new_window :: "int \<Rightarrow> window_state" where
  "new_window sec =
     \<lparr>ws_window_sec = sec, ws_trades = [], ws_amount_sum = 0, ws_trade_count = 0, ws_cp_volume = [], ws_histogram = replicate 9 0,
      ws_digit_count = 0, ws_self_match_count = 0, ws_off_hours_count = 0, ws_minute_buckets = [], ws_hourly_volume = [],
      ws_recent_legs = []\<rparr>"

definition recent_legs_window :: nat where
  "recent_legs_window = 20"

definition off_hours :: "int \<Rightarrow> bool" where
  "off_hours h \<longleftrightarrow> h \<in> {0, 1, 2, 3, 4, 5}"

definition get_or_zero :: "('k, 'v::zero) dict \<Rightarrow> 'k \<Rightarrow> 'v" where
  "get_or_zero d k = (case dict_get d k of None \<Rightarrow> 0 | Some v \<Rightarrow> v)"

text \<open>\<open>d[k] = d.get(k, 0) + v\<close>, and the subtraction that drops a key whose value is used up.\<close>

definition bump :: "'k \<Rightarrow> 'v \<Rightarrow> ('k, 'v::{zero, plus}) dict \<Rightarrow> ('k, 'v) dict" where
  "bump k v d = dict_set k (get_or_zero d k + v) d"

definition unbump :: "'k \<Rightarrow> 'v \<Rightarrow> ('k, 'v::{linorder, zero, minus}) dict \<Rightarrow> ('k, 'v) dict" where
  "unbump k v d = (let x = max 0 (get_or_zero d k - v); d' = dict_set k x d in if x \<le> 0 then dict_del k d' else d')"

definition ws_add :: "leg \<Rightarrow> window_state \<Rightarrow> window_state" where
  "ws_add l ws =
     ws\<lparr>ws_trades := ws_trades ws @ [l],
        ws_amount_sum := ws_amount_sum ws + lg_amount l,
        ws_trade_count := ws_trade_count ws + 1,
        ws_cp_volume := bump (lg_cp l) (lg_amount l) (ws_cp_volume ws),
        ws_histogram := (case lg_digit l of None \<Rightarrow> ws_histogram ws
                         | Some d \<Rightarrow> (ws_histogram ws)[d - 1 := ws_histogram ws ! (d - 1) + 1]),
        ws_digit_count := (case lg_digit l of None \<Rightarrow> ws_digit_count ws | Some _ \<Rightarrow> ws_digit_count ws + 1),
        ws_self_match_count := (if lg_self_match l then ws_self_match_count ws + 1 else ws_self_match_count ws),
        ws_off_hours_count := (if off_hours (lg_hour l) then ws_off_hours_count ws + 1 else ws_off_hours_count ws),
        ws_minute_buckets := bump (lg_minute l) 1 (ws_minute_buckets ws),
        ws_hourly_volume := bump (lg_hour_bucket l) (lg_amount l) (ws_hourly_volume ws),
        ws_recent_legs := last_n recent_legs_window (ws_recent_legs ws @ [(lg_gave l, lg_got l)])\<rparr>"

text \<open>The entry has already left the queue.\<close>

definition ws_remove :: "leg \<Rightarrow> window_state \<Rightarrow> window_state" where
  "ws_remove l ws =
     ws\<lparr>ws_amount_sum := max 0 (ws_amount_sum ws - lg_amount l),
        ws_trade_count := max 0 (ws_trade_count ws - 1),
        ws_cp_volume := unbump (lg_cp l) (lg_amount l) (ws_cp_volume ws),
        ws_histogram := (case lg_digit l of None \<Rightarrow> ws_histogram ws
                         | Some d \<Rightarrow> (ws_histogram ws)[d - 1 := max 0 (ws_histogram ws ! (d - 1) - 1)]),
        ws_digit_count := (case lg_digit l of None \<Rightarrow> ws_digit_count ws | Some _ \<Rightarrow> max 0 (ws_digit_count ws - 1)),
        ws_self_match_count := (if lg_self_match l then max 0 (ws_self_match_count ws - 1) else ws_self_match_count ws),
        ws_off_hours_count := (if off_hours (lg_hour l) then max 0 (ws_off_hours_count ws - 1) else ws_off_hours_count ws),
        ws_minute_buckets := unbump (lg_minute l) 1 (ws_minute_buckets ws),
        ws_hourly_volume := unbump (lg_hour_bucket l) (lg_amount l) (ws_hourly_volume ws)\<rparr>"

fun evict :: "int \<Rightarrow> leg list \<Rightarrow> window_state \<Rightarrow> window_state" where
  "evict cutoff [] ws = ws\<lparr>ws_trades := []\<rparr>"
| "evict cutoff (l # ls) ws =
     (if lg_ts l \<le> cutoff then evict cutoff ls (ws_remove l ws) else ws\<lparr>ws_trades := l # ls\<rparr>)"

definition ws_update :: "leg \<Rightarrow> window_state \<Rightarrow> window_state" where
  "ws_update l ws = ws_add l (evict (lg_ts l - ws_window_sec ws) (ws_trades ws) ws)"

section \<open>Features of a window\<close>

definition ws_benford_metrics :: "window_state \<Rightarrow> real \<times> real \<times> real" where
  "ws_benford_metrics ws =
     (let n = ws_digit_count ws; be = map benford_expected DIGITS;
          observed = map (\<lambda>c. real_of_int c / real_of_int n) (ws_histogram ws);
          chi_sq = sum_list (map (\<lambda>i. if 0 < be ! i * real_of_int n
                     then (observed ! i * real_of_int n - be ! i * real_of_int n)\<^sup>2 / (be ! i * real_of_int n) else 0) [0..<9]);
          mad = sum_list (map (\<lambda>i. \<bar>observed ! i - be ! i\<bar>) [0..<9]) / 9;
          zscores = map (\<lambda>i. let p = be ! i; numerator = \<bar>observed ! i - p\<bar> - 1 / (2 * real_of_int n);
                                 denominator = sqrt (p * (1 - p) / real_of_int n)
                             in if 0 < denominator then max numerator 0 / denominator else 0) [0..<9]
      in if n = 0 then (0, 0, 0) else (chi_sq, mad, Max (set zscores)))"

definition counterparty_concentration :: "window_state \<Rightarrow> real" where
  "counterparty_concentration ws =
     (if ws_cp_volume ws = [] \<or> ws_amount_sum ws \<le> 0 then 0 else Max (set (map snd (ws_cp_volume ws))) / ws_amount_sum ws)"

definition self_matching_rate :: "window_state \<Rightarrow> real" where
  "self_matching_rate ws =
     (if ws_trade_count ws = 0 then 0 else real_of_int (ws_self_match_count ws) / real_of_int (ws_trade_count ws))"

definition off_hours_activity_ratio :: "window_state \<Rightarrow> real" where
  "off_hours_activity_ratio ws =
     (if ws_trade_count ws = 0 then 0 else real_of_int (ws_off_hours_count ws) / real_of_int (ws_trade_count ws))"

definition intra_minute_clustering_coefficient :: "window_state \<Rightarrow> real" where
  "intra_minute_clustering_coefficient ws =
     (if ws_trade_count ws = 0 then 0
      else real_of_int (sum_list (filter (\<lambda>c. 1 < c) (map snd (ws_minute_buckets ws)))) / real_of_int (ws_trade_count ws))"

definition volume_to_unique_counterparty_ratio :: "window_state \<Rightarrow> real" where
  "volume_to_unique_counterparty_ratio ws =
     (if ws_cp_volume ws = [] then 0 else ws_amount_sum ws / real (length (ws_cp_volume ws)))"

definition volume_spike_frequency :: "real \<Rightarrow> window_state \<Rightarrow> real" where
  "volume_spike_frequency spike_threshold ws =
     (let vols = map snd (ws_hourly_volume ws); n = real (length vols);
          mean_v = sum_list vols / n;
          variance = sum_list (map (\<lambda>v. (v - mean_v)\<^sup>2) vols) / n;
          std_v = sqrt variance;
          threshold = mean_v + spike_threshold * std_v
      in if length vols < 2 then 0 else if std_v = 0 then 0
         else real (row_count (\<lambda>v. threshold < v) vols) / n)"

definition returns_leg :: "string \<times> string \<Rightarrow> string \<times> string \<Rightarrow> bool" where
  "returns_leg a b \<longleftrightarrow> fst b = snd a \<and> snd b = fst a"

fun count_round_trips :: "nat \<Rightarrow> (string \<times> string) list \<Rightarrow> nat" where
  "count_round_trips max_lookback [] = 0"
| "count_round_trips max_lookback (a # legs) =
     (if list_ex (returns_leg a) (take max_lookback legs) then 1 else 0) + count_round_trips max_lookback legs"

definition round_trip_frequency :: "nat \<Rightarrow> window_state \<Rightarrow> real" where
  "round_trip_frequency max_lookback ws =
     (let legs = ws_recent_legs ws; n = length legs
      in if n < 2 then 0 else real (count_round_trips max_lookback legs) / real n)"

section \<open>Wallets and the engine\<close>

definition window_seconds :: "(string \<times> int) list" where
  "window_seconds = [(''1h'', 3600), (''4h'', 14400), (''24h'', 86400), (''7d'', 604800), (''30d'', 2592000)]"

record wallet_state =
  wl_wallet :: string
  wl_windows :: "(string, window_state) dict"
  wl_trade_count :: int
  wl_counterparties :: "string set"
  wl_first_seen :: "int option"

definition new_wallet :: "string \<Rightarrow> wallet_state" where
  "new_wallet wallet = \<lparr>wl_wallet = wallet, wl_windows = map (\<lambda>(label, sec). (label, new_window sec)) window_seconds, wl_trade_count = 0,
     wl_counterparties = {}, wl_first_seen = None\<rparr>"

type_synonym feature_engine = "(string, wallet_state) dict"

record stream_trade =
  st_time :: int
  st_base_account :: string
  st_counter_account :: "string option"
  st_base_asset :: asset
  st_counter_asset :: asset
  st_base_amount :: real

definition asset_symbol :: "asset \<Rightarrow> string" where
  "asset_symbol a = (case a_issuer a of None \<Rightarrow> a_code a | Some i \<Rightarrow> a_code a @ '':'' @ i)"

definition sf_first_digit :: "real \<Rightarrow> nat option" where
  "sf_first_digit v = (if v \<le> 0 then None else Some (nat \<lfloor>scale_down (scale_up v)\<rfloor>))"

definition or_empty :: "string option \<Rightarrow> string" where
  "or_empty s = (case s of None \<Rightarrow> [] | Some x \<Rightarrow> x)"

definition extract_trade_fields :: "stream_trade \<Rightarrow> string \<Rightarrow> leg" where
  "extract_trade_fields t wallet =
     (let ts_sec = st_time t div 1000000;
          amount = st_base_amount t;
          base = asset_symbol (st_base_asset t); counter = asset_symbol (st_counter_asset t);
          (cp, gave, got) = (if st_base_account t = wallet then (or_empty (st_counter_account t), base, counter)
                             else (st_base_account t, counter, base))
      in \<lparr>lg_ts = ts_sec, lg_amount = amount, lg_cp = cp, lg_hour = st_time t div 3600000000 mod 24, lg_gave = gave, lg_got = got,
          lg_self_match = (Some (st_base_account t) = st_counter_account t), lg_digit = sf_first_digit amount,
          lg_minute = ts_sec div 60, lg_hour_bucket = ts_sec div 3600\<rparr>)"

definition update_wallet :: "leg \<Rightarrow> wallet_state \<Rightarrow> wallet_state" where
  "update_wallet l w =
     w\<lparr>wl_windows := map (\<lambda>(label, ws). (label, ws_update l ws)) (wl_windows w),
       wl_trade_count := wl_trade_count w + 1,
       wl_counterparties := (if lg_cp l \<noteq> [] then insert (lg_cp l) (wl_counterparties w) else wl_counterparties w),
       wl_first_seen := (case wl_first_seen w of None \<Rightarrow> Some (lg_ts l) | Some s \<Rightarrow> Some s)\<rparr>"

definition wallets_to_update :: "stream_trade \<Rightarrow> string list" where
  "wallets_to_update t =
     st_base_account t #
       (case st_counter_account t of
          None \<Rightarrow> []
        | Some c \<Rightarrow> if c \<noteq> [] \<and> c \<noteq> st_base_account t then [c] else [])"

definition update_for :: "stream_trade \<Rightarrow> string \<Rightarrow> feature_engine \<Rightarrow> feature_engine" where
  "update_for t wallet e =
     dict_set wallet (update_wallet (extract_trade_fields t wallet) (case dict_get e wallet of None \<Rightarrow> new_wallet wallet | Some w \<Rightarrow> w)) e"

definition unavailable_features :: "string list" where
  "unavailable_features =
     [''funding_source_similarity_score'', ''network_centrality'', ''account_age_days'', ''wash_ring_membership'', ''wash_ring_size'',
      ''cycle_volume_ratio'', ''timing_tightness_score'', ''cross_pair_activity_count'', ''cross_pair_synchrony_score'',
      ''cross_pair_burst_overlap_ratio'', ''shared_wallet_cluster_size'', ''cross_pair_volume_concentration'', ''pool_trade_ratio'',
      ''pool_round_trip_ratio'', ''pool_share_concentration'', ''atomic_self_payment_ratio'', ''avg_path_hop_count'',
      ''path_cycle_volume_ratio'', ''sandwich_ratio'', ''sandwich_profit_xlm_30d'', ''pdc_5m'', ''pdc_1h'', ''benford_copula_pval'',
      ''cross_pair_sync_ratio'', ''digit_entropy_delta'']"

definition benford_entries :: "string \<Rightarrow> real \<times> real \<times> real \<Rightarrow> (string, real) dict" where
  "benford_entries label m =
     (case m of (chi_sq, mad, max_z) \<Rightarrow>
        [(''benford_chi_square_'' @ label, chi_sq), (''benford_mad_'' @ label, mad), (''benford_max_zscore_'' @ label, max_z)])"

definition zero_vector :: "(string, real) dict" where
  "zero_vector =
     concat (map (\<lambda>(label, sec). benford_entries label (0, 0, 0)) window_seconds) @
     map (\<lambda>n. (n, 0)) ([''counterparty_concentration_ratio'', ''round_trip_trade_frequency'', ''self_matching_rate'', ''order_cancellation_rate'',
       ''volume_to_unique_counterparty_ratio'', ''intra_minute_clustering_coefficient'', ''off_hours_activity_ratio'', ''volume_spike_frequency'']
       @ unavailable_features @ [''stream_latency_ms''])"

definition get_features :: "feature_engine \<Rightarrow> string \<Rightarrow> real \<Rightarrow> (string, real) dict" where
  "get_features e wallet latency_ms =
     (case dict_get e wallet of
        None \<Rightarrow> zero_vector
      | Some w \<Rightarrow>
          let win = (\<lambda>label. the (dict_get (wl_windows w) label)); ws24 = win ''24h''; ws30 = win ''30d''
          in concat (map (\<lambda>(label, sec). benford_entries label (ws_benford_metrics (win label))) window_seconds) @
             [(''counterparty_concentration_ratio'', counterparty_concentration ws24),
              (''round_trip_trade_frequency'', round_trip_frequency 10 ws24),
              (''self_matching_rate'', self_matching_rate ws24),
              (''order_cancellation_rate'', 0),
              (''volume_to_unique_counterparty_ratio'', volume_to_unique_counterparty_ratio ws30),
              (''intra_minute_clustering_coefficient'', intra_minute_clustering_coefficient ws24),
              (''off_hours_activity_ratio'', off_hours_activity_ratio ws24),
              (''volume_spike_frequency'', volume_spike_frequency 2 ws30)] @
             map (\<lambda>n. (n, 0)) unavailable_features @ [(''stream_latency_ms'', latency_ms)])"

definition engine_update :: "real \<Rightarrow> stream_trade \<Rightarrow> feature_engine \<Rightarrow> (string, real) dict \<times> feature_engine" where
  "engine_update elapsed_ms t e =
     (let e' = fold (update_for t) (wallets_to_update t) e in (get_features e' (st_base_account t) elapsed_ms, e'))"

definition wallet_count :: "feature_engine \<Rightarrow> nat" where
  "wallet_count e = length e"

section \<open>The totals are those of the queue\<close>

definition total :: "('l \<Rightarrow> 'k) \<Rightarrow> ('l \<Rightarrow> 'v) \<Rightarrow> 'l list \<Rightarrow> 'k \<Rightarrow> 'v::monoid_add" where
  "total key amt legs k = sum_list (map amt (filter (\<lambda>l. key l = k) legs))"

definition totals_ok :: "('l \<Rightarrow> 'k) \<Rightarrow> ('l \<Rightarrow> 'v::linordered_idom) \<Rightarrow> 'l list \<Rightarrow> ('k, 'v) dict \<Rightarrow> bool" where
  "totals_ok key amt legs d \<longleftrightarrow>
     dict_wf d \<and> (\<forall>k. dict_get d k = (if k \<in> key ` set legs then Some (total key amt legs k) else None))"

lemma total_none: "k \<notin> key ` set legs \<Longrightarrow> total key amt legs k = 0"
proof -
  assume "k \<notin> key ` set legs"
  then have "filter (\<lambda>l. key l = k) legs = []" by (auto simp: filter_empty_conv)
  then show ?thesis by (simp add: total_def)
qed

lemma total_pos:
  fixes amt :: "'l \<Rightarrow> 'v::linordered_idom"
  assumes "\<forall>l\<in>set legs. 0 < amt l" "k \<in> key ` set legs"
  shows "0 < total key amt legs k"
proof -
  from assms(2) obtain l where l: "l \<in> set (filter (\<lambda>l. key l = k) legs)" by auto
  then obtain us vs where s: "filter (\<lambda>l. key l = k) legs = us @ l # vs" by (meson split_list)
  have "set (us @ l # vs) \<subseteq> set legs" using s by (metis filter_is_subset)
  then have pos: "0 < amt x" if "x \<in> set (us @ l # vs)" for x using assms(1) that by blast
  have "0 \<le> sum_list (map amt us)" "0 \<le> sum_list (map amt vs)"
    using pos by (auto intro!: sum_list_nonneg simp: less_le)
  moreover have "0 < amt l" using pos by simp
  ultimately show ?thesis by (simp add: total_def s add_nonneg_pos add_pos_nonneg)
qed

lemma totals_get: "totals_ok key amt legs d \<Longrightarrow> get_or_zero d k = total key amt legs k"
  by (simp add: totals_ok_def get_or_zero_def total_none)

lemma bump_ok:
  assumes "totals_ok key amt legs d"
  shows "totals_ok key amt (legs @ [l]) (bump (key l) (amt l) d)"
  using assms totals_get [OF assms]
  by (auto simp: totals_ok_def bump_def dict_get_set dict_wf_set total_def image_iff)

lemma unbump_ok:
  assumes "totals_ok key amt (l # legs) d" "\<forall>l\<in>set legs. 0 < amt l"
  shows "totals_ok key amt legs (unbump (key l) (amt l) d)"
proof -
  have x: "max 0 (get_or_zero d (key l) - amt l) = total key amt legs (key l)"
  proof -
    have "get_or_zero d (key l) - amt l = total key amt legs (key l)"
      unfolding totals_get [OF assms(1)] by (simp add: total_def)
    moreover have "0 \<le> total key amt legs (key l)"
      using total_pos [OF assms(2), of "key l" key] total_none [of "key l" key legs amt] by (cases "key l \<in> key ` set legs") auto
    ultimately show ?thesis by simp
  qed
  have d: "dict_wf d" "\<And>k. dict_get d k = (if k \<in> key ` set (l # legs) then Some (total key amt (l # legs) k) else None)"
    using assms(1) by (simp_all add: totals_ok_def)
  have other: "dict_get d k = (if k \<in> key ` set legs then Some (total key amt legs k) else None)" if "k \<noteq> key l" for k
    using that by (simp add: d(2) total_def)
  have u: "unbump (key l) (amt l) d = (if key l \<in> key ` set legs then dict_set (key l) (total key amt legs (key l)) d
      else dict_del (key l) (dict_set (key l) (total key amt legs (key l)) d))"
  proof (cases "key l \<in> key ` set legs")
    case True
    then show ?thesis using total_pos [OF assms(2), of "key l" key] by (simp add: unbump_def x)
  next
    case False
    then show ?thesis using total_none [of "key l" key legs amt] by (simp add: unbump_def x)
  qed
  have "dict_get (unbump (key l) (amt l) d) k = (if k \<in> key ` set legs then Some (total key amt legs k) else None)" for k
    by (cases "k = key l") (simp_all add: u dict_get_set dict_get_del other)
  then show ?thesis using d(1) by (simp add: totals_ok_def u dict_wf_set dict_wf_del)
qed

definition leg_digits :: "leg list \<Rightarrow> nat list" where
  "leg_digits legs = List.map_filter lg_digit legs"

definition leg_ok :: "leg \<Rightarrow> bool" where
  "leg_ok l \<longleftrightarrow> 0 < lg_amount l \<and> lg_digit l = first_digit (lg_amount l)"

definition window_ok :: "window_state \<Rightarrow> bool" where
  "window_ok ws \<longleftrightarrow> (let legs = ws_trades ws in
     list_all leg_ok legs \<and>
     ws_amount_sum ws = sum_list (map lg_amount legs) \<and>
     ws_trade_count ws = int (length legs) \<and>
     totals_ok lg_cp lg_amount legs (ws_cp_volume ws) \<and>
     ws_histogram ws = digit_tally (leg_digits legs) \<and>
     ws_digit_count ws = int (length (leg_digits legs)) \<and>
     ws_self_match_count ws = int (row_count lg_self_match legs) \<and>
     ws_off_hours_count ws = int (row_count (\<lambda>l. off_hours (lg_hour l)) legs) \<and>
     totals_ok lg_minute (\<lambda>_. 1) legs (ws_minute_buckets ws) \<and>
     totals_ok lg_hour_bucket lg_amount legs (ws_hourly_volume ws))"

lemma leg_ok_digit: "leg_ok l \<Longrightarrow> \<exists>d. lg_digit l = Some d \<and> d \<in> set DIGITS"
  using first_digit_stream by (auto simp: leg_ok_def)

lemma new_window_ok: "window_ok (new_window sec)"
  by (simp add: window_ok_def new_window_def totals_ok_def leg_digits_def List.map_filter_simps tally_Nil row_count_def)

lemma ws_add_ok:
  assumes "window_ok ws" "leg_ok l"
  shows "window_ok (ws_add l ws)"
proof -
  obtain d where d: "lg_digit l = Some d" "d \<in> set DIGITS" using leg_ok_digit [OF assms(2)] by blast
  have "leg_digits (ws_trades ws @ [l]) = leg_digits (ws_trades ws) @ [d]"
    by (simp add: leg_digits_def List.map_filter_def d(1))
  then show ?thesis
    using assms d unfolding window_ok_def Let_def ws_add_def
    by (simp add: bump_ok bump_ok [where amt = "\<lambda>_. 1"] tally_snoc row_count_def)
qed

text \<open>The state between the removal of the entry and the end of the eviction: \<open>legs\<close> is the queue.\<close>

definition holds :: "leg list \<Rightarrow> window_state \<Rightarrow> bool" where
  "holds legs ws \<longleftrightarrow> window_ok (ws\<lparr>ws_trades := legs\<rparr>)"

lemma ws_remove_ok:
  assumes "holds (l # legs) ws"
  shows "holds legs (ws_remove l ws)"
proof -
  have legs: "list_all leg_ok legs" "leg_ok l" using assms by (simp_all add: holds_def window_ok_def Let_def)
  then have pos: "\<forall>l\<in>set legs. 0 < lg_amount l" by (auto simp: list_all_iff leg_ok_def)
  then have nn: "0 \<le> sum_list (map lg_amount legs)" by (intro sum_list_nonneg) (auto simp: less_imp_le)
  obtain d where d: "lg_digit l = Some d" "d \<in> set DIGITS" using leg_ok_digit [OF legs(2)] by blast
  have digits: "leg_digits (l # legs) = d # leg_digits legs" by (simp add: leg_digits_def List.map_filter_simps d(1))
  have "0 \<le> digit_tally (d # leg_digits legs) ! (d - Suc 0) - 1"
    unfolding tally_nth [OF d(2)] by (simp add: digit_count_of_def row_count_def)
  then have hist: "max 0 (digit_tally (d # leg_digits legs) ! (d - Suc 0) - 1) = digit_tally (d # leg_digits legs) ! (d - Suc 0) - 1"
    by simp
  show ?thesis
    using assms pos nn d legs tally_tl [OF d(2), of "leg_digits legs"]
    unfolding holds_def window_ok_def Let_def ws_remove_def
    by (auto simp: digits hist row_count_def unbump_ok unbump_ok [where amt = "\<lambda>_. 1"])
qed

lemma evict_ok:
  "holds legs ws \<Longrightarrow> window_ok (evict c legs ws) \<and> ws_trades (evict c legs ws) = dropWhile (\<lambda>l. lg_ts l \<le> c) legs"
proof (induction c legs ws rule: evict.induct)
  case (2 c l ls ws)
  then show ?case by (simp add: ws_remove_ok) (simp add: holds_def)
qed (simp add: holds_def)

lemma evict_frame: "ws_window_sec (evict c legs ws) = ws_window_sec ws" "ws_recent_legs (evict c legs ws) = ws_recent_legs ws"
  by (induction c legs ws rule: evict.induct) (simp_all add: ws_remove_def)

lemma ws_update_ok:
  assumes "window_ok ws" "leg_ok l"
  shows "window_ok (ws_update l ws)"
    "ws_trades (ws_update l ws) = dropWhile (\<lambda>x. lg_ts x \<le> lg_ts l - ws_window_sec ws) (ws_trades ws) @ [l]"
    "ws_window_sec (ws_update l ws) = ws_window_sec ws"
    "ws_recent_legs (ws_update l ws) = last_n recent_legs_window (ws_recent_legs ws @ [(lg_gave l, lg_got l)])"
proof -
  have h: "holds (ws_trades ws) ws" using assms(1) by (simp add: holds_def)
  note e = evict_ok [OF h, of "lg_ts l - ws_window_sec ws"]
  show "window_ok (ws_update l ws)" using e assms(2) by (simp add: ws_update_def ws_add_ok)
  show "ws_trades (ws_update l ws) = dropWhile (\<lambda>x. lg_ts x \<le> lg_ts l - ws_window_sec ws) (ws_trades ws) @ [l]"
    using e by (simp add: ws_update_def ws_add_def)
  show "ws_window_sec (ws_update l ws) = ws_window_sec ws"
    "ws_recent_legs (ws_update l ws) = last_n recent_legs_window (ws_recent_legs ws @ [(lg_gave l, lg_got l)])"
    by (simp_all add: ws_update_def ws_add_def evict_frame)
qed

section \<open>Recomputation from the history\<close>

text \<open>
  What the features of a window mean, computed from the list of its trades at once.
\<close>

definition batch_benford :: "(nat list \<Rightarrow> real) \<Rightarrow> (real \<Rightarrow> real) \<Rightarrow> leg list \<Rightarrow> real \<times> real \<times> real" where
  "batch_benford bootstrap chi2_sf legs =
     (let m = compute_benford_metrics bootstrap chi2_sf (map lg_amount legs)
      in (bm_chi_square m, bm_mad m, Max (get0 (bm_z_scores m) ` set DIGITS)))"

definition batch_concentration :: "leg list \<Rightarrow> real" where
  "batch_concentration legs =
     (if legs = [] then 0
      else Max (total lg_cp lg_amount legs ` lg_cp ` set legs) / sum_list (map lg_amount legs))"

definition share_of :: "(leg \<Rightarrow> bool) \<Rightarrow> leg list \<Rightarrow> real" where
  "share_of p legs = real (row_count p legs) / real (length legs)"

definition shares_minute :: "leg list \<Rightarrow> leg \<Rightarrow> bool" where
  "shares_minute legs l \<longleftrightarrow> 1 < row_count (\<lambda>x. lg_minute x = lg_minute l) legs"

definition batch_volume_per_counterparty :: "leg list \<Rightarrow> real" where
  "batch_volume_per_counterparty legs = sum_list (map lg_amount legs) / real (card (lg_cp ` set legs))"

definition batch_spikes :: "real \<Rightarrow> leg list \<Rightarrow> real" where
  "batch_spikes k legs =
     (let hours = lg_hour_bucket ` set legs; vol = total lg_hour_bucket lg_amount legs; n = real (card hours);
          mean = (\<Sum>h\<in>hours. vol h) / n; std = sqrt ((\<Sum>h\<in>hours. (vol h - mean)\<^sup>2) / n)
      in if card hours < 2 \<or> std = 0 then 0 else real (card {h \<in> hours. mean + k * std < vol h}) / n)"

lemma totals_values:
  assumes "totals_ok key amt legs d"
  obtains ks where "map snd d = map (total key amt legs) ks" "distinct ks" "set ks = key ` set legs"
proof
  show "map snd d = map (total key amt legs) (map fst d)"
  proof (rule nth_equalityI)
    fix i assume "i < length (map snd d)"
    then have i: "i < length d" by simp
    then have m: "(fst (d ! i), snd (d ! i)) \<in> set d" by simp
    have "distinct (dict_keys d)" using assms by (simp add: totals_ok_def dict_wf_def)
    from map_of_is_SomeI [OF this m] have "dict_get d (fst (d ! i)) = Some (snd (d ! i))" .
    then show "map snd d ! i = map (total key amt legs) (map fst d) ! i"
      using assms i by (auto simp: totals_ok_def split: if_splits)
  qed simp
  show "distinct (map fst d)" using assms by (simp add: totals_ok_def dict_wf_def)
  show "set (map fst d) = key ` set legs"
    using assms by (force simp: totals_ok_def dom_map_of_conv_image_fst [symmetric] dom_def)
qed

lemma buckets_count:
  "finite K \<Longrightarrow> key ` set legs \<subseteq> K \<Longrightarrow> (\<Sum>k\<in>K. row_count (\<lambda>l. key l = k \<and> p l) legs) = row_count p legs"
proof (induction legs)
  case (Cons l legs)
  have "(\<Sum>k\<in>K. row_count (\<lambda>l. key l = k \<and> p l) (l # legs)) =
      (\<Sum>k\<in>K. (if k = key l then (if p l then 1 else 0) else 0) + row_count (\<lambda>l. key l = k \<and> p l) legs)"
    by (rule sum.cong) (auto simp: row_count_def)
  also have "\<dots> = (if p l then 1 else 0) + row_count p legs"
    using Cons by (simp add: sum.distrib)
  finally show ?case by (simp add: row_count_def)
qed (simp add: row_count_def)

lemma total_ones: "total key (\<lambda>_. 1) legs k = int (row_count (\<lambda>l. key l = k) legs)"
  by (simp add: total_def row_count_def sum_list_triv)

lemma clustered_trades:
  assumes "totals_ok lg_minute (\<lambda>_. 1 :: int) legs d"
  shows "sum_list (filter (\<lambda>c. 1 < c) (map snd d)) = int (row_count (shares_minute legs) legs)"
proof -
  obtain ks where ks: "map snd d = map (total lg_minute (\<lambda>_. 1) legs) ks" "distinct ks" "set ks = lg_minute ` set legs"
    using totals_values [OF assms] .
  let ?c = "\<lambda>k. row_count (\<lambda>l. lg_minute l = k) legs"
  have "sum_list (filter (\<lambda>c. 1 < c) (map snd d)) = sum_list (map (\<lambda>k. if 1 < ?c k then int (?c k) else 0) ks)"
    unfolding ks(1) total_ones by (induction ks) auto
  also have "\<dots> = (\<Sum>k\<in>lg_minute ` set legs. if 1 < ?c k then int (?c k) else 0)"
    using ks(2,3) by (simp add: sum_list_distinct_conv_sum_set)
  also have "\<dots> = (\<Sum>k\<in>lg_minute ` set legs. int (row_count (\<lambda>l. lg_minute l = k \<and> shares_minute legs l) legs))"
  proof (rule sum.cong)
    fix k
    show "(if 1 < ?c k then int (?c k) else 0) = int (row_count (\<lambda>l. lg_minute l = k \<and> shares_minute legs l) legs)"
      unfolding row_count_def shares_minute_def by (auto intro!: arg_cong [of _ _ length] filter_cong simp: filter_empty_conv)
  qed simp
  also have "\<dots> = int (row_count (shares_minute legs) legs)"
    by (simp flip: of_nat_sum add: buckets_count)
  finally show ?thesis .
qed

lemma spikes_of_totals:
  assumes "totals_ok lg_hour_bucket lg_amount (ws_trades ws) (ws_hourly_volume ws)"
  shows "volume_spike_frequency k ws = batch_spikes k (ws_trades ws)"
proof -
  obtain ks where ks: "map snd (ws_hourly_volume ws) = map (total lg_hour_bucket lg_amount (ws_trades ws)) ks" "distinct ks"
    "set ks = lg_hour_bucket ` set (ws_trades ws)"
    using totals_values [OF assms] .
  have n: "length ks = card (lg_hour_bucket ` set (ws_trades ws))" using distinct_card [OF ks(2)] ks(3) by simp
  have s: "sum_list (map f ks) = (\<Sum>h\<in>lg_hour_bucket ` set (ws_trades ws). f h)" for f :: "int \<Rightarrow> real"
    using ks(2,3) by (simp add: sum_list_distinct_conv_sum_set)
  have c: "row_count p (map f ks) = card {h \<in> lg_hour_bucket ` set (ws_trades ws). p (f h)}" for p and f :: "int \<Rightarrow> real"
  proof -
    have "row_count p (map f ks) = length (filter (\<lambda>h. p (f h)) ks)" by (simp add: row_count_def filter_map comp_def)
    also have "\<dots> = card (set (filter (\<lambda>h. p (f h)) ks))" by (rule distinct_card [symmetric]) (use ks(2) in simp)
    finally show ?thesis by (simp add: ks(3))
  qed
  show ?thesis
    unfolding volume_spike_frequency_def batch_spikes_def ks(1) Let_def length_map n s c map_map comp_def by simp
qed

lemma digits_of_legs: "list_all leg_ok legs \<Longrightarrow> leg_digits legs = observed_digits (map lg_amount legs)"
  by (induction legs) (auto simp: leg_digits_def observed_digits_def List.map_filter_simps leg_ok_def split: option.splits)

lemma zip_nine: "length xs = 9 \<Longrightarrow> length ys = 9 \<Longrightarrow> zip xs ys = map (\<lambda>i. (xs ! i, ys ! i)) [0..<9]"
  by (rule nth_equalityI) simp_all

lemma benford_of_stats:
  assumes "length (ws_histogram ws) = 9" "ws_digit_count ws = sum_list (ws_histogram ws)" "0 < ws_digit_count ws"
  shows "ws_benford_metrics ws =
    (let s = stats_of_counts (ws_histogram ws) in (bs_chi_square s, bs_mad s, Max (set (bs_z_scores s))))"
proof -
  let ?n = "sum_list (ws_histogram ws)"
  have n: "real (nat ?n) = real_of_int ?n" "nat ?n \<noteq> 0" "?n \<noteq> 0" "0 < real_of_int ?n" using assms(2,3) by simp_all
  have z: "zip (map (\<lambda>c. real_of_int c / real_of_int ?n) (ws_histogram ws)) (map benford_expected DIGITS) =
      map (\<lambda>i. (map (\<lambda>c. real_of_int c / real_of_int ?n) (ws_histogram ws) ! i, map benford_expected DIGITS ! i)) [0..<9]"
    by (rule zip_nine) (simp_all add: assms(1) DIGITS_def)
  show ?thesis
    unfolding ws_benford_metrics_def stats_of_counts_def Let_def assms(2) n(1) z z_of_def
    using n by (simp add: zero_less_mult_iff comp_def del: upt_rec_numeral)
qed

lemma window_benford:
  assumes "window_ok ws"
  shows "ws_benford_metrics ws = batch_benford bootstrap chi2_sf (ws_trades ws)"
proof -
  let ?ds = "observed_digits (map lg_amount (ws_trades ws))"
  let ?s = "batch_stats bootstrap chi2_sf (map lg_amount (ws_trades ws))"
  have h: "ws_histogram ws = digit_tally ?ds" "ws_digit_count ws = int (length ?ds)"
    using assms digits_of_legs [of "ws_trades ws"] by (simp_all add: window_ok_def Let_def)
  have b: "batch_benford bootstrap chi2_sf (ws_trades ws) = (bs_chi_square ?s, bs_mad ?s, Max (set (bs_z_scores ?s)))"
    by (simp add: batch_benford_def batch_stats_def Let_def)
  show ?thesis
  proof (cases "?ds = []")
    case True
    then show ?thesis
      unfolding b stats_of_tally [symmetric]
      by (simp add: ws_benford_metrics_def h stats_of_counts_def tally_Nil sum_list_replicate)
  next
    case False
    have "ws_digit_count ws = sum_list (ws_histogram ws)" unfolding h sum_tally [OF observed_DIGITS] ..
    moreover have "length (ws_histogram ws) = 9" by (simp add: h digit_tally_def DIGITS_def)
    moreover have "0 < ws_digit_count ws" using False h(2) by simp
    ultimately show ?thesis
      unfolding b stats_of_tally [symmetric] h(1) [symmetric] by (simp only: benford_of_stats Let_def)
  qed
qed

lemma amounts_pos: "list_all leg_ok legs \<Longrightarrow> legs \<noteq> [] \<Longrightarrow> 0 < sum_list (map lg_amount legs)"
proof (induction legs)
  case (Cons l legs)
  then show ?case by (cases "legs = []") (auto simp: leg_ok_def)
qed simp

lemma totals_empty: "totals_ok key amt legs d \<Longrightarrow> (d = []) = (legs = [])"
  using totals_values [of key amt legs d] by (metis image_is_empty list.map_disc_iff set_empty)

lemma window_ratios:
  assumes "window_ok ws"
  shows "counterparty_concentration ws = batch_concentration (ws_trades ws)"
    and "self_matching_rate ws = share_of lg_self_match (ws_trades ws)"
    and "off_hours_activity_ratio ws = share_of (\<lambda>l. off_hours (lg_hour l)) (ws_trades ws)"
    and "intra_minute_clustering_coefficient ws = share_of (shares_minute (ws_trades ws)) (ws_trades ws)"
    and "volume_to_unique_counterparty_ratio ws = batch_volume_per_counterparty (ws_trades ws)"
    and "volume_spike_frequency k ws = batch_spikes k (ws_trades ws)"
proof -
  let ?legs = "ws_trades ws"
  have w: "list_all leg_ok ?legs" "ws_amount_sum ws = sum_list (map lg_amount ?legs)" "ws_trade_count ws = int (length ?legs)"
    "totals_ok lg_cp lg_amount ?legs (ws_cp_volume ws)" "ws_self_match_count ws = int (row_count lg_self_match ?legs)"
    "ws_off_hours_count ws = int (row_count (\<lambda>l. off_hours (lg_hour l)) ?legs)"
    "totals_ok lg_minute (\<lambda>_. 1) ?legs (ws_minute_buckets ws)" "totals_ok lg_hour_bucket lg_amount ?legs (ws_hourly_volume ws)"
    using assms by (simp_all add: window_ok_def Let_def)
  obtain ks where ks: "map snd (ws_cp_volume ws) = map (total lg_cp lg_amount ?legs) ks" "distinct ks" "set ks = lg_cp ` set ?legs"
    using totals_values [OF w(4)] .
  have vols: "set (map snd (ws_cp_volume ws)) = total lg_cp lg_amount ?legs ` lg_cp ` set ?legs"
    unfolding ks(1) set_map ks(3) ..
  have len: "length (ws_cp_volume ws) = card (lg_cp ` set ?legs)"
    using ks distinct_card [OF ks(2)] by (metis length_map)
  show "counterparty_concentration ws = batch_concentration ?legs"
    unfolding counterparty_concentration_def batch_concentration_def vols totals_empty [OF w(4)] w(2)
    using amounts_pos [OF w(1)] by auto
  show "self_matching_rate ws = share_of lg_self_match ?legs"
    "off_hours_activity_ratio ws = share_of (\<lambda>l. off_hours (lg_hour l)) ?legs"
    "intra_minute_clustering_coefficient ws = share_of (shares_minute ?legs) ?legs"
    by (simp_all add: self_matching_rate_def off_hours_activity_ratio_def intra_minute_clustering_coefficient_def share_of_def
        w(3,5,6) clustered_trades [OF w(7)])
  show "volume_to_unique_counterparty_ratio ws = batch_volume_per_counterparty ?legs"
    unfolding volume_to_unique_counterparty_ratio_def batch_volume_per_counterparty_def len w(2) totals_empty [OF w(4)] by simp
  show "volume_spike_frequency k ws = batch_spikes k ?legs" by (rule spikes_of_totals [OF w(8)])
qed

lemma dropWhile_sorted:
  fixes c :: int
  shows "sorted (map f xs) \<Longrightarrow> dropWhile (\<lambda>x. f x \<le> c) xs = filter (\<lambda>x. c < f x) xs"
proof (induction xs)
  case (Cons x xs)
  show ?case
  proof (cases "f x \<le> c")
    case False
    then have "\<forall>y\<in>set (x # xs). c < f y" using Cons.prems by force
    then have "filter (\<lambda>x. c < f x) (x # xs) = x # xs" by (simp only: filter_id_conv)
    then show ?thesis using False by simp
  qed (use Cons in simp)
qed simp

definition live_legs :: "int \<Rightarrow> leg list \<Rightarrow> leg list" where
  "live_legs sec legs = filter (\<lambda>l. lg_ts (last legs) - sec < lg_ts l) legs"

lemma last_n_again: "0 < w \<Longrightarrow> last_n w (last_n w xs @ [x]) = last_n w (xs @ [x])"
  by (cases "length xs \<le> w") (auto simp: last_n_def Suc_diff_le)

lemma window_run:
  assumes "list_all leg_ok legs" "sorted (map lg_ts legs)" "0 < sec"
  shows "window_ok (fold ws_update legs (new_window sec)) \<and>
    ws_trades (fold ws_update legs (new_window sec)) = live_legs sec legs \<and>
    ws_window_sec (fold ws_update legs (new_window sec)) = sec \<and>
    ws_recent_legs (fold ws_update legs (new_window sec)) = last_n recent_legs_window (map (\<lambda>l. (lg_gave l, lg_got l)) legs)"
  using assms
proof (induction legs rule: rev_induct)
  case Nil
  then show ?case by (simp add: new_window_ok live_legs_def) (simp add: new_window_def last_n_def)
next
  case (snoc l legs)
  let ?ws = "fold ws_update legs (new_window sec)"
  have s: "sorted (map lg_ts legs)" "\<And>x. x \<in> set legs \<Longrightarrow> lg_ts x \<le> lg_ts l" using snoc.prems by (auto simp: sorted_append)
  have ih: "window_ok ?ws" "ws_trades ?ws = live_legs sec legs" "ws_window_sec ?ws = sec"
    "ws_recent_legs ?ws = last_n recent_legs_window (map (\<lambda>l. (lg_gave l, lg_got l)) legs)"
    using snoc s by simp_all
  have l: "leg_ok l" using snoc.prems by simp
  have "dropWhile (\<lambda>x. lg_ts x \<le> lg_ts l - sec) (live_legs sec legs) = filter (\<lambda>x. lg_ts l - sec < lg_ts x) (live_legs sec legs)"
    by (rule dropWhile_sorted) (simp add: live_legs_def sorted_filter s(1))
  also have "\<dots> = filter (\<lambda>x. lg_ts l - sec < lg_ts x) legs"
  proof (cases "legs = []")
    case False
    then have "lg_ts (last legs) \<le> lg_ts l" by (intro s(2)) simp
    then show ?thesis unfolding live_legs_def filter_filter by (intro filter_cong) auto
  qed (simp add: live_legs_def)
  finally show ?case
    using ws_update_ok [OF ih(1) l] ih snoc.prems(3)
    by (simp add: live_legs_def last_n_again recent_legs_window_def)
qed

section \<open>The engine over a stream of trades\<close>

definition legs_of :: "string \<Rightarrow> stream_trade list \<Rightarrow> leg list" where
  "legs_of wallet trades =
     map (\<lambda>t. extract_trade_fields t wallet) (filter (\<lambda>t. wallet \<in> set (wallets_to_update t)) trades)"

definition engine_after :: "stream_trade list \<Rightarrow> feature_engine" where
  "engine_after trades = fold (\<lambda>t e. snd (engine_update 0 t e)) trades []"

definition trade_pattern_entries :: "(string \<times> string) list \<Rightarrow> leg list \<Rightarrow> leg list \<Rightarrow> (string, real) dict" where
  "trade_pattern_entries recent day month =
     [(''counterparty_concentration_ratio'', batch_concentration day),
      (''round_trip_trade_frequency'', if length recent < 2 then 0 else real (count_round_trips 10 recent) / real (length recent)),
      (''self_matching_rate'', share_of lg_self_match day),
      (''order_cancellation_rate'', 0),
      (''volume_to_unique_counterparty_ratio'', batch_volume_per_counterparty month),
      (''intra_minute_clustering_coefficient'', share_of (shares_minute day) day),
      (''off_hours_activity_ratio'', share_of (\<lambda>l. off_hours (lg_hour l)) day),
      (''volume_spike_frequency'', batch_spikes 2 month)]"

text \<open>The feature vector computed at once from all the trades of a wallet.\<close>

definition batch_features :: "(nat list \<Rightarrow> real) \<Rightarrow> (real \<Rightarrow> real) \<Rightarrow> leg list \<Rightarrow> real \<Rightarrow> (string, real) dict" where
  "batch_features bootstrap chi2_sf legs latency_ms =
     concat (map (\<lambda>(label, sec). benford_entries label (batch_benford bootstrap chi2_sf (live_legs sec legs))) window_seconds) @
     trade_pattern_entries (last_n 20 (map (\<lambda>l. (lg_gave l, lg_got l)) legs)) (live_legs 86400 legs) (live_legs 2592000 legs) @
     map (\<lambda>n. (n, 0)) unavailable_features @ [(''stream_latency_ms'', latency_ms)]"

lemma distinct_wallets: "distinct (wallets_to_update t)"
  by (auto simp: wallets_to_update_def split: option.splits)

lemma update_for_get:
  "dict_get (update_for t w e) v =
    (if v = w then Some (update_wallet (extract_trade_fields t w) (case dict_get e w of None \<Rightarrow> new_wallet w | Some x \<Rightarrow> x))
     else dict_get e v)"
  by (simp add: update_for_def dict_get_set)

lemma updates_get:
  "distinct ws \<Longrightarrow> dict_get (fold (update_for t) ws e) v =
    (if v \<in> set ws then Some (update_wallet (extract_trade_fields t v) (case dict_get e v of None \<Rightarrow> new_wallet v | Some x \<Rightarrow> x))
     else dict_get e v)"
  by (induction ws arbitrary: e) (auto simp: update_for_get)

lemma engine_wallet:
  "dict_get (engine_after trades) w =
    (if legs_of w trades = [] then None else Some (fold update_wallet (legs_of w trades) (new_wallet w)))"
proof (induction trades rule: rev_induct)
  case (snoc t trades)
  have "dict_get (engine_after (trades @ [t])) w = dict_get (fold (update_for t) (wallets_to_update t) (engine_after trades)) w"
    by (simp add: engine_after_def engine_update_def Let_def)
  then show ?case
    by (auto simp: updates_get [OF distinct_wallets] snoc legs_of_def)
qed (simp add: engine_after_def legs_of_def)

lemma wallet_windows:
  "wl_windows (fold update_wallet legs w) = map (\<lambda>(label, ws). (label, fold ws_update legs ws)) (wl_windows w)"
  by (induction legs arbitrary: w) (auto simp: update_wallet_def)

lemma engine_windows:
  "wl_windows (fold update_wallet legs (new_wallet w)) = map (\<lambda>(label, sec). (label, fold ws_update legs (new_window sec))) window_seconds"
  by (simp add: wallet_windows new_wallet_def comp_def case_prod_beta')

lemma extract_fields:
  "lg_ts (extract_trade_fields t w) = st_time t div 1000000" "lg_amount (extract_trade_fields t w) = st_base_amount t"
  "lg_digit (extract_trade_fields t w) = first_digit (st_base_amount t)"
  by (simp_all add: extract_trade_fields_def Let_def sf_first_digit_def first_digit_def split: prod.split)

lemma legs_ok: "\<forall>t\<in>set trades. 0 < st_base_amount t \<Longrightarrow> list_all leg_ok (legs_of w trades)"
  by (simp add: list_all_iff legs_of_def leg_ok_def extract_fields)

lemma legs_sorted:
  assumes "sorted (map st_time trades)"
  shows "sorted (map lg_ts (legs_of w trades))"
proof -
  have "map lg_ts (legs_of w trades) = map (\<lambda>t. st_time t div 1000000) (filter (\<lambda>t. w \<in> set (wallets_to_update t)) trades)"
    by (simp add: legs_of_def extract_fields)
  moreover have "sorted (map st_time (filter (\<lambda>t. w \<in> set (wallets_to_update t)) trades))" by (rule sorted_filter [OF assms])
  ultimately show ?thesis by (auto simp: sorted_map intro: sorted_wrt_mono_rel [rotated] zdiv_mono1)
qed


definition sample_trades :: "stream_trade list" where
  "sample_trades =
     [\<lparr>st_time = 0, st_base_account = ''A'', st_counter_account = Some ''B'', st_base_asset = \<lparr>a_code = ''XLM'', a_issuer = None\<rparr>,
       st_counter_asset = \<lparr>a_code = ''USDC'', a_issuer = Some ''G''\<rparr>, st_base_amount = 25\<rparr>,
      \<lparr>st_time = 7200000000, st_base_account = ''B'', st_counter_account = Some ''A'', st_base_asset = \<lparr>a_code = ''XLM'', a_issuer = None\<rparr>,
       st_counter_asset = \<lparr>a_code = ''USDC'', a_issuer = Some ''G''\<rparr>, st_base_amount = 30\<rparr>]"


lemma window_run_ok: "list_all leg_ok legs \<Longrightarrow> window_ok ws \<Longrightarrow> window_ok (fold ws_update legs ws)"
  by (induction legs arbitrary: ws) (auto simp: ws_update_ok)

lemma unit_ratio: "a \<le> b \<Longrightarrow> 0 \<le> real a / real b \<and> real a / real b \<le> 1"
  by (cases b) (simp_all add: divide_le_eq_1)

lemma share_bounds: "0 \<le> share_of p legs \<and> share_of p legs \<le> 1"
  unfolding share_of_def by (rule unit_ratio) (simp add: row_count_def)

lemma concentration_bounds:
  assumes "list_all leg_ok legs"
  shows "0 \<le> batch_concentration legs \<and> batch_concentration legs \<le> 1"
proof (cases "legs = []")
  case False
  let ?S = "total lg_cp lg_amount legs ` lg_cp ` set legs"
  have pos: "\<forall>l\<in>set legs. 0 < lg_amount l" using assms by (auto simp: list_all_iff leg_ok_def)
  have part: "sum_list (map lg_amount (filter p legs)) \<le> sum_list (map lg_amount legs)" for p
    using pos by (induction legs) (auto intro: add_mono simp: add_increasing less_imp_le)
  have m: "Max ?S \<in> ?S" using False by (intro Max_in) auto
  then obtain c where c: "c \<in> lg_cp ` set legs" "Max ?S = total lg_cp lg_amount legs c" by blast
  have "0 \<le> Max ?S" unfolding c(2) using total_pos [OF pos c(1)] by (rule less_imp_le)
  moreover have "Max ?S \<le> sum_list (map lg_amount legs)" unfolding c(2) total_def by (rule part)
  moreover have "0 < sum_list (map lg_amount legs)" by (rule amounts_pos [OF assms False])
  ultimately show ?thesis using False by (simp add: batch_concentration_def)
qed (simp add: batch_concentration_def)

lemma spikes_bounds: "0 \<le> batch_spikes k legs \<and> batch_spikes k legs \<le> 1"
proof -
  have "card {h \<in> lg_hour_bucket ` set legs. p h} \<le> card (lg_hour_bucket ` set legs)" for p by (rule card_mono) auto
  then show ?thesis unfolding batch_spikes_def Let_def by (simp add: unit_ratio)
qed

lemma round_trips_bounds: "0 \<le> round_trip_frequency k ws \<and> round_trip_frequency k ws \<le> 1"
proof -
  have "count_round_trips k legs \<le> length legs" for legs by (induction legs) auto
  then show ?thesis by (simp add: round_trip_frequency_def Let_def unit_ratio)
qed

lemma benford_keys: "map fst (benford_entries label m) = map fst (benford_entries label (0, 0, 0))"
  by (simp add: benford_entries_def split: prod.split)

lemma feature_keys: "map fst (get_features e w latency_ms) = map fst zero_vector"
  by (simp add: get_features_def zero_vector_def Let_def window_seconds_def benford_keys [of _ "ws_benford_metrics _"] comp_def
      split: option.split)

lemma zero_keys_distinct: "distinct (map fst zero_vector)"
  by (simp add: zero_vector_def window_seconds_def benford_entries_def unavailable_features_def comp_def)

definition ratio_features :: "string list" where
  "ratio_features =
     [''counterparty_concentration_ratio'', ''round_trip_trade_frequency'', ''self_matching_rate'',
      ''intra_minute_clustering_coefficient'', ''off_hours_activity_ratio'', ''volume_spike_frequency'']"

lemma ratio_entries:
  assumes "dict_get e w = Some wl"
  shows "dict_get (get_features e w l) ''counterparty_concentration_ratio'' =
      Some (counterparty_concentration (the (dict_get (wl_windows wl) ''24h'')))"
    "dict_get (get_features e w l) ''round_trip_trade_frequency'' = Some (round_trip_frequency 10 (the (dict_get (wl_windows wl) ''24h'')))"
    "dict_get (get_features e w l) ''self_matching_rate'' = Some (self_matching_rate (the (dict_get (wl_windows wl) ''24h'')))"
    "dict_get (get_features e w l) ''intra_minute_clustering_coefficient'' =
      Some (intra_minute_clustering_coefficient (the (dict_get (wl_windows wl) ''24h'')))"
    "dict_get (get_features e w l) ''off_hours_activity_ratio'' = Some (off_hours_activity_ratio (the (dict_get (wl_windows wl) ''24h'')))"
    "dict_get (get_features e w l) ''volume_spike_frequency'' = Some (volume_spike_frequency 2 (the (dict_get (wl_windows wl) ''30d'')))"
  using assms by (simp_all add: get_features_def Let_def window_seconds_def benford_entries_def split: prod.split)

lemma zero_ratio: "name \<in> set ratio_features \<Longrightarrow> dict_get zero_vector name = Some 0"
  by (auto simp: ratio_features_def zero_vector_def window_seconds_def benford_entries_def)



text \<open>
  Windows are only cut when their wallet trades: trades of others, however much later, leave the vector
  of an idle wallet as it was.
\<close>

lemma idle_wallet_keeps_features:
  assumes "\<forall>t\<in>set later. wallet \<notin> set (wallets_to_update t)"
  shows "get_features (engine_after (trades @ later)) wallet latency_ms = get_features (engine_after trades) wallet latency_ms"
proof -
  have "legs_of wallet (trades @ later) = legs_of wallet trades" using assms by (simp add: legs_of_def)
  then show ?thesis by (simp add: get_features_def engine_wallet)
qed

end
