(* ===== verification/Exactly_Once.thy ===== *)
theory Exactly_Once
  imports Prelude
begin

text \<open>
  The exactly-once store of the trade pipeline (\<open>data/pipelines/pipeline/exactly_once.py\<close>) and its user
  \<open>SeenEventCache\<close> (\<open>data/pipelines/ingestion/trade_deduplicator.py\<close>): keys are staged before work with side
  effects and committed after it. Redis is a parameter (\<open>kv_lib\<close>) with what its commands document as
  hypothesis \<open>kv_ok\<close>; whether a command is answered is an argument of each call. The SQL table is the list of its rows
  in the order of their ids. Locale \<open>dedup_backend\<close> is the interface \<open>DedupBackend\<close>; both backends implement it. Times are
  microseconds. Left out: the availability gauge, logging, and the construction of clients and engines.
\<close>

section \<open>Keys and states\<close>

record dedup_key =
  dk_source :: string
  dk_external_id :: string
  dk_tenant_id :: "string option"

definition canonical :: "dedup_key \<Rightarrow> string" where
  "canonical k = (case dk_tenant_id k of None \<Rightarrow> ''_'' | Some t \<Rightarrow> t) @ '':'' @ dk_source k @ '':'' @ dk_external_id k"

datatype dedup_state = New | Staged | Committed | Failed | Ttl_Expired_Reverify

definition state_value :: "dedup_state \<Rightarrow> string" where
  "state_value st = (case st of New \<Rightarrow> ''new'' | Staged \<Rightarrow> ''staged'' | Committed \<Rightarrow> ''committed'' | Failed \<Rightarrow> ''failed''
     | Ttl_Expired_Reverify \<Rightarrow> ''ttl_expired_reverify'')"

datatype store_error = Backend_Unavailable string | Operational_Error | Attribute_Error

record 'p decision =
  dd_state :: dedup_state
  dd_payload :: "'p option"

definition decided :: "dedup_state \<Rightarrow> 'p decision" where
  "decided st = \<lparr>dd_state = st, dd_payload = None\<rparr>"

section \<open>The Redis backend\<close>

text \<open>The commands the backend uses: \<open>GET\<close>, \<open>SET EX\<close>, \<open>SET NX EX\<close>, \<open>DEL\<close> and \<open>SCAN MATCH\<close>, each at a time of the server.\<close>

record 'r kv_lib =
  kv_get :: "int \<Rightarrow> string \<Rightarrow> 'r \<Rightarrow> string option"
  kv_set :: "int \<Rightarrow> string \<Rightarrow> string \<Rightarrow> int \<Rightarrow> 'r \<Rightarrow> 'r"
  kv_set_nx :: "int \<Rightarrow> string \<Rightarrow> string \<Rightarrow> int \<Rightarrow> 'r \<Rightarrow> bool \<times> 'r"
  kv_delete :: "int \<Rightarrow> string \<Rightarrow> 'r \<Rightarrow> 'r"
  kv_scan :: "int \<Rightarrow> string \<Rightarrow> 'r \<Rightarrow> string list"

record redis_backend =
  rb_connected :: bool
  rb_key_prefix :: string

record redis_env =
  rv_set_at :: int
  rv_set :: call_outcome
  rv_get_at :: int
  rv_get :: call_outcome

definition redis_key :: "redis_backend \<Rightarrow> dedup_key \<Rightarrow> string" where
  "redis_key b k = rb_key_prefix b @ canonical k"

definition redis_health_check :: "redis_backend \<Rightarrow> call_outcome \<Rightarrow> bool" where
  "redis_health_check b ping \<longleftrightarrow> rb_connected b \<and> ping = Answered"

definition state_of_value :: "string \<Rightarrow> dedup_state" where
  "state_of_value v = (if v = state_value Committed then Committed else Staged)"

definition redis_check_and_stage ::
  "'r kv_lib \<Rightarrow> redis_backend \<Rightarrow> redis_env \<Rightarrow> dedup_key \<Rightarrow> real \<Rightarrow> 'r \<Rightarrow> (store_error + 'p decision) \<times> 'r" where
  "redis_check_and_stage lib b env k ttl_seconds r =
     (let unavailable = Inl (Backend_Unavailable (dk_source k));
          (claimed, r1) = kv_set_nx lib (rv_set_at env) (redis_key b k) (state_value Staged) \<lfloor>ttl_seconds\<rfloor> r
      in if \<not> rb_connected b then (unavailable, r)
         else (case rv_set env of
                 Unreached \<Rightarrow> (unavailable, r)
               | Answer_Lost \<Rightarrow> (unavailable, r1)
               | Answered \<Rightarrow>
                   if claimed then (Inr (decided New), r1)
                   else if rv_get env \<noteq> Answered then (unavailable, r1)
                   else (case kv_get lib (rv_get_at env) (redis_key b k) r1 of
                           None \<Rightarrow> (Inr (decided Staged), r1)
                         | Some v \<Rightarrow> (Inr (decided (state_of_value v)), r1))))"

definition redis_commit ::
  "'r kv_lib \<Rightarrow> redis_backend \<Rightarrow> redis_env \<Rightarrow> dedup_key \<Rightarrow> real \<Rightarrow> 'r \<Rightarrow> (store_error + unit) \<times> 'r" where
  "redis_commit lib b env k ttl_seconds r =
     (let unavailable = Inl (Backend_Unavailable (dk_source k));
          r1 = kv_set lib (rv_set_at env) (redis_key b k) (state_value Committed) \<lfloor>ttl_seconds\<rfloor> r
      in if \<not> rb_connected b then (unavailable, r)
         else (case rv_set env of Unreached \<Rightarrow> (unavailable, r) | Answer_Lost \<Rightarrow> (unavailable, r1) | Answered \<Rightarrow> (Inr (), r1)))"

definition redis_mark_failed ::
  "'r kv_lib \<Rightarrow> redis_backend \<Rightarrow> redis_env \<Rightarrow> dedup_key \<Rightarrow> 'r \<Rightarrow> (store_error + unit) \<times> 'r" where
  "redis_mark_failed lib b env k r =
     (let unavailable = Inl (Backend_Unavailable (dk_source k)); r1 = kv_delete lib (rv_set_at env) (redis_key b k) r
      in if \<not> rb_connected b then (unavailable, r)
         else (case rv_set env of Unreached \<Rightarrow> (unavailable, r) | Answer_Lost \<Rightarrow> (unavailable, r1) | Answered \<Rightarrow> (Inr (), r1)))"

definition redis_lookup :: "'r kv_lib \<Rightarrow> redis_backend \<Rightarrow> redis_env \<Rightarrow> dedup_key \<Rightarrow> 'r \<Rightarrow> store_error + 'p decision" where
  "redis_lookup lib b env k r =
     (if \<not> rb_connected b \<or> rv_get env \<noteq> Answered then Inl (Backend_Unavailable (dk_source k))
      else Inr (decided (case kv_get lib (rv_get_at env) (redis_key b k) r of None \<Rightarrow> New | Some v \<Rightarrow> state_of_value v)))"

definition scan_pattern :: "redis_backend \<Rightarrow> string \<Rightarrow> string" where
  "scan_pattern b source_prefix = rb_key_prefix b @ ''*:'' @ source_prefix @ '':*''"

definition scan_count :: "'r kv_lib \<Rightarrow> redis_backend \<Rightarrow> redis_env \<Rightarrow> string \<Rightarrow> 'r \<Rightarrow> store_error + nat" where
  "scan_count lib b env source_prefix r =
     (if \<not> rb_connected b \<or> rv_get env \<noteq> Answered then Inl (Backend_Unavailable source_prefix)
      else Inr (length (kv_scan lib (rv_get_at env) (scan_pattern b source_prefix) r)))"

text \<open>The keys are listed before the first is deleted; the loop of deletions is one call here.\<close>

definition scan_delete :: "'r kv_lib \<Rightarrow> redis_backend \<Rightarrow> redis_env \<Rightarrow> string \<Rightarrow> 'r \<Rightarrow> (store_error + nat) \<times> 'r" where
  "scan_delete lib b env source_prefix r =
     (let ks = kv_scan lib (rv_get_at env) (scan_pattern b source_prefix) r;
          r1 = fold (kv_delete lib (rv_set_at env)) ks r;
          unavailable = Inl (Backend_Unavailable source_prefix)
      in if \<not> rb_connected b \<or> rv_get env \<noteq> Answered then (unavailable, r)
         else (case rv_set env of Unreached \<Rightarrow> (unavailable, r) | Answer_Lost \<Rightarrow> (unavailable, r1) | Answered \<Rightarrow> (Inr (length ks), r1)))"

section \<open>The SQL backend\<close>

record 'p dedup_row =
  dr_canonical_key :: string
  dr_source :: string
  dr_external_id :: string
  dr_tenant_id :: "string option"
  dr_state :: dedup_state
  dr_payload :: "'p option"
  dr_staged_at :: instant
  dr_committed_at :: "instant option"

record sql_env =
  sv_at :: instant
  sv_locked :: "bool list"

definition get_row :: "'p dedup_row list \<Rightarrow> dedup_key \<Rightarrow> 'p dedup_row option" where
  "get_row rows k = find (\<lambda>row. dr_canonical_key row = canonical k) rows"

definition staged_row :: "instant \<Rightarrow> dedup_key \<Rightarrow> 'p dedup_row" where
  "staged_row now k =
     \<lparr>dr_canonical_key = canonical k, dr_source = dk_source k, dr_external_id = dk_external_id k, dr_tenant_id = dk_tenant_id k,
      dr_state = Staged, dr_payload = None, dr_staged_at = now, dr_committed_at = None\<rparr>"

text \<open>\<open>INSERT\<close> under the unique constraint; \<open>None\<close> is the integrity error.\<close>

definition insert_dedup_row :: "'p dedup_row \<Rightarrow> 'p dedup_row list \<Rightarrow> 'p dedup_row list option" where
  "insert_dedup_row row rows = (if dr_canonical_key row \<in> dr_canonical_key ` set rows then None else Some (rows @ [row]))"

text \<open>
  \<open>_check_and_stage_impl\<close> reads first and inserts then. \<open>stage_absent\<close> is what follows a read that found nothing, on the
  table as it is by then; \<open>stage_present\<close> what follows a read that found a row.
\<close>

definition stage_absent :: "instant \<Rightarrow> dedup_key \<Rightarrow> 'p dedup_row list \<Rightarrow> (store_error + 'p decision) \<times> 'p dedup_row list" where
  "stage_absent now k rows =
     (case insert_dedup_row (staged_row now k) rows of
        Some rows' \<Rightarrow> (Inr (decided New), rows')
      | None \<Rightarrow>
          (case get_row rows k of
             Some row \<Rightarrow> if dr_state row = Committed then (Inr \<lparr>dd_state = Committed, dd_payload = dr_payload row\<rparr>, rows)
                         else (Inr (decided Staged), rows)
           | None \<Rightarrow> (Inl Attribute_Error, rows)))"

definition hours :: "int \<Rightarrow> real" where
  "hours us = real_of_int us / 3600000000"

definition update_row :: "dedup_key \<Rightarrow> ('p dedup_row \<Rightarrow> 'p dedup_row) \<Rightarrow> 'p dedup_row list \<Rightarrow> 'p dedup_row list" where
  "update_row k f rows = update_where (\<lambda>row. dr_canonical_key row = canonical k) f rows"

definition stage_present ::
  "real \<Rightarrow> instant \<Rightarrow> dedup_key \<Rightarrow> 'p dedup_row \<Rightarrow> 'p dedup_row list \<Rightarrow> (store_error + 'p decision) \<times> 'p dedup_row list" where
  "stage_present ttl_hours now k row rows =
     (if dr_state row = Committed then
        (case dr_committed_at row of
           None \<Rightarrow> (Inl Attribute_Error, rows)
         | Some c \<Rightarrow>
             (Inr \<lparr>dd_state = (if ttl_hours < hours (now - c) then Ttl_Expired_Reverify else Committed), dd_payload = dr_payload row\<rparr>, rows))
      else if dr_state row = Failed then
        (Inr (decided New), update_row k (\<lambda>row. row\<lparr>dr_state := Staged, dr_staged_at := now\<rparr>) rows)
      else (Inr (decided Staged), rows))"

definition stage_impl ::
  "real \<Rightarrow> instant \<Rightarrow> dedup_key \<Rightarrow> 'p dedup_row list \<Rightarrow> (store_error + 'p decision) \<times> 'p dedup_row list" where
  "stage_impl ttl_hours now k rows =
     (case get_row rows k of None \<Rightarrow> stage_absent now k rows | Some row \<Rightarrow> stage_present ttl_hours now k row rows)"

text \<open>
  \<open>_with_retry\<close>: each element of the list is an attempt that meets an operational error, which leaves the table as it
  was; after the list the call runs. The fifth error is raised.
\<close>

fun with_retry :: "nat \<Rightarrow> bool list \<Rightarrow> ('s \<Rightarrow> (store_error + 'a) \<times> 's) \<Rightarrow> 's \<Rightarrow> (store_error + 'a) \<times> 's" where
  "with_retry attempt (locked # rest) fn s =
     (if locked then if attempt = 4 then (Inl Operational_Error, s) else with_retry (attempt + 1) rest fn s
      else fn s)"
| "with_retry attempt [] fn s = fn s"

definition sql_check_and_stage ::
  "real \<Rightarrow> sql_env \<Rightarrow> dedup_key \<Rightarrow> 'p dedup_row list \<Rightarrow> (store_error + 'p decision) \<times> 'p dedup_row list" where
  "sql_check_and_stage ttl_hours env k rows = with_retry 0 (sv_locked env) (stage_impl ttl_hours (sv_at env) k) rows"

definition commit_row :: "instant \<Rightarrow> 'p option \<Rightarrow> 'p dedup_row \<Rightarrow> 'p dedup_row" where
  "commit_row now payload row =
     row\<lparr>dr_state := Committed, dr_committed_at := Some now, dr_payload := (case payload of None \<Rightarrow> dr_payload row | Some p \<Rightarrow> Some p)\<rparr>"

definition commit_impl :: "instant \<Rightarrow> dedup_key \<Rightarrow> 'p option \<Rightarrow> 'p dedup_row list \<Rightarrow> (store_error + unit) \<times> 'p dedup_row list" where
  "commit_impl now k payload rows =
     (case get_row rows k of
        Some row \<Rightarrow> (Inr (), update_row k (commit_row now payload) rows)
      | None \<Rightarrow>
          (case insert_dedup_row (commit_row now payload (staged_row now k)) rows of
             Some rows' \<Rightarrow> (Inr (), rows')
           | None \<Rightarrow> (Inr (), update_row k (commit_row now payload) rows)))"

definition sql_commit :: "sql_env \<Rightarrow> dedup_key \<Rightarrow> 'p option \<Rightarrow> 'p dedup_row list \<Rightarrow> (store_error + unit) \<times> 'p dedup_row list" where
  "sql_commit env k payload rows = with_retry 0 (sv_locked env) (commit_impl (sv_at env) k payload) rows"

definition sql_mark_failed :: "sql_env \<Rightarrow> dedup_key \<Rightarrow> 'p dedup_row list \<Rightarrow> (store_error + unit) \<times> 'p dedup_row list" where
  "sql_mark_failed env k rows =
     with_retry 0 (sv_locked env) (\<lambda>rows. (Inr (), update_row k (\<lambda>row. row\<lparr>dr_state := Failed\<rparr>) rows)) rows"

definition sql_lookup :: "sql_env \<Rightarrow> dedup_key \<Rightarrow> 'p dedup_row list \<Rightarrow> (store_error + 'p decision) \<times> 'p dedup_row list" where
  "sql_lookup env k rows =
     with_retry 0 (sv_locked env)
       (\<lambda>rows. (Inr (case get_row rows k of None \<Rightarrow> decided New | Some row \<Rightarrow> \<lparr>dd_state = dr_state row, dd_payload = dr_payload row\<rparr>), rows))
       rows"

text \<open>\<open>LIKE\<close> of SQLite: \<open>_\<close> is any character, \<open>%\<close> any text, and ASCII letters match in either case.\<close>

definition ascii_lower :: "char \<Rightarrow> char" where
  "ascii_lower c = (let n = (of_char c :: nat) in if 65 \<le> n \<and> n \<le> 90 then char_of (n + 32) else c)"

fun like_prefix :: "string \<Rightarrow> string \<Rightarrow> bool" where
  "like_prefix [] s = True"
| "like_prefix (p # ps) s =
     (if p = CHR ''%'' then (\<exists>i \<le> length s. like_prefix ps (drop i s))
      else (case s of [] \<Rightarrow> False | c # cs \<Rightarrow> (p = CHR ''_'' \<or> ascii_lower p = ascii_lower c) \<and> like_prefix ps cs))"

definition list_by_source_prefix :: "sql_env \<Rightarrow> string \<Rightarrow> 'p dedup_row list \<Rightarrow> (store_error + 'p dedup_row list) \<times> 'p dedup_row list" where
  "list_by_source_prefix env source_prefix rows =
     with_retry 0 (sv_locked env) (\<lambda>rows. (Inr (filter (\<lambda>row. like_prefix source_prefix (dr_source row)) rows), rows)) rows"

section \<open>The store and the cache of seen events\<close>

record exactly_once_store =
  eo_backend :: redis_backend
  eo_ttl_seconds :: real

definition store_check_and_stage ::
  "'r kv_lib \<Rightarrow> exactly_once_store \<Rightarrow> redis_env \<Rightarrow> dedup_key \<Rightarrow> 'r \<Rightarrow> (store_error + 'p decision) \<times> 'r" where
  "store_check_and_stage lib st env k r = redis_check_and_stage lib (eo_backend st) env k (eo_ttl_seconds st) r"

text \<open>The lifetime of the store is not handed on: the backend's default of a day applies.\<close>

definition default_commit_ttl :: real where
  "default_commit_ttl = 86400"

definition store_commit :: "'r kv_lib \<Rightarrow> exactly_once_store \<Rightarrow> redis_env \<Rightarrow> dedup_key \<Rightarrow> 'r \<Rightarrow> (store_error + unit) \<times> 'r" where
  "store_commit lib st env k r = redis_commit lib (eo_backend st) env k default_commit_ttl r"

definition seen_key :: "(string \<Rightarrow> string) \<Rightarrow> string \<Rightarrow> string option \<Rightarrow> string \<Rightarrow> dedup_key" where
  "seen_key sha256 trade_id paging_token asset_pair =
     (let hash_input = (case paging_token of None \<Rightarrow> trade_id | Some t \<Rightarrow> if t = [] then trade_id else t)
      in \<lparr>dk_source = ''horizon_trade:'' @ asset_pair, dk_external_id = sha256 hash_input, dk_tenant_id = None\<rparr>)"

definition trade_is_duplicate ::
  "'r kv_lib \<Rightarrow> exactly_once_store \<Rightarrow> redis_env \<Rightarrow> redis_env \<Rightarrow> dedup_key \<Rightarrow> 'r \<Rightarrow> (store_error + bool) \<times> 'r" where
  "trade_is_duplicate lib st env1 env2 k r =
     (case store_check_and_stage lib st env1 k r :: (store_error + unit decision) \<times> 'r of
        (Inl e, r1) \<Rightarrow> (Inl e, r1)
      | (Inr d, r1) \<Rightarrow>
          if dd_state d = Committed then (Inr True, r1)
          else (case store_commit lib st env2 k r1 of (Inl e, r2) \<Rightarrow> (Inl e, r2) | (Inr _, r2) \<Rightarrow> (Inr False, r2)))"

definition cache_trade :: "'r kv_lib \<Rightarrow> exactly_once_store \<Rightarrow> redis_env \<Rightarrow> dedup_key \<Rightarrow> 'r \<Rightarrow> (store_error + unit) \<times> 'r" where
  "cache_trade lib st env k r = store_commit lib st env k r"

definition get_cache_size :: "'r kv_lib \<Rightarrow> exactly_once_store \<Rightarrow> redis_env \<Rightarrow> string \<Rightarrow> 'r \<Rightarrow> int" where
  "get_cache_size lib st env asset_pair r =
     (case scan_count lib (eo_backend st) env (''horizon_trade:'' @ asset_pair) r of Inl _ \<Rightarrow> - 1 | Inr n \<Rightarrow> int n)"

definition clear_cache :: "'r kv_lib \<Rightarrow> exactly_once_store \<Rightarrow> redis_env \<Rightarrow> string option \<Rightarrow> 'r \<Rightarrow> bool \<times> 'r" where
  "clear_cache lib st env asset_pair r =
     (let source = (case asset_pair of None \<Rightarrow> ''horizon_trade'' | Some p \<Rightarrow> if p = [] then ''horizon_trade'' else ''horizon_trade:'' @ p)
      in case scan_delete lib (eo_backend st) env source r of (Inl _, r1) \<Rightarrow> (False, r1) | (Inr _, r1) \<Rightarrow> (True, r1))"

section \<open>The interface of a backend\<close>

text \<open>
  What a user of a backend relies on. \<open>finished t k s\<close> says that a lookup at time \<open>t\<close> would find \<open>k\<close> committed in
  store \<open>s\<close>; \<open>life\<close> is how long a commit lasts; a call of environment \<open>e\<close> takes place between \<open>starts e\<close> and \<open>ends e\<close>.
\<close>

locale dedup_backend =
  fixes stage :: "'e \<Rightarrow> dedup_key \<Rightarrow> 's \<Rightarrow> (store_error + 'p decision) \<times> 's"
    and commit :: "'e \<Rightarrow> dedup_key \<Rightarrow> 'p option \<Rightarrow> 's \<Rightarrow> (store_error + unit) \<times> 's"
    and starts :: "'e \<Rightarrow> int" and ends :: "'e \<Rightarrow> int" and env_ok :: "'e \<Rightarrow> bool"
    and finished :: "int \<Rightarrow> dedup_key \<Rightarrow> 's \<Rightarrow> bool" and life :: int
  assumes stage_sees: "env_ok e \<Longrightarrow> finished (ends e) k s \<Longrightarrow> fst (stage e k s) = Inr d \<Longrightarrow> dd_state d = Committed"
    and stage_honest: "env_ok e \<Longrightarrow> fst (stage e k s) = Inr d \<Longrightarrow> dd_state d = Committed \<Longrightarrow> finished (starts e) k s"
    and stage_keeps: "env_ok e \<Longrightarrow> starts e \<le> t \<Longrightarrow> finished t k' s \<Longrightarrow> finished t k' (snd (stage e k s))"
    and stage_adds_none: "env_ok e \<Longrightarrow> ends e \<le> t \<Longrightarrow> finished t k' (snd (stage e k s)) \<Longrightarrow> finished t k' s"
    and commit_lasts: "env_ok e \<Longrightarrow> fst (commit e k p s) = Inr u \<Longrightarrow> starts e \<le> t \<Longrightarrow> t < starts e + life \<Longrightarrow>
      finished t k (snd (commit e k p s))"
    and commit_keeps: "env_ok e \<Longrightarrow> starts e \<le> t \<Longrightarrow> t < starts e + life \<Longrightarrow> finished t k' s \<Longrightarrow> finished t k' (snd (commit e k p s))"
    and commit_adds: "env_ok e \<Longrightarrow> ends e \<le> t \<Longrightarrow> finished t k' (snd (commit e k p s)) \<Longrightarrow>
      finished t k' s \<or> canonical k' = canonical k"

datatype ('e, 'p) dedup_op = Stage 'e dedup_key | Commit 'e dedup_key "'p option"

fun op_env :: "('e, 'p) dedup_op \<Rightarrow> 'e" where
  "op_env (Stage e k) = e"
| "op_env (Commit e k p) = e"

definition commits :: "dedup_key \<Rightarrow> ('e, 'p) dedup_op \<Rightarrow> bool" where
  "commits k a \<longleftrightarrow> (case a of Stage _ _ \<Rightarrow> False | Commit _ k' _ \<Rightarrow> canonical k' = canonical k)"

fun run_store_op ::
  "('e \<Rightarrow> dedup_key \<Rightarrow> 's \<Rightarrow> (store_error + 'p decision) \<times> 's) \<Rightarrow> ('e \<Rightarrow> dedup_key \<Rightarrow> 'p option \<Rightarrow> 's \<Rightarrow> (store_error + unit) \<times> 's)
    \<Rightarrow> ('e, 'p) dedup_op \<Rightarrow> 's \<Rightarrow> 's" where
  "run_store_op stage commit (Stage e k) s = snd (stage e k s)"
| "run_store_op stage commit (Commit e k p) s = snd (commit e k p s)"

context dedup_backend
begin

lemma finished_run:
  assumes "\<forall>a\<in>set as. env_ok (op_env a) \<and> t0 \<le> starts (op_env a) \<and> starts (op_env a) \<le> t" "t < t0 + life" "finished t k s"
  shows "finished t k (fold (run_store_op stage commit) as s)"
  using assms
proof (induction as arbitrary: s)
  case (Cons a as)
  then have "finished t k (run_store_op stage commit a s)" by (cases a) (auto intro: stage_keeps commit_keeps)
  then show ?case using Cons by simp
qed simp

lemma no_rework:
  assumes "env_ok e" "fst (commit e k p s) = Inr u" "starts e \<le> ends e'" "ends e' < starts e + life" "env_ok e'"
    and "\<forall>a\<in>set as. env_ok (op_env a) \<and> starts e \<le> starts (op_env a) \<and> starts (op_env a) \<le> ends e'"
    and "fst (stage e' k (fold (run_store_op stage commit) as (snd (commit e k p s)))) = Inr d"
  shows "dd_state d = Committed"
proof -
  have "finished (ends e') k (snd (commit e k p s))" using assms by (intro commit_lasts)
  then have "finished (ends e') k (fold (run_store_op stage commit) as (snd (commit e k p s)))"
    by (rule finished_run [OF assms(6,4)])
  then show ?thesis by (rule stage_sees [OF assms(5)]) (rule assms(7))
qed

lemma finished_origin:
  assumes "\<forall>a\<in>set as. env_ok (op_env a) \<and> ends (op_env a) \<le> t" "finished t k (fold (run_store_op stage commit) as s)"
  shows "finished t k s \<or> (\<exists>a\<in>set as. commits k a)"
  using assms
proof (induction as rule: rev_induct)
  case (snoc a as)
  then have "finished t k (fold (run_store_op stage commit) as s) \<or> commits k a"
    by (cases a) (auto simp: commits_def dest: stage_adds_none commit_adds)
  then show ?case using snoc by auto
qed simp

lemma committed_origin:
  assumes "env_ok e" "\<forall>a\<in>set as. env_ok (op_env a) \<and> ends (op_env a) \<le> starts e"
    and "fst (stage e k (fold (run_store_op stage commit) as s)) = Inr d" "dd_state d = Committed" "\<not> finished (starts e) k s"
  shows "\<exists>a\<in>set as. commits k a"
  using finished_origin [OF assms(2) stage_honest [OF assms(1,3,4)]] assms(5) by blast

end

section \<open>Redis implements it\<close>

text \<open>
  What Redis documents of the commands: \<open>SET EX\<close> stores a value that expires, \<open>NX\<close> only stores when the key is absent,
  \<open>DEL\<close> removes a key, and a value does not change or come back by itself.
\<close>

definition kv_ok :: "'r kv_lib \<Rightarrow> bool" where
  "kv_ok lib \<longleftrightarrow>
     (\<forall>t k v ex r t' k'. 0 < ex \<longrightarrow> t \<le> t' \<longrightarrow>
        kv_get lib t' k' (kv_set lib t k v ex r) =
          (if k' = k then if t' < t + ex * 1000000 then Some v else None else kv_get lib t' k' r)) \<and>
     (\<forall>t k v ex r. kv_set_nx lib t k v ex r =
        (if kv_get lib t k r = None then (True, kv_set lib t k v ex r) else (False, r))) \<and>
     (\<forall>t k r t' k'. t \<le> t' \<longrightarrow> kv_get lib t' k' (kv_delete lib t k r) = (if k' = k then None else kv_get lib t' k' r)) \<and>
     (\<forall>t k v r t'. t \<le> t' \<longrightarrow> kv_get lib t' k r = Some v \<longrightarrow> kv_get lib t k r = Some v)"

definition redis_finished :: "'r kv_lib \<Rightarrow> redis_backend \<Rightarrow> int \<Rightarrow> dedup_key \<Rightarrow> 'r \<Rightarrow> bool" where
  "redis_finished lib b t k r \<longleftrightarrow> kv_get lib t (redis_key b k) r = Some (state_value Committed)"

definition redis_env_ok :: "redis_env \<Rightarrow> bool" where
  "redis_env_ok e \<longleftrightarrow> rv_set_at e \<le> rv_get_at e"

lemma redis_key_eq: "redis_key b k = redis_key b k' \<longleftrightarrow> canonical k = canonical k'"
  by (simp add: redis_key_def)

lemma state_of_value_Committed: "state_of_value v = Committed \<longleftrightarrow> v = state_value Committed"
  by (simp add: state_of_value_def)

lemma state_values: "state_value Staged \<noteq> state_value Committed" "state_of_value (state_value Committed) = Committed"
  "state_of_value (state_value Staged) = Staged"
  by (simp_all add: state_value_def state_of_value_def)

locale redis_server =
  fixes lib :: "'r kv_lib" and b :: redis_backend and ttl :: real
  assumes lib_ok: "kv_ok lib" and ttl_pos: "1 \<le> ttl"
begin

lemma get_set: "0 < ex \<Longrightarrow> t \<le> t' \<Longrightarrow> kv_get lib t' k' (kv_set lib t k v ex r) =
    (if k' = k then if t' < t + ex * 1000000 then Some v else None else kv_get lib t' k' r)"
  using lib_ok [unfolded kv_ok_def, THEN conjunct1, rule_format, of ex t t' k' k v r] by simp

lemma set_nx: "kv_set_nx lib t k v ex r = (if kv_get lib t k r = None then (True, kv_set lib t k v ex r) else (False, r))"
  using lib_ok unfolding kv_ok_def by blast

lemma earlier: "t \<le> t' \<Longrightarrow> kv_get lib t' k r = Some v \<Longrightarrow> kv_get lib t k r = Some v"
  using lib_ok unfolding kv_ok_def by blast

end

sublocale redis_server \<subseteq> redis: dedup_backend
  "\<lambda>e k r. redis_check_and_stage lib b e k ttl r" "\<lambda>e k p r. redis_commit lib b e k default_commit_ttl r"
  rv_set_at rv_get_at redis_env_ok "redis_finished lib b" "86400 * 1000000"
proof (unfold_locales, goal_cases)
  case (1 e k s d)
  then have g: "kv_get lib (rv_get_at e) (redis_key b k) s = Some (state_value Committed)"
    "kv_get lib (rv_set_at e) (redis_key b k) s = Some (state_value Committed)"
    by (auto simp: redis_finished_def redis_env_ok_def intro: earlier)
  then show ?case
    using 1(3) by (auto simp: redis_check_and_stage_def set_nx decided_def state_values Let_def split: if_splits call_outcome.splits)
next
  case (2 e k s d)
  then have "kv_get lib (rv_get_at e) (redis_key b k) s = Some (state_value Committed)"
    by (auto simp: redis_check_and_stage_def set_nx decided_def state_of_value_Committed Let_def
        split: if_splits call_outcome.splits option.splits)
  then show ?case using 2(1) by (auto simp: redis_finished_def redis_env_ok_def intro: earlier)
next
  case (3 e t k' s k)
  then have "kv_get lib (rv_set_at e) (redis_key b k') s = Some (state_value Committed)"
    by (auto simp: redis_finished_def intro: earlier)
  then show ?case
    using 3 by (auto simp: redis_check_and_stage_def set_nx redis_finished_def get_set ttl_pos Let_def
        split: if_splits call_outcome.splits option.splits)
next
  case (4 e t k' k s)
  then show ?case
    by (auto simp: redis_check_and_stage_def set_nx redis_finished_def get_set ttl_pos redis_env_ok_def state_values Let_def
        split: if_splits call_outcome.splits option.splits)
next
  case (5 e k p s u t)
  then show ?case
    by (auto simp: redis_commit_def redis_finished_def get_set default_commit_ttl_def Let_def split: if_splits call_outcome.splits)
next
  case (6 e t k' s k p)
  then show ?case
    by (auto simp: redis_commit_def redis_finished_def get_set default_commit_ttl_def Let_def split: call_outcome.splits)
next
  case (7 e t k' k p s)
  then show ?case
    by (auto simp: redis_commit_def redis_finished_def get_set default_commit_ttl_def redis_env_ok_def redis_key_eq Let_def
        split: if_splits call_outcome.splits)
qed

context redis_server
begin

lemmas check_after_commit = redis.no_rework
  and commit_before_check = redis.committed_origin
  and staging_is_honest = redis.stage_honest
  and staging_adds_none = redis.stage_adds_none
  and committing_adds = redis.commit_adds

end

text \<open>A reference server: values with the time they expire.\<close>

definition ref_get :: "int \<Rightarrow> string \<Rightarrow> (string, string \<times> int) dict \<Rightarrow> string option" where
  "ref_get t k r = (case dict_get r k of None \<Rightarrow> None | Some (v, d) \<Rightarrow> if t < d then Some v else None)"

definition ref_set :: "int \<Rightarrow> string \<Rightarrow> string \<Rightarrow> int \<Rightarrow> (string, string \<times> int) dict \<Rightarrow> (string, string \<times> int) dict" where
  "ref_set t k v ex r = dict_set k (v, t + ex * 1000000) r"

definition ref_kv :: "(string, string \<times> int) dict kv_lib" where
  "ref_kv = \<lparr>kv_get = ref_get, kv_set = ref_set,
     kv_set_nx = (\<lambda>t k v ex r. if ref_get t k r = None then (True, ref_set t k v ex r) else (False, r)),
     kv_delete = (\<lambda>t. dict_del), kv_scan = (\<lambda>t pattern r. map fst r)\<rparr>"

lemma ref_kv_ok: "kv_ok ref_kv"
  by (auto simp: kv_ok_def ref_kv_def ref_get_def ref_set_def dict_get_set dict_get_del split: option.splits if_splits)

interpretation reference: redis_server ref_kv "\<lparr>rb_connected = True, rb_key_prefix = ''stellar_lense:dedup:''\<rparr>" 3600
  by unfold_locales (simp_all add: ref_kv_ok)

section \<open>The SQL table implements it\<close>

lemma get_row_update:
  assumes "\<And>row. dr_canonical_key (f row) = dr_canonical_key row"
  shows "get_row (update_row k f rows) k' = (if canonical k' = canonical k then map_option f (get_row rows k') else get_row rows k')"
  by (induction rows) (auto simp: get_row_def update_row_def update_where_Cons update_where_Nil assms)

lemma get_row_None: "get_row rows k = None \<longleftrightarrow> canonical k \<notin> dr_canonical_key ` set rows"
  by (force simp: get_row_def find_None_iff)

lemma get_row_snoc: "get_row (rows @ [row]) k =
    (case get_row rows k of None \<Rightarrow> if dr_canonical_key row = canonical k then Some row else None | Some r \<Rightarrow> Some r)"
  by (induction rows) (auto simp: get_row_def)

lemma row_fields: "dr_canonical_key (staged_row now k) = canonical k" "dr_state (staged_row now k) = Staged"
  "dr_canonical_key (commit_row now p row) = dr_canonical_key row" "dr_state (commit_row now p row) = Committed"
  "dr_committed_at (commit_row now p row) = Some now"
  by (simp_all add: staged_row_def commit_row_def)

lemma insert_row_absent: "get_row rows k = None \<Longrightarrow> dr_canonical_key row = canonical k \<Longrightarrow> insert_dedup_row row rows = Some (rows @ [row])"
  by (simp add: insert_dedup_row_def get_row_None)

definition row_finished :: "real \<Rightarrow> int \<Rightarrow> 'p dedup_row \<Rightarrow> bool" where
  "row_finished ttl_hours t row \<longleftrightarrow> dr_state row = Committed \<and>
     (case dr_committed_at row of None \<Rightarrow> False | Some c \<Rightarrow> hours (t - c) \<le> ttl_hours)"

definition sql_finished :: "real \<Rightarrow> int \<Rightarrow> dedup_key \<Rightarrow> 'p dedup_row list \<Rightarrow> bool" where
  "sql_finished ttl_hours t k rows \<longleftrightarrow> (case get_row rows k of None \<Rightarrow> False | Some row \<Rightarrow> row_finished ttl_hours t row)"

lemma with_retry_cases: "with_retry n locks fn s = (Inl Operational_Error, s) \<or> with_retry n locks fn s = fn s"
  by (induction n locks fn s rule: with_retry.induct) auto

lemma stage_impl_table:
  "snd (stage_impl ttl now k rows) =
    (case get_row rows k of
       None \<Rightarrow> rows @ [staged_row now k]
     | Some row \<Rightarrow> if dr_state row = Failed then update_row k (\<lambda>row. row\<lparr>dr_state := Staged, dr_staged_at := now\<rparr>) rows else rows)"
  by (simp add: stage_impl_def stage_absent_def insert_row_absent row_fields stage_present_def split: option.split)

lemma stage_impl_finished: "sql_finished ttl t k' (snd (stage_impl ttl now k rows)) = sql_finished ttl t k' rows"
proof -
  have eq: "get_row rows k' = get_row rows k" if "canonical k' = canonical k" using that by (simp add: get_row_def)
  show ?thesis
    by (auto simp: stage_impl_table sql_finished_def get_row_snoc get_row_update row_finished_def row_fields eq split: option.splits)
qed

lemma commit_impl_row:
  "get_row (snd (commit_impl now k p rows)) k' =
    (if canonical k' = canonical k
     then Some (commit_row now p (case get_row rows k of None \<Rightarrow> staged_row now k | Some row \<Rightarrow> row)) else get_row rows k')"
proof -
  have eq: "get_row rows k' = get_row rows k" if "canonical k' = canonical k" using that by (simp add: get_row_def)
  show ?thesis
    by (auto simp: commit_impl_def insert_row_absent row_fields get_row_snoc get_row_update eq split: option.splits)
qed

lemma hours_bound: "hours d \<le> ttl \<longleftrightarrow> d < \<lfloor>ttl * 3600000000\<rfloor> + 1"
proof -
  have "hours d \<le> ttl \<longleftrightarrow> real_of_int d \<le> ttl * 3600000000" by (simp add: hours_def divide_le_eq)
  then show ?thesis by (simp only: le_floor_iff [symmetric] zle_add1_eq_le)
qed

interpretation sql: dedup_backend "sql_check_and_stage ttl" sql_commit sv_at sv_at "\<lambda>_. True" "sql_finished ttl" "\<lfloor>ttl * 3600000000\<rfloor> + 1"
  for ttl :: real
proof (unfold_locales, goal_cases)
  case (1 e k s d)
  then show ?case
    using with_retry_cases [of 0 "sv_locked e" "stage_impl ttl (sv_at e) k" s]
    by (auto simp: sql_check_and_stage_def stage_impl_def stage_present_def sql_finished_def row_finished_def
        split: option.splits if_splits)
next
  case (2 e k s d)
  then show ?case
    using with_retry_cases [of 0 "sv_locked e" "stage_impl ttl (sv_at e) k" s]
    by (auto simp: sql_check_and_stage_def stage_impl_def stage_present_def stage_absent_def insert_row_absent row_fields decided_def
        sql_finished_def row_finished_def not_less split: option.splits if_splits)
next
  case (3 e t k' s k)
  then show ?case
    using with_retry_cases [of 0 "sv_locked e" "stage_impl ttl (sv_at e) k" s] stage_impl_finished [of ttl t k' "sv_at e" k s]
    by (auto simp: sql_check_and_stage_def)
next
  case (4 e t k' k s)
  then show ?case
    using with_retry_cases [of 0 "sv_locked e" "stage_impl ttl (sv_at e) k" s] stage_impl_finished [of ttl t k' "sv_at e" k s]
    by (auto simp: sql_check_and_stage_def)
next
  case (5 e k p s u t)
  then show ?case
    using with_retry_cases [of 0 "sv_locked e" "commit_impl (sv_at e) k p" s]
    by (auto simp: sql_commit_def sql_finished_def commit_impl_row row_finished_def row_fields hours_bound)
next
  case (6 e t k' s k p)
  then show ?case
    using with_retry_cases [of 0 "sv_locked e" "commit_impl (sv_at e) k p" s]
    by (auto simp: sql_commit_def sql_finished_def commit_impl_row row_finished_def row_fields hours_bound)
next
  case (7 e t k' k p s)
  then show ?case
    using with_retry_cases [of 0 "sv_locked e" "commit_impl (sv_at e) k p" s]
    by (auto simp: sql_commit_def sql_finished_def commit_impl_row)
qed

section \<open>Exactly-once verdicts\<close>

definition store_op :: "'r kv_lib \<Rightarrow> exactly_once_store \<Rightarrow> (redis_env, unit) dedup_op \<Rightarrow> 'r \<Rightarrow> 'r" where
  "store_op lib st = run_store_op (store_check_and_stage lib st) (\<lambda>e k p. store_commit lib st e k)"

lemma store_server:
  assumes "kv_ok lib" "1 \<le> eo_ttl_seconds st"
  shows "redis_server lib (eo_ttl_seconds st)"
  using assms by unfold_locales

lemma store_ops: "store_op lib st = run_store_op (\<lambda>e k r. redis_check_and_stage lib (eo_backend st) e k (eo_ttl_seconds st) r)
    (\<lambda>e k p r. redis_commit lib (eo_backend st) e k default_commit_ttl r)"
  by (simp add: store_op_def store_check_and_stage_def [abs_def] store_commit_def [abs_def])

text \<open>
  C10: A key is worked on again after it was committed only when the commit has expired. Once a commit was answered,
  every later check of the same key within a day reports it as committed or fails, whatever other keys are staged and
  committed in between, with answers lost or not. Conversely a check only reports a key as committed if
  somebody asked to commit that key or it was committed before.
\<close>

theorem committed_key_is_skipped:
  assumes "kv_ok lib" "1 \<le> eo_ttl_seconds st" "redis_env_ok e"
    and "\<forall>a\<in>set as. redis_env_ok (op_env a) \<and> rv_set_at c \<le> rv_set_at (op_env a) \<and> rv_get_at (op_env a) \<le> rv_set_at e"
  shows "(redis_env_ok c \<and> fst (store_commit lib st c k r) = Inr () \<and> rv_set_at c \<le> rv_set_at e \<and>
      rv_get_at e < rv_set_at c + 86400 * 1000000 \<and>
      fst (store_check_and_stage lib st e k (fold (store_op lib st) as (snd (store_commit lib st c k r)))) = Inr d
      \<longrightarrow> dd_state (d :: unit decision) = Committed) \<and>
    (fst (store_check_and_stage lib st e k (fold (store_op lib st) as r)) = Inr d \<and> dd_state d = Committed
      \<longrightarrow> redis_finished lib (eo_backend st) (rv_set_at e) k r \<or> (\<exists>a\<in>set as. commits k a))"
proof (intro conjI impI)
  note server = store_server [OF assms(1,2)]
  assume a: "redis_env_ok c \<and> fst (store_commit lib st c k r) = Inr () \<and> rv_set_at c \<le> rv_set_at e \<and>
      rv_get_at e < rv_set_at c + 86400 * 1000000 \<and>
      fst (store_check_and_stage lib st e k (fold (store_op lib st) as (snd (store_commit lib st c k r)))) = Inr d"
  have order: "rv_set_at e \<le> rv_get_at e" using assms(3) by (simp add: redis_env_ok_def)
  show "dd_state d = Committed"
  proof (rule redis_server.check_after_commit [OF server, where b = "eo_backend st" and e = c and k = k and s = r and e' = e and as = as and u = "()"])
    show "\<forall>a\<in>set as. redis_env_ok (op_env a) \<and> rv_set_at c \<le> rv_set_at (op_env a) \<and> rv_set_at (op_env a) \<le> rv_get_at e"
      using assms(4) order by (auto simp: redis_env_ok_def)
  qed (use a assms(3) order in \<open>simp_all add: store_ops store_commit_def store_check_and_stage_def\<close>)
next
  note server = store_server [OF assms(1,2)]
  assume a: "fst (store_check_and_stage lib st e k (fold (store_op lib st) as r)) = Inr d \<and> dd_state d = Committed"
  show "redis_finished lib (eo_backend st) (rv_set_at e) k r \<or> (\<exists>a\<in>set as. commits k a)"
  proof (rule disjCI)
    assume no: "\<not> (\<exists>a\<in>set as. commits k a)"
    show "redis_finished lib (eo_backend st) (rv_set_at e) k r"
      using redis_server.commit_before_check [OF server assms(3), where b = "eo_backend st" and as = as and k = k and s = r and d = d] assms(4) a no
      by (auto simp: store_ops store_check_and_stage_def)
  qed
qed

definition sample_store :: exactly_once_store where
  "sample_store = \<lparr>eo_backend = \<lparr>rb_connected = True, rb_key_prefix = ''p:''\<rparr>, eo_ttl_seconds = 3600\<rparr>"

definition sample_key :: dedup_key where
  "sample_key = \<lparr>dk_source = ''kafka_trade'', dk_external_id = ''7:t1'', dk_tenant_id = None\<rparr>"

definition answered_at :: "int \<Rightarrow> redis_env" where
  "answered_at t = \<lparr>rv_set_at = t, rv_set = Answered, rv_get_at = t, rv_get = Answered\<rparr>"

theorem committed_key_is_skipped_witness:
  "fst (store_check_and_stage ref_kv sample_store (answered_at 10) sample_key
      (snd (store_commit ref_kv sample_store (answered_at 5) sample_key []))) = Inr (decided Committed :: unit decision) \<and>
   dd_state (decided Committed :: unit decision) = Committed"
proof -
  let ?v = "fst (store_check_and_stage ref_kv sample_store (answered_at 10) sample_key
      (snd (store_commit ref_kv sample_store (answered_at 5) sample_key []))) :: store_error + unit decision"
  have v: "?v = Inr (decided Committed)"
    by (simp add: store_check_and_stage_def store_commit_def redis_check_and_stage_def redis_commit_def sample_store_def answered_at_def
        ref_kv_def ref_get_def ref_set_def default_commit_ttl_def dict_get_set redis_key_def state_values)
  have "dd_state (decided Committed :: unit decision) = Committed"
    using committed_key_is_skipped [of ref_kv sample_store "answered_at 10" "[]" "answered_at 5" sample_key "[]" "decided Committed"] v
    by (simp add: ref_kv_ok redis_env_ok_def answered_at_def sample_store_def store_commit_def redis_commit_def)
  with v show ?thesis by blast
qed

text \<open>The same two facts for the SQL backend and the lifetime \<open>ttl\<close> in hours.\<close>

lemma sql_committed_key_is_skipped:
  assumes "fst (sql_commit c k p rows) = Inr ()" "sv_at c \<le> sv_at e" "hours (sv_at e - sv_at c) \<le> ttl"
    and "\<forall>a\<in>set as. sv_at c \<le> sv_at (op_env a) \<and> sv_at (op_env a) \<le> sv_at e"
    and "fst (sql_check_and_stage ttl e k (fold (run_store_op (sql_check_and_stage ttl) sql_commit) as (snd (sql_commit c k p rows)))) = Inr d"
  shows "dd_state d = Committed"
  by (rule sql.no_rework [where e = c and e' = e and as = as]) (use assms in \<open>auto simp: hours_bound\<close>)

lemma sql_commit_origin:
  assumes "fst (sql_check_and_stage ttl e k (fold (run_store_op (sql_check_and_stage ttl) sql_commit) as [])) = Inr d" "dd_state d = Committed"
    and "\<forall>a\<in>set as. sv_at (op_env a) \<le> sv_at e"
  shows "\<exists>a\<in>set as. commits k a"
  by (rule sql.committed_origin [where e = e and s = "[]" and d = d and ttl = ttl])
    (use assms in \<open>auto simp: sql_finished_def get_row_def\<close>)

section \<open>Races\<close>

text \<open>
  Workers that have read the table of the SQL backend and found no row for a key: their inserts, and commits of the
  key by whoever won, in the order in which the database executes them. The list of verdicts is that of the inserts.
\<close>

datatype 'p race_step = Insert_Staged instant | Commit_Row instant "'p option"

fun race :: "dedup_key \<Rightarrow> 'p race_step list \<Rightarrow> 'p dedup_row list \<Rightarrow> (store_error + 'p decision) list" where
  "race k [] rows = []"
| "race k (Insert_Staged now # steps) rows = (case stage_absent now k rows of (v, rows') \<Rightarrow> v # race k steps rows')"
| "race k (Commit_Row now p # steps) rows = race k steps (snd (commit_impl now k p rows))"

lemma race_lost:
  "get_row rows k \<noteq> None \<Longrightarrow> v \<in> set (race k steps rows) \<Longrightarrow> \<exists>d. v = Inr d \<and> (dd_state d = Staged \<or> dd_state d = Committed)"
proof (induction k steps rows rule: race.induct)
  case (2 k now steps rows)
  then obtain row where row: "get_row rows k = Some row" by auto
  then have "insert_dedup_row (staged_row now k) rows = None"
    using get_row_None [of rows k] by (simp add: insert_dedup_row_def row_fields)
  then show ?case using 2 row by (auto simp: stage_absent_def decided_def split: if_splits)
next
  case (3 k now p steps rows)
  then show ?case by (simp add: commit_impl_row)
qed simp

text \<open>
  C25: When workers race to stage the same new key, one of them wins. If the first step the database executes is an
  insert, that worker is told the key is new, and every other worker, however its insert interleaves with
  the commits of the key, is told that it is staged or committed.
\<close>

theorem concurrent_staging_single_winner:
  assumes "get_row rows k = None"
  shows "\<exists>vs. race k (Insert_Staged now # steps) rows = Inr (decided New) # vs \<and>
    list_all (\<lambda>v. \<exists>d. v = Inr d \<and> dd_state d \<in> {Staged, Committed}) vs"
proof (intro exI conjI)
  let ?rows = "rows @ [staged_row now k]"
  show "race k (Insert_Staged now # steps) rows = Inr (decided New) # race k steps ?rows"
    using assms by (simp add: stage_absent_def insert_row_absent row_fields)
  have "get_row ?rows k \<noteq> None" using assms by (simp add: get_row_snoc row_fields)
  then show "list_all (\<lambda>v. \<exists>d. v = Inr d \<and> dd_state d \<in> {Staged, Committed}) (race k steps ?rows)"
    using race_lost [of ?rows k _ steps] by (auto simp: list_all_iff)
qed

theorem concurrent_staging_single_winner_witness:
  "\<exists>vs. race sample_key (Insert_Staged 1 # [Insert_Staged 2, Commit_Row 3 (Some ()), Insert_Staged 4]) [] = Inr (decided New) # vs \<and>
    list_all (\<lambda>v. \<exists>d. v = Inr d \<and> dd_state d \<in> {Staged, Committed}) vs"
  by (rule concurrent_staging_single_winner) (simp add: get_row_def)

text \<open>
  The cache of seen events passes an event twice when the second check runs between the first one's staging and its
  commit: the second check finds the key staged and takes that for a first delivery.
\<close>

lemma overlapping_checks_both_pass:
  "\<exists>d r1. store_check_and_stage ref_kv sample_store (answered_at 1) sample_key [] = (Inr (d :: unit decision), r1) \<and>
     dd_state d \<noteq> Committed \<and>
     fst (trade_is_duplicate ref_kv sample_store (answered_at 2) (answered_at 3) sample_key r1) = Inr False"
  by (simp add: trade_is_duplicate_def store_check_and_stage_def store_commit_def redis_check_and_stage_def redis_commit_def sample_store_def
      answered_at_def ref_kv_def ref_get_def ref_set_def dict_get_set redis_key_def state_values decided_def)

text \<open>A failure report also removes a committed mark.\<close>

lemma failure_report_reopens_committed:
  assumes "get_row rows k \<noteq> None" "\<not> (\<exists>l\<in>set (sv_locked e). l)"
  shows "fst (sql_check_and_stage ttl e k (snd (sql_mark_failed e k (snd (sql_commit e k p rows))))) = Inr (decided New)"
proof -
  have quiet: "with_retry n locks fn s = fn s" if "\<not> (\<exists>l\<in>set locks. l)" for n locks and fn :: "'b \<Rightarrow> (store_error + 'c) \<times> 'b" and s
    using that by (induction n locks fn s rule: with_retry.induct) auto
  show ?thesis
    using assms by (auto simp: sql_check_and_stage_def sql_mark_failed_def sql_commit_def quiet stage_impl_def get_row_update
        commit_impl_row stage_present_def)
qed

end
