(* ===== verification/Alert_Dispatch.thy ===== *)
theory Alert_Dispatch
  imports Exactly_Once
begin

text \<open>
  Alerts of the streaming pipeline: the dispatcher (\<open>data/pipelines/streaming/alert_dispatcher.py\<close>) with its threshold, cooldown
  per wallet and three channels, and the ledger of outcomes (\<open>data/pipelines/streaming/alert_ledger.py\<close>) on the SQL
  backend of \<open>Exactly_Once\<close>. The answers of the webhook, whether the socket takes a message and whether
  the dead-letter file can be written are arguments; what was handed to the channel is recorded in the model. Delays between
  attempts, printing and log records are left out. The threshold controller is a parameter.
\<close>

section \<open>The ledger\<close>

datatype alert_outcome = Delivered | Dead_Lettered | Suppressed_Cooldown

record alert_record =
  al_wallet :: string
  al_pair_id :: string
  al_score :: "real option"
  al_outcome :: alert_outcome
  al_channel :: string
  al_reason :: "string option"

type_synonym ledger_table = "alert_record dedup_row list"

text \<open>\<open>show_score\<close> is how Python prints the score, \<open>time_ns\<close> the reading of the clock in nanoseconds as text.\<close>

record ledger_env =
  le_sql :: sql_env
  le_time_ns :: string
  le_show_score :: "real \<Rightarrow> string"

definition ledger_key :: "ledger_env \<Rightarrow> string \<Rightarrow> string \<Rightarrow> real \<Rightarrow> dedup_key" where
  "ledger_key env wallet pair_id score =
     \<lparr>dk_source = ''alert_delivery'',
      dk_external_id = wallet @ '':'' @ pair_id @ '':'' @ le_show_score env score @ '':'' @ le_time_ns env,
      dk_tenant_id = None\<rparr>"

definition ledger_record ::
  "ledger_env \<Rightarrow> string \<Rightarrow> string \<Rightarrow> real \<Rightarrow> alert_outcome \<Rightarrow> string \<Rightarrow> string option \<Rightarrow> ledger_table \<Rightarrow> (store_error + unit) \<times> ledger_table" where
  "ledger_record env wallet pair_id score outcome channel reason rows =
     sql_commit (le_sql env) (ledger_key env wallet pair_id score)
       (Some \<lparr>al_wallet = wallet, al_pair_id = pair_id, al_score = Some score, al_outcome = outcome, al_channel = channel, al_reason = reason\<rparr>)
       rows"

definition for_wallet_pair :: "sql_env \<Rightarrow> string \<Rightarrow> string \<Rightarrow> ledger_table \<Rightarrow> store_error + alert_record list" where
  "for_wallet_pair env wallet pair_id rows =
     (case fst (list_by_source_prefix env ''alert_delivery'' rows) of
        Inl e \<Rightarrow> Inl e
      | Inr found \<Rightarrow> Inr (filter (\<lambda>a. al_wallet a = wallet \<and> al_pair_id a = pair_id) (List.map_filter dr_payload found)))"

text \<open>A row without payload is listed with empty fields; here it is \<open>None\<close>.\<close>

definition all_records :: "sql_env \<Rightarrow> ledger_table \<Rightarrow> store_error + alert_record option list" where
  "all_records env rows =
     (case fst (list_by_source_prefix env ''alert_delivery'' rows) of Inl e \<Rightarrow> Inl e | Inr found \<Rightarrow> Inr (map dr_payload found))"

section \<open>The dispatcher\<close>

datatype channel = Stdout | Webhook | Websocket

definition channel_name :: "channel \<Rightarrow> string" where
  "channel_name c = (case c of Stdout \<Rightarrow> ''stdout'' | Webhook \<Rightarrow> ''webhook'' | Websocket \<Rightarrow> ''websocket'')"

record dispatcher =
  ds_channel :: channel
  ds_webhook_url :: "string option"
  ds_cooldown_seconds :: real
  ds_threshold :: real
  ds_controller :: "(string \<Rightarrow> real) option"
  ds_max_retries :: nat
  ds_ledger :: bool
  ds_cooldowns :: "(string, real) dict"

datatype dispatcher_error = Unknown_Channel | Url_Required | Url_Not_Https

definition new_dispatcher ::
  "string \<Rightarrow> string option \<Rightarrow> string option \<Rightarrow> real \<Rightarrow> real option \<Rightarrow> real \<Rightarrow> (string \<Rightarrow> real) option \<Rightarrow> nat \<Rightarrow> bool
    \<Rightarrow> dispatcher_error + dispatcher" where
  "new_dispatcher channel webhook_url env_url cooldown threshold config_threshold controller max_retries ledger =
     (let url = (case webhook_url of Some u \<Rightarrow> Some u | None \<Rightarrow> env_url);
          d = (\<lambda>c. \<lparr>ds_channel = c, ds_webhook_url = url, ds_cooldown_seconds = cooldown,
                ds_threshold = (case threshold of Some t \<Rightarrow> t | None \<Rightarrow> config_threshold), ds_controller = controller,
                ds_max_retries = max_retries, ds_ledger = ledger, ds_cooldowns = []\<rparr>)
      in if channel = ''stdout'' then Inr (d Stdout)
         else if channel = ''websocket'' then Inr (d Websocket)
         else if channel = ''webhook'' then
           (case url of
              None \<Rightarrow> Inl Url_Required
            | Some u \<Rightarrow> if u = [] then Inl Url_Required
                        else if take 8 u \<noteq> ''https://'' then Inl Url_Not_Https else Inr (d Webhook))
         else Inl Unknown_Channel)"

definition get_threshold :: "dispatcher \<Rightarrow> string \<Rightarrow> real" where
  "get_threshold d asset = (case ds_controller d of Some f \<Rightarrow> f asset | None \<Rightarrow> ds_threshold d)"

text \<open>
  The outside world of the dispatcher: the table of the ledger, the alerts the channel accepted, and the lines of the
  dead-letter file.
\<close>

record alert = av_wallet :: string av_pair_id :: string av_score :: real

record alert_world =
  aw_rows :: ledger_table
  aw_sent :: "alert list"
  aw_dead :: "alert list"

datatype webhook_post = Post_Ok | Http_Error int | Request_Failed

record dispatch_env =
  de_now :: real
  de_posts :: "nat \<Rightarrow> webhook_post"
  de_socket_ok :: bool
  de_file_ok :: bool
  de_show :: "int \<Rightarrow> string"
  de_reason :: string
  de_ledger :: ledger_env

datatype dispatch_error = Ledger_Error store_error | Socket_Error

text \<open>The record of an outcome, when there is a ledger; an error of the database is raised.\<close>

definition log_outcome ::
  "dispatcher \<Rightarrow> dispatch_env \<Rightarrow> alert \<Rightarrow> alert_outcome \<Rightarrow> string option \<Rightarrow> alert_world \<Rightarrow> (dispatch_error + unit) \<times> alert_world" where
  "log_outcome d env a outcome reason w =
     (if \<not> ds_ledger d then (Inr (), w)
      else case ledger_record (de_ledger env) (av_wallet a) (av_pair_id a) (av_score a) outcome (channel_name (ds_channel d)) reason (aw_rows w) of
        (Inl e, rows) \<Rightarrow> (Inl (Ledger_Error e), w\<lparr>aw_rows := rows\<rparr>)
      | (Inr _, rows) \<Rightarrow> (Inr (), w\<lparr>aw_rows := rows\<rparr>))"

definition write_to_dead_letter ::
  "dispatcher \<Rightarrow> dispatch_env \<Rightarrow> alert \<Rightarrow> string \<Rightarrow> alert_world \<Rightarrow> (dispatch_error + unit) \<times> alert_world" where
  "write_to_dead_letter d env a reason w =
     log_outcome d env a Dead_Lettered (Some reason) (if de_file_ok env then w\<lparr>aw_dead := aw_dead w @ [a]\<rparr> else w)"

datatype webhook_result = Accepted | Client_Error int | Exhausted

text \<open>The loop over the attempts: \<open>left\<close> attempts follow the present one.\<close>

fun webhook_attempts :: "(nat \<Rightarrow> webhook_post) \<Rightarrow> nat \<Rightarrow> nat \<Rightarrow> webhook_result" where
  "webhook_attempts posts attempt left =
     (case posts attempt of
        Post_Ok \<Rightarrow> Accepted
      | outcome \<Rightarrow>
          (case outcome of
             Http_Error code \<Rightarrow>
               if 400 \<le> code \<and> code < 500 then Client_Error code
               else (case left of 0 \<Rightarrow> Exhausted | Suc n \<Rightarrow> webhook_attempts posts (attempt + 1) n)
           | _ \<Rightarrow> (case left of 0 \<Rightarrow> Exhausted | Suc n \<Rightarrow> webhook_attempts posts (attempt + 1) n)))"

declare webhook_attempts.simps [simp del]

definition deliver_webhook :: "dispatcher \<Rightarrow> dispatch_env \<Rightarrow> alert \<Rightarrow> alert_world \<Rightarrow> (dispatch_error + unit) \<times> alert_world" where
  "deliver_webhook d env a w =
     (case webhook_attempts (de_posts env) 0 (ds_max_retries d) of
        Accepted \<Rightarrow> log_outcome d env a Delivered None (w\<lparr>aw_sent := aw_sent w @ [a]\<rparr>)
      | Client_Error code \<Rightarrow> write_to_dead_letter d env a (''HTTP '' @ de_show env code @ '' client error'') w
      | Exhausted \<Rightarrow> write_to_dead_letter d env a (''exhausted '' @ de_show env (int (ds_max_retries d)) @ '' retries'') w)"

definition deliver_stdout :: "dispatcher \<Rightarrow> dispatch_env \<Rightarrow> alert \<Rightarrow> alert_world \<Rightarrow> (dispatch_error + unit) \<times> alert_world" where
  "deliver_stdout d env a w = log_outcome d env a Delivered None (w\<lparr>aw_sent := aw_sent w @ [a]\<rparr>)"

definition deliver_websocket :: "dispatcher \<Rightarrow> dispatch_env \<Rightarrow> alert \<Rightarrow> alert_world \<Rightarrow> (dispatch_error + unit) \<times> alert_world" where
  "deliver_websocket d env a w =
     (if de_socket_ok env then log_outcome d env a Delivered None (w\<lparr>aw_sent := aw_sent w @ [a]\<rparr>) else (Inl Socket_Error, w))"

definition deliver_alert :: "dispatcher \<Rightarrow> dispatch_env \<Rightarrow> alert \<Rightarrow> alert_world \<Rightarrow> (dispatch_error + unit) \<times> alert_world" where
  "deliver_alert d env a w =
     (case ds_channel d of
        Stdout \<Rightarrow> deliver_stdout d env a w
      | Webhook \<Rightarrow> deliver_webhook d env a w
      | Websocket \<Rightarrow> deliver_websocket d env a w)"

definition cooling :: "dispatcher \<Rightarrow> real \<Rightarrow> string \<Rightarrow> bool" where
  "cooling d now wallet \<longleftrightarrow> (case dict_get (ds_cooldowns d) wallet of None \<Rightarrow> False | Some c \<Rightarrow> now < c)"

definition alert_dispatch ::
  "dispatch_env \<Rightarrow> alert \<Rightarrow> dispatcher \<Rightarrow> alert_world \<Rightarrow> (dispatch_error + unit) \<times> dispatcher \<times> alert_world" where
  "alert_dispatch env a d w =
     (if av_score a < get_threshold d (av_pair_id a) then (Inr (), d, w)
      else if cooling d (de_now env) (av_wallet a)
      then (let (res, w') = log_outcome d env a Suppressed_Cooldown (Some (''cooldown active until '' @ de_reason env)) w in (res, d, w'))
      else let d' = d\<lparr>ds_cooldowns := dict_set (av_wallet a) (de_now env + ds_cooldown_seconds d) (ds_cooldowns d)\<rparr>;
               (res, w') = deliver_alert d' env a w
           in (res, d', w'))"

section \<open>Every alert is accounted for\<close>

lemma ledger_record_rows:
  assumes "fst (ledger_record env wallet pair_id score outcome ch reason rows) = Inr u" "get_row rows (ledger_key env wallet pair_id score) = None"
  shows "\<exists>row. snd (ledger_record env wallet pair_id score outcome ch reason rows) = rows @ [row] \<and> dr_source row = ''alert_delivery'' \<and>
    dr_payload row = Some \<lparr>al_wallet = wallet, al_pair_id = pair_id, al_score = Some score, al_outcome = outcome, al_channel = ch, al_reason = reason\<rparr>"
proof -
  let ?k = "ledger_key env wallet pair_id score"
  let ?p = "Some \<lparr>al_wallet = wallet, al_pair_id = pair_id, al_score = Some score, al_outcome = outcome, al_channel = ch, al_reason = reason\<rparr>"
  have "sql_commit (le_sql env) ?k ?p rows = commit_impl (sv_at (le_sql env)) ?k ?p rows"
    using with_retry_cases [of 0 "sv_locked (le_sql env)" "commit_impl (sv_at (le_sql env)) ?k ?p" rows] assms(1)
    by (auto simp: ledger_record_def sql_commit_def)
  then show ?thesis
    using assms(2) by (simp add: ledger_record_def commit_impl_def insert_row_absent row_fields)
      (simp add: commit_row_def staged_row_def ledger_key_def)
qed

lemma log_outcome_rows:
  assumes "log_outcome d env a outcome reason w = (Inr (), w')" "ds_ledger d"
    and "get_row (aw_rows w) (ledger_key (de_ledger env) (av_wallet a) (av_pair_id a) (av_score a)) = None"
  shows "\<exists>row p. aw_rows w' = aw_rows w @ [row] \<and> dr_payload row = Some p \<and> al_wallet p = av_wallet a \<and> al_pair_id p = av_pair_id a \<and>
    al_score p = Some (av_score a) \<and> al_outcome p = outcome \<and> aw_sent w' = aw_sent w \<and> aw_dead w' = aw_dead w"
proof -
  let ?l = "ledger_record (de_ledger env) (av_wallet a) (av_pair_id a) (av_score a) outcome (channel_name (ds_channel d)) reason (aw_rows w)"
  from assms(1,2) have ok: "fst ?l = Inr ()" "w' = w\<lparr>aw_rows := snd ?l\<rparr>"
    by (auto simp: log_outcome_def split: prod.splits sum.splits)
  from ledger_record_rows [OF ok(1) assms(3)] show ?thesis by (auto simp: ok(2))
qed

lemma deliver_rows:
  assumes "deliver_alert d env a w = (Inr (), w')" "ds_ledger d"
    and "get_row (aw_rows w) (ledger_key (de_ledger env) (av_wallet a) (av_pair_id a) (av_score a)) = None"
  shows "\<exists>row p. aw_rows w' = aw_rows w @ [row] \<and> dr_payload row = Some p \<and> al_wallet p = av_wallet a \<and> al_pair_id p = av_pair_id a \<and>
    al_score p = Some (av_score a) \<and>
    (al_outcome p = Delivered \<and> aw_sent w' = aw_sent w @ [a] \<and> aw_dead w' = aw_dead w \<or>
     al_outcome p = Dead_Lettered \<and> ds_channel d = Webhook \<and> aw_sent w' = aw_sent w \<and>
       aw_dead w' = (if de_file_ok env then aw_dead w @ [a] else aw_dead w))"
proof -
  from assms(1) consider
      (sent) "log_outcome d env a Delivered None (w\<lparr>aw_sent := aw_sent w @ [a]\<rparr>) = (Inr (), w')"
    | (dead) reason where "ds_channel d = Webhook" "write_to_dead_letter d env a reason w = (Inr (), w')"
    by (auto simp: deliver_alert_def deliver_stdout_def deliver_webhook_def deliver_websocket_def
        split: channel.splits webhook_result.splits if_splits)
  then show ?thesis
  proof cases
    case sent
    from log_outcome_rows [OF this assms(2)] assms(3) show ?thesis by fastforce
  next
    case (dead reason)
    from log_outcome_rows [OF dead(2) [unfolded write_to_dead_letter_def] assms(2)] assms(3) dead(1) show ?thesis by fastforce
  qed
qed

text \<open>
  C26: The ledger accounts for every alert. A dispatch with a ledger that returns leaves everything as it was when the
  score is below the threshold; otherwise it adds exactly one record, with the wallet, the pair and the score, whose outcome
  is what happened: suppressed while the wallet is cooling down, delivered when the channel took the alert, and
  dead-lettered when the webhook did not.
\<close>

theorem dispatch_accounted:
  assumes "alert_dispatch env a d w = (Inr (), d', w')" "ds_ledger d"
    and "get_row (aw_rows w) (ledger_key (de_ledger env) (av_wallet a) (av_pair_id a) (av_score a)) = None"
  shows "if av_score a < get_threshold d (av_pair_id a) then d' = d \<and> w' = w
    else \<exists>row p. aw_rows w' = aw_rows w @ [row] \<and> dr_payload row = Some p \<and>
      al_wallet p = av_wallet a \<and> al_pair_id p = av_pair_id a \<and> al_score p = Some (av_score a) \<and>
      (case al_outcome p of
         Suppressed_Cooldown \<Rightarrow> cooling d (de_now env) (av_wallet a) \<and> d' = d \<and> aw_sent w' = aw_sent w \<and> aw_dead w' = aw_dead w
       | Delivered \<Rightarrow> \<not> cooling d (de_now env) (av_wallet a) \<and> aw_sent w' = aw_sent w @ [a] \<and> aw_dead w' = aw_dead w
       | Dead_Lettered \<Rightarrow> \<not> cooling d (de_now env) (av_wallet a) \<and> ds_channel d = Webhook \<and> aw_sent w' = aw_sent w \<and>
           aw_dead w' = (if de_file_ok env then aw_dead w @ [a] else aw_dead w))"
proof (cases "av_score a < get_threshold d (av_pair_id a)")
  case True
  then show ?thesis using assms(1) by (simp add: alert_dispatch_def)
next
  case False
  show ?thesis
  proof (cases "cooling d (de_now env) (av_wallet a)")
    case True
    then have "\<exists>reason. log_outcome d env a Suppressed_Cooldown reason w = (Inr (), w')" "d' = d"
      using assms(1) False by (auto simp: alert_dispatch_def split: prod.splits)
    then show ?thesis using log_outcome_rows [OF _ assms(2,3)] True False by fastforce
  next
    case cool: False
    obtain d1 where d1: "deliver_alert d1 env a w = (Inr (), w')" "ds_ledger d1" "ds_channel d1 = ds_channel d"
      using assms(1,2) False cool by (auto simp: alert_dispatch_def Let_def split: prod.splits)
    from deliver_rows [OF d1(1,2) assms(3)] show ?thesis using cool False d1(3) by fastforce
  qed
qed

definition sample_dispatcher :: "channel \<Rightarrow> dispatcher" where
  "sample_dispatcher c = \<lparr>ds_channel = c, ds_webhook_url = Some ''https://a'', ds_cooldown_seconds = 3600, ds_threshold = 70, ds_controller = None,
     ds_max_retries = 1, ds_ledger = True, ds_cooldowns = []\<rparr>"

definition sample_dispatch :: "real \<Rightarrow> bool \<Rightarrow> dispatch_env" where
  "sample_dispatch now ok = \<lparr>de_now = now, de_posts = (\<lambda>_. Http_Error 503), de_socket_ok = ok, de_file_ok = ok, de_show = (\<lambda>_. ''1''),
     de_reason = ''t'', de_ledger = \<lparr>le_sql = \<lparr>sv_at = 1, sv_locked = []\<rparr>, le_time_ns = ''9'', le_show_score = (\<lambda>_. ''90'')\<rparr>\<rparr>"

definition sample_alert :: alert where
  "sample_alert = \<lparr>av_wallet = ''A'', av_pair_id = ''XLM/USDC'', av_score = 90\<rparr>"

definition empty_world :: alert_world where
  "empty_world = \<lparr>aw_rows = [], aw_sent = [], aw_dead = []\<rparr>"

lemma exhausted_dispatch:
  "\<exists>d' w'. alert_dispatch (sample_dispatch 0 ok) sample_alert (sample_dispatcher Webhook) empty_world = (Inr (), d', w') \<and>
     aw_dead w' = (if ok then [sample_alert] else []) \<and> aw_sent w' = []"
  by (simp add: alert_dispatch_def sample_dispatch_def sample_alert_def sample_dispatcher_def get_threshold_def cooling_def deliver_alert_def
      deliver_webhook_def webhook_attempts.simps write_to_dead_letter_def log_outcome_def ledger_record_def sql_commit_def commit_impl_def
      get_row_def insert_dedup_row_def empty_world_def)

theorem dispatch_accounted_witness:
  "\<exists>d' w' row p. alert_dispatch (sample_dispatch 0 True) sample_alert (sample_dispatcher Webhook) empty_world = (Inr (), d', w') \<and>
     aw_rows w' = [row] \<and> dr_payload row = Some p \<and> al_wallet p = ''A''"
proof -
  obtain d' w' where dw: "alert_dispatch (sample_dispatch 0 True) sample_alert (sample_dispatcher Webhook) empty_world = (Inr (), d', w')"
    using exhausted_dispatch by blast
  have "ds_ledger (sample_dispatcher Webhook)" "aw_rows empty_world = []" "\<not> av_score sample_alert < get_threshold (sample_dispatcher Webhook) x"
    "av_wallet sample_alert = ''A''" for x
    by (simp_all add: sample_dispatcher_def empty_world_def get_threshold_def sample_alert_def)
  with dispatch_accounted [OF dw] dw show ?thesis by (auto simp: get_row_def)
qed

text \<open>A dead letter is recorded as such even when the file could not be written: the alert is then nowhere.\<close>

lemma unwritten_dead_letter_is_recorded:
  "\<exists>d' w' row p. alert_dispatch (sample_dispatch 0 False) sample_alert (sample_dispatcher Webhook) empty_world = (Inr (), d', w') \<and>
     aw_rows w' = [row] \<and> dr_payload row = Some p \<and> al_outcome p = Dead_Lettered \<and> aw_dead w' = [] \<and> aw_sent w' = []"
  by (simp add: alert_dispatch_def sample_dispatch_def sample_alert_def sample_dispatcher_def get_threshold_def cooling_def deliver_alert_def
      deliver_webhook_def webhook_attempts.simps write_to_dead_letter_def log_outcome_def ledger_record_def sql_commit_def commit_impl_def
      get_row_def insert_dedup_row_def empty_world_def commit_row_def staged_row_def)

section \<open>Attempts at the webhook\<close>

definition retried_post :: "webhook_post \<Rightarrow> bool" where
  "retried_post r \<longleftrightarrow> (case r of Post_Ok \<Rightarrow> False | Http_Error code \<Rightarrow> \<not> (400 \<le> code \<and> code < 500) | Request_Failed \<Rightarrow> True)"

lemma webhook_attempt_step:
  "webhook_attempts posts attempt left =
    (if retried_post (posts attempt) then (case left of 0 \<Rightarrow> Exhausted | Suc n \<Rightarrow> webhook_attempts posts (Suc attempt) n)
     else case posts attempt of Http_Error code \<Rightarrow> Client_Error code | _ \<Rightarrow> Accepted)"
  by (subst webhook_attempts.simps) (simp add: retried_post_def split: webhook_post.split nat.split)

text \<open>The loop stops at the first answer that is not retried, and gives up after \<open>left + 1\<close> attempts.\<close>

lemma webhook_exhausted: "webhook_attempts posts attempt left = Exhausted \<longleftrightarrow> (\<forall>i\<le>left. retried_post (posts (attempt + i)))"
proof (induction left arbitrary: attempt)
  case 0
  show ?case by (subst webhook_attempt_step) (simp split: webhook_post.split)
next
  case (Suc n)
  have all: "(\<forall>i\<le>Suc n. P (attempt + i)) \<longleftrightarrow> P attempt \<and> (\<forall>i\<le>n. P (Suc attempt + i))" for P
    by (metis Suc_le_mono add_0_right add_Suc add_Suc_right le0 not0_implies_Suc)
  have "webhook_attempts posts attempt (Suc n) = Exhausted \<longleftrightarrow> retried_post (posts attempt) \<and> webhook_attempts posts (Suc attempt) n = Exhausted"
    by (subst webhook_attempt_step) (simp split: webhook_post.split)
  then show ?case unfolding all [of "\<lambda>i. retried_post (posts i)"] Suc .
qed

lemma webhook_accepted:
  "webhook_attempts posts attempt left = Accepted \<Longrightarrow> \<exists>i\<le>left. posts (attempt + i) = Post_Ok \<and> (\<forall>j<i. retried_post (posts (attempt + j)))"
proof (induction left arbitrary: attempt)
  case 0
  then show ?case by (subst (asm) webhook_attempt_step) (auto simp: retried_post_def split: if_splits webhook_post.splits)
next
  case (Suc n)
  show ?case
  proof (cases "retried_post (posts attempt)")
    case True
    then have "webhook_attempts posts (Suc attempt) n = Accepted" using Suc.prems by (subst (asm) webhook_attempt_step) simp
    from Suc.IH [OF this] obtain i where i: "i \<le> n" "posts (Suc attempt + i) = Post_Ok" "\<forall>j<i. retried_post (posts (Suc attempt + j))" by blast
    have "retried_post (posts (attempt + j))" if "j < Suc i" for j using that True i(3) by (cases j) auto
    then show ?thesis using i(1,2) by (intro exI [of _ "Suc i"]) simp
  next
    case False
    then show ?thesis using Suc.prems by (subst (asm) webhook_attempt_step) (auto simp: retried_post_def split: webhook_post.splits)
  qed
qed

section \<open>Cooldown\<close>

definition attempted :: "dispatch_env \<Rightarrow> alert \<Rightarrow> dispatcher \<Rightarrow> bool" where
  "attempted env a d \<longleftrightarrow> \<not> av_score a < get_threshold d (av_pair_id a) \<and> \<not> cooling d (de_now env) (av_wallet a)"

text \<open>The times at which a sequence of dispatches tries to deliver an alert for a wallet.\<close>

fun attempt_times :: "string \<Rightarrow> (dispatch_env \<times> alert) list \<Rightarrow> dispatcher \<Rightarrow> alert_world \<Rightarrow> real list" where
  "attempt_times wallet [] d w = []"
| "attempt_times wallet ((env, a) # rest) d w =
     (case alert_dispatch env a d w of (res, d', w') \<Rightarrow>
        (if attempted env a d \<and> av_wallet a = wallet then [de_now env] else []) @ attempt_times wallet rest d' w')"

lemma dispatch_cooldowns:
  assumes "alert_dispatch env a d w = (res, d', w')"
  shows "ds_cooldown_seconds d' = ds_cooldown_seconds d"
    and "ds_cooldowns d' = (if attempted env a d then dict_set (av_wallet a) (de_now env + ds_cooldown_seconds d) (ds_cooldowns d) else ds_cooldowns d)"
  using assms by (auto simp: alert_dispatch_def attempted_def Let_def split: if_splits prod.splits)

text \<open>
  A wallet is not alerted twice within its cooldown. In any sequence of dispatches, successful or not, the times at
  which delivery for the same wallet is attempted are at least the cooldown apart.
\<close>

lemma alerts_respect_cooldown:
  assumes "0 \<le> ds_cooldown_seconds d"
  shows "sorted_wrt (\<lambda>s t. s + ds_cooldown_seconds d \<le> t) (attempt_times wallet steps d w) \<and>
    (\<forall>t\<in>set (attempt_times wallet steps d w). \<not> cooling d t wallet)"
  using assms
proof (induction steps arbitrary: d w)
  case (Cons step steps)
  obtain env a where s: "step = (env, a)" by fastforce
  obtain res d' w' where dw: "alert_dispatch env a d w = (res, d', w')" by (metis prod_cases3)
  note c = dispatch_cooldowns [OF dw]
  have IH: "sorted_wrt (\<lambda>s t. s + ds_cooldown_seconds d \<le> t) (attempt_times wallet steps d' w')"
    "\<forall>t\<in>set (attempt_times wallet steps d' w'). \<not> cooling d' t wallet"
    using Cons.IH [of d' w'] Cons.prems by (simp_all add: c(1))
  show ?case
  proof (cases "attempted env a d \<and> av_wallet a = wallet")
    case True
    then have later: "\<forall>t\<in>set (attempt_times wallet steps d' w'). de_now env + ds_cooldown_seconds d \<le> t"
      using IH(2) by (simp add: cooling_def c(2) dict_get_set not_less)
    have "\<not> cooling d (de_now env) wallet" using True by (auto simp: attempted_def)
    moreover from this later Cons.prems have "\<forall>t\<in>set (attempt_times wallet steps d' w'). \<not> cooling d t wallet"
      by (force simp: cooling_def split: option.splits)
    ultimately show ?thesis using True IH(1) later by (auto simp: s dw)
  next
    case False
    then have "cooling d' t wallet = cooling d t wallet" for t by (auto simp: cooling_def c(2) dict_get_set)
    then show ?thesis using False IH by (auto simp: s dw)
  qed
qed simp

lemma alerts_respect_cooldown_witness:
  "sorted_wrt (\<lambda>s t. s + 3600 \<le> t)
     (attempt_times ''A'' [(sample_dispatch 0 True, sample_alert), (sample_dispatch 10 True, sample_alert), (sample_dispatch 4000 True, sample_alert)]
       (sample_dispatcher Stdout) empty_world)"
  using alerts_respect_cooldown [of "sample_dispatcher Stdout" "''A''"
      "[(sample_dispatch 0 True, sample_alert), (sample_dispatch 10 True, sample_alert), (sample_dispatch 4000 True, sample_alert)]" empty_world]
  by (simp add: sample_dispatcher_def)

text \<open>
  The cooldown is started before the delivery: when the socket refuses the alert, a second dispatch of the same alert
  within the cooldown returns as if the alert had been handled, and nothing was sent.
\<close>

lemma refused_alert_is_not_repeated:
  assumes "ds_channel d = Websocket" "attempted env a d" "\<not> de_socket_ok env" "\<not> ds_ledger d"
    and "de_now env2 < de_now env + ds_cooldown_seconds d"
  shows "\<exists>d'. alert_dispatch env a d w = (Inl Socket_Error, d', w) \<and> alert_dispatch env2 a d' w = (Inr (), d', w)"
  using assms by (simp add: alert_dispatch_def attempted_def deliver_alert_def deliver_websocket_def log_outcome_def cooling_def dict_get_set
      get_threshold_def Let_def)

end
