(* ===== verification/Feature_Buffer.thy ===== *)
theory Feature_Buffer
  imports Benford
begin

text \<open>
  The state of the streaming workers: the decaying Benford sketch (\<open>data/pipelines/detection/streaming_benford.py\<close>) and the
  buffer of recent trades per wallet (\<open>data/pipelines/streaming/feature_buffer.py\<close>). The dictionaries of the buffer, which
  have the same wallets as keys, are one dictionary of records; an operation under the lock of a wallet is one step. Left out:
  \<open>get_feature_row\<close>, which calls the batch feature engineering.
\<close>

section \<open>The Benford sketch\<close>

record sketch =
  sk_window_seconds :: int
  sk_counts :: "real list"
  sk_last_update :: "instant option"

definition new_sketch :: "int \<Rightarrow> sketch" where
  "new_sketch window_seconds = \<lparr>sk_window_seconds = window_seconds, sk_counts = replicate 9 0, sk_last_update = None\<rparr>"

definition seconds_between :: "instant \<Rightarrow> instant \<Rightarrow> real" where
  "seconds_between earlier later = real_of_int (later - earlier) / 1000000"

definition apply_decay :: "instant \<Rightarrow> sketch \<Rightarrow> sketch" where
  "apply_decay current_time s =
     (case sk_last_update s of
        None \<Rightarrow> s\<lparr>sk_last_update := Some current_time\<rparr>
      | Some last_update \<Rightarrow>
          let delta_t = seconds_between last_update current_time
          in if delta_t \<le> 0 then s
             else s\<lparr>sk_counts := map (\<lambda>c. c * exp (- delta_t / of_int (sk_window_seconds s))) (sk_counts s),
                    sk_last_update := Some current_time\<rparr>)"

definition sketch_digit :: "real \<Rightarrow> int" where
  "sketch_digit amount = \<lfloor>amount / 10 powr of_int \<lfloor>log 10 amount\<rfloor>\<rfloor>"

definition sketch_update :: "real \<Rightarrow> instant \<Rightarrow> sketch \<Rightarrow> sketch" where
  "sketch_update amount timestamp s =
     (let s1 = apply_decay timestamp s; digit = sketch_digit amount; i = nat (digit - 1)
      in if amount \<le> 0 then s1
         else if 1 \<le> digit \<and> digit \<le> 9 then s1\<lparr>sk_counts := (sk_counts s1)[i := sk_counts s1 ! i + 1]\<rparr>
         else s1)"

definition sketch_n :: "sketch \<Rightarrow> real" where
  "sketch_n s = sum_list (sk_counts s)"

definition sketch_distribution :: "sketch \<Rightarrow> (nat, real) dict" where
  "sketch_distribution s =
     (let n = sketch_n s in if n = 0 then map (\<lambda>d. (d, 0)) DIGITS else map (\<lambda>d. (d, sk_counts s ! (d - 1) / n)) DIGITS)"

definition sketch_chi_square :: "sketch \<Rightarrow> real" where
  "sketch_chi_square s =
     (let n = sketch_n s
      in if n = 0 then 0
         else sum_list (map (\<lambda>d. let expected_count = benford_expected d * n
                                 in if 0 < expected_count then (sk_counts s ! (d - 1) - expected_count)\<^sup>2 / expected_count else 0) DIGITS))"

definition sketch_mad :: "sketch \<Rightarrow> real" where
  "sketch_mad s =
     (let observed = sketch_distribution s
      in if sketch_n s = 0 then 0 else sum_list (map (\<lambda>d. \<bar>get0 observed d - benford_expected d\<bar>) DIGITS) / 9)"

definition sketch_z_scores :: "sketch \<Rightarrow> (nat, real) dict" where
  "sketch_z_scores s =
     (let n = sketch_n s; observed = sketch_distribution s
      in if n = 0 then map (\<lambda>d. (d, 0)) DIGITS
         else map (\<lambda>d. let p = benford_expected d; std_err = sqrt (p * (1 - p) / n)
                       in (d, if std_err = 0 then 0 else max ((\<bar>get0 observed d - p\<bar> - 1 / (2 * n)) / std_err) 0)) DIGITS)"

record sketch_metrics =
  sm_chi_square :: real
  sm_mad :: real
  sm_mad_nonconforming :: bool
  sm_z_scores :: "(nat, real) dict"
  sm_sample_size :: int

definition to_metrics :: "real \<Rightarrow> sketch \<Rightarrow> sketch_metrics" where
  "to_metrics mad_nonconformity_threshold s =
     \<lparr>sm_chi_square = sketch_chi_square s, sm_mad = sketch_mad s, sm_mad_nonconforming = (mad_nonconformity_threshold < sketch_mad s),
      sm_z_scores = sketch_z_scores s, sm_sample_size = \<lfloor>sketch_n s\<rfloor>\<rparr>"

section \<open>The buffer\<close>

record pipeline_trade =
  pt_trade_id :: string
  pt_time :: instant
  pt_base_account :: string
  pt_counter_account :: string
  pt_base_asset :: asset
  pt_counter_asset :: asset
  pt_amount :: real

definition or_native :: "string option \<Rightarrow> string" where
  "or_native i = (case i of None \<Rightarrow> ''native'' | Some s \<Rightarrow> if s = [] then ''native'' else s)"

definition pair_id :: "asset \<Rightarrow> asset \<Rightarrow> string" where
  "pair_id a b = a_code a @ '':'' @ or_native (a_issuer a) @ ''/'' @ a_code b @ '':'' @ or_native (a_issuer b)"

record buffered =
  bf_trade_id :: string
  bf_time :: instant
  bf_base_account :: string
  bf_counter_account :: string
  bf_base_asset :: string
  bf_counter_asset :: string
  bf_amount :: real

record wallet_buffer =
  wb_trades :: "buffered list"
  wb_seen :: "(string, unit) dict"
  wb_sketches :: "(int, sketch) dict"
  wb_pair_sketches :: "(string, (int, sketch) dict) dict"

record feature_buffer =
  fb_max_trades :: nat
  fb_windows :: "int list"
  fb_wallets :: "(string, wallet_buffer) dict"

definition new_feature_buffer :: "nat \<Rightarrow> int list \<Rightarrow> feature_buffer" where
  "new_feature_buffer max_trades windows = \<lparr>fb_max_trades = max_trades, fb_windows = windows, fb_wallets = []\<rparr>"

definition new_sketches :: "int list \<Rightarrow> (int, sketch) dict" where
  "new_sketches windows = fold (\<lambda>h. dict_set h (new_sketch (h * 3600))) windows []"

definition new_wallet_buffer :: "int list \<Rightarrow> wallet_buffer" where
  "new_wallet_buffer windows = \<lparr>wb_trades = [], wb_seen = [], wb_sketches = new_sketches windows, wb_pair_sketches = []\<rparr>"

definition ensure_wallet :: "string \<Rightarrow> feature_buffer \<Rightarrow> feature_buffer" where
  "ensure_wallet wallet fb =
     (case dict_get (fb_wallets fb) wallet of
        None \<Rightarrow> fb\<lparr>fb_wallets := dict_set wallet (new_wallet_buffer (fb_windows fb)) (fb_wallets fb)\<rparr>
      | Some _ \<Rightarrow> fb)"

definition buffered_of :: "pipeline_trade \<Rightarrow> buffered" where
  "buffered_of t = \<lparr>bf_trade_id = pt_trade_id t, bf_time = pt_time t, bf_base_account = pt_base_account t,
     bf_counter_account = pt_counter_account t, bf_base_asset = a_code (pt_base_asset t), bf_counter_asset = a_code (pt_counter_asset t),
     bf_amount = pt_amount t\<rparr>"

definition feed_sketches :: "pipeline_trade \<Rightarrow> (int, sketch) dict \<Rightarrow> (int, sketch) dict" where
  "feed_sketches t d = map (\<lambda>(h, s). (h, sketch_update (pt_amount t) (pt_time t) s)) d"

text \<open>The body of the loop of \<open>update\<close> for one wallet; appending to a full \<open>deque\<close> drops its first element.\<close>

definition apply_trade :: "nat \<Rightarrow> int list \<Rightarrow> pipeline_trade \<Rightarrow> wallet_buffer \<Rightarrow> wallet_buffer" where
  "apply_trade max_trades windows t wb =
     (if pt_trade_id t \<in> set (dict_keys (wb_seen wb)) then wb
      else let buf = wb_trades wb;
               seen = (if max_trades \<le> length buf \<and> buf \<noteq> [] then dict_del (bf_trade_id (hd buf)) (wb_seen wb) else wb_seen wb);
               pid = pair_id (pt_base_asset t) (pt_counter_asset t);
               pair = (case dict_get (wb_pair_sketches wb) pid of None \<Rightarrow> new_sketches windows | Some d \<Rightarrow> d)
           in \<lparr>wb_trades = last_n max_trades (buf @ [buffered_of t]), wb_seen = dict_set (pt_trade_id t) () seen,
               wb_sketches = feed_sketches t (wb_sketches wb),
               wb_pair_sketches = dict_set pid (feed_sketches t pair) (wb_pair_sketches wb)\<rparr>)"

definition update_buffer_of :: "pipeline_trade \<Rightarrow> string \<Rightarrow> feature_buffer \<Rightarrow> feature_buffer" where
  "update_buffer_of t wallet fb =
     (let fb1 = ensure_wallet wallet fb; wb = the (dict_get (fb_wallets fb1) wallet)
      in fb1\<lparr>fb_wallets := dict_set wallet (apply_trade (fb_max_trades fb1) (fb_windows fb1) t wb) (fb_wallets fb1)\<rparr>)"

definition buffer_update :: "pipeline_trade \<Rightarrow> feature_buffer \<Rightarrow> feature_buffer" where
  "buffer_update t fb = fold (update_buffer_of t) [pt_base_account t, pt_counter_account t] fb"

definition wallet_trade_count :: "feature_buffer \<Rightarrow> string \<Rightarrow> nat" where
  "wallet_trade_count fb wallet = (case dict_get (fb_wallets fb) wallet of None \<Rightarrow> 0 | Some wb \<Rightarrow> length (wb_trades wb))"

definition all_wallets :: "feature_buffer \<Rightarrow> string list" where
  "all_wallets fb = dict_keys (fb_wallets fb)"

section \<open>The sketch is a decayed count\<close>

lemma sketch_digit_first:
  assumes "0 < a"
  shows "sketch_digit a = int (stream_digit a)" "1 \<le> sketch_digit a" "sketch_digit a \<le> 9"
proof -
  have "a / 10 powr of_int \<lfloor>log 10 a\<rfloor> = 10 powr (log 10 a - of_int \<lfloor>log 10 a\<rfloor>)"
    using mantissa_bounds(3) [OF assms] by (simp add: powr_minus divide_inverse)
  then have "sketch_digit a = \<lfloor>10 powr (log 10 a - of_int \<lfloor>log 10 a\<rfloor>)\<rfloor>" by (simp add: sketch_digit_def)
  moreover have "0 \<le> \<lfloor>10 powr (log 10 a - of_int \<lfloor>log 10 a\<rfloor>)\<rfloor>" using mantissa_bounds(1) [OF assms] by simp
  ultimately show d: "sketch_digit a = int (stream_digit a)" using first_digit_stream(3) [OF assms] by simp
  show "1 \<le> sketch_digit a" "sketch_digit a \<le> 9" using first_digit_stream(2) [OF assms] by (auto simp: d DIGITS_def)
qed

text \<open>The weight that an observation at time \<open>t\<close> still has at time \<open>now\<close>.\<close>

definition decay_weight :: "int \<Rightarrow> instant \<Rightarrow> instant \<Rightarrow> real" where
  "decay_weight window_seconds now t = exp (- seconds_between t now / of_int window_seconds)"

definition sketch_of :: "int \<Rightarrow> (instant \<times> real) list \<Rightarrow> sketch" where
  "sketch_of window_seconds obs = fold (\<lambda>(t, a). sketch_update a t) obs (new_sketch window_seconds)"

definition decayed_count :: "int \<Rightarrow> (instant \<times> real) list \<Rightarrow> instant \<Rightarrow> nat \<Rightarrow> real" where
  "decayed_count window_seconds obs now d =
     sum_list (map (\<lambda>(t, a). if first_digit a = Some d then decay_weight window_seconds now t else 0) obs)"

lemma decay_weight_chain: "decay_weight w u t * decay_weight w now u = decay_weight w now t"
proof -
  have "seconds_between t u + seconds_between u now = seconds_between t now" by (simp add: seconds_between_def field_simps)
  then have "- seconds_between t u / of_int w + - seconds_between u now / of_int w = - seconds_between t now / of_int w"
    by (metis add_divide_distrib minus_add_distrib)
  then show ?thesis by (simp add: decay_weight_def exp_add [symmetric])
qed

lemma decayed_count_chain: "decayed_count w obs u d * decay_weight w now u = decayed_count w obs now d"
  by (induction obs) (auto simp: decayed_count_def distrib_right decay_weight_chain)

definition sketch_ok :: "int \<Rightarrow> (instant \<times> real) list \<Rightarrow> instant \<Rightarrow> sketch \<Rightarrow> bool" where
  "sketch_ok w obs now s \<longleftrightarrow> sk_last_update s = Some now \<and> sk_window_seconds s = w \<and>
     sk_counts s = map (decayed_count w obs now) DIGITS"

lemma decay_step:
  assumes "sketch_ok w obs u s" "u \<le> now"
  shows "sketch_ok w obs now (apply_decay now s)"
proof (cases "u = now")
  case True
  then have "apply_decay now s = s" using assms(1) by (simp add: sketch_ok_def apply_decay_def seconds_between_def)
  then show ?thesis using assms(1) True by simp
next
  case False
  then have "0 < seconds_between u now" using assms(2) by (simp add: seconds_between_def)
  then have "apply_decay now s = s\<lparr>sk_counts := map (\<lambda>c. c * decay_weight w now u) (sk_counts s), sk_last_update := Some now\<rparr>"
    using assms(1) by (simp add: sketch_ok_def apply_decay_def decay_weight_def)
  then show ?thesis using assms(1) by (simp add: sketch_ok_def decayed_count_chain comp_def)
qed

lemma count_step:
  assumes "sketch_ok w obs now s" "0 < a" "0 < w"
  shows "sketch_ok w (obs @ [(now, a)]) now (s\<lparr>sk_counts := (sk_counts s)[nat (sketch_digit a - 1) := sk_counts s ! nat (sketch_digit a - 1) + 1]\<rparr>)"
proof -
  have d: "nat (sketch_digit a - 1) = stream_digit a - 1" "stream_digit a \<in> set DIGITS" "first_digit a = Some (stream_digit a)"
    using sketch_digit_first [OF assms(2)] first_digit_stream [OF assms(2)] by auto
  have w: "decay_weight w now now = 1" by (simp add: decay_weight_def seconds_between_def)
  have "(map f DIGITS)[stream_digit a - 1 := map f DIGITS ! (stream_digit a - 1) + 1] = map (\<lambda>d. f d + (if stream_digit a = d then 1 else 0)) DIGITS"
    for f :: "nat \<Rightarrow> real" using d(2) by (auto simp: DIGITS_def)
  moreover have "decayed_count w (obs @ [(now, a)]) now d = decayed_count w obs now d + (if stream_digit a = d then 1 else 0)" for d
    by (simp add: decayed_count_def d(3) w)
  ultimately show ?thesis using assms(1) unfolding sketch_ok_def d(1) by simp
qed

lemma sketch_run:
  assumes "sorted (map fst obs)" "obs \<noteq> []" "0 < w"
  shows "sketch_ok w obs (fst (last obs)) (sketch_of w obs)"
  using assms
proof (induction obs rule: rev_induct)
  case (snoc x obs)
  obtain t a where x: "x = (t, a)" by fastforce
  have s1: "sketch_ok w obs t (apply_decay t (sketch_of w obs))"
  proof (cases "obs = []")
    case True
    then show ?thesis
      by (simp add: sketch_of_def new_sketch_def apply_decay_def sketch_ok_def decayed_count_def DIGITS_def numeral_eq_Suc)
  next
    case False
    then have "fst (last obs) \<le> t" using snoc.prems(1) by (auto simp: x sorted_append)
    then show ?thesis using snoc False by (intro decay_step) (simp_all add: sorted_append)
  qed
  have run: "sketch_of w (obs @ [(t, a)]) = sketch_update a t (sketch_of w obs)" by (simp add: sketch_of_def)
  show ?case
  proof (cases "0 < a")
    case True
    then show ?thesis
      using count_step [OF s1 True snoc.prems(3)] sketch_digit_first [OF True] by (simp add: run x sketch_update_def Let_def)
  next
    case False
    then have "first_digit a = None" by (simp add: first_digit_def)
    then have "decayed_count w (obs @ [x]) t d = decayed_count w obs t d" for d by (simp add: decayed_count_def x)
    then show ?thesis using s1 False by (simp add: run x sketch_update_def sketch_ok_def Let_def)
  qed
qed simp



section \<open>Redelivered trades\<close>

lemma last_n_length: "length (last_n w xs) = min w (length xs)"
  by (simp add: last_n_def)

lemma last_n_last_n: "k \<le> w \<Longrightarrow> last_n k (last_n w xs) = last_n k xs"
  by (cases "length xs \<le> w") (simp_all add: last_n_def)

lemma last_n_append_one: "last_n (Suc k) (xs @ [x]) = last_n k xs @ [x]"
  by (simp add: last_n_def)

lemma last_n_full: "length xs \<le> w \<Longrightarrow> last_n w xs = xs"
  by (simp add: last_n_def)

text \<open>The index of applied ids has the ids of the buffered trades, in the same order.\<close>

definition lock_step :: "nat \<Rightarrow> wallet_buffer \<Rightarrow> bool" where
  "lock_step max_trades wb \<longleftrightarrow> dict_keys (wb_seen wb) = map bf_trade_id (wb_trades wb) \<and> distinct (dict_keys (wb_seen wb)) \<and>
     length (wb_trades wb) \<le> max_trades"

lemma dict_del_hd: "distinct (dict_keys d) \<Longrightarrow> dict_keys d = k # ks \<Longrightarrow> dict_keys (dict_del k d) = ks"
proof -
  assume d: "distinct (dict_keys d)" "dict_keys d = k # ks"
  have "dict_keys (dict_del k d) = filter (\<lambda>x. x \<noteq> k) (dict_keys d)" by (simp add: dict_del_def filter_map comp_def)
  also have "\<dots> = ks" using d by (simp add: filter_id_conv) metis
  finally show ?thesis .
qed

lemma apply_trade_trades:
  "wb_trades (apply_trade m ws t wb) =
    (if pt_trade_id t \<in> set (dict_keys (wb_seen wb)) then wb_trades wb else last_n m (wb_trades wb @ [buffered_of t]))"
  by (simp add: apply_trade_def Let_def)

lemma apply_trade_lock_step:
  assumes "lock_step m wb" "0 < m"
  shows "lock_step m (apply_trade m ws t wb)" "pt_trade_id t \<in> set (dict_keys (wb_seen (apply_trade m ws t wb)))"
proof -
  have "lock_step m (apply_trade m ws t wb) \<and> pt_trade_id t \<in> set (dict_keys (wb_seen (apply_trade m ws t wb)))"
  proof (cases "pt_trade_id t \<in> set (dict_keys (wb_seen wb))")
    case True
    then show ?thesis using assms by (simp add: apply_trade_def)
  next
    case new: False
    have ids: "dict_keys (wb_seen wb) = map bf_trade_id (wb_trades wb)" "distinct (dict_keys (wb_seen wb))" "length (wb_trades wb) \<le> m"
      using assms(1) by (auto simp only: lock_step_def)
    show ?thesis
    proof (cases "m \<le> length (wb_trades wb)")
      case True
      then obtain b bs where b: "wb_trades wb = b # bs" "length (b # bs) = m" using ids(3) assms(2) by (cases "wb_trades wb") auto
      have del: "dict_keys (dict_del (bf_trade_id b) (wb_seen wb)) = map bf_trade_id bs"
        by (rule dict_del_hd [OF ids(2)]) (simp add: ids(1) b(1))
      have keep: "last_n m (b # bs @ [buffered_of t]) = bs @ [buffered_of t]" using b(2) by (auto simp: last_n_def)
      have fresh: "pt_trade_id t \<notin> set (map bf_trade_id bs)" "distinct (map bf_trade_id bs)" using new ids b(1) by auto
      show ?thesis
        using new True b fresh
        by (simp add: lock_step_def apply_trade_def Let_def keep dict_keys_set del [unfolded list.map] del) (simp add: buffered_of_def)
    next
      case False
      then have "last_n m (wb_trades wb @ [buffered_of t]) = wb_trades wb @ [buffered_of t]" by (simp add: last_n_full)
      then show ?thesis
        using new ids False by (simp add: lock_step_def apply_trade_def Let_def dict_keys_set buffered_of_def)
    qed
  qed
  then show "lock_step m (apply_trade m ws t wb)" "pt_trade_id t \<in> set (dict_keys (wb_seen (apply_trade m ws t wb)))" by blast+
qed

definition wallet_of :: "feature_buffer \<Rightarrow> string \<Rightarrow> wallet_buffer" where
  "wallet_of fb w = (case dict_get (fb_wallets fb) w of None \<Rightarrow> new_wallet_buffer (fb_windows fb) | Some wb \<Rightarrow> wb)"

definition touches :: "string \<Rightarrow> pipeline_trade \<Rightarrow> bool" where
  "touches w t \<longleftrightarrow> w = pt_base_account t \<or> w = pt_counter_account t"

lemma update_buffer_frame: "fb_max_trades (update_buffer_of t v fb) = fb_max_trades fb" "fb_windows (update_buffer_of t v fb) = fb_windows fb"
  by (simp_all add: update_buffer_of_def ensure_wallet_def Let_def split: option.split)

lemma update_buffer_get:
  "dict_get (fb_wallets (update_buffer_of t v fb)) w =
    (if w = v then Some (apply_trade (fb_max_trades fb) (fb_windows fb) t (wallet_of fb v)) else dict_get (fb_wallets fb) w)"
  by (simp add: update_buffer_of_def ensure_wallet_def wallet_of_def dict_get_set Let_def split: option.split)

lemma update_buffer_wallet:
  "wallet_of (update_buffer_of t v fb) w = (if w = v then apply_trade (fb_max_trades fb) (fb_windows fb) t (wallet_of fb v) else wallet_of fb w)"
  by (simp add: wallet_of_def [of "update_buffer_of t v fb"] update_buffer_get update_buffer_frame)
    (simp add: wallet_of_def update_buffer_frame split: option.split)

lemma apply_again: "lock_step m wb \<Longrightarrow> 0 < m \<Longrightarrow> apply_trade m ws t (apply_trade m ws t wb) = apply_trade m ws t wb"
  using apply_trade_lock_step(2) [of m wb t ws] by (simp add: apply_trade_def [of m ws t "apply_trade m ws t wb"])

definition feature_buffer_wf :: "feature_buffer \<Rightarrow> bool" where
  "feature_buffer_wf fb \<longleftrightarrow> 0 < fb_max_trades fb \<and> (\<forall>w. lock_step (fb_max_trades fb) (wallet_of fb w))"

lemma buffer_update_frame: "fb_max_trades (buffer_update t fb) = fb_max_trades fb" "fb_windows (buffer_update t fb) = fb_windows fb"
  by (simp_all add: buffer_update_def update_buffer_frame)

lemma buffer_update_wallet:
  assumes "feature_buffer_wf fb"
  shows "wallet_of (buffer_update t fb) w = (if touches w t then apply_trade (fb_max_trades fb) (fb_windows fb) t (wallet_of fb w) else wallet_of fb w)"
proof -
  have "lock_step (fb_max_trades fb) (wallet_of fb v)" "0 < fb_max_trades fb" for v using assms by (simp_all add: feature_buffer_wf_def)
  note again = apply_again [OF this]
  show ?thesis
    by (auto simp: buffer_update_def update_buffer_wallet update_buffer_frame touches_def again)
qed

lemma buffer_update_wf: "feature_buffer_wf fb \<Longrightarrow> feature_buffer_wf (buffer_update t fb)"
  by (simp add: feature_buffer_wf_def buffer_update_frame buffer_update_wallet apply_trade_lock_step)

lemma dict_set_same: "dict_get d k = Some v \<Longrightarrow> dict_set k v d = d"
  by (induction d) auto

lemma update_buffer_noop:
  assumes "dict_get (fb_wallets fb) w = Some wb" "pt_trade_id t \<in> set (dict_keys (wb_seen wb))"
  shows "update_buffer_of t w fb = fb"
  using assms by (simp add: update_buffer_of_def ensure_wallet_def apply_trade_def dict_set_same)

definition buffer_after :: "nat \<Rightarrow> int list \<Rightarrow> pipeline_trade list \<Rightarrow> feature_buffer" where
  "buffer_after max_trades windows trades = fold buffer_update trades (new_feature_buffer max_trades windows)"

lemma new_feature_buffer_wf: "0 < m \<Longrightarrow> feature_buffer_wf (new_feature_buffer m ws)"
  by (simp add: feature_buffer_wf_def new_feature_buffer_def wallet_of_def lock_step_def new_wallet_buffer_def)

lemma buffer_after_frame: "fb_max_trades (fold buffer_update ts fb) = fb_max_trades fb" "fb_windows (fold buffer_update ts fb) = fb_windows fb"
  by (induction ts arbitrary: fb) (simp_all add: buffer_update_frame)

lemma buffer_run_wf: "feature_buffer_wf fb \<Longrightarrow> feature_buffer_wf (fold buffer_update ts fb)"
  by (rule fold_keeps) (simp_all add: buffer_update_wf)

lemma buffered_ids:
  assumes "feature_buffer_wf fb" "bf_trade_id b \<notin> pt_trade_id ` set ts" "b \<in> set (wb_trades (wallet_of (fold buffer_update ts fb) w))"
  shows "b \<in> set (wb_trades (wallet_of fb w))"
  using assms
proof (induction ts arbitrary: fb)
  case (Cons t ts)
  have "b \<in> set (wb_trades (wallet_of (buffer_update t fb) w))" using Cons by (simp add: buffer_update_wf)
  then show ?case
    using Cons.prems by (auto simp: buffer_update_wallet apply_trade_trades last_n_def buffered_of_def split: if_splits dest: in_set_dropD)
qed simp

text \<open>A trade among the newest \<open>k\<close> of a wallet is among the newest \<open>k + 1\<close> after the wallet's next one.\<close>

lemma still_buffered:
  assumes "feature_buffer_wf fb" "i \<in> bf_trade_id ` set (last_n k (wb_trades (wallet_of fb w)))" "k + row_count (touches w) ts \<le> fb_max_trades fb"
  shows "i \<in> bf_trade_id ` set (wb_trades (wallet_of (fold buffer_update ts fb) w))"
  using assms
proof (induction ts arbitrary: fb k)
  case Nil
  then show ?case by (auto simp: last_n_def dest: in_set_dropD)
next
  case (Cons t ts)
  let ?k = "if touches w t then Suc k else k"
  have le: "?k + row_count (touches w) ts \<le> fb_max_trades fb" using Cons.prems(3) by (simp add: row_count_def split: if_splits)
  have grow: "set (last_n k xs) \<subseteq> set (last_n (Suc k) xs)" for xs :: "buffered list"
    by (simp add: last_n_def set_drop_subset_set_drop)
  have "i \<in> bf_trade_id ` set (last_n ?k (wb_trades (wallet_of (buffer_update t fb) w)))"
    using Cons.prems(1,2) le grow
    by (auto simp: buffer_update_wallet apply_trade_trades last_n_last_n last_n_append_one)
  from Cons.IH [OF buffer_update_wf [OF Cons.prems(1)] this] le show ?case by (simp add: buffer_update_frame)
qed

lemma seen_noop:
  assumes "feature_buffer_wf fb" "\<And>w. touches w t \<Longrightarrow> pt_trade_id t \<in> bf_trade_id ` set (wb_trades (wallet_of fb w))"
  shows "buffer_update t fb = fb"
proof -
  have "update_buffer_of t w fb = fb" if "touches w t" for w
  proof -
    have i: "pt_trade_id t \<in> set (dict_keys (wb_seen (wallet_of fb w)))"
      using assms that by (auto simp: feature_buffer_wf_def lock_step_def)
    have "dict_get (fb_wallets fb) w \<noteq> None"
      using i by (auto simp: wallet_of_def new_wallet_buffer_def split: option.splits)
    then obtain wb where "dict_get (fb_wallets fb) w = Some wb" "wallet_of fb w = wb" by (auto simp: wallet_of_def)
    then show ?thesis using i update_buffer_noop by metis
  qed
  then show ?thesis by (simp add: buffer_update_def touches_def)
qed

text \<open>
  C11: Redelivery does not count a trade twice. In the buffer reached by any trades, a trade that was applied once and is
  delivered again changes nothing at all, neither the buffered trades nor any Benford sketch, as long as fewer trades than
  the capacity of the buffer came in between for each of its two wallets. The ids the buffer remembers are always
  exactly those of the trades it holds.
\<close>

theorem redelivered_trade_is_ignored:
  assumes "0 < max_trades" "pt_trade_id t \<notin> pt_trade_id ` set earlier"
    and "row_count (touches (pt_base_account t)) later < max_trades" "row_count (touches (pt_counter_account t)) later < max_trades"
  shows "buffer_after max_trades windows (earlier @ [t] @ later @ [t]) = buffer_after max_trades windows (earlier @ [t] @ later) \<and>
    (\<forall>w wb. dict_get (fb_wallets (buffer_after max_trades windows (earlier @ [t] @ later))) w = Some wb \<longrightarrow>
      dict_keys (wb_seen wb) = map bf_trade_id (wb_trades wb) \<and> distinct (dict_keys (wb_seen wb)) \<and> length (wb_trades wb) \<le> max_trades)"
proof
  let ?e = "fold buffer_update earlier (new_feature_buffer max_trades windows)"
  let ?f = "fold buffer_update later (buffer_update t ?e)"
  have wf: "feature_buffer_wf ?e" by (rule buffer_run_wf [OF new_feature_buffer_wf [OF assms(1)]])
  have wf': "feature_buffer_wf ?f" by (rule buffer_run_wf [OF buffer_update_wf [OF wf]])
  have mx: "fb_max_trades ?e = max_trades" "fb_max_trades ?f = max_trades"
    by (simp_all add: buffer_after_frame buffer_update_frame new_feature_buffer_def)
  have fresh: "pt_trade_id t \<notin> bf_trade_id ` set (wb_trades (wallet_of ?e w))" for w
    using buffered_ids [OF new_feature_buffer_wf [OF assms(1)], of _ earlier windows w] assms(2)
    by (force simp: wallet_of_def new_feature_buffer_def new_wallet_buffer_def)
  have "pt_trade_id t \<in> bf_trade_id ` set (wb_trades (wallet_of ?f w))" if w: "touches w t" for w
  proof (rule still_buffered [OF buffer_update_wf [OF wf], where k = 1])
    have "pt_trade_id t \<notin> set (dict_keys (wb_seen (wallet_of ?e w)))" using fresh [of w] wf by (auto simp: feature_buffer_wf_def lock_step_def)
    then show "pt_trade_id t \<in> bf_trade_id ` set (last_n 1 (wb_trades (wallet_of (buffer_update t ?e) w)))"
      using w assms(1) last_n_append_one [of 0 "wb_trades (wallet_of ?e w)" "buffered_of t"]
      by (simp add: buffer_update_wallet [OF wf] apply_trade_trades last_n_last_n mx) (simp add: buffered_of_def)
    show "1 + row_count (touches w) later \<le> fb_max_trades (buffer_update t ?e)"
      using w assms(3,4) by (auto simp: buffer_update_frame mx touches_def)
  qed
  then have "buffer_update t ?f = ?f" by (rule seen_noop [OF wf'])
  then show "buffer_after max_trades windows (earlier @ [t] @ later @ [t]) = buffer_after max_trades windows (earlier @ [t] @ later)"
    by (simp add: buffer_after_def)
  show "\<forall>w wb. dict_get (fb_wallets (buffer_after max_trades windows (earlier @ [t] @ later))) w = Some wb \<longrightarrow>
      dict_keys (wb_seen wb) = map bf_trade_id (wb_trades wb) \<and> distinct (dict_keys (wb_seen wb)) \<and> length (wb_trades wb) \<le> max_trades"
  proof (intro allI impI)
    fix w wb
    assume "dict_get (fb_wallets (buffer_after max_trades windows (earlier @ [t] @ later))) w = Some wb"
    then have "wallet_of ?f w = wb" by (simp add: buffer_after_def wallet_of_def)
    then have "lock_step max_trades wb" using wf' mx(2) unfolding feature_buffer_wf_def by metis
    then show "dict_keys (wb_seen wb) = map bf_trade_id (wb_trades wb) \<and> distinct (dict_keys (wb_seen wb)) \<and> length (wb_trades wb) \<le> max_trades"
      unfolding lock_step_def .
  qed
qed

definition sample_pipe_trade :: "string \<Rightarrow> string \<Rightarrow> string \<Rightarrow> pipeline_trade" where
  "sample_pipe_trade i a b = \<lparr>pt_trade_id = i, pt_time = 0, pt_base_account = a, pt_counter_account = b,
     pt_base_asset = \<lparr>a_code = ''XLM'', a_issuer = None\<rparr>, pt_counter_asset = \<lparr>a_code = ''USDC'', a_issuer = Some ''G''\<rparr>, pt_amount = 25\<rparr>"

theorem redelivered_trade_is_ignored_witness:
  "buffer_after 2 [1] ([] @ [sample_pipe_trade ''t1'' ''A'' ''B''] @ [sample_pipe_trade ''t2'' ''B'' ''C''] @ [sample_pipe_trade ''t1'' ''A'' ''B'']) =
   buffer_after 2 [1] ([] @ [sample_pipe_trade ''t1'' ''A'' ''B''] @ [sample_pipe_trade ''t2'' ''B'' ''C''])"
  using redelivered_trade_is_ignored [of 2 "sample_pipe_trade ''t1'' ''A'' ''B''" "[]" "[sample_pipe_trade ''t2'' ''B'' ''C'']" "[1]"]
  by (simp add: sample_pipe_trade_def row_count_def touches_def)

end
