(* ===== verification/Kafka_Worker.thy ===== *)
theory Kafka_Worker
  imports Alert_Dispatch Feature_Buffer Py_Text
begin

text \<open>
  The scoring worker of the streaming pipeline (\<open>data/pipelines/streaming/kafka_worker.py\<close>): back-pressure, deduplication by the
  store of \<open>Exactly_Once\<close>, the buffer of \<open>Feature_Buffer\<close>, scoring, the dispatcher of \<open>Alert_Dispatch\<close>, and the commits
  of the key and of the offset. Of Kafka the model has what it documents of a consumer: the log of a partition, the
  position, which moves on with every message polled, and the committed offset, from which a restarted consumer continues. A message
  carries its decoded record, or none when decoding or validation fails; the result of \<open>record_to_trade\<close> and of the scorer
  are inputs. Left out: metrics, the lag gauge, correlation ids, heartbeats and the optional watchdog.
\<close>

section \<open>Messages and state\<close>

record trade_record =
  rc_ledger_sequence :: "int option"
  rc_trade_id :: string
  rc_trade :: "pipeline_trade option"
  rc_asset_pair :: string
  rc_base_account :: string
  rc_counter_account :: string

type_synonym topic_partition = "string \<times> int"

record kafka_msg =
  km_topic :: string
  km_partition :: int
  km_offset :: int
  km_record :: "trade_record option"

definition partition_of :: "kafka_msg \<Rightarrow> topic_partition" where
  "partition_of m = (km_topic m, km_partition m)"

record worker_config =
  wc_dlq_topic :: string
  wc_dead_letter_topic :: string
  wc_backpressure :: bool
  wc_hwm :: int
  wc_lwm :: int
  wc_max_retries :: nat
  wc_store :: exactly_once_store
  wc_max_trades :: nat
  wc_windows :: "int list"

text \<open>
  \<open>wk_redis\<close>, \<open>wk_world\<close>, \<open>wk_dlt\<close> and \<open>wk_committed\<close> live outside the process. \<open>wk_handled\<close> and \<open>wk_passed\<close> are not
  part of the program: they record for which key and wallet the work was completed, and whose offset was committed.
\<close>

record 'r worker =
  wk_in_flight :: "(topic_partition, int) dict"
  wk_paused :: "topic_partition set"
  wk_retry_counts :: "(string, nat) dict"
  wk_buffer :: feature_buffer
  wk_dispatcher :: dispatcher
  wk_position :: "(topic_partition, nat) dict"
  wk_redis :: 'r
  wk_world :: alert_world
  wk_dlt :: "kafka_msg list"
  wk_committed :: "(topic_partition, nat) dict"
  wk_handled :: "(string \<times> trade_record \<times> string) list"
  wk_passed :: "kafka_msg list"

record msg_env =
  me_stage :: redis_env
  me_commit :: redis_env
  me_score :: "string \<Rightarrow> feature_buffer \<Rightarrow> real option option"
  me_alert_base :: dispatch_env
  me_alert_counter :: dispatch_env
  me_offset :: call_outcome

datatype worker_error = Dedup_Unavailable | Invalid_Trade | Score_Error | Dispatch_Failed dispatch_error | Offset_Error

section \<open>Back-pressure\<close>

definition flight_depth :: "'r worker \<Rightarrow> topic_partition \<Rightarrow> int" where
  "flight_depth s tp = (case dict_get (wk_in_flight s) tp of None \<Rightarrow> 0 | Some n \<Rightarrow> n)"

definition check_and_apply :: "worker_config \<Rightarrow> topic_partition \<Rightarrow> int \<Rightarrow> 'r worker \<Rightarrow> 'r worker" where
  "check_and_apply cfg tp queue_depth s =
     (if wc_hwm cfg \<le> queue_depth \<and> tp \<notin> wk_paused s then s\<lparr>wk_paused := insert tp (wk_paused s)\<rparr>
      else if queue_depth \<le> wc_lwm cfg \<and> tp \<in> wk_paused s then s\<lparr>wk_paused := wk_paused s - {tp}\<rparr>
      else s)"

definition apply_backpressure :: "worker_config \<Rightarrow> topic_partition \<Rightarrow> 'r worker \<Rightarrow> 'r worker" where
  "apply_backpressure cfg tp s = (if wc_backpressure cfg then check_and_apply cfg tp (flight_depth s tp) s else s)"

definition record_failed_message :: "worker_config \<Rightarrow> kafka_msg \<Rightarrow> 'r worker \<Rightarrow> 'r worker" where
  "record_failed_message cfg m s =
     (let key = km_topic m @ '':'' @ show_int (km_partition m) @ '':'' @ show_int (km_offset m);
          n = (case dict_get (wk_retry_counts s) key of None \<Rightarrow> 0 | Some n \<Rightarrow> n) + 1
      in if wc_max_retries cfg < n
         then s\<lparr>wk_retry_counts := dict_del key (wk_retry_counts s), wk_dlt := wk_dlt s @ [m]\<rparr>
         else s\<lparr>wk_retry_counts := dict_set key n (wk_retry_counts s)\<rparr>)"

definition enter_flight :: "topic_partition \<Rightarrow> 'r worker \<Rightarrow> 'r worker" where
  "enter_flight tp s = s\<lparr>wk_in_flight := dict_set tp (flight_depth s tp + 1) (wk_in_flight s)\<rparr>"

definition leave_flight :: "topic_partition \<Rightarrow> 'r worker \<Rightarrow> 'r worker" where
  "leave_flight tp s = s\<lparr>wk_in_flight := dict_set tp (max 0 (flight_depth s tp - 1)) (wk_in_flight s)\<rparr>"

section \<open>Processing a message\<close>

definition message_key :: "kafka_msg \<Rightarrow> trade_record \<Rightarrow> dedup_key" where
  "message_key m rc =
     \<lparr>dk_source = ''kafka_trade'',
      dk_external_id = show_int (case rc_ledger_sequence rc of None \<Rightarrow> km_offset m | Some n \<Rightarrow> n) @ '':'' @ rc_trade_id rc,
      dk_tenant_id = None\<rparr>"

text \<open>The synchronous commit of an offset: the consumer will continue after the message.\<close>

definition commit_offset :: "msg_env \<Rightarrow> kafka_msg \<Rightarrow> 'r worker \<Rightarrow> worker_error option \<times> 'r worker" where
  "commit_offset env m s =
     (let s1 = s\<lparr>wk_committed := dict_set (partition_of m) (nat (km_offset m) + 1) (wk_committed s), wk_passed := wk_passed s @ [m]\<rparr>
      in case me_offset env of Answered \<Rightarrow> (None, s1) | Answer_Lost \<Rightarrow> (Some Offset_Error, s1) | Unreached \<Rightarrow> (Some Offset_Error, s))"

definition stage_message :: "'r kv_lib \<Rightarrow> worker_config \<Rightarrow> msg_env \<Rightarrow> dedup_key \<Rightarrow> 'r worker \<Rightarrow> (store_error + unit decision) \<times> 'r worker" where
  "stage_message lib cfg env k s =
     (let (v, r) = store_check_and_stage lib (wc_store cfg) (me_stage env) k (wk_redis s) in (v, s\<lparr>wk_redis := r\<rparr>))"

definition commit_key :: "'r kv_lib \<Rightarrow> worker_config \<Rightarrow> msg_env \<Rightarrow> dedup_key \<Rightarrow> 'r worker \<Rightarrow> (store_error + unit) \<times> 'r worker" where
  "commit_key lib cfg env k s =
     (let (v, r) = store_commit lib (wc_store cfg) (me_commit env) k (wk_redis s) in (v, s\<lparr>wk_redis := r\<rparr>))"

definition score_and_dispatch ::
  "msg_env \<Rightarrow> dispatch_env \<Rightarrow> string \<Rightarrow> trade_record \<Rightarrow> string \<Rightarrow> 'r worker \<Rightarrow> worker_error option \<times> 'r worker" where
  "score_and_dispatch env denv ck rc wallet s =
     (let handled = (\<lambda>s. s\<lparr>wk_handled := wk_handled s @ [(ck, rc, wallet)]\<rparr>)
      in case me_score env wallet (wk_buffer s) of
           None \<Rightarrow> (Some Score_Error, s)
         | Some None \<Rightarrow> (None, handled s)
         | Some (Some score) \<Rightarrow>
             (case alert_dispatch denv \<lparr>av_wallet = wallet, av_pair_id = rc_asset_pair rc, av_score = score\<rparr> (wk_dispatcher s) (wk_world s) of
                (Inl e, d, w) \<Rightarrow> (Some (Dispatch_Failed e), s\<lparr>wk_dispatcher := d, wk_world := w\<rparr>)
              | (Inr _, d, w) \<Rightarrow> (None, handled (s\<lparr>wk_dispatcher := d, wk_world := w\<rparr>))))"

text \<open>The side effects of a message: the buffer and both wallets.\<close>

definition do_work :: "msg_env \<Rightarrow> string \<Rightarrow> trade_record \<Rightarrow> 'r worker \<Rightarrow> worker_error option \<times> 'r worker" where
  "do_work env ck rc s =
     (case rc_trade rc of
        None \<Rightarrow> (Some Invalid_Trade, s)
      | Some t \<Rightarrow>
          (case score_and_dispatch env (me_alert_base env) ck rc (rc_base_account rc) (s\<lparr>wk_buffer := buffer_update t (wk_buffer s)\<rparr>) of
             (Some e, s1) \<Rightarrow> (Some e, s1)
           | (None, s1) \<Rightarrow> score_and_dispatch env (me_alert_counter env) ck rc (rc_counter_account rc) s1))"

definition process_trade :: "'r kv_lib \<Rightarrow> worker_config \<Rightarrow> msg_env \<Rightarrow> kafka_msg \<Rightarrow> trade_record \<Rightarrow> 'r worker \<Rightarrow> worker_error option \<times> 'r worker" where
  "process_trade lib cfg env m rc s =
     (let tp = partition_of m; k = message_key m rc
      in case stage_message lib cfg env k s of
           (Inl _, s1) \<Rightarrow> (Some Dedup_Unavailable, leave_flight tp s1)
         | (Inr d, s1) \<Rightarrow>
             if dd_state d = Committed
             then (case commit_offset env m s1 of (Some e, s2) \<Rightarrow> (Some e, s2) | (None, s2) \<Rightarrow> (None, leave_flight tp s2))
             else (case do_work env (canonical k) rc s1 of
                     (Some e, s2) \<Rightarrow> (Some e, s2)
                   | (None, s2) \<Rightarrow>
                       (case commit_key lib cfg env k s2 of
                          (Inl _, s3) \<Rightarrow> (Some Dedup_Unavailable, leave_flight tp s3)
                        | (Inr _, s3) \<Rightarrow>
                            (case commit_offset env m s3 of
                               (Some e, s4) \<Rightarrow> (Some e, s4)
                             | (None, s4) \<Rightarrow> (None, apply_backpressure cfg tp (leave_flight tp s4))))))"

definition process_message :: "'r kv_lib \<Rightarrow> worker_config \<Rightarrow> msg_env \<Rightarrow> kafka_msg \<Rightarrow> 'r worker \<Rightarrow> worker_error option \<times> 'r worker" where
  "process_message lib cfg env m s =
     (let tp = partition_of m
      in if km_topic m \<in> {wc_dlq_topic cfg, wc_dead_letter_topic cfg} then commit_offset env m s
         else let s1 = apply_backpressure cfg tp (enter_flight tp s)
              in case km_record m of
                   None \<Rightarrow>
                     (let s2 = (if wc_backpressure cfg then record_failed_message cfg m s1 else s1)
                      in case commit_offset env m s2 of (Some e, s3) \<Rightarrow> (Some e, s3) | (None, s3) \<Rightarrow> (None, leave_flight tp s3))
                 | Some rc \<Rightarrow> process_trade lib cfg env m rc s1)"

section \<open>The poll loop\<close>

definition position :: "'r worker \<Rightarrow> topic_partition \<Rightarrow> nat" where
  "position s tp = (case dict_get (wk_position s) tp of None \<Rightarrow> 0 | Some n \<Rightarrow> n)"

definition committed :: "'r worker \<Rightarrow> topic_partition \<Rightarrow> nat" where
  "committed s tp = (case dict_get (wk_committed s) tp of None \<Rightarrow> 0 | Some n \<Rightarrow> n)"

definition message_at :: "(topic_partition \<Rightarrow> trade_record option list) \<Rightarrow> topic_partition \<Rightarrow> nat \<Rightarrow> kafka_msg" where
  "message_at logs tp i = \<lparr>km_topic = fst tp, km_partition = snd tp, km_offset = int i, km_record = logs tp ! i\<rparr>"

text \<open>
  One turn of the loop of \<open>run\<close>: the consumer hands over the next message of a partition that is not paused, and an
  exception of the processing is logged and swallowed.
\<close>

definition poll_once ::
  "'r kv_lib \<Rightarrow> worker_config \<Rightarrow> (topic_partition \<Rightarrow> trade_record option list) \<Rightarrow> topic_partition \<Rightarrow> msg_env \<Rightarrow> 'r worker
    \<Rightarrow> worker_error option \<times> 'r worker" where
  "poll_once lib cfg logs tp env s =
     (let i = position s tp
      in if tp \<in> wk_paused s \<or> length (logs tp) \<le> i then (None, s)
         else process_message lib cfg env (message_at logs tp i) (s\<lparr>wk_position := dict_set tp (i + 1) (wk_position s)\<rparr>))"

text \<open>A new process: everything in memory is gone, the consumer continues at the committed offsets.\<close>

definition restart :: "worker_config \<Rightarrow> 'r worker \<Rightarrow> 'r worker" where
  "restart cfg s =
     s\<lparr>wk_in_flight := [], wk_paused := {}, wk_retry_counts := [], wk_buffer := new_feature_buffer (wc_max_trades cfg) (wc_windows cfg),
       wk_dispatcher := (wk_dispatcher s)\<lparr>ds_cooldowns := []\<rparr>, wk_position := wk_committed s\<rparr>"

definition new_worker :: "worker_config \<Rightarrow> dispatcher \<Rightarrow> 'r \<Rightarrow> alert_world \<Rightarrow> 'r worker" where
  "new_worker cfg d r w =
     \<lparr>wk_in_flight = [], wk_paused = {}, wk_retry_counts = [], wk_buffer = new_feature_buffer (wc_max_trades cfg) (wc_windows cfg), wk_dispatcher = d,
      wk_position = [], wk_redis = r, wk_world = w, wk_dlt = [], wk_committed = [], wk_handled = [], wk_passed = []\<rparr>"

datatype worker_step = Poll topic_partition msg_env | Restart

fun step_worker ::
  "'r kv_lib \<Rightarrow> worker_config \<Rightarrow> (topic_partition \<Rightarrow> trade_record option list) \<Rightarrow> worker_step \<Rightarrow> 'r worker \<Rightarrow> 'r worker" where
  "step_worker lib cfg logs (Poll tp env) s = snd (poll_once lib cfg logs tp env s)"
| "step_worker lib cfg logs Restart s = restart cfg s"

section \<open>A committed offset means that the work was done\<close>

definition work_done :: "'r worker \<Rightarrow> string \<Rightarrow> bool" where
  "work_done s ck \<longleftrightarrow> (\<exists>rc. (ck, rc, rc_base_account rc) \<in> set (wk_handled s) \<and> (ck, rc, rc_counter_account rc) \<in> set (wk_handled s))"

definition message_settled :: "worker_config \<Rightarrow> 'r worker \<Rightarrow> kafka_msg \<Rightarrow> bool" where
  "message_settled cfg s m \<longleftrightarrow> km_topic m \<in> {wc_dlq_topic cfg, wc_dead_letter_topic cfg} \<or>
     (case km_record m of None \<Rightarrow> True | Some rc \<Rightarrow> work_done s (canonical (message_key m rc)))"

text \<open>What Redis holds as committed from \<open>t\<close> on, and what was passed, has been worked on.\<close>

definition worker_inv :: "'r kv_lib \<Rightarrow> worker_config \<Rightarrow> int \<Rightarrow> 'r worker \<Rightarrow> bool" where
  "worker_inv lib cfg t s \<longleftrightarrow>
     (\<forall>u k. t \<le> u \<longrightarrow> redis_finished lib (eo_backend (wc_store cfg)) u k (wk_redis s) \<longrightarrow> work_done s (canonical k)) \<and>
     (\<forall>m\<in>set (wk_passed s). message_settled cfg s m)"

lemma flight_frame:
  "wk_redis (enter_flight tp s) = wk_redis s" "wk_handled (enter_flight tp s) = wk_handled s" "wk_passed (enter_flight tp s) = wk_passed s"
  "wk_redis (leave_flight tp s) = wk_redis s" "wk_handled (leave_flight tp s) = wk_handled s" "wk_passed (leave_flight tp s) = wk_passed s"
  "wk_redis (apply_backpressure cfg tp s) = wk_redis s" "wk_handled (apply_backpressure cfg tp s) = wk_handled s"
  "wk_passed (apply_backpressure cfg tp s) = wk_passed s"
  "wk_redis (record_failed_message cfg m s) = wk_redis s" "wk_handled (record_failed_message cfg m s) = wk_handled s"
  "wk_passed (record_failed_message cfg m s) = wk_passed s"
  "wk_redis (restart cfg s) = wk_redis s" "wk_handled (restart cfg s) = wk_handled s" "wk_passed (restart cfg s) = wk_passed s"
  by (simp_all add: enter_flight_def leave_flight_def apply_backpressure_def check_and_apply_def record_failed_message_def restart_def Let_def)

lemma offset_frame:
  "wk_committed (enter_flight tp s) = wk_committed s" "wk_position (enter_flight tp s) = wk_position s"
  "wk_committed (leave_flight tp s) = wk_committed s" "wk_position (leave_flight tp s) = wk_position s"
  "wk_committed (apply_backpressure cfg tp s) = wk_committed s" "wk_position (apply_backpressure cfg tp s) = wk_position s"
  "wk_committed (record_failed_message cfg m s) = wk_committed s" "wk_position (record_failed_message cfg m s) = wk_position s"
  by (simp_all add: enter_flight_def leave_flight_def apply_backpressure_def check_and_apply_def record_failed_message_def Let_def)

lemma work_done_mono: "work_done s ck \<Longrightarrow> set (wk_handled s) \<subseteq> set (wk_handled s') \<Longrightarrow> work_done s' ck"
  unfolding work_done_def by blast

lemma settled_mono: "message_settled cfg s m \<Longrightarrow> set (wk_handled s) \<subseteq> set (wk_handled s') \<Longrightarrow> message_settled cfg s' m"
  using work_done_mono unfolding message_settled_def by (auto split: option.splits)

lemma worker_inv_frame:
  assumes "worker_inv lib cfg t s" "t \<le> t'" "wk_redis s' = wk_redis s" "set (wk_handled s) \<subseteq> set (wk_handled s')"
    and "\<And>m. m \<in> set (wk_passed s') \<Longrightarrow> m \<in> set (wk_passed s) \<or> message_settled cfg s' m"
  shows "worker_inv lib cfg t' s'"
  using assms work_done_mono [OF _ assms(4)] settled_mono [OF _ assms(4)] unfolding worker_inv_def by (metis order_trans)

lemma commit_offset_inv:
  assumes "worker_inv lib cfg t s" "t \<le> t'" "message_settled cfg s m"
  shows "worker_inv lib cfg t' (snd (commit_offset env m s))"
proof (rule worker_inv_frame [OF assms(1,2)])
  show sub: "set (wk_handled s) \<subseteq> set (wk_handled (snd (commit_offset env m s)))"
    by (simp add: commit_offset_def Let_def split: call_outcome.split)
  fix m' assume "m' \<in> set (wk_passed (snd (commit_offset env m s)))"
  then have "m' \<in> set (wk_passed s) \<or> m' = m" by (auto simp: commit_offset_def Let_def split: call_outcome.splits)
  then show "m' \<in> set (wk_passed s) \<or> message_settled cfg (snd (commit_offset env m s)) m'" using settled_mono [OF assms(3) sub] by blast
qed (simp add: commit_offset_def Let_def split: call_outcome.split)

lemma score_and_dispatch_frame:
  "wk_redis (snd (score_and_dispatch env denv ck rc wallet s)) = wk_redis s"
  "wk_passed (snd (score_and_dispatch env denv ck rc wallet s)) = wk_passed s"
  "wk_committed (snd (score_and_dispatch env denv ck rc wallet s)) = wk_committed s"
  "wk_position (snd (score_and_dispatch env denv ck rc wallet s)) = wk_position s"
  "wk_in_flight (snd (score_and_dispatch env denv ck rc wallet s)) = wk_in_flight s"
  "wk_paused (snd (score_and_dispatch env denv ck rc wallet s)) = wk_paused s"
  "set (wk_handled s) \<subseteq> set (wk_handled (snd (score_and_dispatch env denv ck rc wallet s)))"
  "fst (score_and_dispatch env denv ck rc wallet s) = None \<Longrightarrow> (ck, rc, wallet) \<in> set (wk_handled (snd (score_and_dispatch env denv ck rc wallet s)))"
  by (auto simp: score_and_dispatch_def Let_def split: option.splits prod.splits sum.splits)

lemma do_work_frame:
  "wk_redis (snd (do_work env ck rc s)) = wk_redis s" "wk_passed (snd (do_work env ck rc s)) = wk_passed s"
  "wk_committed (snd (do_work env ck rc s)) = wk_committed s" "wk_position (snd (do_work env ck rc s)) = wk_position s"
  "wk_in_flight (snd (do_work env ck rc s)) = wk_in_flight s" "wk_paused (snd (do_work env ck rc s)) = wk_paused s"
  "set (wk_handled s) \<subseteq> set (wk_handled (snd (do_work env ck rc s)))"
  "fst (do_work env ck rc s) = None \<Longrightarrow> work_done (snd (do_work env ck rc s)) ck"
proof -
  let ?b = "\<lambda>t. score_and_dispatch env (me_alert_base env) ck rc (rc_base_account rc) (s\<lparr>wk_buffer := buffer_update t (wk_buffer s)\<rparr>)"
  let ?c = "\<lambda>t. score_and_dispatch env (me_alert_counter env) ck rc (rc_counter_account rc) (snd (?b t))"
  have cases: "do_work env ck rc s =
      (case rc_trade rc of None \<Rightarrow> (Some Invalid_Trade, s) | Some t \<Rightarrow> if fst (?b t) = None then ?c t else ?b t)"
    by (auto simp: do_work_def split: option.split prod.split)
  note f = score_and_dispatch_frame
  show "wk_redis (snd (do_work env ck rc s)) = wk_redis s" "wk_passed (snd (do_work env ck rc s)) = wk_passed s"
    "wk_committed (snd (do_work env ck rc s)) = wk_committed s" "wk_position (snd (do_work env ck rc s)) = wk_position s"
    "wk_in_flight (snd (do_work env ck rc s)) = wk_in_flight s" "wk_paused (snd (do_work env ck rc s)) = wk_paused s"
    by (simp_all add: cases f split: option.split)
  have b: "set (wk_handled s) \<subseteq> set (wk_handled (snd (?b t)))" for t using f(7) [of "s\<lparr>wk_buffer := buffer_update t (wk_buffer s)\<rparr>"] by simp
  have c: "set (wk_handled (snd (?b t))) \<subseteq> set (wk_handled (snd (?c t)))" for t by (rule f(7))
  show "set (wk_handled s) \<subseteq> set (wk_handled (snd (do_work env ck rc s)))"
    using b c by (fastforce simp: cases split: option.split)
  assume "fst (do_work env ck rc s) = None"
  then obtain t where t: "rc_trade rc = Some t" "fst (?b t) = None" "fst (?c t) = None" "do_work env ck rc s = ?c t"
    by (auto simp: cases split: option.splits if_splits)
  have "(ck, rc, rc_base_account rc) \<in> set (wk_handled (snd (?c t)))" using f(8) [OF t(2)] c by blast
  moreover have "(ck, rc, rc_counter_account rc) \<in> set (wk_handled (snd (?c t)))" by (rule f(8) [OF t(3)])
  ultimately show "work_done (snd (do_work env ck rc s)) ck" unfolding t(4) work_done_def by blast
qed

lemma redis_frame: "work_done (s\<lparr>wk_redis := r\<rparr>) ck = work_done s ck" "message_settled cfg (s\<lparr>wk_redis := r\<rparr>) m = message_settled cfg s m"
  by (simp_all add: work_done_def message_settled_def split: option.split)

lemma stage_message_inv:
  assumes "kv_ok lib" "1 \<le> eo_ttl_seconds (wc_store cfg)" "worker_inv lib cfg t s" "t \<le> rv_set_at (me_stage env)" "redis_env_ok (me_stage env)"
    and "stage_message lib cfg env k s = (v, s1)"
  shows "worker_inv lib cfg (rv_get_at (me_stage env)) s1"
    and "v = Inr d \<Longrightarrow> dd_state d = Committed \<Longrightarrow> work_done s1 (canonical k)"
proof -
  note server = store_server [OF assms(1,2)]
  obtain r where r: "redis_check_and_stage lib (eo_backend (wc_store cfg)) (me_stage env) k (eo_ttl_seconds (wc_store cfg)) (wk_redis s) = (v, r)"
    "s1 = s\<lparr>wk_redis := r\<rparr>"
    using assms(6) by (auto simp: stage_message_def store_check_and_stage_def split: prod.splits)
  have inv: "work_done s (canonical k')" if "t \<le> u" "redis_finished lib (eo_backend (wc_store cfg)) u k' (wk_redis s)" for u k'
    using assms(3) that unfolding worker_inv_def by blast
  have order: "rv_set_at (me_stage env) \<le> rv_get_at (me_stage env)" using assms(5) by (simp add: redis_env_ok_def)
  have same: "work_done s1 = work_done s" "message_settled cfg s1 = message_settled cfg s" "wk_passed s1 = wk_passed s"
    by (simp_all add: r(2) fun_eq_iff redis_frame)
  have "redis_finished lib (eo_backend (wc_store cfg)) u k' (wk_redis s)"
    if "rv_get_at (me_stage env) \<le> u" "redis_finished lib (eo_backend (wc_store cfg)) u k' r" for u k'
  proof -
    have "redis_finished lib (eo_backend (wc_store cfg)) u k' (snd (redis_check_and_stage lib (eo_backend (wc_store cfg)) (me_stage env) k
        (eo_ttl_seconds (wc_store cfg)) (wk_redis s) :: (store_error + unit decision) \<times> _))" using that(2) by (simp add: r(1))
    from redis_server.staging_adds_none [OF server assms(5) that(1) this] show ?thesis .
  qed
  then show "worker_inv lib cfg (rv_get_at (me_stage env)) s1"
    using assms(3,4) order inv unfolding worker_inv_def same by (simp add: r(2)) (meson order_trans)
  show "work_done s1 (canonical k)" if "v = Inr d" "dd_state d = Committed"
    unfolding same
    by (rule inv [OF assms(4)], rule redis_server.staging_is_honest [OF server assms(5), where d = d and k = k]) (simp_all add: r(1) that)
qed

lemma commit_key_inv:
  assumes "kv_ok lib" "1 \<le> eo_ttl_seconds (wc_store cfg)" "worker_inv lib cfg t s" "t \<le> rv_set_at (me_commit env)" "redis_env_ok (me_commit env)"
    and "commit_key lib cfg env k s = (v, s1)" "work_done s (canonical k)"
  shows "worker_inv lib cfg (rv_get_at (me_commit env)) s1" "work_done s1 (canonical k)"
proof -
  note server = store_server [OF assms(1,2)]
  obtain r where r: "redis_commit lib (eo_backend (wc_store cfg)) (me_commit env) k default_commit_ttl (wk_redis s) = (v, r)" "s1 = s\<lparr>wk_redis := r\<rparr>"
    using assms(6) by (auto simp: commit_key_def store_commit_def split: prod.splits)
  have order: "rv_set_at (me_commit env) \<le> rv_get_at (me_commit env)" using assms(5) by (simp add: redis_env_ok_def)
  have same: "work_done s1 = work_done s" "message_settled cfg s1 = message_settled cfg s" "wk_passed s1 = wk_passed s"
    by (simp_all add: r(2) fun_eq_iff redis_frame)
  have "work_done s (canonical k')"
    if u: "rv_get_at (me_commit env) \<le> u" "redis_finished lib (eo_backend (wc_store cfg)) u k' r" for u k'
  proof -
    have "redis_finished lib (eo_backend (wc_store cfg)) u k' (wk_redis s) \<or> canonical k' = canonical k"
      using redis_server.committing_adds [OF server assms(5) u(1), of "eo_backend (wc_store cfg)" k' k "wk_redis s"] u(2) by (simp add: r(1))
    then show ?thesis using assms(3,4,7) order u(1) unfolding worker_inv_def by (metis order_trans)
  qed
  then show "worker_inv lib cfg (rv_get_at (me_commit env)) s1"
    using assms(3) unfolding worker_inv_def same by (simp add: r(2))
  show "work_done s1 (canonical k)" unfolding same by (rule assms(7))
qed

definition env_from :: "int \<Rightarrow> msg_env \<Rightarrow> bool" where
  "env_from t env \<longleftrightarrow> redis_env_ok (me_stage env) \<and> redis_env_ok (me_commit env) \<and> t \<le> rv_set_at (me_stage env) \<and>
     rv_get_at (me_stage env) \<le> rv_set_at (me_commit env)"

lemma env_from_order: "env_from t env \<Longrightarrow> t \<le> rv_get_at (me_stage env) \<and> rv_get_at (me_stage env) \<le> rv_get_at (me_commit env)"
  by (auto simp: env_from_def redis_env_ok_def)

lemma process_record_inv:
  assumes "kv_ok lib" "1 \<le> eo_ttl_seconds (wc_store cfg)" "worker_inv lib cfg t s" "env_from t env" "km_record m = Some rc"
  shows "worker_inv lib cfg (rv_get_at (me_commit env)) (snd (process_trade lib cfg env m rc s))"
proof -
  let ?k = "message_key m rc" and ?T = "rv_get_at (me_commit env)"
  have e: "t \<le> rv_set_at (me_stage env)" "redis_env_ok (me_stage env)" "redis_env_ok (me_commit env)"
    "rv_get_at (me_stage env) \<le> rv_set_at (me_commit env)" using assms(4) by (simp_all add: env_from_def)
  note order = env_from_order [OF assms(4)]
  obtain v s1 where s1: "stage_message lib cfg env ?k s = (v, s1)" by fastforce
  note st = stage_message_inv [OF assms(1,2,3) e(1,2) s1]
  have settled: "message_settled cfg x m" if "work_done x (canonical ?k)" for x :: "'a worker"
    using that assms(5) by (simp add: message_settled_def)
  have flight: "worker_inv lib cfg ?T x" if "worker_inv lib cfg u y" "u \<le> ?T" "wk_redis x = wk_redis y" "wk_handled x = wk_handled y" "wk_passed x = wk_passed y"
    for u and x y :: "'a worker" by (rule worker_inv_frame [OF that(1,2,3)]) (simp_all add: that)
  show ?thesis
  proof (cases v)
    case (Inl err)
    then show ?thesis using s1 flight [OF st(1)] order by (simp add: process_trade_def flight_frame)
  next
    case (Inr d)
    show ?thesis
    proof (cases "dd_state d = Committed")
      case True
      have "worker_inv lib cfg ?T (snd (commit_offset env m s1))"
        by (rule commit_offset_inv [OF st(1)]) (use order settled [OF st(2) [OF Inr True]] in simp_all)
      then show ?thesis
        using s1 Inr True flight by (auto simp: process_trade_def flight_frame split: prod.splits option.splits)
    next
      case False
      obtain w s2 where s2: "do_work env (canonical ?k) rc s1 = (w, s2)" by fastforce
      note f = do_work_frame [where env = env and ck = "canonical ?k" and rc = rc and s = s1, unfolded s2 snd_conv fst_conv]
      have i2: "worker_inv lib cfg (rv_get_at (me_stage env)) s2" by (rule worker_inv_frame [OF st(1)]) (simp_all add: f)
      show ?thesis
      proof (cases w)
        case (Some err)
        then show ?thesis using s1 s2 Inr False flight [OF i2, of s2] order by (simp add: process_trade_def)
      next
        case None
        obtain c s3 where s3: "commit_key lib cfg env ?k s2 = (c, s3)" by fastforce
        note ck = commit_key_inv [OF assms(1,2) i2 e(4,3) s3 f(8) [OF None]]
        have "worker_inv lib cfg ?T (snd (commit_offset env m s3))" by (rule commit_offset_inv [OF ck(1) _ settled [OF ck(2)]]) simp
        then show ?thesis
          using s1 s2 s3 Inr False None flight [OF ck(1)] flight
          by (auto simp: process_trade_def flight_frame Let_def split: prod.split option.split sum.split)
      qed
    qed
  qed
qed

lemma process_message_inv:
  assumes "kv_ok lib" "1 \<le> eo_ttl_seconds (wc_store cfg)" "worker_inv lib cfg t s" "env_from t env"
  shows "worker_inv lib cfg (rv_get_at (me_commit env)) (snd (process_message lib cfg env m s))"
proof -
  let ?T = "rv_get_at (me_commit env)"
  let ?s1 = "apply_backpressure cfg (partition_of m) (enter_flight (partition_of m) s)"
  have T: "t \<le> ?T" using env_from_order [OF assms(4)] by simp
  have frame: "worker_inv lib cfg u x" if "worker_inv lib cfg u y" "wk_redis x = wk_redis y" "wk_handled x = wk_handled y" "wk_passed x = wk_passed y"
    for u and x y :: "'a worker" by (rule worker_inv_frame [OF that(1) order_refl that(2)]) (simp_all add: that)
  show ?thesis
  proof (cases "km_topic m \<in> {wc_dlq_topic cfg, wc_dead_letter_topic cfg}")
    case True
    then have "message_settled cfg s m" by (auto simp: message_settled_def)
    from commit_offset_inv [OF assms(3) T this, of env] show ?thesis using True by (auto simp: process_message_def)
  next
    case topic: False
    have i1: "worker_inv lib cfg t ?s1" by (rule frame [OF assms(3)]) (simp_all add: flight_frame)
    show ?thesis
    proof (cases "km_record m")
      case None
      let ?s2 = "if wc_backpressure cfg then record_failed_message cfg m ?s1 else ?s1"
      have i2: "worker_inv lib cfg t ?s2" by (rule frame [OF i1]) (simp_all add: flight_frame)
      have "message_settled cfg ?s2 m" using None by (simp add: message_settled_def)
      from commit_offset_inv [OF i2 T this, of env] show ?thesis
        using topic None frame by (auto simp: process_message_def flight_frame Let_def split: prod.split option.split)
    next
      case (Some rc)
      from process_record_inv [OF assms(1,2) i1 assms(4) Some] show ?thesis using topic Some by (simp add: process_message_def Let_def)
    qed
  qed
qed

lemma poll_inv:
  assumes "kv_ok lib" "1 \<le> eo_ttl_seconds (wc_store cfg)" "worker_inv lib cfg t s" "env_from t env"
  shows "worker_inv lib cfg (rv_get_at (me_commit env)) (snd (poll_once lib cfg logs tp env s))"
proof -
  have T: "t \<le> rv_get_at (me_commit env)" using env_from_order [OF assms(4)] by simp
  have "worker_inv lib cfg t (s\<lparr>wk_position := p\<rparr>)" for p by (rule worker_inv_frame [OF assms(3) order_refl]) simp_all
  note p = process_message_inv [OF assms(1,2) this assms(4)]
  have "worker_inv lib cfg (rv_get_at (me_commit env)) s" by (rule worker_inv_frame [OF assms(3) T]) simp_all
  then show ?thesis using p by (simp add: poll_once_def Let_def)
qed

text \<open>The steps of a run take place one after the other.\<close>

fun steps_from :: "int \<Rightarrow> worker_step list \<Rightarrow> bool" where
  "steps_from t [] \<longleftrightarrow> True"
| "steps_from t (Poll tp env # steps) \<longleftrightarrow> env_from t env \<and> steps_from (rv_get_at (me_commit env)) steps"
| "steps_from t (Restart # steps) \<longleftrightarrow> steps_from t steps"

lemma run_inv:
  assumes "kv_ok lib" "1 \<le> eo_ttl_seconds (wc_store cfg)"
  shows "worker_inv lib cfg t s \<Longrightarrow> steps_from t steps \<Longrightarrow> \<exists>u. worker_inv lib cfg u (fold (step_worker lib cfg logs) steps s)"
proof (induction t steps arbitrary: s rule: steps_from.induct)
  case (2 t tp env steps)
  then show ?case using poll_inv [OF assms, of t s env logs tp] by simp
next
  case (3 t steps)
  have "worker_inv lib cfg t (restart cfg s)" by (rule worker_inv_frame [OF 3(2) order_refl]) (simp_all add: flight_frame)
  then show ?case using 3 by simp
qed auto

lemma new_worker_inv:
  assumes "\<forall>u k. t \<le> u \<longrightarrow> \<not> redis_finished lib (eo_backend (wc_store cfg)) u k r"
  shows "worker_inv lib cfg t (new_worker cfg d r w)"
  using assms by (simp add: worker_inv_def new_worker_def)

text \<open>
  C9: The offset of a message is committed only when its work is done. In every run of the worker, with failures of Redis, of
  Kafka, of the scorer and of the dispatcher, and with restarts at any time, a message whose offset was committed
  is on a dead-letter topic, or could not be decoded, or both wallets of its deduplication key were scored and their alerts
  dispatched without an error, in this or in an earlier delivery.
\<close>

theorem offset_commit_means_done:
  assumes "kv_ok lib" "1 \<le> eo_ttl_seconds (wc_store cfg)" "steps_from t steps"
    and "\<forall>u k. t \<le> u \<longrightarrow> \<not> redis_finished lib (eo_backend (wc_store cfg)) u k r"
    and "s = fold (step_worker lib cfg logs) steps (new_worker cfg d r w)" "m \<in> set (wk_passed s)"
  shows "km_topic m \<in> {wc_dlq_topic cfg, wc_dead_letter_topic cfg} \<or> km_record m = None \<or>
    (\<exists>rc rc'. km_record m = Some rc \<and>
      (canonical (message_key m rc), rc', rc_base_account rc') \<in> set (wk_handled s) \<and>
      (canonical (message_key m rc), rc', rc_counter_account rc') \<in> set (wk_handled s))"
proof -
  obtain u where "worker_inv lib cfg u s"
    using run_inv [OF assms(1,2) new_worker_inv [OF assms(4)] assms(3)] unfolding assms(5) by blast
  then have "message_settled cfg s m" using assms(6) by (simp add: worker_inv_def)
  then show ?thesis by (auto simp: message_settled_def work_done_def split: option.splits)
qed

section \<open>When every failure ends the process\<close>

definition poll_or_crash ::
  "'r kv_lib \<Rightarrow> worker_config \<Rightarrow> (topic_partition \<Rightarrow> trade_record option list) \<Rightarrow> topic_partition \<times> msg_env \<Rightarrow> 'r worker \<Rightarrow> 'r worker" where
  "poll_or_crash lib cfg logs p s =
     (case poll_once lib cfg logs (fst p) (snd p) s of (None, s') \<Rightarrow> s' | (Some _, s') \<Rightarrow> restart cfg s')"

lemma commit_offset_cases:
  "commit_offset env m s = (Some Offset_Error, s) \<or>
    wk_committed (snd (commit_offset env m s)) = dict_set (partition_of m) (nat (km_offset m) + 1) (wk_committed s) \<and>
    m \<in> set (wk_passed (snd (commit_offset env m s))) \<and> wk_position (snd (commit_offset env m s)) = wk_position s \<and>
    wk_handled (snd (commit_offset env m s)) = wk_handled s"
  by (simp add: commit_offset_def Let_def split: call_outcome.split)

definition offset_moves :: "kafka_msg \<Rightarrow> 'r worker \<Rightarrow> worker_error option \<times> 'r worker \<Rightarrow> bool" where
  "offset_moves m s p \<longleftrightarrow> wk_position (snd p) = wk_position s \<and> set (wk_handled s) \<subseteq> set (wk_handled (snd p)) \<and>
     (fst p \<noteq> None \<and> wk_committed (snd p) = wk_committed s \<or>
      wk_committed (snd p) = dict_set (partition_of m) (nat (km_offset m) + 1) (wk_committed s) \<and> m \<in> set (wk_passed (snd p)))"

lemma commit_offset_moves: "offset_moves m s (commit_offset env m s)"
  using commit_offset_cases [of env m s] by (auto simp: offset_moves_def)

lemma offset_moves_from:
  assumes "offset_moves m s1 p" "wk_committed s1 = wk_committed s" "wk_position s1 = wk_position s" "set (wk_handled s) \<subseteq> set (wk_handled s1)"
  shows "offset_moves m s p"
  using assms by (auto simp: offset_moves_def)

lemma offset_moves_flight:
  "offset_moves m s (e, leave_flight tp x) \<longleftrightarrow> offset_moves m s (e, x)"
  "offset_moves m s (e, apply_backpressure cfg tp x) \<longleftrightarrow> offset_moves m s (e, x)"
  by (simp_all add: offset_moves_def offset_frame flight_frame)

lemma offset_moves_raise:
  "wk_committed x = wk_committed s \<Longrightarrow> wk_position x = wk_position s \<Longrightarrow> set (wk_handled s) \<subseteq> set (wk_handled x) \<Longrightarrow> offset_moves m s (Some e, x)"
  by (simp add: offset_moves_def)

lemma process_record_moves: "offset_moves m s (process_trade lib cfg env m rc s)"
proof -
  let ?k = "message_key m rc"
  obtain v s1 where s1: "stage_message lib cfg env ?k s = (v, s1)" by fastforce
  then have f1: "wk_committed s1 = wk_committed s" "wk_position s1 = wk_position s" "set (wk_handled s) \<subseteq> set (wk_handled s1)"
    by (auto simp: stage_message_def split: prod.splits)
  obtain w s2 where s2: "do_work env (canonical ?k) rc s1 = (w, s2)" by fastforce
  have f2: "wk_committed s2 = wk_committed s" "wk_position s2 = wk_position s" "set (wk_handled s) \<subseteq> set (wk_handled s2)"
    using do_work_frame(3,4,7) [where env = env and ck = "canonical ?k" and rc = rc and s = s1] s2 f1 by auto
  obtain c s3 where s3: "commit_key lib cfg env ?k s2 = (c, s3)" by fastforce
  then have f3: "wk_committed s3 = wk_committed s" "wk_position s3 = wk_position s" "set (wk_handled s) \<subseteq> set (wk_handled s3)"
    using f2 by (auto simp: commit_key_def split: prod.splits)
  obtain a x where a: "commit_offset env m s1 = (a, x)" by fastforce
  obtain b y where b: "commit_offset env m s3 = (b, y)" by fastforce
  have "offset_moves m s (a, x)" "offset_moves m s (b, y)"
    using offset_moves_from [OF commit_offset_moves [of m s1 env] f1] offset_moves_from [OF commit_offset_moves [of m s3 env] f3] a b by simp_all
  then show ?thesis
    using f1 f2 f3
    by (auto simp: process_trade_def s1 s2 s3 a b Let_def offset_moves_flight intro: offset_moves_raise split: sum.split option.split)
qed

lemma process_message_moves: "offset_moves m s (process_message lib cfg env m s)"
proof -
  let ?s1 = "apply_backpressure cfg (partition_of m) (enter_flight (partition_of m) s)"
  let ?s2 = "if wc_backpressure cfg then record_failed_message cfg m ?s1 else ?s1"
  obtain a x where a: "commit_offset env m ?s2 = (a, x)" by fastforce
  have "offset_moves m s (commit_offset env m ?s2)"
    by (rule offset_moves_from [OF commit_offset_moves]) (simp_all add: offset_frame flight_frame)
  then have "offset_moves m s (a, x)" unfolding a .
  moreover have "offset_moves m s (process_trade lib cfg env m rc ?s1)" for rc
    by (rule offset_moves_from [OF process_record_moves]) (simp_all add: offset_frame flight_frame)
  ultimately show ?thesis
    unfolding process_message_def Let_def a by (auto simp: commit_offset_moves offset_moves_flight split: option.split)
qed

text \<open>Each consumer stands at its committed offset, and everything before it is settled.\<close>

definition nothing_lost :: "worker_config \<Rightarrow> (topic_partition \<Rightarrow> trade_record option list) \<Rightarrow> 'r worker \<Rightarrow> bool" where
  "nothing_lost cfg logs s \<longleftrightarrow>
     (\<forall>tp. position s tp = committed s tp \<and> (\<forall>i < committed s tp. i < length (logs tp) \<and> message_settled cfg s (message_at logs tp i)))"

lemma committed_set: "wk_committed s' = dict_set tp n (wk_committed s) \<Longrightarrow> committed s' x = (if x = tp then n else committed s x)"
  by (simp add: committed_def dict_get_set)

lemma poll_moves:
  assumes "poll_once lib cfg logs tp env s = (e, s')" "nothing_lost cfg logs s" "worker_inv lib cfg u s'"
  shows "(\<forall>x. \<forall>i < committed s' x. i < length (logs x) \<and> message_settled cfg s' (message_at logs x i)) \<and>
    (e = None \<longrightarrow> (\<forall>x. position s' x = committed s' x))"
proof (cases "tp \<in> wk_paused s \<or> length (logs tp) \<le> position s tp")
  case True
  then show ?thesis using assms(1,2) by (auto simp: poll_once_def nothing_lost_def)
next
  case False
  let ?i = "position s tp"
  let ?m = "message_at logs tp ?i"
  let ?s0 = "s\<lparr>wk_position := dict_set tp (?i + 1) (wk_position s)\<rparr>"
  have old: "position s x = committed s x" "j < committed s x \<Longrightarrow> j < length (logs x) \<and> message_settled cfg s (message_at logs x j)" for x j
    using assms(2) unfolding nothing_lost_def by blast+
  have mv: "offset_moves ?m ?s0 (e, s')"
    using process_message_moves [of ?m ?s0 lib cfg env] assms(1) False by (simp add: poll_once_def Let_def)
  then have mono: "set (wk_handled s) \<subseteq> set (wk_handled s')" and pos: "position s' x = (if x = tp then ?i + 1 else position s x)" for x
    by (simp_all add: offset_moves_def position_def dict_get_set)
  have keep: "j < length (logs x) \<and> message_settled cfg s' (message_at logs x j)" if "j < committed s x" for x j
    using old(2) [OF that] settled_mono [OF _ mono] by blast
  from mv consider (raise) "e \<noteq> None" "wk_committed s' = wk_committed s"
    | (pass) "wk_committed s' = dict_set tp (?i + 1) (wk_committed s)" "?m \<in> set (wk_passed s')"
    by (auto simp: offset_moves_def partition_of_def message_at_def)
  then show ?thesis
  proof cases
    case raise
    then show ?thesis using keep by (auto simp: committed_def)
  next
    case pass
    have m: "message_settled cfg s' ?m" using assms(3) pass(2) by (simp add: worker_inv_def)
    have c: "committed s' x = (if x = tp then ?i + 1 else committed s x)" for x by (rule committed_set [OF pass(1)])
    have "j < length (logs x) \<and> message_settled cfg s' (message_at logs x j)" if "j < committed s' x" for x j
    proof (cases "x = tp \<and> j = ?i")
      case True
      then show ?thesis using m False by simp
    next
      case other: False
      then have "j < committed s x" using that old(1) [of tp] by (auto simp: c split: if_splits)
      then show ?thesis by (rule keep)
    qed
    then show ?thesis using pos c old(1) by simp
  qed
qed

lemma poll_or_crash_inv:
  assumes "kv_ok lib" "1 \<le> eo_ttl_seconds (wc_store cfg)" "worker_inv lib cfg t s" "env_from t env" "nothing_lost cfg logs s"
  shows "worker_inv lib cfg (rv_get_at (me_commit env)) (poll_or_crash lib cfg logs (tp, env) s) \<and> nothing_lost cfg logs (poll_or_crash lib cfg logs (tp, env) s)"
proof -
  obtain e s' where p: "poll_once lib cfg logs tp env s = (e, s')" by fastforce
  have w: "worker_inv lib cfg (rv_get_at (me_commit env)) s'" using poll_inv [OF assms(1-4), of logs tp] p by simp
  have r: "worker_inv lib cfg (rv_get_at (me_commit env)) (restart cfg s')" by (rule worker_inv_frame [OF w order_refl]) (simp_all add: flight_frame)
  note moves = poll_moves [OF p assms(5) w]
  have fresh: "position (restart cfg s') x = committed (restart cfg s') x" "committed (restart cfg s') x = committed s' x"
    "message_settled cfg (restart cfg s') = message_settled cfg s'" for x
    by (simp_all add: position_def committed_def restart_def message_settled_def work_done_def fun_eq_iff cong: option.case_cong)
  show ?thesis
    using w r moves by (simp add: poll_or_crash_def p nothing_lost_def fresh split: option.split)
qed

text \<open>
  C24: If the process ends with every failure, no message is lost. When each failed message is followed by a restart, as after a
  crash, then at any time every message below the committed offset of its partition has been settled: it was on a
  dead-letter topic, or could not be decoded, or both wallets of its key were scored and their alerts dispatched.
\<close>

theorem crash_only_run_loses_nothing:
  assumes "kv_ok lib" "1 \<le> eo_ttl_seconds (wc_store cfg)" "steps_from t (map (\<lambda>p. Poll (fst p) (snd p)) polls)"
    and "\<forall>u k. t \<le> u \<longrightarrow> \<not> redis_finished lib (eo_backend (wc_store cfg)) u k r"
    and "s = fold (poll_or_crash lib cfg logs) polls (new_worker cfg d r w)" "i < committed s tp"
  shows "i < length (logs tp) \<and>
    (fst tp \<in> {wc_dlq_topic cfg, wc_dead_letter_topic cfg} \<or> logs tp ! i = None \<or>
     (\<exists>rc rc'. logs tp ! i = Some rc \<and>
       (canonical (message_key (message_at logs tp i) rc), rc', rc_base_account rc') \<in> set (wk_handled s) \<and>
       (canonical (message_key (message_at logs tp i) rc), rc', rc_counter_account rc') \<in> set (wk_handled s)))"
proof -
  have run: "nothing_lost cfg logs (fold (poll_or_crash lib cfg logs) ps x)"
    if "worker_inv lib cfg u x" "nothing_lost cfg logs x" "steps_from u (map (\<lambda>p. Poll (fst p) (snd p)) ps)" for ps u x
    using that
  proof (induction ps arbitrary: u x)
    case (Cons p ps)
    obtain y env where p: "p = (y, env)" by fastforce
    have "env_from u env" using Cons.prems(3) by (simp add: p)
    from poll_or_crash_inv [OF assms(1,2) Cons.prems(1) this Cons.prems(2), of y] Cons.IH Cons.prems(3) show ?case
      by (simp add: p) blast
  qed simp
  have "nothing_lost cfg logs (new_worker cfg d r w)" by (simp add: nothing_lost_def new_worker_def position_def committed_def)
  from run [OF new_worker_inv [OF assms(4)] this assms(3)] have "nothing_lost cfg logs s" unfolding assms(5) .
  then have "i < length (logs tp) \<and> message_settled cfg s (message_at logs tp i)" using assms(6) unfolding nothing_lost_def by blast
  then show ?thesis by (auto simp: message_settled_def work_done_def message_at_def split: option.splits)
qed

section \<open>Sample runs\<close>

definition sample_config :: "int \<Rightarrow> worker_config" where
  "sample_config hwm = \<lparr>wc_dlq_topic = ''dlq'', wc_dead_letter_topic = ''dead'', wc_backpressure = True, wc_hwm = hwm, wc_lwm = 0, wc_max_retries = 5,
     wc_store = sample_store, wc_max_trades = 10, wc_windows = []\<rparr>"

definition sample_trade_record :: "string \<Rightarrow> trade_record" where
  "sample_trade_record i = \<lparr>rc_ledger_sequence = Some 7, rc_trade_id = i, rc_trade = Some (sample_pipe_trade i ''A'' ''B''), rc_asset_pair = ''p'',
     rc_base_account = ''A'', rc_counter_account = ''B''\<rparr>"

definition sample_env :: "int \<Rightarrow> bool \<Rightarrow> msg_env" where
  "sample_env t ok = \<lparr>me_stage = answered_at t, me_commit = answered_at t, me_score = (\<lambda>_ _. if ok then Some None else None),
     me_alert_base = sample_dispatch 0 True, me_alert_counter = sample_dispatch 0 True, me_offset = Answered\<rparr>"

definition sample_logs :: "topic_partition \<Rightarrow> trade_record option list" where
  "sample_logs tp = [Some (sample_trade_record ''t1''), Some (sample_trade_record ''t2'')]"

definition fresh_worker :: "worker_config \<Rightarrow> (string, string \<times> int) dict worker" where
  "fresh_worker cfg = new_worker cfg (sample_dispatcher Stdout) [] empty_world"

lemmas sample_defs = sample_config_def sample_trade_record_def sample_env_def sample_logs_def fresh_worker_def sample_store_def answered_at_def
  new_worker_def poll_once_def position_def committed_def message_at_def process_message_def process_trade_def stage_message_def commit_key_def
  do_work_def score_and_dispatch_def commit_offset_def partition_of_def message_key_def apply_backpressure_def check_and_apply_def
  enter_flight_def leave_flight_def flight_depth_def store_check_and_stage_def store_commit_def redis_check_and_stage_def redis_commit_def
  ref_kv_def ref_get_def ref_set_def redis_key_def canonical_def decided_def default_commit_ttl_def Let_def

lemma fresh_redis: "\<not> redis_finished ref_kv b u k []"
  by (simp add: redis_finished_def ref_kv_def ref_get_def)

theorem offset_commit_means_done_witness:
  "\<exists>rc m. m \<in> set (wk_passed (fold (step_worker ref_kv (sample_config 100) sample_logs) [Poll (''trades'', 0) (sample_env 1 True)] (fresh_worker (sample_config 100)))) \<and>
     (canonical (message_key m (sample_trade_record ''t1'')), rc, rc_base_account rc) \<in>
       set (wk_handled (fold (step_worker ref_kv (sample_config 100) sample_logs) [Poll (''trades'', 0) (sample_env 1 True)] (fresh_worker (sample_config 100))))"
proof -
  let ?s = "fold (step_worker ref_kv (sample_config 100) sample_logs) [Poll (''trades'', 0) (sample_env 1 True)] (fresh_worker (sample_config 100))"
  let ?m = "message_at sample_logs (''trades'', 0) 0"
  have m: "?m \<in> set (wk_passed ?s)" by (simp add: sample_defs dict_get_set)
  have "steps_from 0 [Poll (''trades'', 0) (sample_env 1 True)]" by (simp add: env_from_def redis_env_ok_def sample_env_def answered_at_def)
  moreover have "1 \<le> eo_ttl_seconds (wc_store (sample_config 100))" by (simp add: sample_config_def sample_store_def)
  ultimately have "km_topic ?m \<in> {wc_dlq_topic (sample_config 100), wc_dead_letter_topic (sample_config 100)} \<or> km_record ?m = None \<or>
    (\<exists>rc rc'. km_record ?m = Some rc \<and> (canonical (message_key ?m rc), rc', rc_base_account rc') \<in> set (wk_handled ?s) \<and>
      (canonical (message_key ?m rc), rc', rc_counter_account rc') \<in> set (wk_handled ?s))"
    using offset_commit_means_done [OF ref_kv_ok _ _ _ _ m, where t = 0 and r = "[]" and cfg = "sample_config 100"] fresh_redis
    unfolding fresh_worker_def by blast
  then show ?thesis using m by (fastforce simp: message_at_def sample_logs_def sample_config_def)
qed

theorem crash_only_run_loses_nothing_witness:
  "0 < length (sample_logs (''trades'', 0)) \<and>
   0 < committed (fold (poll_or_crash ref_kv (sample_config 100) sample_logs) [((''trades'', 0), sample_env 1 True)] (fresh_worker (sample_config 100))) (''trades'', 0)"
proof -
  let ?s = "fold (poll_or_crash ref_kv (sample_config 100) sample_logs) [((''trades'', 0), sample_env 1 True)] (fresh_worker (sample_config 100))"
  have c: "0 < committed ?s (''trades'', 0)" by (simp add: poll_or_crash_def sample_defs dict_get_set)
  have "steps_from 0 (map (\<lambda>p. Poll (fst p) (snd p)) [((''trades'', 0), sample_env 1 True)])"
    by (simp add: env_from_def redis_env_ok_def sample_env_def answered_at_def)
  moreover have "1 \<le> eo_ttl_seconds (wc_store (sample_config 100))" by (simp add: sample_config_def sample_store_def)
  ultimately have "0 < length (sample_logs (''trades'', 0))"
    using crash_only_run_loses_nothing [OF ref_kv_ok _ _ _ _ c, where t = 0 and r = "[]" and cfg = "sample_config 100"] fresh_redis
    unfolding fresh_worker_def by blast
  then show ?thesis using c by blast
qed

section \<open>Where the loop departs from its promise\<close>

text \<open>
  The loop swallows the exception and polls on, and the commit of the next message moves the offset past the failed
  one: after a restart the failed message is not delivered again, and its wallets were never handled.
\<close>

lemma failed_message_is_skipped:
  "\<exists>s. s = restart (sample_config 100) (fold (step_worker ref_kv (sample_config 100) sample_logs)
         [Poll (''trades'', 0) (sample_env 1 False), Poll (''trades'', 0) (sample_env 2 True)] (fresh_worker (sample_config 100))) \<and>
     position s (''trades'', 0) = 2 \<and>
     (\<forall>wallet. (canonical (message_key (message_at sample_logs (''trades'', 0) 0) (sample_trade_record ''t1'')), sample_trade_record ''t1'', wallet) \<notin> set (wk_handled s))"
  by (simp add: sample_defs restart_def dict_get_set state_values)

text \<open>A failure of the scorer or the dispatcher keeps its place in flight.\<close>

lemma failed_work_stays_in_flight:
  assumes "fst (do_work env (canonical (message_key m rc)) rc (snd (stage_message lib cfg env (message_key m rc) s))) = Some e"
    and "fst (stage_message lib cfg env (message_key m rc) s) = Inr d" "dd_state d \<noteq> Committed"
  shows "fst (process_trade lib cfg env m rc s) = Some e" "flight_depth (snd (process_trade lib cfg env m rc s)) tp = flight_depth s tp"
    "wk_paused (snd (process_trade lib cfg env m rc s)) = wk_paused s"
proof -
  obtain v s1 where s1: "stage_message lib cfg env (message_key m rc) s = (v, s1)" by fastforce
  then have f1: "wk_in_flight s1 = wk_in_flight s" "wk_paused s1 = wk_paused s" by (auto simp: stage_message_def split: prod.splits)
  obtain w s2 where s2: "do_work env (canonical (message_key m rc)) rc s1 = (w, s2)" by fastforce
  have f2: "wk_in_flight s2 = wk_in_flight s" "wk_paused s2 = wk_paused s"
    using do_work_frame(5,6) [where env = env and ck = "canonical (message_key m rc)" and rc = rc and s = s1] s2 f1 by simp_all
  have eq: "process_trade lib cfg env m rc s = (Some e, s2)" using assms s1 s2 by (simp add: process_trade_def)
  show "fst (process_trade lib cfg env m rc s) = Some e" "flight_depth (snd (process_trade lib cfg env m rc s)) tp = flight_depth s tp"
    "wk_paused (snd (process_trade lib cfg env m rc s)) = wk_paused s"
    by (simp_all add: eq flight_depth_def f2)
qed

lemma backpressure_frame:
  "tp \<in> wk_paused (apply_backpressure cfg x s) \<longleftrightarrow> tp \<in> wk_paused s" if "x \<noteq> tp" for tp x :: topic_partition
  using that by (auto simp: apply_backpressure_def check_and_apply_def)

lemma process_message_pauses:
  assumes "partition_of m \<noteq> tp" "tp \<in> wk_paused s"
  shows "tp \<in> wk_paused (snd (process_message lib cfg env m s))"
proof -
  have stage: "wk_paused (snd (stage_message lib cfg env k x)) = wk_paused x" for k x by (simp add: stage_message_def split: prod.split)
  have key: "wk_paused (snd (commit_key lib cfg env k x)) = wk_paused x" for k x by (simp add: commit_key_def split: prod.split)
  have off: "wk_paused (snd (commit_offset env m x)) = wk_paused x" for x by (simp add: commit_offset_def Let_def split: call_outcome.split)
  have fl: "wk_paused (leave_flight y x) = wk_paused x" "wk_paused (enter_flight y x) = wk_paused x" "wk_paused (record_failed_message cfg m x) = wk_paused x"
    for x y by (simp_all add: leave_flight_def enter_flight_def record_failed_message_def Let_def)
  have rec: "tp \<in> wk_paused (snd (process_trade lib cfg env m rc x))" if x: "tp \<in> wk_paused x" for rc x
  proof -
    let ?k = "message_key m rc"
    obtain v s1 where s1: "stage_message lib cfg env ?k x = (v, s1)" by fastforce
    obtain w s2 where s2: "do_work env (canonical ?k) rc s1 = (w, s2)" by fastforce
    obtain c s3 where s3: "commit_key lib cfg env ?k s2 = (c, s3)" by fastforce
    obtain a y where a: "commit_offset env m s1 = (a, y)" by fastforce
    obtain b z where b: "commit_offset env m s3 = (b, z)" by fastforce
    have "wk_paused s1 = wk_paused x" "wk_paused s2 = wk_paused x" "wk_paused s3 = wk_paused x" "wk_paused y = wk_paused x" "wk_paused z = wk_paused x"
      using stage [of ?k x] key [of ?k s2] off [of s1] off [of s3] s1 s2 s3 a b
        do_work_frame(6) [where env = env and ck = "canonical ?k" and rc = rc and s = s1] by simp_all
    then show ?thesis
      using x by (simp add: process_trade_def s1 s2 s3 a b Let_def fl backpressure_frame [OF assms(1)] split: sum.split option.split)
  qed
  let ?s1 = "apply_backpressure cfg (partition_of m) (enter_flight (partition_of m) s)"
  let ?s2 = "if wc_backpressure cfg then record_failed_message cfg m ?s1 else ?s1"
  have s1: "tp \<in> wk_paused ?s1" using assms(2) by (simp add: backpressure_frame [OF assms(1)] fl)
  obtain a y where a: "commit_offset env m ?s2 = (a, y)" by fastforce
  have "tp \<in> wk_paused y" using off [of ?s2] a s1 by (simp add: fl split: if_splits)
  then show ?thesis
    using rec [OF s1] off [of s] assms(2) unfolding process_message_def Let_def a by (auto simp: fl split: option.split)
qed

text \<open>
  A paused partition delivers nothing, and only its own messages could resume it: it stays paused, with its position
  unchanged, until the process is restarted.
\<close>

lemma paused_partition_is_stuck:
  assumes "tp \<in> wk_paused s"
  shows "tp \<in> wk_paused (fold (step_worker lib cfg logs) (map (\<lambda>p. Poll (fst p) (snd p)) polls) s) \<and>
    position (fold (step_worker lib cfg logs) (map (\<lambda>p. Poll (fst p) (snd p)) polls) s) tp = position s tp"
  using assms
proof (induction polls arbitrary: s)
  case (Cons p polls)
  obtain x env where p: "p = (x, env)" by fastforce
  have "tp \<in> wk_paused (snd (poll_once lib cfg logs x env s)) \<and> position (snd (poll_once lib cfg logs x env s)) tp = position s tp"
  proof (cases "x \<in> wk_paused s \<or> length (logs x) \<le> position s x")
    case True
    then show ?thesis using Cons.prems by (auto simp: poll_once_def)
  next
    case False
    then have x: "x \<noteq> tp" using Cons.prems by auto
    let ?s0 = "s\<lparr>wk_position := dict_set x (position s x + 1) (wk_position s)\<rparr>" and ?m = "message_at logs x (position s x)"
    have "partition_of ?m \<noteq> tp" using x by (simp add: partition_of_def message_at_def)
    then have "tp \<in> wk_paused (snd (process_message lib cfg env ?m ?s0))" using Cons.prems by (simp add: process_message_pauses)
    moreover have "wk_position (snd (process_message lib cfg env ?m ?s0)) = wk_position ?s0"
      using process_message_moves [of ?m ?s0 lib cfg env] by (simp add: offset_moves_def)
    ultimately show ?thesis using False x by (simp add: poll_once_def Let_def position_def dict_get_set)
  qed
  then show ?case using Cons.IH [of "snd (poll_once lib cfg logs x env s)"] by (simp add: p)
qed simp

lemma failures_pause_partition:
  "(''trades'', 0) \<in> wk_paused (fold (step_worker ref_kv (sample_config 2) sample_logs)
     [Poll (''trades'', 0) (sample_env 1 False), Poll (''trades'', 0) (sample_env 2 False)] (fresh_worker (sample_config 2)))"
  by (simp add: sample_defs dict_get_set state_values)

end
