(* ===== verification/Stage_Recovery.thy ===== *)
theory Stage_Recovery
  imports Prelude
begin

text \<open>
  Resumable runs of the batch pipeline: the checkpoint store and the checkpoint of one stage
  (\<open>data/pipelines/pipeline/idempotency.py\<close>) and the recovery manager with its reports (\<open>data/pipelines/pipeline/recovery.py\<close>). A
  result payload is represented by its JSON text. The body of a \<open>with\<close> block is a parameter: it sees whether the stage is
  to be skipped and ends in one of four ways. The hash of \<open>make_run_id\<close> is a parameter. Left out: errors of the database,
  log records, the rounding of seconds in the report, and \<open>idempotent_upsert\<close>, a guard around a store given by its caller.
\<close>

section \<open>The checkpoint store\<close>

datatype stage_status = Pending | Running | Done | Failed

record checkpoint_row =
  cp_run_id :: string
  cp_pair_id :: string
  cp_stage :: string
  cp_status :: stage_status
  cp_result_json :: "string option"
  cp_started_at :: "instant option"
  cp_completed_at :: "instant option"
  cp_error_message :: "string option"

type_synonym stage_key = "string \<times> string \<times> string"

definition stage_key_of :: "checkpoint_row \<Rightarrow> stage_key" where
  "stage_key_of r = (cp_run_id r, cp_pair_id r, cp_stage r)"

definition pipeline_stages :: "string list" where
  "pipeline_stages = [''ingest'', ''orderbook'', ''funding_graph'', ''features'', ''scoring'', ''persist'', ''onchain'']"

definition timedelta_hours :: "int \<Rightarrow> int" where
  "timedelta_hours h = h * 3600 * microseconds_per_second"

definition make_run_id :: "(string \<Rightarrow> string) \<Rightarrow> string list \<Rightarrow> string" where
  "make_run_id sha256_hex components = take 16 (sha256_hex (concat (case components of [] \<Rightarrow> [] | c # cs \<Rightarrow> c # map (\<lambda>x. ''|'' @ x) cs)))"

definition get_checkpoint :: "checkpoint_row list \<Rightarrow> stage_key \<Rightarrow> checkpoint_row option" where
  "get_checkpoint rows k = find (\<lambda>r. stage_key_of r = k) rows"

definition is_complete :: "int \<Rightarrow> instant \<Rightarrow> checkpoint_row list \<Rightarrow> stage_key \<Rightarrow> bool" where
  "is_complete ttl_hours now rows k =
     (case get_checkpoint rows k of
        None \<Rightarrow> False
      | Some r \<Rightarrow>
          if cp_status r \<noteq> Done then False
          else (case cp_completed_at r of None \<Rightarrow> False | Some c \<Rightarrow> \<not> timedelta_hours ttl_hours < now - c))"

definition get_result :: "checkpoint_row list \<Rightarrow> stage_key \<Rightarrow> string option" where
  "get_result rows k = (case get_checkpoint rows k of None \<Rightarrow> None | Some r \<Rightarrow> cp_result_json r)"

definition if_given :: "'a option \<Rightarrow> 'a option \<Rightarrow> 'a option" where
  "if_given new old = (case new of None \<Rightarrow> old | Some _ \<Rightarrow> new)"

definition upsert_status ::
  "stage_key \<Rightarrow> stage_status \<Rightarrow> instant option \<Rightarrow> instant option \<Rightarrow> string option \<Rightarrow> string option
    \<Rightarrow> checkpoint_row list \<Rightarrow> checkpoint_row list" where
  "upsert_status k status started_at completed_at result_json error_message rows =
     (let assign = (\<lambda>r. r\<lparr>cp_status := status, cp_started_at := if_given started_at (cp_started_at r),
                        cp_completed_at := if_given completed_at (cp_completed_at r),
                        cp_result_json := if_given result_json (cp_result_json r),
                        cp_error_message := if_given error_message (cp_error_message r)\<rparr>);
          blank = \<lparr>cp_run_id = fst k, cp_pair_id = fst (snd k), cp_stage = snd (snd k), cp_status = Pending, cp_result_json = None,
                    cp_started_at = None, cp_completed_at = None, cp_error_message = None\<rparr>
      in case get_checkpoint rows k of
           None \<Rightarrow> rows @ [assign blank]
         | Some _ \<Rightarrow> update_where (\<lambda>r. stage_key_of r = k) assign rows)"

definition mark_started :: "instant \<Rightarrow> stage_key \<Rightarrow> checkpoint_row list \<Rightarrow> checkpoint_row list" where
  "mark_started now k rows = upsert_status k Running (Some now) None None None rows"

text \<open>What a body hands to \<open>set_result\<close>: a value with its JSON text, or one \<open>json.dumps\<close> refuses.\<close>

datatype stage_payload = Json string | Not_Json

datatype checkpoint_error = Unserialisable

definition mark_done :: "instant \<Rightarrow> stage_key \<Rightarrow> stage_payload option \<Rightarrow> checkpoint_row list \<Rightarrow> checkpoint_error + checkpoint_row list" where
  "mark_done now k result rows =
     (case result of
        Some Not_Json \<Rightarrow> Inl Unserialisable
      | Some (Json text) \<Rightarrow> Inr (upsert_status k Done None (Some now) (Some text) None rows)
      | None \<Rightarrow> Inr (upsert_status k Done None (Some now) None None rows))"

definition mark_stage_failed :: "instant \<Rightarrow> stage_key \<Rightarrow> string \<Rightarrow> checkpoint_row list \<Rightarrow> checkpoint_row list" where
  "mark_stage_failed now k error rows = upsert_status k Failed None (Some now) None (Some error) rows"

definition list_stages :: "checkpoint_row list \<Rightarrow> string \<Rightarrow> string \<Rightarrow> checkpoint_row list" where
  "list_stages rows run_id pair_id = filter (\<lambda>r. cp_run_id r = run_id \<and> cp_pair_id r = pair_id) rows"

definition first_incomplete_stage :: "int \<Rightarrow> instant \<Rightarrow> checkpoint_row list \<Rightarrow> string \<Rightarrow> string \<Rightarrow> string option" where
  "first_incomplete_stage ttl_hours now rows run_id pair_id =
     (let completed = map cp_stage (filter (\<lambda>r. cp_status r = Done \<and>
            (case cp_completed_at r of None \<Rightarrow> False | Some c \<Rightarrow> now - c < timedelta_hours ttl_hours)) (list_stages rows run_id pair_id))
      in find (\<lambda>stage. stage \<notin> set completed) pipeline_stages)"

definition purge_old_checkpoints :: "int \<Rightarrow> instant \<Rightarrow> int option \<Rightarrow> checkpoint_row list \<Rightarrow> nat \<times> checkpoint_row list" where
  "purge_old_checkpoints ttl_hours now older_than_hours rows =
     (let cutoff_hours = (case older_than_hours of Some h \<Rightarrow> h | None \<Rightarrow> ttl_hours * 7);
          cutoff = now - timedelta_hours cutoff_hours;
          old = (\<lambda>r. case cp_completed_at r of None \<Rightarrow> False | Some c \<Rightarrow> c < cutoff)
      in (row_count old rows, delete_where old rows))"

section \<open>One stage\<close>

text \<open>
  How the body of the \<open>with\<close> block ends: it returns, raises an \<open>Exception\<close>, is interrupted by an exception that is not an
  \<open>Exception\<close> (\<open>KeyboardInterrupt\<close>, \<open>SystemExit\<close>), or the process dies. The payload is what \<open>set_result\<close> was given until then.
\<close>

datatype body_end =
    Returns "stage_payload option"
  | Raises string "stage_payload option"
  | Interrupted "stage_payload option"
  | Process_Dies

record checkpoint_state =
  cs_skip :: bool
  cs_result :: "string option"

definition enter_stage :: "int \<Rightarrow> instant \<Rightarrow> bool \<Rightarrow> stage_key \<Rightarrow> checkpoint_row list \<Rightarrow> checkpoint_state \<times> checkpoint_row list" where
  "enter_stage ttl_hours now force k rows =
     (if \<not> force \<and> is_complete ttl_hours now rows k
      then (\<lparr>cs_skip = True, cs_result = get_result rows k\<rparr>, rows)
      else (\<lparr>cs_skip = False, cs_result = None\<rparr>, mark_started now k rows))"

text \<open>\<open>exc\<close> is the text of the exception the block ended with, if any.\<close>

definition exit_stage ::
  "instant \<Rightarrow> stage_key \<Rightarrow> checkpoint_state \<Rightarrow> stage_payload option \<Rightarrow> string option \<Rightarrow> checkpoint_row list \<Rightarrow> checkpoint_error + checkpoint_row list" where
  "exit_stage now k st pending exc rows =
     (if cs_skip st then Inr rows
      else case exc of None \<Rightarrow> mark_done now k pending rows | Some msg \<Rightarrow> Inr (mark_stage_failed now k msg rows))"

section \<open>The recovery manager\<close>

datatype result_status = Skipped | Completed | Stage_Failed

record stage_result =
  sr_stage :: string
  sr_status :: result_status
  sr_wall_seconds :: real
  sr_payload :: "stage_payload option"
  sr_error :: string

record recovery =
  rm_rows :: "checkpoint_row list"
  rm_trackers :: "(string \<times> string, stage_result list) dict"

definition tracker :: "recovery \<Rightarrow> string \<Rightarrow> string \<Rightarrow> stage_result list" where
  "tracker s run_id pair_id = (case dict_get (rm_trackers s) (run_id, pair_id) of None \<Rightarrow> [] | Some t \<Rightarrow> t)"

definition record_result :: "stage_key \<Rightarrow> stage_result \<Rightarrow> recovery \<Rightarrow> recovery" where
  "record_result k r s =
     s\<lparr>rm_trackers := dict_set (fst k, fst (snd k)) (tracker s (fst k) (fst (snd k)) @ [r]) (rm_trackers s)\<rparr>"

text \<open>What the caller of \<open>stage\<close> sees.\<close>

datatype stage_end = Stage_Ended | Stage_Raised string | Stage_Interrupted | Stage_Unserialisable | Stage_Dead

record stage_call =
  sc_key :: stage_key
  sc_force :: bool
  sc_enter :: instant
  sc_exit :: instant
  sc_elapsed :: real
  sc_body :: "checkpoint_state \<Rightarrow> body_end"

text \<open>The \<open>finally\<close> block: \<open>exc_info\<close> was only filled by \<open>except Exception\<close>.\<close>

definition finish_stage :: "stage_call \<Rightarrow> checkpoint_state \<Rightarrow> stage_payload option \<Rightarrow> string option \<Rightarrow> stage_end \<Rightarrow> recovery \<Rightarrow> stage_end \<times> recovery" where
  "finish_stage c st pending exc_info ended s =
     (case exit_stage (sc_exit c) (sc_key c) st pending exc_info (rm_rows s) of
        Inl _ \<Rightarrow> (Stage_Unserialisable, s)
      | Inr rows \<Rightarrow>
          (ended,
           record_result (sc_key c)
             \<lparr>sr_stage = snd (snd (sc_key c)),
              sr_status = (if cs_skip st then Skipped else case exc_info of None \<Rightarrow> Completed | Some _ \<Rightarrow> Stage_Failed),
              sr_wall_seconds = sc_elapsed c, sr_payload = pending,
              sr_error = (if cs_skip st then [] else case exc_info of None \<Rightarrow> [] | Some msg \<Rightarrow> msg)\<rparr>
             (s\<lparr>rm_rows := rows\<rparr>)))"

definition run_stage :: "int \<Rightarrow> stage_call \<Rightarrow> recovery \<Rightarrow> stage_end \<times> recovery" where
  "run_stage ttl_hours c s =
     (let (st, rows) = enter_stage ttl_hours (sc_enter c) (sc_force c) (sc_key c) (rm_rows s); s1 = s\<lparr>rm_rows := rows\<rparr>
      in case sc_body c st of
           Returns pending \<Rightarrow> finish_stage c st pending None Stage_Ended s1
         | Raises msg pending \<Rightarrow> finish_stage c st pending (Some msg) (Stage_Raised msg) s1
         | Interrupted pending \<Rightarrow> finish_stage c st pending None Stage_Interrupted s1
         | Process_Dies \<Rightarrow> (Stage_Dead, s1\<lparr>rm_trackers := []\<rparr>))"

record resume_report =
  rr_completed :: "string list"
  rr_first_incomplete :: "string option"
  rr_will_resume :: bool

definition resume_info :: "int \<Rightarrow> instant \<Rightarrow> recovery \<Rightarrow> string \<Rightarrow> string \<Rightarrow> resume_report" where
  "resume_info ttl_hours now s run_id pair_id =
     (let first = first_incomplete_stage ttl_hours now (rm_rows s) run_id pair_id;
          completed = map cp_stage (filter (\<lambda>r. cp_status r = Done) (list_stages (rm_rows s) run_id pair_id))
      in \<lparr>rr_completed = completed, rr_first_incomplete = first, rr_will_resume = (first \<noteq> None \<and> completed \<noteq> [])\<rparr>)"

record run_summary =
  rs_total_wall :: real
  rs_completed :: nat
  rs_skipped :: nat
  rs_failed :: nat

definition run_summary_of :: "recovery \<Rightarrow> string \<Rightarrow> string \<Rightarrow> run_summary" where
  "run_summary_of s run_id pair_id =
     (let t = tracker s run_id pair_id
      in \<lparr>rs_total_wall = sum_list (map sr_wall_seconds t), rs_completed = row_count (\<lambda>r. sr_status r = Completed) t,
          rs_skipped = row_count (\<lambda>r. sr_status r = Skipped) t, rs_failed = row_count (\<lambda>r. sr_status r = Stage_Failed) t\<rparr>)"

definition failed_stages :: "stage_result list \<Rightarrow> string list" where
  "failed_stages t = map sr_stage (filter (\<lambda>r. sr_status r = Stage_Failed) t)"

definition has_failures :: "recovery \<Rightarrow> string \<Rightarrow> string \<Rightarrow> bool" where
  "has_failures s run_id pair_id \<longleftrightarrow> (\<exists>r\<in>set (tracker s run_id pair_id). sr_status r = Stage_Failed)"

text \<open>
  \<open>delete\<close> of the score store, when it has one: \<open>Some b\<close> is its answer, \<open>None\<close> an exception, which is logged.
\<close>

definition rollback_partial_writes :: "('s \<Rightarrow> string \<Rightarrow> string \<Rightarrow> bool option \<times> 's) option \<Rightarrow> string list \<Rightarrow> string \<Rightarrow> 's \<Rightarrow> nat \<times> 's" where
  "rollback_partial_writes delete wallets pair_id s =
     (case delete of
        None \<Rightarrow> (0, s)
      | Some del \<Rightarrow>
          fold (\<lambda>wallet (deleted, s). case del s wallet pair_id of (Some True, s') \<Rightarrow> (deleted + 1, s') | (_, s') \<Rightarrow> (deleted, s'))
            wallets (0, s))"

section \<open>A stage is skipped exactly when its last run is done and fresh\<close>

lemma upsert_status_get:
  "get_checkpoint (upsert_status k st a b c d rows) k' =
     (if k' = k
      then Some (case get_checkpoint rows k of
             None \<Rightarrow> \<lparr>cp_run_id = fst k, cp_pair_id = fst (snd k), cp_stage = snd (snd k), cp_status = st, cp_result_json = c,
                       cp_started_at = a, cp_completed_at = b, cp_error_message = d\<rparr>
           | Some r \<Rightarrow> r\<lparr>cp_status := st, cp_started_at := if_given a (cp_started_at r), cp_completed_at := if_given b (cp_completed_at r),
                         cp_result_json := if_given c (cp_result_json r), cp_error_message := if_given d (cp_error_message r)\<rparr>)
      else get_checkpoint rows k')"
proof -
  have keep: "find (\<lambda>r. stage_key_of r = k') (update_where (\<lambda>r. stage_key_of r = k) f rows) =
      (if k' = k then map_option f (find (\<lambda>r. stage_key_of r = k) rows) else find (\<lambda>r. stage_key_of r = k') rows)"
    if "\<And>r. stage_key_of (f r) = stage_key_of r" for f using that by (induction rows) (auto simp: update_where_Cons)
  have new: "find p (xs @ [x]) = (case find p xs of None \<Rightarrow> if p x then Some x else None | Some y \<Rightarrow> Some y)" for p xs and x :: checkpoint_row
    by (induction xs) auto
  have none: "if_given x None = x" for x :: "'a option" by (cases x) (auto simp: if_given_def)
  show ?thesis
  proof (cases "get_checkpoint rows k")
    case None
    then show ?thesis
      by (cases k) (auto simp: upsert_status_def Let_def get_checkpoint_def new none stage_key_of_def split: option.split)
  next
    case (Some r)
    then show ?thesis
      by (simp add: upsert_status_def Let_def get_checkpoint_def keep [unfolded stage_key_of_def] stage_key_of_def)
  qed
qed

lemma upsert_status_keys:
  "map stage_key_of (upsert_status k st a b c d rows) =
     (if k \<in> stage_key_of ` set rows then map stage_key_of rows else map stage_key_of rows @ [k])"
proof -
  have "get_checkpoint rows k = None \<longleftrightarrow> k \<notin> stage_key_of ` set rows"
    by (auto simp: get_checkpoint_def find_None_iff)
  then show ?thesis
    by (cases k) (auto simp: upsert_status_def Let_def map_update_where_frame stage_key_of_def split: option.split)
qed

definition table_keys_ok :: "checkpoint_row list \<Rightarrow> bool" where
  "table_keys_ok rows \<longleftrightarrow> distinct (map stage_key_of rows)"

lemma upsert_status_ok: "table_keys_ok rows \<Longrightarrow> table_keys_ok (upsert_status k st a b c d rows)"
  by (simp add: table_keys_ok_def upsert_status_keys)

lemma upsert_status_complete:
  "is_complete ttl now (upsert_status k st a b c d rows) k' =
     (if k' = k
      then st = Done \<and> (case if_given b (Option.bind (get_checkpoint rows k) cp_completed_at) of
                          None \<Rightarrow> False | Some t \<Rightarrow> now - t \<le> timedelta_hours ttl)
      else is_complete ttl now rows k')"
proof (cases "k' = k")
  case True
  have "if_given b None = b" by (cases b) (auto simp: if_given_def)
  then show ?thesis using True
    by (cases "get_checkpoint rows k") (auto simp: is_complete_def upsert_status_get not_less split: option.splits)
qed (simp add: is_complete_def upsert_status_get)

lemma get_checkpoint_filter:
  assumes "table_keys_ok rows"
  shows "get_checkpoint (filter p rows) k = (case get_checkpoint rows k of None \<Rightarrow> None | Some r \<Rightarrow> if p r then Some r else None)"
  using assms
proof (induction rows)
  case (Cons r rows)
  have "find (\<lambda>r. stage_key_of r = k) (filter p rows) = None" if "stage_key_of r = k"
    using Cons.prems that by (auto simp: table_keys_ok_def find_None_iff image_iff)
  then show ?case using Cons by (auto simp: table_keys_ok_def get_checkpoint_def)
qed (simp add: get_checkpoint_def)

text \<open>Purging what is older than the lifetime does not change which stages are complete.\<close>

lemma purge_keeps_complete:
  assumes "table_keys_ok rows" "now \<le> t" "timedelta_hours ttl \<le> timedelta_hours (case h of Some h \<Rightarrow> h | None \<Rightarrow> ttl * 7)"
  shows "is_complete ttl t (snd (purge_old_checkpoints ttl now h rows)) k = is_complete ttl t rows k"
  using assms(2,3)
  by (auto simp: is_complete_def purge_old_checkpoints_def Let_def delete_where_def get_checkpoint_filter [OF assms(1)] split: option.splits)

lemma purge_keys_ok: "table_keys_ok rows \<Longrightarrow> table_keys_ok (snd (purge_old_checkpoints ttl now h rows))"
  by (simp add: table_keys_ok_def purge_old_checkpoints_def Let_def distinct_delete_where)

text \<open>
  A history of a store: stages are run and old rows are purged. Next to the table it keeps the runs that were not skipped, with their
  ends.
\<close>

datatype recovery_step = Run_Stage stage_call | Purge instant "int option"

type_synonym run_log = "(stage_call \<times> body_end) list"

definition skips :: "int \<Rightarrow> stage_call \<Rightarrow> recovery \<Rightarrow> bool" where
  "skips ttl c s = cs_skip (fst (enter_stage ttl (sc_enter c) (sc_force c) (sc_key c) (rm_rows s)))"

fun step_recovery :: "int \<Rightarrow> recovery_step \<Rightarrow> recovery \<times> run_log \<Rightarrow> recovery \<times> run_log" where
  "step_recovery ttl (Run_Stage c) (s, runs) =
     (snd (run_stage ttl c s), if skips ttl c s then runs else runs @ [(c, sc_body c \<lparr>cs_skip = False, cs_result = None\<rparr>)])"
| "step_recovery ttl (Purge now h) (s, runs) = (s\<lparr>rm_rows := snd (purge_old_checkpoints ttl now h (rm_rows s))\<rparr>, runs)"

fun step_from :: "recovery_step \<Rightarrow> instant" where
  "step_from (Run_Stage c) = sc_enter c"
| "step_from (Purge now h) = now"

fun step_until :: "recovery_step \<Rightarrow> instant" where
  "step_until (Run_Stage c) = sc_exit c"
| "step_until (Purge now h) = now"

text \<open>The steps follow each other in time, and purges keep what is not older than the lifetime.\<close>

fun in_order :: "int \<Rightarrow> instant \<Rightarrow> recovery_step list \<Rightarrow> instant \<Rightarrow> bool" where
  "in_order ttl t [] t' \<longleftrightarrow> t \<le> t'"
| "in_order ttl t (a # as) t' \<longleftrightarrow> t \<le> step_from a \<and> step_from a \<le> step_until a \<and>
     (case a of Run_Stage _ \<Rightarrow> True | Purge _ h \<Rightarrow> timedelta_hours ttl \<le> timedelta_hours (case h of Some h \<Rightarrow> h | None \<Rightarrow> ttl * 7)) \<and>
     in_order ttl (step_until a) as t'"

definition ends_done :: "body_end \<Rightarrow> bool" where
  "ends_done e \<longleftrightarrow> (\<exists>p. (e = Returns p \<or> e = Interrupted p) \<and> p \<noteq> Some Not_Json)"

text \<open>The last run of a stage and whether it counts as done at an instant.\<close>

definition last_run :: "stage_key \<Rightarrow> run_log \<Rightarrow> (stage_call \<times> body_end) option" where
  "last_run k runs = find (\<lambda>(c, e). sc_key c = k) (rev runs)"

definition done_and_fresh :: "int \<Rightarrow> instant \<Rightarrow> stage_key \<Rightarrow> run_log \<Rightarrow> bool" where
  "done_and_fresh ttl now k runs \<longleftrightarrow>
     (case last_run k runs of None \<Rightarrow> False | Some (c, e) \<Rightarrow> ends_done e \<and> now - sc_exit c \<le> timedelta_hours ttl)"

lemma done_and_fresh_append:
  "done_and_fresh ttl now k (runs @ [(c, e)]) =
     (if sc_key c = k then ends_done e \<and> now - sc_exit c \<le> timedelta_hours ttl else done_and_fresh ttl now k runs)"
  by (simp add: done_and_fresh_def last_run_def)

lemma finish_stage_rows:
  "rm_rows (snd (finish_stage c st p ex en s)) =
     (case exit_stage (sc_exit c) (sc_key c) st p ex (rm_rows s) of Inl _ \<Rightarrow> rm_rows s | Inr rows \<Rightarrow> rows)"
  by (simp add: finish_stage_def record_result_def split: sum.split)

lemma run_stage_skipped: "skips ttl c s \<Longrightarrow> rm_rows (snd (run_stage ttl c s)) = rm_rows s"
  by (auto simp: skips_def run_stage_def enter_stage_def finish_stage_rows exit_stage_def split: if_splits body_end.split)

lemma run_stage_ran:
  assumes "\<not> skips ttl c s"
  shows "is_complete ttl now (rm_rows (snd (run_stage ttl c s))) k =
    (if sc_key c = k then ends_done (sc_body c \<lparr>cs_skip = False, cs_result = None\<rparr>) \<and> now - sc_exit c \<le> timedelta_hours ttl
     else is_complete ttl now (rm_rows s) k)"
    and "table_keys_ok (rm_rows s) \<Longrightarrow> table_keys_ok (rm_rows (snd (run_stage ttl c s)))"
proof -
  have e: "enter_stage ttl (sc_enter c) (sc_force c) (sc_key c) (rm_rows s) =
      (\<lparr>cs_skip = False, cs_result = None\<rparr>, mark_started (sc_enter c) (sc_key c) (rm_rows s))"
    using assms by (simp add: skips_def enter_stage_def split: if_splits)
  note rows = run_stage_def Let_def e finish_stage_rows exit_stage_def mark_done_def mark_stage_failed_def mark_started_def
  show "is_complete ttl now (rm_rows (snd (run_stage ttl c s))) k =
    (if sc_key c = k then ends_done (sc_body c \<lparr>cs_skip = False, cs_result = None\<rparr>) \<and> now - sc_exit c \<le> timedelta_hours ttl
     else is_complete ttl now (rm_rows s) k)"
    by (cases "sc_body c \<lparr>cs_skip = False, cs_result = None\<rparr>")
      (auto simp: rows upsert_status_complete ends_done_def if_given_def split: option.split stage_payload.split)
  show "table_keys_ok (rm_rows s) \<Longrightarrow> table_keys_ok (rm_rows (snd (run_stage ttl c s)))"
    by (auto simp: rows upsert_status_ok split: body_end.split option.split stage_payload.split)
qed

text \<open>The table and the log agree from the instant \<open>t\<close> on.\<close>

definition agrees :: "int \<Rightarrow> instant \<Rightarrow> recovery \<times> run_log \<Rightarrow> bool" where
  "agrees ttl t sl \<longleftrightarrow> table_keys_ok (rm_rows (fst sl)) \<and>
     (\<forall>now k. t \<le> now \<longrightarrow> is_complete ttl now (rm_rows (fst sl)) k = done_and_fresh ttl now k (snd sl))"

lemma agreesD: "agrees ttl t (s, runs) \<Longrightarrow> t \<le> now \<Longrightarrow> is_complete ttl now (rm_rows s) k = done_and_fresh ttl now k runs"
  by (cases k) (simp add: agrees_def)

lemma agrees_later: "agrees ttl t sl \<Longrightarrow> t \<le> t' \<Longrightarrow> agrees ttl t' sl"
  by (auto simp: agrees_def)

lemma agrees_step:
  assumes "agrees ttl t sl" "in_order ttl t (a # as) t'"
  shows "agrees ttl (step_until a) (step_recovery ttl a sl)"
proof (cases a)
  case (Run_Stage c)
  have "t \<le> sc_exit c" using assms(2) Run_Stage by simp
  with assms(1) have ag: "agrees ttl (sc_exit c) sl" by (rule agrees_later)
  show ?thesis
  proof (cases "skips ttl c (fst sl)")
    case True
    then show ?thesis using ag Run_Stage run_stage_skipped [OF True] by (cases sl) (simp add: agrees_def)
  next
    case False
    then show ?thesis using ag Run_Stage run_stage_ran [OF False] by (cases sl) (simp add: agrees_def done_and_fresh_append)
  qed
next
  case (Purge now h)
  then have le: "t \<le> now" "timedelta_hours ttl \<le> timedelta_hours (case h of Some h \<Rightarrow> h | None \<Rightarrow> ttl * 7)" using assms(2) by auto
  show ?thesis using assms(1) le purge_keeps_complete [OF _ _ le(2), of "rm_rows (fst sl)" now] Purge
    by (cases sl) (auto simp: agrees_def purge_keys_ok)
qed

lemma agrees_run:
  "agrees ttl t sl \<Longrightarrow> in_order ttl t as t' \<Longrightarrow> agrees ttl t' (fold (step_recovery ttl) as sl)"
proof (induction as arbitrary: t sl)
  case (Cons a as)
  from agrees_step [OF Cons.prems] Cons.prems(2) Cons.IH show ?case by simp
qed (simp add: agrees_later)

definition new_recovery :: recovery where
  "new_recovery = \<lparr>rm_rows = [], rm_trackers = []\<rparr>"

definition recovery_history :: "int \<Rightarrow> recovery_step list \<Rightarrow> recovery \<times> run_log" where
  "recovery_history ttl as = fold (step_recovery ttl) as (new_recovery, [])"

lemma history_agrees: "in_order ttl t as t' \<Longrightarrow> agrees ttl t' (recovery_history ttl as)"
  unfolding recovery_history_def
  by (rule agrees_run [rotated])
    (simp_all add: agrees_def new_recovery_def table_keys_ok_def is_complete_def get_checkpoint_def done_and_fresh_def last_run_def)

lemma get_checkpoint_Some:
  assumes "table_keys_ok rows"
  shows "get_checkpoint rows k = Some r \<longleftrightarrow> r \<in> set rows \<and> stage_key_of r = k"
  using assms by (induction rows) (auto simp: get_checkpoint_def table_keys_ok_def)

lemma first_incomplete_find:
  assumes "table_keys_ok rows"
  shows "first_incomplete_stage ttl now rows run_id pair_id =
    find (\<lambda>stage. \<not> (\<exists>r c. get_checkpoint rows (run_id, pair_id, stage) = Some r \<and> cp_status r = Done \<and> cp_completed_at r = Some c \<and>
            now - c < timedelta_hours ttl)) pipeline_stages"
proof -
  have "stage \<notin> set (map cp_stage (filter (\<lambda>r. cp_status r = Done \<and>
          (case cp_completed_at r of None \<Rightarrow> False | Some c \<Rightarrow> now - c < timedelta_hours ttl)) (list_stages rows run_id pair_id))) \<longleftrightarrow>
      \<not> (\<exists>r c. get_checkpoint rows (run_id, pair_id, stage) = Some r \<and> cp_status r = Done \<and> cp_completed_at r = Some c \<and>
            now - c < timedelta_hours ttl)" for stage
    by (auto simp: get_checkpoint_Some [OF assms] list_stages_def stage_key_of_def image_iff split: option.splits)
  then show ?thesis by (simp only: first_incomplete_stage_def Let_def)
qed

lemma agrees_strictly:
  assumes "agrees ttl now (s, runs)" "\<And>e b. last_run k runs = Some (e, b) \<Longrightarrow> now - sc_exit e \<noteq> timedelta_hours ttl"
  shows "(\<exists>r c. get_checkpoint (rm_rows s) k = Some r \<and> cp_status r = Done \<and> cp_completed_at r = Some c \<and> now - c < timedelta_hours ttl) \<longleftrightarrow>
    done_and_fresh ttl now k runs"
proof -
  have ag: "is_complete ttl t (rm_rows s) k = done_and_fresh ttl t k runs" if "now \<le> t" for t
    by (rule agreesD [OF assms(1) that])
  have "now - c < timedelta_hours ttl"
    if "get_checkpoint (rm_rows s) k = Some r" "cp_status r = Done" "cp_completed_at r = Some c" "now - c \<le> timedelta_hours ttl" for r c
  proof (rule ccontr)
    assume "\<not> ?thesis"
    with that ag [of now] ag [of "now + 1"] have "done_and_fresh ttl now k runs" "\<not> done_and_fresh ttl (now + 1) k runs"
      by (auto simp: is_complete_def)
    with assms(2) show False by (fastforce simp: done_and_fresh_def split: option.splits)
  qed
  then show ?thesis using ag [of now] by (fastforce simp: is_complete_def split: option.splits if_splits)
qed


definition sample_call :: "string \<Rightarrow> instant \<Rightarrow> body_end \<Rightarrow> stage_call" where
  "sample_call stage t e = \<lparr>sc_key = (''run'', ''pair'', stage), sc_force = False, sc_enter = t, sc_exit = t + 1, sc_elapsed = 1, sc_body = (\<lambda>_. e)\<rparr>"

definition sample_recovery :: "recovery_step list" where
  "sample_recovery =
     [Run_Stage (sample_call ''ingest'' 0 (Returns (Some (Json ''{}'')))), Run_Stage (sample_call ''orderbook'' 10 (Raises ''ValueError: no'' None)),
      Run_Stage (sample_call ''orderbook'' 20 Process_Dies)]"

lemmas sample_recovery_defs = sample_recovery_def sample_call_def recovery_history_def new_recovery_def skips_def enter_stage_def run_stage_def
  finish_stage_def exit_stage_def mark_done_def mark_stage_failed_def mark_started_def upsert_status_def get_checkpoint_def is_complete_def
  record_result_def tracker_def stage_key_of_def update_where_def if_given_def timedelta_hours_def done_and_fresh_def last_run_def ends_done_def


text \<open>An interrupt is not an \<open>Exception\<close>: a stage interrupted from the keyboard is recorded as done, and skipped when the run is resumed.\<close>

lemma interrupted_stage_is_done:
  assumes "sc_body c \<lparr>cs_skip = False, cs_result = None\<rparr> = Interrupted p" "p \<noteq> Some Not_Json" "\<not> skips ttl c s"
    and "sc_key c' = sc_key c" "\<not> sc_force c'" "sc_enter c' - sc_exit c \<le> timedelta_hours ttl"
  shows "skips ttl c' (snd (run_stage ttl c s))"
  using run_stage_ran(1) [OF assms(3), of "sc_enter c'" "sc_key c"] assms by (auto simp: skips_def enter_stage_def ends_done_def)

text \<open>Rows that have expired are still listed as completed by \<open>resume_info\<close>.\<close>

lemma resume_info_lists_expired:
  assumes "r \<in> set (rm_rows s)" "cp_run_id r = run_id" "cp_pair_id r = pair_id" "cp_status r = Done"
  shows "cp_stage r \<in> set (rr_completed (resume_info ttl now s run_id pair_id))"
  using assms by (auto simp: resume_info_def Let_def list_stages_def)

text \<open>A forced run that sets no result leaves the result of an earlier run in place, and it is replayed.\<close>

lemma forced_run_keeps_old_result:
  assumes "sc_body c \<lparr>cs_skip = False, cs_result = None\<rparr> = Returns None" "sc_force c" "get_result (rm_rows s) (sc_key c) = Some old"
  shows "get_result (rm_rows (snd (run_stage ttl c s))) (sc_key c) = Some old"
  using assms
  by (auto simp: run_stage_def enter_stage_def finish_stage_rows exit_stage_def mark_done_def mark_started_def get_result_def upsert_status_get
      if_given_def split: option.splits)

text \<open>Every call of \<open>stage\<close> that ends in this process leaves one entry of the report, except when its result cannot be stored.\<close>

lemma summary_accounts:
  "rs_completed (run_summary_of s r p) + rs_skipped (run_summary_of s r p) + rs_failed (run_summary_of s r p) = length (tracker s r p)"
proof -
  have "row_count (\<lambda>r. sr_status r = Completed) t + row_count (\<lambda>r. sr_status r = Skipped) t + row_count (\<lambda>r. sr_status r = Stage_Failed) t = length t"
    for t :: "stage_result list" by (induction t) (auto simp: row_count_def intro: result_status.exhaust)
  then show ?thesis by (simp add: run_summary_of_def Let_def)
qed

end
