(* ===== verification/Publisher.thy ===== *)
theory Publisher
  imports Circuit_Breaker Alerts Py_Text
begin

text \<open>
  Submission of scores to the chain (\<open>packages/core/detection/soroban_publisher.py\<close>), the lease a region needs for it
  (\<open>packages/core/detection/soroban_lease.py\<close>), and the replay of dead letters (\<open>dlq_replay\<close> in \<open>packages/core/cli.py\<close>).
  The coordination API of Kubernetes is a parameter; the answers of the Soroban server to one transaction are an argument, and the
  transactions handed to it are recorded in the model. Left out: errors of the database other than in the
  dead-letter queue, the construction of the transaction from its parameters, commitments and proofs (whether they can be
  built is an argument), metrics and log records.
\<close>

section \<open>The submission lease\<close>

record lease =
  ls_holder :: "string option"
  ls_renew_time :: "real option"
  ls_version :: nat

text \<open>
  The API: reading the lease, creating it, and replacing the version that was read, with the holder and the duration that the code writes;
  the writes say whether they were accepted. No renewal time is written.
\<close>

record 'k lease_api =
  la_read :: "'k \<Rightarrow> lease option"
  la_create :: "string \<Rightarrow> int \<Rightarrow> 'k \<Rightarrow> bool \<times> 'k"
  la_replace :: "string \<Rightarrow> int \<Rightarrow> nat \<Rightarrow> 'k \<Rightarrow> bool \<times> 'k"

datatype lease_plan = Answer bool | Create_Lease | Replace_Lease nat

definition lease_stale :: "lease \<Rightarrow> real \<Rightarrow> int \<Rightarrow> bool" where
  "lease_stale l now lease_duration_seconds =
     (case ls_holder l of
        None \<Rightarrow> True
      | Some holder \<Rightarrow>
          if holder = [] then True
          else (case ls_renew_time l of None \<Rightarrow> False | Some renewed \<Rightarrow> of_int lease_duration_seconds < now - renewed))"

text \<open>What follows from the answer of the API to the read; \<open>reached\<close> is false when it failed.\<close>

definition lease_decide :: "string \<Rightarrow> int \<Rightarrow> real \<Rightarrow> bool \<Rightarrow> lease option \<Rightarrow> lease_plan" where
  "lease_decide region_name lease_duration_seconds now reached found =
     (if \<not> reached then Answer False
      else case found of
        None \<Rightarrow> Create_Lease
      | Some l \<Rightarrow>
          if \<not> lease_stale l now lease_duration_seconds then Answer (ls_holder l = Some region_name)
          else Replace_Lease (ls_version l))"

text \<open>The write; a write whose answer is lost counts as refused.\<close>

definition lease_write :: "'k lease_api \<Rightarrow> string \<Rightarrow> int \<Rightarrow> call_outcome \<Rightarrow> lease_plan \<Rightarrow> 'k \<Rightarrow> bool \<times> 'k" where
  "lease_write api region_name lease_duration_seconds outcome plan k =
     (case plan of
        Answer b \<Rightarrow> (b, k)
      | _ \<Rightarrow>
          (let (accepted, k') = (case plan of Replace_Lease v \<Rightarrow> la_replace api region_name lease_duration_seconds v k
                                 | _ \<Rightarrow> la_create api region_name lease_duration_seconds k)
           in case outcome of Answered \<Rightarrow> (accepted, k') | Answer_Lost \<Rightarrow> (False, k') | Unreached \<Rightarrow> (False, k)))"

definition acquire_submission_lease ::
  "'k lease_api \<Rightarrow> bool \<Rightarrow> string \<Rightarrow> int \<Rightarrow> real \<Rightarrow> bool \<Rightarrow> call_outcome \<Rightarrow> 'k \<Rightarrow> bool \<times> 'k" where
  "acquire_submission_lease api lease_enabled region_name lease_duration_seconds now reached outcome k =
     (if \<not> lease_enabled then (True, k)
      else lease_write api region_name lease_duration_seconds outcome
             (lease_decide region_name lease_duration_seconds now reached (la_read api k)) k)"

section \<open>The dead-letter queue\<close>

datatype letter_status = Letter_Pending | Replayed | Letter_Failed

record dead_letter =
  dl_id :: nat
  dl_wallet :: string
  dl_asset_pair :: string
  dl_score :: int
  dl_ledger_timestamp :: int
  dl_error_message :: string
  dl_status :: letter_status
  dl_created_at :: int
  dl_replayed_at :: "instant option"
  dl_replay_tx_hash :: "string option"

text \<open>Rows in the order of their ids, and the next id (\<open>AUTOINCREMENT\<close> never reuses one).\<close>

record letter_box =
  lb_rows :: "dead_letter list"
  lb_next :: nat

definition get_dlq_pending_count :: "letter_box \<Rightarrow> nat" where
  "get_dlq_pending_count b = row_count (\<lambda>r. dl_status r = Letter_Pending) (lb_rows b)"

definition oldest_first :: "dead_letter list \<Rightarrow> dead_letter list" where
  "oldest_first rows = sort_key dl_created_at rows"

definition get_dlq_entries :: "letter_status option \<Rightarrow> nat \<Rightarrow> nat \<Rightarrow> letter_box \<Rightarrow> dead_letter list \<times> nat" where
  "get_dlq_entries status page page_size b =
     (let rows = filter (\<lambda>r. case status of None \<Rightarrow> True | Some st \<Rightarrow> dl_status r = st) (lb_rows b)
      in (take page_size (drop ((page - 1) * page_size) (oldest_first rows)), length rows))"

definition prune_letters :: "nat \<Rightarrow> dead_letter list \<Rightarrow> dead_letter list" where
  "prune_letters max_rows rows =
     (if max_rows < length rows
      then filter (\<lambda>r. dl_id r \<notin> dl_id ` set (take (length rows - max_rows) (oldest_first rows))) rows
      else rows)"

definition write_dead_letter :: "bool \<Rightarrow> nat \<Rightarrow> int \<Rightarrow> string \<Rightarrow> string \<Rightarrow> int \<Rightarrow> int \<Rightarrow> string \<Rightarrow> letter_box \<Rightarrow> letter_box" where
  "write_dead_letter db_ok max_rows created wallet asset_pair score timestamp error b =
     (if \<not> db_ok then b
      else \<lparr>lb_rows = prune_letters max_rows (lb_rows b @
              [\<lparr>dl_id = lb_next b, dl_wallet = wallet, dl_asset_pair = asset_pair, dl_score = score, dl_ledger_timestamp = timestamp,
                dl_error_message = error, dl_status = Letter_Pending, dl_created_at = created, dl_replayed_at = None,
                dl_replay_tx_hash = None\<rparr>]),
            lb_next = lb_next b + 1\<rparr>)"

section \<open>The circuit breaker of the publisher\<close>

record circuit =
  ci_threshold :: nat
  ci_reset_seconds :: real
  ci_state :: circuit_state
  ci_failures :: nat
  ci_last_error :: "string option"
  ci_opened_at :: "real option"
  ci_failure_times :: "real list"

definition new_circuit :: "nat \<Rightarrow> real \<Rightarrow> circuit" where
  "new_circuit threshold reset_seconds =
     \<lparr>ci_threshold = threshold, ci_reset_seconds = reset_seconds, ci_state = CLOSED, ci_failures = 0, ci_last_error = None,
      ci_opened_at = None, ci_failure_times = []\<rparr>"

definition reset_circuit :: "circuit \<Rightarrow> circuit" where
  "reset_circuit c = c\<lparr>ci_state := CLOSED, ci_failures := 0, ci_last_error := None, ci_opened_at := None, ci_failure_times := []\<rparr>"

text \<open>\<open>Some n\<close> is the error that names the number of failures.\<close>

definition check_circuit :: "real \<Rightarrow> circuit \<Rightarrow> nat option \<times> circuit" where
  "check_circuit now c =
     (case ci_state c of
        CLOSED \<Rightarrow> (None, c)
      | HALF_OPEN \<Rightarrow> (None, c)
      | OPEN \<Rightarrow>
          (case ci_opened_at c of
             Some opened \<Rightarrow> if ci_reset_seconds c \<le> now - opened then (None, c\<lparr>ci_state := HALF_OPEN\<rparr>) else (Some (ci_failures c), c)
           | None \<Rightarrow> (Some (ci_failures c), c)))"

definition circuit_failure :: "string \<Rightarrow> real \<Rightarrow> real \<Rightarrow> circuit \<Rightarrow> circuit" where
  "circuit_failure error wall now c =
     (let c1 = c\<lparr>ci_failures := ci_failures c + 1, ci_last_error := (if error = [] then ci_last_error c else Some error),
                ci_failure_times := ci_failure_times c @ [wall]\<rparr>
      in if ci_state c1 = HALF_OPEN then c1\<lparr>ci_state := OPEN, ci_opened_at := Some now\<rparr>
         else if ci_threshold c1 \<le> ci_failures c1 then c1\<lparr>ci_state := OPEN, ci_opened_at := Some now\<rparr>
         else c1)"

definition circuit_success :: "circuit \<Rightarrow> circuit" where
  "circuit_success c =
     c\<lparr>ci_state := (if ci_state c = HALF_OPEN then CLOSED else ci_state c), ci_failures := 0, ci_last_error := None, ci_opened_at := None\<rparr>"

record soroban_health =
  sh_state :: circuit_state
  sh_failures :: nat
  sh_last_error :: "string option"
  sh_seconds_until_reset :: "real option"
  sh_dlq_pending :: nat

definition health :: "real \<Rightarrow> circuit \<Rightarrow> letter_box \<Rightarrow> soroban_health" where
  "health now c b =
     \<lparr>sh_state = ci_state c, sh_failures = ci_failures c, sh_last_error = ci_last_error c,
      sh_seconds_until_reset = (if ci_state c \<in> {OPEN, HALF_OPEN}
        then map_option (\<lambda>opened. max 0 (ci_reset_seconds c - (now - opened))) (ci_opened_at c) else None),
      sh_dlq_pending = get_dlq_pending_count b\<rparr>"

section \<open>One transaction\<close>

text \<open>
  The answers of the server to one submission: the load of the account, the simulation with its minimal fee, the sending, and the
  polls for the result; any of them may raise an exception with a text.
\<close>

datatype sim_answer = Sim_Ok int | Sim_Error string | Sim_Raises string
datatype send_answer = Send_Hash string | Send_Error string | Send_Raises string
datatype poll_answer = Poll_Success | Poll_Failed string | Poll_Pending | Poll_Raises string

record server_env =
  se_load_error :: "string option"
  se_sim :: sim_answer
  se_send :: send_answer
  se_polls :: "nat \<Rightarrow> poll_answer"

text \<open>A transaction handed to the server: its contract arguments and its fee.\<close>

record chain_tx =
  tx_wallet :: string
  tx_pair :: string
  tx_score :: int
  tx_timestamp :: int
  tx_fee :: int

definition max_polls :: nat where
  "max_polls = 30"

fun poll_result :: "(nat \<Rightarrow> poll_answer) \<Rightarrow> nat \<Rightarrow> string \<Rightarrow> string + string" where
  "poll_result polls 0 tx_hash = Inl ''timeout: polling exceeded 30 attempts''"
| "poll_result polls (Suc n) tx_hash =
     (case polls (max_polls - Suc n) of
        Poll_Success \<Rightarrow> Inr tx_hash
      | Poll_Failed err \<Rightarrow> Inl err
      | Poll_Raises err \<Rightarrow> Inl err
      | Poll_Pending \<Rightarrow> poll_result polls n tx_hash)"

definition submit_once :: "server_env \<Rightarrow> real \<Rightarrow> chain_tx \<Rightarrow> (string + string) \<times> chain_tx list" where
  "submit_once env fee_multiplier tx =
     (case se_load_error env of
        Some e \<Rightarrow> (Inl e, [])
      | None \<Rightarrow>
          (case se_sim env of
             Sim_Raises e \<Rightarrow> (Inl e, [])
           | Sim_Error e \<Rightarrow> (Inl e, [])
           | Sim_Ok min_fee \<Rightarrow>
               (let sent = [tx\<lparr>tx_fee := \<lfloor>of_int min_fee * fee_multiplier\<rfloor>\<rparr>]
                in case se_send env of
                     Send_Raises e \<Rightarrow> (Inl e, sent)
                   | Send_Error e \<Rightarrow> (Inl e, sent)
                   | Send_Hash h \<Rightarrow> (poll_result (se_polls env) max_polls h, sent))))"

section \<open>Retries\<close>

fun py_contains :: "string \<Rightarrow> string \<Rightarrow> bool" where
  "py_contains part [] \<longleftrightarrow> part = []"
| "py_contains part (c # s) \<longleftrightarrow> take (length part) (c # s) = part \<or> py_contains part s"

definition auth_failed :: "string \<Rightarrow> bool" where
  "auth_failed error \<longleftrightarrow> py_contains ''auth'' (py_lower error) \<and> py_contains ''failed'' (py_lower error)"

definition error_or :: "string \<Rightarrow> string" where
  "error_or error = (if error = [] then ''Submission failed after retries'' else error)"

text \<open>
  The loop over two attempts. The result is the hash or the text of the raised error, with the text that \<open>_record_failure\<close>
  is called with before it, and the transactions sent. \<open>envs i\<close> are the answers to the submission number \<open>i\<close>.
\<close>

type_synonym attempts_result = "(string \<times> string + string) \<times> chain_tx list"

definition give_up :: "string \<Rightarrow> chain_tx list \<Rightarrow> attempts_result" where
  "give_up error sent = (Inl (error_or error, error_or error), sent)"

definition second_attempt :: "(nat \<Rightarrow> server_env) \<Rightarrow> chain_tx \<Rightarrow> chain_tx list \<Rightarrow> attempts_result" where
  "second_attempt envs tx sent =
     (case submit_once (envs 1) 1 tx of
        (Inr h, sent') \<Rightarrow> (Inr h, sent @ sent')
      | (Inl e, sent') \<Rightarrow> if auth_failed e then (Inl (e, e), sent @ sent') else give_up e (sent @ sent'))"

definition execute_with_retries :: "(nat \<Rightarrow> server_env) \<Rightarrow> chain_tx \<Rightarrow> attempts_result" where
  "execute_with_retries envs tx =
     (case submit_once (envs 0) 1 tx of
        (Inr h, sent) \<Rightarrow> (Inr h, sent)
      | (Inl e, sent) \<Rightarrow>
          if auth_failed e then (Inl (e, e), sent)
          else if py_contains ''bad_seq'' (py_lower e) then second_attempt envs tx sent
          else if py_contains ''insufficient_fee'' (py_lower e) then
            (case submit_once (envs 1) (3 / 2) tx of
               (Inr h, sent') \<Rightarrow> (Inr h, sent @ sent')
             | (Inl e', sent') \<Rightarrow> give_up e' (sent @ sent'))
          else if py_contains ''timeout'' (py_lower e) then second_attempt envs tx sent
          else give_up e sent)"

section \<open>Submitting scores\<close>

datatype submit_status = Sub_Submitted | Sub_Failed | Sub_Skipped

record submission_row =
  sb_wallet :: string
  sb_asset_pair :: string
  sb_score :: int
  sb_tx_hash :: "string option"
  sb_status :: submit_status
  sb_error_message :: "string option"

record pub_world =
  pw_circuit :: circuit
  pw_letters :: letter_box
  pw_rows :: "submission_row list"
  pw_sent :: "chain_tx list"

datatype publish_error = Lease_Error | Circuit_Open string | Submission_Error string | Bundle_Error

record submit_env =
  sm_lease :: bool
  sm_check_at :: real
  sm_failed_at :: real
  sm_failed_wall :: real
  sm_created :: int
  sm_db_ok :: bool
  sm_max_rows :: nat
  sm_bundle_ok :: bool
  sm_server :: "nat \<Rightarrow> server_env"

definition save_submission :: "risk_score \<Rightarrow> submit_status \<Rightarrow> string option \<Rightarrow> string option \<Rightarrow> pub_world \<Rightarrow> pub_world" where
  "save_submission s status tx_hash error_message w =
     w\<lparr>pw_rows := pw_rows w @ [\<lparr>sb_wallet = rs_wallet s, sb_asset_pair = rs_asset_pair s, sb_score = rs_score s, sb_tx_hash = tx_hash,
        sb_status = status, sb_error_message = error_message\<rparr>]\<rparr>"

definition unix_seconds :: "instant \<Rightarrow> int" where
  "unix_seconds t = (if 0 \<le> t then t div microseconds_per_second else - ((- t) div microseconds_per_second))"

definition score_tx :: "risk_score \<Rightarrow> chain_tx" where
  "score_tx s = \<lparr>tx_wallet = rs_wallet s, tx_pair = rs_asset_pair s, tx_score = max 0 (min 100 (rs_score s)),
     tx_timestamp = unix_seconds (rs_timestamp s), tx_fee = 0\<rparr>"

definition circuit_message :: "nat \<Rightarrow> string" where
  "circuit_message n = ''Circuit breaker open: '' @ show_int (int n) @ '' consecutive failures''"

definition refuse_open :: "submit_env \<Rightarrow> risk_score \<Rightarrow> nat \<Rightarrow> pub_world \<Rightarrow> (publish_error + 'a) \<times> pub_world" where
  "refuse_open env s n w =
     (let w1 = save_submission s Sub_Skipped None (Some ''Circuit breaker open'') w
      in (Inl (Circuit_Open (circuit_message n)),
          w1\<lparr>pw_letters := write_dead_letter (sm_db_ok env) (sm_max_rows env) (sm_created env) (rs_wallet s) (rs_asset_pair s) (rs_score s)
               (unix_seconds (rs_timestamp s)) (circuit_message n) (pw_letters w1)\<rparr>))"

definition perform_submission :: "submit_env \<Rightarrow> risk_score \<Rightarrow> pub_world \<Rightarrow> (publish_error + string option) \<times> pub_world" where
  "perform_submission env s w =
     (case execute_with_retries (sm_server env) (score_tx s) of
        (Inr h, sent) \<Rightarrow>
          (Inr (Some h), save_submission s Sub_Submitted (Some h) None
             (w\<lparr>pw_circuit := circuit_success (pw_circuit w), pw_sent := pw_sent w @ sent\<rparr>))
      | (Inl (recorded, e), sent) \<Rightarrow>
          (Inl (Submission_Error e), save_submission s Sub_Failed None (Some ''Submission failed after retries'')
             (w\<lparr>pw_circuit := circuit_failure recorded (sm_failed_wall env) (sm_failed_at env) (pw_circuit w), pw_sent := pw_sent w @ sent\<rparr>)))"

definition submit_score :: "bool \<Rightarrow> submit_env \<Rightarrow> risk_score \<Rightarrow> pub_world \<Rightarrow> (publish_error + string option) \<times> pub_world" where
  "submit_score dry_run env s w =
     (if \<not> sm_lease env then (Inl Lease_Error, w)
      else case check_circuit (sm_check_at env) (pw_circuit w) of
        (Some n, c) \<Rightarrow> refuse_open env s n (w\<lparr>pw_circuit := c\<rparr>)
      | (None, c) \<Rightarrow>
          (let w1 = w\<lparr>pw_circuit := c\<rparr>
           in if \<not> sm_bundle_ok env then (Inl Bundle_Error, w1)
              else if dry_run then (Inr None, save_submission s Sub_Skipped None None w1)
              else perform_submission env s w1))"

text \<open>The payload signed by a quorum is submitted once, without the lease and without telling the circuit breaker how it went.\<close>

definition submit_with_quorum :: "submit_env \<Rightarrow> risk_score \<Rightarrow> pub_world \<Rightarrow> bool \<times> pub_world" where
  "submit_with_quorum env s w =
     (case check_circuit (sm_check_at env) (pw_circuit w) of
        (Some _, c) \<Rightarrow> (False, save_submission s Sub_Skipped None (Some ''Circuit breaker open'') (w\<lparr>pw_circuit := c\<rparr>))
      | (None, c) \<Rightarrow>
          (case submit_once (sm_server env 0) 1 ((score_tx s)\<lparr>tx_score := rs_score s\<rparr>) of
             (Inr h, sent) \<Rightarrow> (True, save_submission s Sub_Submitted (Some h) None (w\<lparr>pw_circuit := c, pw_sent := pw_sent w @ sent\<rparr>))
           | (Inl _, sent) \<Rightarrow> (False, w\<lparr>pw_circuit := c, pw_sent := pw_sent w @ sent\<rparr>)))"

datatype batch_answer = Batch_Hash string | Batch_Skipped | Batch_Error publish_error

definition batch_key :: "risk_score \<Rightarrow> string" where
  "batch_key s = rs_wallet s @ '':'' @ rs_asset_pair s"

fun batch_loop :: "bool \<Rightarrow> (risk_score \<times> submit_env) list \<Rightarrow> (string, batch_answer) dict \<Rightarrow> pub_world \<Rightarrow> (string, batch_answer) dict \<times> pub_world" where
  "batch_loop dry_run [] results w = (results, w)"
| "batch_loop dry_run ((s, env) # rest) results w =
     (case submit_score dry_run env s w of
        (Inr (Some h), w1) \<Rightarrow> batch_loop dry_run rest (dict_set (batch_key s) (if h = [] then Batch_Skipped else Batch_Hash h) results) w1
      | (Inr None, w1) \<Rightarrow> batch_loop dry_run rest (dict_set (batch_key s) Batch_Skipped results) w1
      | (Inl (Circuit_Open m), w1) \<Rightarrow> (dict_set (batch_key s) (Batch_Error (Circuit_Open m)) results, w1)
      | (Inl e, w1) \<Rightarrow> batch_loop dry_run rest (dict_set (batch_key s) (Batch_Error e) results) w1)"

definition submit_batch :: "bool \<Rightarrow> bool \<Rightarrow> (risk_score \<times> submit_env) list \<Rightarrow> pub_world \<Rightarrow> (publish_error + (string, batch_answer) dict) \<times> pub_world" where
  "submit_batch dry_run lease items w =
     (if \<not> lease then (Inl Lease_Error, w) else let (results, w') = batch_loop dry_run items [] w in (Inr results, w'))"

section \<open>Replay of the dead letters\<close>

definition score_of_letter :: "dead_letter \<Rightarrow> risk_score" where
  "score_of_letter l =
     \<lparr>rs_wallet = dl_wallet l, rs_asset_pair = dl_asset_pair l, rs_score = dl_score l, rs_benford_flag = False, rs_ml_flag = False,
      rs_confidence = 0, rs_disputed = False, rs_timestamp = dl_ledger_timestamp l * microseconds_per_second, rs_latency_ms = None,
      rs_score_lower = None, rs_score_upper = None, rs_prediction_set = None, rs_coverage_guarantee = None\<rparr>"

definition settle_letter :: "instant \<Rightarrow> nat \<Rightarrow> letter_status \<Rightarrow> string option \<Rightarrow> letter_box \<Rightarrow> letter_box" where
  "settle_letter now i status tx_hash b =
     b\<lparr>lb_rows := update_where (\<lambda>r. dl_id r = i) (\<lambda>r. r\<lparr>dl_status := status, dl_replayed_at := Some now, dl_replay_tx_hash := tx_hash\<rparr>) (lb_rows b)\<rparr>"

definition replay_letter :: "submit_env \<Rightarrow> instant \<Rightarrow> dead_letter \<Rightarrow> pub_world \<Rightarrow> pub_world" where
  "replay_letter env now l w =
     (case submit_score False env (score_of_letter l) w of
        (Inr tx_hash, w1) \<Rightarrow> w1\<lparr>pw_letters := settle_letter now (dl_id l) Replayed tx_hash (pw_letters w1)\<rparr>
      | (Inl _, w1) \<Rightarrow> w1\<lparr>pw_letters := settle_letter now (dl_id l) Letter_Failed None (pw_letters w1)\<rparr>)"

text \<open>The command: a new publisher works on the oldest pending letters; \<open>envs i\<close> and \<open>clock i\<close> are the inputs of item \<open>i\<close>.\<close>

definition dlq_replay :: "nat \<Rightarrow> (nat \<Rightarrow> submit_env) \<Rightarrow> (nat \<Rightarrow> instant) \<Rightarrow> pub_world \<Rightarrow> pub_world" where
  "dlq_replay limit envs clock w =
     (let items = fst (get_dlq_entries (Some Letter_Pending) 1 limit (pw_letters w));
          w' = fold (\<lambda>(i, l). replay_letter (envs i) (clock i) l) (enumerate 0 items) (w\<lparr>pw_circuit := new_circuit 5 300\<rparr>)
      in w'\<lparr>pw_circuit := pw_circuit w\<rparr>)"

section \<open>At most one region is granted the lease\<close>

text \<open>
  What Kubernetes documents: a lease is created only where there is none, and replaced only at the version that was read, which
  changes with the write.
\<close>

locale lease_server =
  fixes api :: "'k lease_api"
  assumes create_new: "la_read api k = None \<Longrightarrow>
      fst (la_create api r d k) \<and> (\<exists>v. la_read api (snd (la_create api r d k)) = Some \<lparr>ls_holder = Some r, ls_renew_time = None, ls_version = v\<rparr>)"
    and create_old: "la_read api k = Some l \<Longrightarrow> \<not> fst (la_create api r d k) \<and> la_read api (snd (la_create api r d k)) = Some l"
    and replace_read: "la_read api k = Some l \<Longrightarrow> fst (la_replace api r d (ls_version l) k) \<and>
      (\<exists>v>ls_version l. la_read api (snd (la_replace api r d (ls_version l) k)) = Some \<lparr>ls_holder = Some r, ls_renew_time = None, ls_version = v\<rparr>)"
    and replace_other: "\<forall>l. la_read api k = Some l \<longrightarrow> v \<noteq> ls_version l \<Longrightarrow>
      \<not> fst (la_replace api r d v k) \<and> la_read api (snd (la_replace api r d v k)) = la_read api k"

text \<open>
  Processes of several regions read and write at any time. The state is the cluster, what each process is about to do, and the regions that
  were told that they hold the lease.
\<close>

datatype lease_step = Lease_Read nat string real bool | Lease_Write nat call_outcome

record 'k lease_run =
  lr_cluster :: 'k
  lr_plans :: "(nat, string \<times> lease_plan) dict"
  lr_granted :: "string list"

fun step_lease :: "'k lease_api \<Rightarrow> int \<Rightarrow> lease_step \<Rightarrow> 'k lease_run \<Rightarrow> 'k lease_run" where
  "step_lease api d (Lease_Read p region now reached) s =
     s\<lparr>lr_plans := dict_set p (region, lease_decide region d now reached (la_read api (lr_cluster s))) (lr_plans s)\<rparr>"
| "step_lease api d (Lease_Write p outcome) s =
     (case dict_get (lr_plans s) p of
        None \<Rightarrow> s
      | Some (region, plan) \<Rightarrow>
          (let (granted, k) = lease_write api region d outcome plan (lr_cluster s)
           in \<lparr>lr_cluster = k, lr_plans = dict_del p (lr_plans s), lr_granted = (if granted then lr_granted s @ [region] else lr_granted s)\<rparr>))"

definition unclaimed :: "lease option \<Rightarrow> bool" where
  "unclaimed found \<longleftrightarrow> (case found of None \<Rightarrow> True | Some l \<Rightarrow> ls_holder l \<in> {None, Some []})"

definition claimed_by :: "string \<Rightarrow> lease option \<Rightarrow> bool" where
  "claimed_by h found \<longleftrightarrow> h \<noteq> [] \<and> (\<exists>v. found = Some \<lparr>ls_holder = Some h, ls_renew_time = None, ls_version = v\<rparr>)"

text \<open>Before the lease is claimed nobody was granted it; afterwards only its holder was, and will be.\<close>

definition pending_unclaimed :: "lease option \<Rightarrow> string \<Rightarrow> lease_plan \<Rightarrow> bool" where
  "pending_unclaimed found r plan \<longleftrightarrow>
     r \<noteq> [] \<and> plan \<noteq> Answer True \<and> (\<forall>v. plan = Replace_Lease v \<longrightarrow> (\<exists>l. found = Some l \<and> v \<le> ls_version l))"

definition pending_claimed :: "string \<Rightarrow> lease option \<Rightarrow> string \<Rightarrow> lease_plan \<Rightarrow> bool" where
  "pending_claimed h found r plan \<longleftrightarrow>
     r \<noteq> [] \<and> (plan = Answer True \<longrightarrow> r = h) \<and> (\<forall>v. plan = Replace_Lease v \<longrightarrow> (\<exists>l. found = Some l \<and> v < ls_version l))"

definition all_plans :: "(string \<Rightarrow> lease_plan \<Rightarrow> bool) \<Rightarrow> (nat, string \<times> lease_plan) dict \<Rightarrow> bool" where
  "all_plans P plans \<longleftrightarrow> (\<forall>p r plan. dict_get plans p = Some (r, plan) \<longrightarrow> P r plan)"

definition lease_inv :: "'k lease_api \<Rightarrow> 'k lease_run \<Rightarrow> bool" where
  "lease_inv api s \<longleftrightarrow>
     (let found = la_read api (lr_cluster s)
      in unclaimed found \<and> lr_granted s = [] \<and> all_plans (pending_unclaimed found) (lr_plans s) \<or>
         (\<exists>h. claimed_by h found \<and> set (lr_granted s) \<subseteq> {h} \<and> all_plans (pending_claimed h found) (lr_plans s)))"

lemma all_plans_set: "all_plans P plans \<Longrightarrow> P r plan \<Longrightarrow> all_plans P (dict_set p (r, plan) plans)"
  by (simp add: all_plans_def dict_get_set)

lemma all_plans_del: "all_plans P plans \<Longrightarrow> all_plans P (dict_del p plans)"
  by (simp add: all_plans_def dict_get_del)

lemma all_plans_mono: "all_plans P plans \<Longrightarrow> (\<And>r plan. P r plan \<Longrightarrow> Q r plan) \<Longrightarrow> all_plans Q plans"
  by (simp add: all_plans_def)

lemma decide_unclaimed: "unclaimed found \<Longrightarrow> r \<noteq> [] \<Longrightarrow> pending_unclaimed found r (lease_decide r d now reached found)"
  by (auto simp: unclaimed_def lease_decide_def lease_stale_def pending_unclaimed_def split: option.splits if_splits)

lemma decide_claimed: "claimed_by h found \<Longrightarrow> r \<noteq> [] \<Longrightarrow> pending_claimed h found r (lease_decide r d now reached found)"
  by (auto simp: claimed_by_def lease_decide_def lease_stale_def pending_claimed_def split: if_splits)

lemma lease_inv_unclaimed:
  "unclaimed (la_read api (lr_cluster s)) \<Longrightarrow> lr_granted s = [] \<Longrightarrow> all_plans (pending_unclaimed (la_read api (lr_cluster s))) (lr_plans s) \<Longrightarrow>
   lease_inv api s"
  by (simp add: lease_inv_def Let_def)

lemma lease_inv_claimed:
  "claimed_by h (la_read api (lr_cluster s)) \<Longrightarrow> set (lr_granted s) \<subseteq> {h} \<Longrightarrow>
   all_plans (pending_claimed h (la_read api (lr_cluster s))) (lr_plans s) \<Longrightarrow> lease_inv api s"
  unfolding lease_inv_def Let_def by blast

lemma lease_inv_cases:
  assumes "lease_inv api s"
  obtains (unclaimed) "unclaimed (la_read api (lr_cluster s))" "lr_granted s = []" "all_plans (pending_unclaimed (la_read api (lr_cluster s))) (lr_plans s)"
  | (claimed) h where "claimed_by h (la_read api (lr_cluster s))" "set (lr_granted s) \<subseteq> {h}"
      "all_plans (pending_claimed h (la_read api (lr_cluster s))) (lr_plans s)"
  using assms unfolding lease_inv_def Let_def by blast

lemma read_keeps:
  assumes "lease_inv api s" "region \<noteq> []"
  shows "lease_inv api (step_lease api d (Lease_Read p region now reached) s)"
  using assms(1)
proof (cases rule: lease_inv_cases)
  case unclaimed
  then show ?thesis by (intro lease_inv_unclaimed) (simp_all add: all_plans_set decide_unclaimed assms(2))
next
  case (claimed h)
  then show ?thesis by (intro lease_inv_claimed [of h]) (simp_all add: all_plans_set decide_claimed assms(2))
qed

context lease_server
begin

lemma write_unclaimed:
  assumes "unclaimed (la_read api k)" "pending_unclaimed (la_read api k) r plan" "lease_write api r d outcome plan k = (g, k')"
  shows "\<not> g \<and> la_read api k' = la_read api k \<or>
    claimed_by r (la_read api k') \<and> (\<forall>l l'. la_read api k = Some l \<longrightarrow> la_read api k' = Some l' \<longrightarrow> ls_version l < ls_version l')"
proof (cases plan)
  case (Answer b)
  with assms show ?thesis by (auto simp: lease_write_def pending_unclaimed_def)
next
  case Create_Lease
  then show ?thesis
    using assms create_new [of k r d] create_old [of k _ r d]
    by (cases "la_read api k"; cases outcome) (auto simp: lease_write_def pending_unclaimed_def claimed_by_def split: prod.splits)
next
  case (Replace_Lease v)
  with assms(2) obtain l where l: "la_read api k = Some l" by (auto simp: pending_unclaimed_def)
  show ?thesis
    using assms Replace_Lease l replace_read [OF l, of r d] replace_other [of k v r d]
    by (cases "v = ls_version l"; cases outcome) (auto simp: lease_write_def pending_unclaimed_def claimed_by_def split: prod.splits)
qed

lemma write_claimed:
  assumes "claimed_by h (la_read api k)" "pending_claimed h (la_read api k) r plan" "lease_write api r d outcome plan k = (g, k')"
  shows "la_read api k' = la_read api k \<and> (g \<longrightarrow> r = h)"
proof (cases plan)
  case (Answer b)
  with assms show ?thesis by (auto simp: lease_write_def pending_claimed_def)
next
  case Create_Lease
  then show ?thesis using assms create_old [of k _ r d] by (cases outcome) (auto simp: lease_write_def claimed_by_def split: prod.splits)
next
  case (Replace_Lease v)
  then show ?thesis using assms replace_other [of k v r d]
    by (cases outcome) (auto simp: lease_write_def claimed_by_def pending_claimed_def split: prod.splits)
qed

lemma write_keeps:
  assumes "lease_inv api s"
  shows "lease_inv api (step_lease api d (Lease_Write p outcome) s)"
proof (cases "dict_get (lr_plans s) p")
  case None
  with assms show ?thesis by simp
next
  case (Some rp)
  obtain r plan where rp: "rp = (r, plan)" by fastforce
  let ?k = "lr_cluster s"
  obtain g k' where w: "lease_write api r d outcome plan ?k = (g, k')" by fastforce
  have step: "step_lease api d (Lease_Write p outcome) s =
      \<lparr>lr_cluster = k', lr_plans = dict_del p (lr_plans s), lr_granted = (if g then lr_granted s @ [r] else lr_granted s)\<rparr>"
    by (simp add: Some rp w)
  from assms show ?thesis
  proof (cases rule: lease_inv_cases)
    case un: unclaimed
    have "r \<noteq> []" and pl: "pending_unclaimed (la_read api ?k) r plan" using un(3) Some rp by (auto simp: all_plans_def pending_unclaimed_def)
    from write_unclaimed [OF un(1) pl w] consider "\<not> g" "la_read api k' = la_read api ?k"
      | "claimed_by r (la_read api k')" "\<And>l l'. la_read api ?k = Some l \<Longrightarrow> la_read api k' = Some l' \<Longrightarrow> ls_version l < ls_version l'" by blast
    then show ?thesis
    proof cases
      case 1
      then show ?thesis unfolding step using un by (simp add: lease_inv_unclaimed all_plans_del)
    next
      case 2
      then obtain l' where l': "la_read api k' = Some l'" by (auto simp: claimed_by_def)
      have "all_plans (pending_claimed r (la_read api k')) (lr_plans s)"
        by (rule all_plans_mono [OF un(3)]) (use 2(2) l' in \<open>fastforce simp: pending_unclaimed_def pending_claimed_def\<close>)
      then show ?thesis unfolding step using 2(1) un(2) by (intro lease_inv_claimed [of r]) (simp_all add: all_plans_del)
    qed
  next
    case cl: (claimed h)
    have pl: "pending_claimed h (la_read api ?k) r plan" using cl(3) Some rp by (auto simp: all_plans_def)
    have "set (if g then lr_granted s @ [r] else lr_granted s) \<subseteq> {h}" using write_claimed [OF cl(1) pl w] cl(2) by auto
    then show ?thesis unfolding step using write_claimed [OF cl(1) pl w] cl(1,3) by (intro lease_inv_claimed [of h]) (simp_all add: all_plans_del)
  qed
qed

lemma run_keeps:
  assumes "\<And>p r now re. Lease_Read p r now re \<in> set steps \<Longrightarrow> r \<noteq> []" "lease_inv api s"
  shows "lease_inv api (fold (step_lease api d) steps s)"
proof (rule fold_keeps [where P = "lease_inv api", OF assms(2)])
  fix x s assume x: "x \<in> set steps" "lease_inv api s"
  show "lease_inv api (step_lease api d x s)"
  proof (cases x)
    case Lease_Read
    with x assms(1) show ?thesis by (blast intro: read_keeps)
  next
    case Lease_Write
    with x show ?thesis by (blast intro: write_keeps)
  qed
qed

end

text \<open>A server that keeps exactly what the laws say.\<close>

definition ref_lease :: "lease option lease_api" where
  "ref_lease =
     \<lparr>la_read = (\<lambda>k. k),
      la_create = (\<lambda>r d k. case k of None \<Rightarrow> (True, Some \<lparr>ls_holder = Some r, ls_renew_time = None, ls_version = 1\<rparr>) | Some l \<Rightarrow> (False, k)),
      la_replace = (\<lambda>r d v k. case k of None \<Rightarrow> (False, k)
        | Some l \<Rightarrow> if v = ls_version l then (True, Some \<lparr>ls_holder = Some r, ls_renew_time = None, ls_version = v + 1\<rparr>) else (False, k))\<rparr>"

interpretation ref: lease_server ref_lease
  by unfold_locales (auto simp: ref_lease_def split: option.splits)

definition lease_start :: "'k \<Rightarrow> 'k lease_run" where
  "lease_start k = \<lparr>lr_cluster = k, lr_plans = [], lr_granted = []\<rparr>"

lemma lease_start_inv: "unclaimed (la_read api k) \<Longrightarrow> lease_inv api (lease_start k)"
  by (rule lease_inv_unclaimed) (simp_all add: lease_start_def all_plans_def)


definition sample_lease_steps :: "lease_step list" where
  "sample_lease_steps = [Lease_Read 1 ''eu'' 0 True, Lease_Read 2 ''us'' 0 True, Lease_Write 2 Answered, Lease_Write 1 Answered,
     Lease_Read 3 ''us'' 5 True, Lease_Write 3 Answered]"

lemma sample_lease_granted:
  "lr_granted (fold (step_lease ref_lease 30) sample_lease_steps (lease_start None)) = [''us'', ''us'']"
  by (simp add: sample_lease_steps_def lease_start_def ref_lease_def lease_decide_def lease_stale_def lease_write_def dict_del_def)


text \<open>
  The code writes no renewal time, and without one a lease is never stale: once a region has claimed the lease, no other region gets it, however
  long the holder has been silent.
\<close>

lemma lease_never_fails_over:
  assumes "claimed_by h (la_read api k)" "r \<noteq> h"
  shows "acquire_submission_lease api True r d now reached outcome k = (False, k)"
  using assms by (auto simp: acquire_submission_lease_def claimed_by_def lease_decide_def lease_stale_def lease_write_def)

section \<open>Every submission is accounted for\<close>

lemma poll_result_hash:
  "poll_result polls n h = Inr h' \<Longrightarrow> n \<le> max_polls \<Longrightarrow>
   h' = h \<and> (\<exists>i<max_polls. max_polls - n \<le> i \<and> polls i = Poll_Success \<and> (\<forall>j<i. max_polls - n \<le> j \<longrightarrow> polls j = Poll_Pending))"
proof (induction n)
  case (Suc n)
  let ?i = "max_polls - Suc n"
  have i: "?i < max_polls" "max_polls - n = Suc ?i" using Suc.prems(2) by (auto simp: max_polls_def)
  show ?case
  proof (cases "polls ?i")
    case Poll_Success
    then show ?thesis using Suc.prems i by (intro conjI exI [of _ ?i]) auto
  next
    case Poll_Pending
    with Suc obtain m where m: "h' = h" "m < max_polls" "max_polls - n \<le> m" "polls m = Poll_Success"
      "\<forall>j<m. max_polls - n \<le> j \<longrightarrow> polls j = Poll_Pending" by auto
    have "polls j = Poll_Pending" if "j < m" "?i \<le> j" for j
      using m(5) that i Poll_Pending by (cases "j = ?i") auto
    then show ?thesis using m i by (intro conjI exI [of _ m]) auto
  qed (use Suc.prems in auto)
qed simp

text \<open>A transaction with a hash was sent and confirmed by one of the thirty polls.\<close>

definition confirmed :: "server_env \<Rightarrow> string \<Rightarrow> bool" where
  "confirmed env h \<longleftrightarrow> se_send env = Send_Hash h \<and> (\<exists>i<max_polls. se_polls env i = Poll_Success \<and> (\<forall>j<i. se_polls env j = Poll_Pending))"

lemma submit_once_result:
  assumes "submit_once env m tx = (res, sent)"
  shows "length sent \<le> 1" "\<forall>t\<in>set sent. t = tx\<lparr>tx_fee := tx_fee t\<rparr>" "res = Inr h \<Longrightarrow> confirmed env h"
proof -
  show "length sent \<le> 1" "\<forall>t\<in>set sent. t = tx\<lparr>tx_fee := tx_fee t\<rparr>"
    using assms by (auto simp: submit_once_def Let_def split: option.splits sim_answer.splits send_answer.splits)
  assume "res = Inr h"
  with assms obtain h' where "se_send env = Send_Hash h'" "poll_result (se_polls env) max_polls h' = Inr h"
    by (auto simp: submit_once_def Let_def split: option.splits sim_answer.splits send_answer.splits)
  with poll_result_hash [of "se_polls env" max_polls h' h] show "confirmed env h" by (auto simp: confirmed_def)
qed

lemma execute_result:
  assumes "execute_with_retries envs tx = (res, sent)"
  shows "length sent \<le> 2 \<and> (\<forall>t\<in>set sent. t = tx\<lparr>tx_fee := tx_fee t\<rparr>) \<and> (\<forall>h. res = Inr h \<longrightarrow> (\<exists>i<2. confirmed (envs i) h))"
proof -
  obtain r0 s0 where 0: "submit_once (envs 0) 1 tx = (r0, s0)" by fastforce
  obtain r1 s1 where 1: "submit_once (envs 1) 1 tx = (r1, s1)" by fastforce
  obtain r2 s2 where 2: "submit_once (envs 1) (3 / 2) tx = (r2, s2)" by fastforce
  note once = submit_once_result [OF 0] submit_once_result [OF 1] submit_once_result [OF 2]
  have "(res, sent) \<in> {(Inr h, s0) | h. r0 = Inr h} \<union> {(Inr h, s0 @ s1) | h. r1 = Inr h} \<union> {(Inr h, s0 @ s2) | h. r2 = Inr h} \<union>
      {(Inl e, s) | e s. s \<in> {s0, s0 @ s1, s0 @ s2}}"
    using assms by (auto simp: execute_with_retries_def second_attempt_def give_up_def 0 1 2 simp del: One_nat_def split: sum.splits if_splits)
  then consider (first) h where "res = Inr h" "sent = s0" "r0 = Inr h" | (again) h where "res = Inr h" "sent = s0 @ s1" "r1 = Inr h"
    | (fee) h where "res = Inr h" "sent = s0 @ s2" "r2 = Inr h" | (none) e where "res = Inl e" "sent \<in> {s0, s0 @ s1, s0 @ s2}" by blast
  then show ?thesis
  proof cases
    case first
    then show ?thesis using once(1,2) once(3) [of h] by (auto intro!: exI [of _ 0])
  next
    case again
    then show ?thesis using once(1,2,4,5) once(6) [of h] by (auto intro!: exI [of _ 1])
  next
    case fee
    then show ?thesis using once(1,2,7,8) once(9) [of h] by (auto intro!: exI [of _ 1])
  next
    case none
    then show ?thesis using once(1,2,4,5,7,8) by auto
  qed
qed

lemma sort_key_append_max:
  fixes f :: "'a \<Rightarrow> 'b::linorder"
  assumes "\<forall>y\<in>set xs. f y \<le> f x"
  shows "sort_key f (xs @ [x]) = sort_key f xs @ [x]"
proof -
  have ins: "f a \<le> f x \<Longrightarrow> insort_key f a (ys @ [x]) = insort_key f a ys @ [x]" for a ys by (induction ys) auto
  have "foldr (insort_key f) xs [x] = foldr (insort_key f) xs [] @ [x]" using assms by (induction xs) (auto simp: ins)
  then show ?thesis by (simp add: sort_key_def)
qed

definition letters_ok :: "letter_box \<Rightarrow> bool" where
  "letters_ok b \<longleftrightarrow> (\<forall>l\<in>set (lb_rows b). dl_id l < lb_next b)"

text \<open>The new letter is never the one that is pruned when the clock does not run backwards.\<close>

lemma letter_written:
  assumes "letters_ok b" "\<forall>l\<in>set (lb_rows b). dl_created_at l \<le> created" "0 < max_rows"
  shows "\<exists>l\<in>set (lb_rows (write_dead_letter True max_rows created wallet pair score ts error b)).
    dl_wallet l = wallet \<and> dl_asset_pair l = pair \<and> dl_score l = score \<and> dl_ledger_timestamp l = ts \<and> dl_status l = Letter_Pending"
proof -
  define l where "l = \<lparr>dl_id = lb_next b, dl_wallet = wallet, dl_asset_pair = pair, dl_score = score, dl_ledger_timestamp = ts,
    dl_error_message = error, dl_status = Letter_Pending, dl_created_at = created, dl_replayed_at = None, dl_replay_tx_hash = None\<rparr>"
  have srt: "oldest_first (lb_rows b @ [l]) = oldest_first (lb_rows b) @ [l]"
    using assms(2) by (simp add: oldest_first_def sort_key_append_max l_def)
  have "set (take (length (lb_rows b @ [l]) - max_rows) (oldest_first (lb_rows b @ [l]))) \<subseteq> set (lb_rows b)"
    using assms(3) set_take_subset [of "length (lb_rows b @ [l]) - max_rows" "oldest_first (lb_rows b)"]
    unfolding srt by (simp add: oldest_first_def)
  then have "dl_id l \<notin> dl_id ` set (take (length (lb_rows b @ [l]) - max_rows) (oldest_first (lb_rows b @ [l])))"
    using assms(1) by (fastforce simp: letters_ok_def l_def)
  then have "l \<in> set (prune_letters max_rows (lb_rows b @ [l]))" by (simp add: prune_letters_def)
  moreover have "dl_wallet l = wallet \<and> dl_asset_pair l = pair \<and> dl_score l = score \<and> dl_ledger_timestamp l = ts \<and> dl_status l = Letter_Pending"
    by (simp add: l_def)
  moreover have "lb_rows (write_dead_letter True max_rows created wallet pair score ts error b) = prune_letters max_rows (lb_rows b @ [l])"
    by (simp add: write_dead_letter_def l_def)
  ultimately show ?thesis by (auto simp del: ex_simps)
qed

lemma write_dead_letter_ok: "letters_ok b \<Longrightarrow> letters_ok (write_dead_letter db_ok max_rows created wallet pair score ts error b)"
  by (auto simp: letters_ok_def write_dead_letter_def prune_letters_def less_Suc_eq split: if_splits)

lemma publisher_circuit_open: "check_circuit now c = (Some n, c') \<Longrightarrow> ci_state c = OPEN \<and> c' = c \<and> n = ci_failures c"
  by (auto simp: check_circuit_def split: circuit_state.splits option.splits if_splits)

lemma check_circuit_passes: "check_circuit now c = (None, c') \<Longrightarrow> c' = c \<or> c' = c\<lparr>ci_state := HALF_OPEN\<rparr>"
  by (auto simp: check_circuit_def split: circuit_state.splits option.splits if_splits)

lemma circuit_failure_count: "ci_failures (circuit_failure e wall now c) = ci_failures c + 1"
  by (simp add: circuit_failure_def Let_def)

text \<open>What became of a score, as its caller is told.\<close>

definition accounted :: "submit_env \<Rightarrow> pub_world \<Rightarrow> publish_error + string option \<Rightarrow> submission_row \<Rightarrow> chain_tx list \<Rightarrow> pub_world \<Rightarrow> bool" where
  "accounted env w r row sent w' \<longleftrightarrow>
     (case r of
        Inr tx_hash \<Rightarrow> sb_status row = Sub_Submitted \<and> sb_tx_hash row = tx_hash \<and> ci_failures (pw_circuit w') = 0 \<and> pw_letters w' = pw_letters w \<and>
          (\<exists>h i. tx_hash = Some h \<and> i < 2 \<and> confirmed (sm_server env i) h)
      | Inl (Submission_Error e) \<Rightarrow> sb_status row = Sub_Failed \<and> ci_failures (pw_circuit w') = ci_failures (pw_circuit w) + 1 \<and>
          pw_letters w' = pw_letters w
      | Inl (Circuit_Open e) \<Rightarrow> sb_status row = Sub_Skipped \<and> sent = [] \<and> ci_state (pw_circuit w) = OPEN \<and> pw_circuit w' = pw_circuit w \<and>
          (sm_db_ok env \<and> 0 < sm_max_rows env \<and> letters_ok (pw_letters w) \<and> (\<forall>l\<in>set (lb_rows (pw_letters w)). dl_created_at l \<le> sm_created env) \<longrightarrow>
            (\<exists>l\<in>set (lb_rows (pw_letters w')). dl_wallet l = sb_wallet row \<and> dl_asset_pair l = sb_asset_pair row \<and> dl_score l = sb_score row \<and>
               dl_status l = Letter_Pending))
      | Inl _ \<Rightarrow> False)"


definition sample_score :: risk_score where
  "sample_score = \<lparr>rs_wallet = ''W'', rs_asset_pair = ''P'', rs_score = 80, rs_benford_flag = True, rs_ml_flag = True, rs_confidence = 90,
     rs_disputed = False, rs_timestamp = 0, rs_latency_ms = None, rs_score_lower = None, rs_score_upper = None, rs_prediction_set = None,
     rs_coverage_guarantee = None\<rparr>"

definition sample_submission_env :: "real \<Rightarrow> (nat \<Rightarrow> server_env) \<Rightarrow> submit_env" where
  "sample_submission_env t server = \<lparr>sm_lease = True, sm_check_at = t, sm_failed_at = t + 1, sm_failed_wall = t, sm_created = 0, sm_db_ok = True,
     sm_max_rows = 10, sm_bundle_ok = True, sm_server = server\<rparr>"

definition answering_server :: "nat \<Rightarrow> server_env" where
  "answering_server i = \<lparr>se_load_error = None, se_sim = Sim_Ok 100, se_send = (if i = 0 then Send_Error ''tx_bad_seq'' else Send_Hash ''h''),
     se_polls = (\<lambda>_. Poll_Success)\<rparr>"

definition failing_server :: "nat \<Rightarrow> server_env" where
  "failing_server i = \<lparr>se_load_error = Some ''no route'', se_sim = Sim_Ok 100, se_send = Send_Hash ''h'', se_polls = (\<lambda>_. Poll_Pending)\<rparr>"

definition new_world :: "nat \<Rightarrow> real \<Rightarrow> pub_world" where
  "new_world threshold reset_seconds =
     \<lparr>pw_circuit = new_circuit threshold reset_seconds, pw_letters = \<lparr>lb_rows = [], lb_next = 1\<rparr>, pw_rows = [], pw_sent = []\<rparr>"

lemma retried_submission:
  "submit_score False (sample_submission_env 0 answering_server) sample_score (new_world 1 300) =
     (Inr (Some ''h''), (new_world 1 300)\<lparr>
        pw_rows := [\<lparr>sb_wallet = ''W'', sb_asset_pair = ''P'', sb_score = 80, sb_tx_hash = Some ''h'', sb_status = Sub_Submitted, sb_error_message = None\<rparr>],
        pw_sent := replicate 2 \<lparr>tx_wallet = ''W'', tx_pair = ''P'', tx_score = 80, tx_timestamp = 0, tx_fee = 100\<rparr>\<rparr>)"
proof -
  have "poll_result (\<lambda>_. Poll_Success) (Suc n) ''h'' = Inr ''h''" for n by simp
  from this [of 29] have "poll_result (\<lambda>_. Poll_Success) max_polls ''h'' = Inr ''h''" by (simp add: max_polls_def)
  moreover have "py_contains ''bad_seq'' (py_lower ''tx_bad_seq'')" "\<not> auth_failed ''tx_bad_seq''" by code_simp+
  ultimately show ?thesis
    by (simp add: submit_score_def sample_submission_env_def new_world_def new_circuit_def check_circuit_def perform_submission_def execute_with_retries_def
        second_attempt_def submit_once_def answering_server_def sample_score_def score_tx_def unix_seconds_def save_submission_def
        circuit_success_def numeral_2_eq_2)
qed


section \<open>The circuit breaker stops submissions\<close>

type_synonym submit_call = "risk_score \<times> submit_env"

fun run_submits :: "submit_call list \<Rightarrow> pub_world \<Rightarrow> (publish_error + string option) list \<times> pub_world" where
  "run_submits [] w = ([], w)"
| "run_submits ((s, env) # calls) w =
     (let (r, w1) = submit_score False env s w; (rs, w2) = run_submits calls w1 in (r # rs, w2))"

definition failed_result :: "publish_error + string option \<Rightarrow> bool" where
  "failed_result r \<longleftrightarrow> (\<exists>e. r = Inl (Submission_Error e))"

lemma failed_submission_circuit:
  assumes "submit_score False env s w = (Inl (Submission_Error e), w')"
  shows "ci_failures (pw_circuit w') = ci_failures (pw_circuit w) + 1 \<and> ci_threshold (pw_circuit w') = ci_threshold (pw_circuit w) \<and>
    ci_reset_seconds (pw_circuit w') = ci_reset_seconds (pw_circuit w) \<and>
    (ci_threshold (pw_circuit w) \<le> ci_failures (pw_circuit w) + 1 \<longrightarrow> ci_state (pw_circuit w') = OPEN \<and> ci_opened_at (pw_circuit w') = Some (sm_failed_at env))"
proof (cases "check_circuit (sm_check_at env) (pw_circuit w)")
  case (Pair res c)
  with assms have "res = None" by (auto simp: submit_score_def refuse_open_def Let_def split: if_splits option.splits)
  with Pair have c: "c = pw_circuit w \<or> c = (pw_circuit w)\<lparr>ci_state := HALF_OPEN\<rparr>" by (auto dest: check_circuit_passes)
  from assms Pair \<open>res = None\<close> obtain rec sent where
    "pw_circuit w' = circuit_failure rec (sm_failed_wall env) (sm_failed_at env) c"
    by (auto simp: submit_score_def perform_submission_def save_submission_def Let_def split: if_splits prod.splits sum.splits)
  with c show ?thesis by (auto simp: circuit_failure_def Let_def)
qed

lemma failing_run_circuit:
  assumes "run_submits calls w = (rs, w')" "list_all failed_result rs" "calls \<noteq> []"
    and "ci_threshold (pw_circuit w) \<le> ci_failures (pw_circuit w) + length calls"
  shows "ci_state (pw_circuit w') = OPEN \<and> ci_opened_at (pw_circuit w') = Some (sm_failed_at (snd (last calls))) \<and>
    ci_reset_seconds (pw_circuit w') = ci_reset_seconds (pw_circuit w)"
  using assms
proof (induction calls arbitrary: w rs)
  case (Cons call calls)
  obtain s env where call: "call = (s, env)" by fastforce
  obtain r w1 where r: "submit_score False env s w = (r, w1)" by fastforce
  obtain rs' w2 where rs': "run_submits calls w1 = (rs', w2)" by fastforce
  have eq: "rs = r # rs'" "w' = w2" using Cons.prems(1) by (simp_all add: call r rs')
  then obtain e where "r = Inl (Submission_Error e)" using Cons.prems(2) by (auto simp: failed_result_def)
  note f = failed_submission_circuit [OF r [unfolded this]]
  show ?case
  proof (cases "calls = []")
    case True
    then show ?thesis using f Cons.prems(4) rs' eq call by auto
  next
    case False
    then show ?thesis using Cons.IH [OF rs' [folded eq(2)] _ False] f Cons.prems(2,4) eq call by auto
  qed
qed simp

lemma refused_submission:
  assumes "ci_state (pw_circuit w) = OPEN" "ci_opened_at (pw_circuit w) = Some t" "sm_lease env" "sm_check_at env - t < ci_reset_seconds (pw_circuit w)"
  shows "\<exists>w'. submit_score False env s w = (Inl (Circuit_Open (circuit_message (ci_failures (pw_circuit w)))), w') \<and>
    pw_circuit w' = pw_circuit w \<and> pw_sent w' = pw_sent w"
proof -
  have "check_circuit (sm_check_at env) (pw_circuit w) = (Some (ci_failures (pw_circuit w)), pw_circuit w)"
    using assms by (simp add: check_circuit_def)
  then show ?thesis using assms(3) by (simp add: submit_score_def refuse_open_def save_submission_def Let_def)
qed

lemma refused_run:
  assumes "ci_state (pw_circuit w) = OPEN" "ci_opened_at (pw_circuit w) = Some t"
    and "\<forall>(s, env)\<in>set calls. sm_lease env \<and> sm_check_at env - t < ci_reset_seconds (pw_circuit w)"
  shows "\<exists>w'. run_submits calls w = (replicate (length calls) (Inl (Circuit_Open (circuit_message (ci_failures (pw_circuit w))))), w') \<and>
    pw_circuit w' = pw_circuit w \<and> pw_sent w' = pw_sent w"
  using assms
proof (induction calls arbitrary: w)
  case (Cons call calls)
  obtain s env where call: "call = (s, env)" by fastforce
  have "sm_lease env" "sm_check_at env - t < ci_reset_seconds (pw_circuit w)" using Cons.prems(3) by (auto simp: call)
  from refused_submission [OF Cons.prems(1,2) this] obtain w1 where
    w1: "submit_score False env s w = (Inl (Circuit_Open (circuit_message (ci_failures (pw_circuit w)))), w1)" "pw_circuit w1 = pw_circuit w"
      "pw_sent w1 = pw_sent w" by blast
  from Cons.IH [of w1] Cons.prems w1 obtain w2 where "run_submits calls w1 =
      (replicate (length calls) (Inl (Circuit_Open (circuit_message (ci_failures (pw_circuit w))))), w2)" "pw_circuit w2 = pw_circuit w1" "pw_sent w2 = pw_sent w1"
    by auto
  with w1 show ?case by (simp add: call)
qed simp

text \<open>
  C28: The circuit breaker stops submissions and lets them resume. After as many failed submissions in a row as its threshold, with the last failure at
  some instant, all further submissions are refused and none reaches the chain until the reset time has passed; the
  first one after that is carried out again, as a probe.
\<close>

theorem failures_open_circuit:
  assumes "run_submits fails w = (rs, w1)" "list_all failed_result rs" "fails \<noteq> []" "ci_threshold (pw_circuit w) \<le> length fails"
    and "\<forall>(s, env)\<in>set later. sm_lease env \<and> sm_check_at env - sm_failed_at (snd (last fails)) < ci_reset_seconds (pw_circuit w)"
  shows "\<exists>w2. run_submits later w1 = (replicate (length later) (Inl (Circuit_Open (circuit_message (ci_failures (pw_circuit w1))))), w2) \<and>
    pw_sent w2 = pw_sent w1 \<and>
    (\<forall>s env. sm_lease env \<and> sm_bundle_ok env \<and> ci_reset_seconds (pw_circuit w) \<le> sm_check_at env - sm_failed_at (snd (last fails)) \<longrightarrow>
       submit_score False env s w2 = perform_submission env s (w2\<lparr>pw_circuit := (pw_circuit w2)\<lparr>ci_state := HALF_OPEN\<rparr>\<rparr>))"
proof -
  have o: "ci_state (pw_circuit w1) = OPEN" "ci_opened_at (pw_circuit w1) = Some (sm_failed_at (snd (last fails)))"
    "ci_reset_seconds (pw_circuit w1) = ci_reset_seconds (pw_circuit w)"
    using failing_run_circuit [OF assms(1-3)] assms(4) by auto
  from refused_run [OF o(1,2), of later] assms(5) o(3) obtain w2 where
    w2: "run_submits later w1 = (replicate (length later) (Inl (Circuit_Open (circuit_message (ci_failures (pw_circuit w1))))), w2)"
      "pw_circuit w2 = pw_circuit w1" "pw_sent w2 = pw_sent w1" by auto
  then show ?thesis using o by (auto simp: submit_score_def check_circuit_def)
qed

definition failing_calls :: "submit_call list" where
  "failing_calls = [(sample_score, sample_submission_env 0 failing_server), (sample_score, sample_submission_env 10 failing_server)]"

lemma failing_calls_fail: "list_all failed_result (fst (run_submits failing_calls (new_world 2 300)))"
proof -
  have "\<not> py_contains ''bad_seq'' (py_lower ''no route'')" "\<not> auth_failed ''no route''" "\<not> py_contains ''insufficient_fee'' (py_lower ''no route'')"
    "\<not> py_contains ''timeout'' (py_lower ''no route'')" by code_simp+
  then show ?thesis
    by (simp add: failing_calls_def failed_result_def submit_score_def sample_submission_env_def new_world_def new_circuit_def check_circuit_def
        perform_submission_def execute_with_retries_def submit_once_def failing_server_def give_up_def save_submission_def
        circuit_failure_def error_or_def)
qed

theorem failures_open_circuit_witness:
  "\<exists>w2. run_submits [(sample_score, sample_submission_env 20 answering_server)] (snd (run_submits failing_calls (new_world 2 300))) =
     ([Inl (Circuit_Open (circuit_message (ci_failures (pw_circuit (snd (run_submits failing_calls (new_world 2 300)))))))], w2) \<and>
   pw_sent w2 = pw_sent (snd (run_submits failing_calls (new_world 2 300)))"
proof -
  obtain rs w1 where run: "run_submits failing_calls (new_world 2 300) = (rs, w1)" by fastforce
  have "failing_calls \<noteq> []" "ci_threshold (pw_circuit (new_world 2 300)) \<le> length failing_calls"
    "\<forall>(s, env)\<in>set [(sample_score, sample_submission_env 20 answering_server)].
       sm_lease env \<and> sm_check_at env - sm_failed_at (snd (last failing_calls)) < ci_reset_seconds (pw_circuit (new_world 2 300))"
    by (simp_all add: failing_calls_def sample_submission_env_def new_world_def new_circuit_def)
  from failures_open_circuit [OF run _ this] failing_calls_fail run show ?thesis by auto
qed

section \<open>The breaker as a circuit breaker\<close>

definition publisher_call ::
  "seconds \<Rightarrow> seconds \<Rightarrow> ('w, string, 'a) func \<Rightarrow> circuit \<Rightarrow> 'w \<Rightarrow> ((string call_error + 'a) \<times> circuit \<times> 'w) option" where
  "publisher_call now later f c w =
     Some (case check_circuit now c of
        (Some n, c1) \<Rightarrow> (Inl (CircuitOpenError ''soroban''), c1, w)
      | (None, c1) \<Rightarrow>
          (case f w of
             (Inl e, w') \<Rightarrow> (Inl (Raised e), circuit_failure e later later c1, w')
           | (Inr a, w') \<Rightarrow> (Inr a, circuit_success c1, w')))"

definition circuit_wf :: "circuit \<Rightarrow> bool" where
  "circuit_wf c \<longleftrightarrow> (ci_state c = OPEN \<longrightarrow> ci_opened_at c \<noteq> None)"

definition circuit_opened :: "circuit \<Rightarrow> seconds option" where
  "circuit_opened c = (if ci_state c = OPEN then ci_opened_at c else None)"

text \<open>Used by one thread at a time, the breaker keeps the contract of the other breakers.\<close>

interpretation publisher_ff: fast_failing publisher_call circuit_opened ci_reset_seconds "\<lambda>_. ''soroban''" circuit_wf
proof (unfold_locales, goal_cases)
  case 1
  then show ?case by (auto simp: publisher_call_def circuit_opened_def check_circuit_def split: if_splits)
next
  case (2 c now later f w)
  then obtain c1 where "check_circuit now c = (None, c1)"
    by (cases "ci_state c") (auto simp: circuit_wf_def circuit_opened_def check_circuit_def split: option.splits if_splits)
  then show ?case by (auto simp: publisher_call_def split: prod.splits sum.splits)
next
  case (3 c now later f w r c' w')
  then show ?case
    by (auto simp: publisher_call_def circuit_wf_def check_circuit_def circuit_failure_def circuit_success_def Let_def
        split: prod.splits sum.splits option.splits if_splits circuit_state.splits)
qed

text \<open>
  With two threads the contract breaks: a submission that was under way when the circuit opened and then succeeds clears the time of opening but not the
  state, and from then on every check refuses, at any time.
\<close>

lemma late_success_jams_circuit:
  assumes "ci_threshold c \<le> ci_failures c + 1"
  shows "check_circuit now (circuit_success (circuit_failure e wall t c)) = (Some 0, circuit_success (circuit_failure e wall t c))"
  using assms by (simp add: circuit_success_def circuit_failure_def Let_def check_circuit_def)

text \<open>The half-open state admits any number of submissions before the probe has reported.\<close>

lemma half_open_admits_all: "ci_state c = HALF_OPEN \<Longrightarrow> check_circuit now c = (None, c)"
  by (simp add: check_circuit_def)

text \<open>A score signed by a quorum is sent without the lease.\<close>

lemma quorum_ignores_lease: "submit_with_quorum (env\<lparr>sm_lease := b\<rparr>) s w = submit_with_quorum env s w"
  by (simp add: submit_with_quorum_def split: option.split prod.split)

text \<open>A letter replayed by a region without the lease is marked as failed, and is not pending any more.\<close>

lemma replay_without_lease_fails_letter:
  assumes "\<not> sm_lease env" "l \<in> set (lb_rows (pw_letters w))"
  shows "l\<lparr>dl_status := Letter_Failed, dl_replayed_at := Some now, dl_replay_tx_hash := None\<rparr> \<in> set (lb_rows (pw_letters (replay_letter env now l w)))"
    "pw_sent (replay_letter env now l w) = pw_sent w"
  using assms by (auto simp: replay_letter_def submit_score_def settle_letter_def set_update_where)

text \<open>A failed submission leaves no dead letter.\<close>

lemma failed_submission_leaves_no_letter:
  "submit_score False env s w = (Inl (Submission_Error e), w') \<Longrightarrow> pw_letters w' = pw_letters w"
  by (auto simp: submit_score_def perform_submission_def save_submission_def refuse_open_def Let_def
      split: if_splits prod.splits sum.splits option.splits)

text \<open>A batch answers for every score, in order, until the circuit opens.\<close>

lemma dict_keys_set_subset: "fst ` set (dict_set k v d) = insert k (fst ` set d)"
  using arg_cong [OF dict_keys_set [of k v d], of set] by (auto split: if_splits)

lemma batch_keys:
  assumes "batch_loop dry_run items results w = (results', w')"
  shows "\<exists>n. n \<le> length items \<and> set (dict_keys results') = set (dict_keys results) \<union> batch_key ` fst ` set (take n items) \<and>
    (n < length items \<longrightarrow> ci_state (pw_circuit w') = OPEN)"
  using assms
proof (induction items arbitrary: results w)
  case (Cons item items)
  obtain s env where item: "item = (s, env)" by fastforce
  obtain r w1 where r: "submit_score dry_run env s w = (r, w1)" by fastforce
  show ?case
  proof (cases "\<exists>m. r = Inl (Circuit_Open m)")
    case True
    then obtain n c where "check_circuit (sm_check_at env) (pw_circuit w) = (Some n, c)" and w1: "pw_circuit w1 = c"
      using r by (auto simp: submit_score_def refuse_open_def save_submission_def perform_submission_def Let_def
          split: if_splits prod.splits sum.splits option.splits)
    then have "ci_state (pw_circuit w1) = OPEN" by (auto dest: publisher_circuit_open)
    moreover obtain m where "results' = dict_set (batch_key s) (Batch_Error (Circuit_Open m)) results" "w' = w1"
      using True Cons.prems r by (auto simp: item)
    moreover have "fst ` set results' = insert (batch_key s) (fst ` set results)" by (simp add: calculation(2) dict_keys_set_subset)
    ultimately show ?thesis by (intro exI [of _ 1]) (simp add: item)
  next
    case False
    then obtain a where "batch_loop dry_run items (dict_set (batch_key s) a results) w1 = (results', w')"
      using Cons.prems r by (auto simp: item split: sum.splits option.splits publish_error.splits)
    from Cons.IH [OF this] obtain n where "n \<le> length items" "fst ` set results' =
        insert (batch_key s) (fst ` set results) \<union> batch_key ` fst ` set (take n items)" "n < length items \<longrightarrow> ci_state (pw_circuit w') = OPEN"
      unfolding set_map dict_keys_set_subset by blast
    then show ?thesis by (intro exI [of _ "Suc n"]) (simp add: item)
  qed
qed simp

end
