(* ===== verification/Spec2Isabelle.thy ===== *)
theory Spec2Isabelle
  imports Prelude Circuit_Breaker Sharding Path_Cycles Chain_Queue Audit_Log Rate_Limiter Key_Limiter Gateway Dedup Streamer
    Replay_Buffer Governance Disputes Alerts Webhooks Streaming_Features Kafka_Worker Stage_Recovery Publisher
begin

text \<open>
  Verification of Stellar Lense, a detector of wash trading on the Stellar exchange.

  \<^bold>\<open>The program.\<close> Trades and order book events are read from Horizon and other
  chains (\<open>packages/core/ingestion\<close>), paced by a rate limiter, deduplicated, buffered and
  handed on; the detection side (\<open>packages/core/detection\<close>) keeps a graph of the accounts
  that traded with each other and searches it for rings, keeps rolling features of every wallet,
  tests amounts against Benford's law and scores wallets; scores raise alerts that are sent to
  webhook subscribers; a wallet may dispute its score, a committee decides disputes and changes of
  settings, and a decided override is queued for publication on chain. Callers reach the service
  through a gateway with API keys, quotas and rate limits. A second pipeline (\<open>data/pipelines\<close>)
  consumes trades from Kafka, scores them and dispatches alerts, with exactly-once bookkeeping.
  Calls to services go through circuit breakers, and privileged actions leave an audit log. The
  theories follow these parts; each one opens with its own description.

  \<^bold>\<open>Ring search\<close> (\<open>detection/graph_engine.py\<close>, \<open>detection/graph_sharding.py\<close>,
  \<open>detection/path_cycle_detector.py\<close>, \<open>detection/path_payment_engine.py\<close>).
  \<^item> \<open>Tarjan\<close>: \<open>IterativeTarjanSCC.run\<close> as its work stack, one definition per branch of the
    loop; \<open>tarjan_run\<close> ends, raises nothing and returns exactly the strongly connected
    components. Locale \<open>scc_finder\<close> states this contract and its clients' lemmas, and
    is interpreted on \<open>tarjan_run\<close>.
  \<^item> \<open>Bottleneck_Cycle\<close>: the bitmask dynamic program \<open>_max_bottleneck_cycle\<close>, masks as bit
    operations on integers, equal to the maximum over simple cycles.
  \<^item> \<open>Trade_Graph\<close>: \<open>NodeIndex\<close>, \<open>TradeGraph.add_trade\<close>, the adjacency (dictionary or
    sparse), \<open>_cycle_volume\<close> with its threshold search, \<open>find_wash_rings\<close> with its cache.
  \<^item> \<open>Ring_Membership\<close>: \<open>build_ring_membership_index\<close>, \<open>get_ring_members\<close>, the merge of shard
    rings.
  \<^item> \<open>Sharding\<close>: \<open>GraphShardPartitioner\<close> and \<open>ShardedTradeGraph.find_wash_rings\<close>. The networkx
    functions (undirected graph, Louvain communities, modularity) are parameters.
  \<^item> \<open>Path_Cycles\<close>: cycles of path payments, and the choice of one payment per edge with the
    smallest time span, which is shown minimal.

  \<^bold>\<open>Features and scores\<close> (\<open>packages/core/detection\<close>).
  \<^item> \<open>Benford\<close>: leading digits, the statistics of a sample, the incremental counter (equal to
    the batch statistics of its window), the analysis per pair and the adaptive window, whose
    widening loop is a \<open>partial_function\<close> shown to return.
  \<^item> \<open>Streaming_Features\<close>: the rolling windows with running totals; the streamed features refine
    those computed from the list of trades in the window.
  \<^item> \<open>Alerts\<close>: the risk score, suppressions and the alert engine with its hysteresis.

  \<^bold>\<open>Ingestion\<close> (\<open>packages/core/ingestion\<close>).
  \<^item> \<open>Rate_Limiter\<close>: \<open>TokenBucket\<close>, \<open>BackpressureController\<close>, \<open>AdaptiveRateController\<close>.
  \<^item> \<open>Dedup\<close>: idempotency keys, \<open>DedupStore\<close>, \<open>BridgeDedupStore\<close>; the hash is a parameter.
  \<^item> \<open>Streamer\<close>: the cursor checkpoint and the Horizon streamer with its bounded queue; a
    parsed (or unparsable) record is an input.
  \<^item> \<open>Replay_Buffer\<close>: the order book replay buffer, its heap as the sorted list of entries.

  \<^bold>\<open>The Kafka pipeline\<close> (\<open>data/pipelines\<close>).
  \<^item> \<open>Exactly_Once\<close>: the two-phase store of deduplication keys on Redis and on SQL and the trade
    cache on it. Locale \<open>dedup_backend\<close> is the contract of a backend (a committed key stays
    committed until it expires, only a commit commits); locale \<open>redis_server\<close> is what
    Redis documents of \<open>SET\<close> and \<open>GET\<close>. A Redis backend is a \<open>dedup_backend\<close> on every such server
    (a \<open>sublocale\<close>, with a reference server as instance), and so is the SQL backend.
  \<^item> \<open>Feature_Buffer\<close>: the decaying Benford sketch, equal to the exponentially weighted digit
    count, and the buffer of recent trades per wallet, which ignores redelivered trades.
  \<^item> \<open>Alert_Dispatch\<close>: thresholds, cooldowns, channels with retries and dead letters, and the
    ledger on the SQL backend.
  \<^item> \<open>Kafka_Worker\<close>: composes the three: a message is staged, worked on, its key and then its
    offset committed, under failures of every call and restarts at any point.
  \<^item> \<open>Stage_Recovery\<close>: the checkpoints of the batch pipeline; a resumed run skips exactly the stages
    whose last run is done and fresh.

  \<^bold>\<open>Decisions and their publication\<close> (\<open>packages/core/detection\<close>, \<open>packages/core/storage\<close>).
  \<^item> \<open>Chain_Queue\<close>: the durable queue of on-chain submissions; the publisher is a parameter.
  \<^item> \<open>Publisher\<close>: the submission of a score to the chain with lease, circuit breaker, retries, audit row and
    dead letters, and their replay. Locale \<open>lease_server\<close> is what Kubernetes documents of a lease; the breaker
    is a third interpretation of \<open>fast_failing\<close>.
  \<^item> \<open>Disputes\<close>: disputes, votes, overrides and the hand-over to and from the queue, over the
    tables of \<open>Chain_Queue\<close>; the parts of a parsed link are an argument.
  \<^item> \<open>Governance\<close>: proposals, votes, tally, closing, execution, and the rewriting of \<open>.env\<close>.
  \<^item> \<open>Audit_Log\<close>: the HMAC chain, append and verification; the HMAC is a parameter.

  \<^bold>\<open>Service\<close> (\<open>packages/core/api\<close>, \<open>packages/core/detection\<close>).
  \<^item> \<open>Api_Keys\<close>, \<open>Key_Limiter\<close>, \<open>Gateway\<close>: the key store with rotation and quotas, the
    sliding window limiter on Redis with its local fallback, and the middleware that resolves the
    caller, checks scope and quotas and logs the request. Locale \<open>quota_period\<close> is the contract of a
    quota that counts the requests since an instant. \<open>Calendar\<close> has the dates it needs.
  \<^item> \<open>Webhooks\<close>: the registry of subscribers, the delivery queue and its worker.

  \<^bold>\<open>Resilience.\<close> \<open>Circuit_Breaker\<close>: the breakers of \<open>packages/core/utils\<close> and of
  \<open>data/pipelines/utils\<close>; locale \<open>fast_failing\<close> is the contract both satisfy, and the one
  inside \<open>Publisher\<close> when it is used by one thread.

  \<^bold>\<open>Shared material.\<close> \<open>Prelude\<close> holds Python's dictionaries (association lists that keep
  insertion order), SQLite tables (lists of rows, locale \<open>unique_insert\<close> for a unique column
  with \<open>INSERT OR IGNORE\<close>, interpreted by the queue and the key store), histories of operations
  (locales \<open>invariant_run\<close> and \<open>settling_run\<close>), the outcomes of a remote call, rounding and clamping;
  \<open>Data_Models\<close> holds assets and \<open>Py_Text\<close> the text functions of Python the sources use.

  \<^bold>\<open>How the code is modelled.\<close> A class or table row is a record, an enumeration a datatype,
  a method a function from the old state to the new state and the result; an exception is an
  \<open>Inl\<close> value or \<open>None\<close>. Instants are integers counting microseconds, readings of a
  monotonic clock and other floats are reals (rounding of binary floats is not modelled), and
  both are arguments. Methods under one lock, and statements of one transaction, are one step;
  where the code releases the lock between a check and an update, the two are separate steps and
  interleavings of them are considered. A call to a remote service is answered, loses its answer or
  does not arrive, as an argument says. Loops are structural recursion or folds; the work loop
  of Tarjan's algorithm is a \<open>function\<close> whose termination is proved by a measure, and the
  worker and waiting loops recurse over the iterations or readings they are given.

  \<^bold>\<open>What the lemmas show.\<close> For the search: soundness, completeness and order of the reported
  rings, exactness of the small-ring volume and the bound for large rings, soundness of the
  sharded search and where it fails. For the features: equality of the incremental computations
  with their batch definitions. For the stateful components: an invariant over every
  history of operations, the functional behaviour of the main operations, the guarantees
  across components (an approved dispute has its queued obligation, a new streamer resumes
  at the last processed cursor, a committed Kafka offset means that both wallets were handled,
  every submission to the chain ends in an audit row and a hash, a counted failure or a dead letter),
  liveness of the queue worker and of waiting for a token, and the behaviours in which the code
  departs from its documentation.

  \<^bold>\<open>Not modelled.\<close> Model training, inference and batch feature engineering (numerical
  libraries), the HTTP routers and command lines around the modelled operations, the schema and
  queries of \<open>storage.py\<close>, loaders and chain adapters (network input and output), the
  federated learning and zero-knowledge parts, metrics, logging and lineage, and the parts of
  the repository in other languages. Within the modelled files, what is left out is
  named in the opening of each theory.
\<close>

end
